(* ===== verification/Prelude.thy ===== *)
theory Prelude
  imports Main "HOL-Library.Word" "HOL-Library.Char_ord" "HOL-Library.List_Lexorder"
    "HOL-Library.Product_Lexorder" "HOL-Library.Option_ord" "HOL-Library.Sublist"
begin

text \<open>
  Shared vocabulary of the development.

  \<^item> Rust strings are lists of UTF-8 bytes (\<^typ>\<open>string\<close>, one \<^typ>\<open>char\<close> per byte); the
    orders of \<^verbatim>\<open>Char_ord\<close> and \<^verbatim>\<open>List_Lexorder\<close> make the order of \<^typ>\<open>string\<close> the byte-wise
    order of Rust's \<^verbatim>\<open>str\<close>.
  \<^item> \<^verbatim>\<open>BTreeSet\<close> is the strictly increasing list of its elements (\<open>bset\<close>), \<^verbatim>\<open>BTreeMap\<close> the
    association list with strictly increasing keys (\<open>bmap_*\<close>), so that equality of the
    model is the equality the code derives.
  \<^item> The locales \<open>ordered_map\<close> and \<open>flagged_join\<close> are the two interfaces the components share:
    the map operations, and an in-place join that reports whether it changed its target.
\<close>

named_theorems str_simps \<open>unfolding rules of the string operations\<close>
named_theorems bset_simps \<open>rules of ordered sets kept as lists\<close>

section \<open>Machine integers\<close>

type_synonym u8 = "8 word"
type_synonym u32 = "32 word"
type_synonym u64 = "64 word"
type_synonym i64 = "64 word"

definition u32_max :: nat where "u32_max = 4294967295"
definition u64_max :: nat where "u64_max = 18446744073709551615"

text \<open>\<^verbatim>\<open>u64::saturating_add\<close>.\<close>

definition saturating_add :: "u64 \<Rightarrow> u64 \<Rightarrow> u64" where
  "saturating_add a b = (if unat a + unat b \<le> u64_max then a + b else - 1)"

lemma unat_saturating_add: "unat (saturating_add a b) = min (unat a + unat b) u64_max"
proof -
  have "unat (- 1 :: u64) = u64_max" by (simp add: u64_max_def unsigned_minus_1_eq_mask mask_eq_exp_minus_1)
  then show ?thesis by (auto simp: saturating_add_def u64_max_def unat_word_ariths min_def)
qed

lemma unat_u64_le_max [simp]: "unat (x :: u64) \<le> u64_max"
proof -
  have "unat x < 2 ^ LENGTH(64)" by (rule unsigned_less)
  then show ?thesis by (simp add: u64_max_def)
qed

text \<open>\<^verbatim>\<open>u32::try_from(n).unwrap_or(u32::MAX)\<close> on a number.\<close>

definition u32_of_nat :: "nat \<Rightarrow> nat" where "u32_of_nat n = min n u32_max"

lemma u32_of_nat_id [simp]: "n \<le> u32_max \<Longrightarrow> u32_of_nat n = n"
  by (simp add: u32_of_nat_def)

section \<open>Ordered sets as strictly increasing lists\<close>

definition bset :: "'a::linorder list \<Rightarrow> 'a list" where
  "bset xs = sorted_list_of_set (set xs)"

abbreviation canonical :: "'a::linorder list \<Rightarrow> bool" where
  "canonical xs \<equiv> sorted_wrt (<) xs"

lemma set_bset [simp, bset_simps]: "set (bset xs) = set xs"
  by (simp add: bset_def)

lemma canonical_bset [simp, intro, bset_simps]: "canonical (bset xs)"
  by (simp add: bset_def)

lemma canonical_eqI: "canonical xs \<Longrightarrow> canonical ys \<Longrightarrow> set xs = set ys \<Longrightarrow> xs = ys"
  by (metis strict_sorted_equal)

lemma canonical_distinct: "canonical xs \<Longrightarrow> distinct xs"
  by (simp add: strict_sorted_iff)

lemma bset_canonical_id [bset_simps]: "canonical xs \<Longrightarrow> bset xs = xs"
  by (rule canonical_eqI) simp_all

lemma bset_eq_iff: "bset xs = bset ys \<longleftrightarrow> set xs = set ys"
  by (metis set_bset bset_def)

lemma bset_id_iff: "bset xs = xs \<longleftrightarrow> canonical xs"
  using bset_canonical_id canonical_bset by metis

lemma bset_Nil [simp]: "bset [] = []"
  by (simp add: bset_def)

lemma bset_single [simp]: "bset [x] = [x]"
  by (simp add: bset_def)

lemma bset_is_Nil [simp]: "bset xs = [] \<longleftrightarrow> xs = []"
  by (metis set_bset set_empty)

lemma length_bset: "length (bset xs) = card (set xs)"
  by (metis canonical_bset canonical_distinct distinct_card set_bset)

lemma bset_sort [code]: "bset xs = sort (remdups xs)"
  by (simp add: bset_def sorted_list_of_set_sort_remdups)

lemma remdups_adj_canonical: "sorted xs \<Longrightarrow> canonical (remdups_adj xs)"
  by (induction xs rule: remdups_adj.induct) (auto simp: order_less_le)

lemma length_remdups_adj_sort: "length (remdups_adj (sort xs)) = length xs \<longleftrightarrow> distinct (xs :: 'a::linorder list)"
proof
  assume len: "length (remdups_adj (sort xs)) = length xs"
  have "distinct (remdups_adj (sort xs))" by (intro canonical_distinct remdups_adj_canonical) simp
  then have "length (remdups_adj (sort xs)) = card (set xs)" by (metis distinct_card remdups_adj_set set_sort)
  with len show "distinct xs" by (metis card_distinct)
qed (simp add: remdups_adj_distinct)

section \<open>Ordered maps as association lists with increasing keys\<close>

type_synonym ('k, 'v) bmap = "('k \<times> 'v) list"

definition bmap_ok :: "('k::linorder, 'v) bmap \<Rightarrow> bool" where
  "bmap_ok m \<longleftrightarrow> sorted_wrt (<) (map fst m)"

abbreviation bmap_get :: "('k, 'v) bmap \<Rightarrow> 'k \<Rightarrow> 'v option" where
  "bmap_get \<equiv> map_of"

fun bmap_insert :: "'k::linorder \<Rightarrow> 'v \<Rightarrow> ('k, 'v) bmap \<Rightarrow> ('k, 'v) bmap" where
  "bmap_insert k v [] = [(k, v)]"
| "bmap_insert k v ((k', v') # m) =
     (if k < k' then (k, v) # (k', v') # m
      else if k = k' then (k, v) # m
      else (k', v') # bmap_insert k v m)"

definition bmap_keys :: "('k, 'v) bmap \<Rightarrow> 'k list" where
  "bmap_keys m = map fst m"

text \<open>\<^verbatim>\<open>BTreeMap::from\<close> and \<^verbatim>\<open>collect\<close>: later entries replace earlier ones.\<close>

definition bmap_from :: "('k::linorder \<times> 'v) list \<Rightarrow> ('k, 'v) bmap" where
  "bmap_from xs = fold (\<lambda>(k, v). bmap_insert k v) xs []"

lemma bmap_ok_Nil [simp]: "bmap_ok []"
  by (simp add: bmap_ok_def)

lemma keys_bmap_insert [simp]: "fst ` set (bmap_insert k v m) = insert k (fst ` set m)"
  by (induction k v m rule: bmap_insert.induct) auto

lemma bmap_ok_insert: "bmap_ok m \<Longrightarrow> bmap_ok (bmap_insert k v m)"
proof (induction k v m rule: bmap_insert.induct)
  case (2 k v k' v' m)
  show ?case
  proof (cases "k < k' \<or> k = k'")
    case True
    with "2.prems" show ?thesis by (auto simp: bmap_ok_def)
  next
    case False
    with 2 have "bmap_ok (bmap_insert k v m)" and "k' < k" by (auto simp: bmap_ok_def)
    with False "2.prems" show ?thesis
      using keys_bmap_insert [of k v m] by (auto simp: bmap_ok_def simp flip: set_map)
  qed
qed (simp add: bmap_ok_def)

lemma bmap_get_insert:
  "bmap_ok m \<Longrightarrow> bmap_get (bmap_insert k v m) k' = (if k' = k then Some v else bmap_get m k')"
  by (induction k v m rule: bmap_insert.induct) (auto simp: bmap_ok_def)

lemma bmap_keys_set [simp]: "set (bmap_keys m) = fst ` set m"
  by (simp add: bmap_keys_def)

lemma bmap_ok_distinct: "bmap_ok m \<Longrightarrow> distinct (map fst m)"
  by (simp add: bmap_ok_def strict_sorted_iff)

lemma bmap_ext:
  assumes "bmap_ok m" "bmap_ok m'" "bmap_get m = bmap_get m'"
  shows "m = m'"
proof -
  have keys: "map fst m = map fst m'"
    using assms by (intro canonical_eqI) (auto simp: bmap_ok_def dom_map_of_conv_image_fst [symmetric])
  have "n = map (\<lambda>k. (k, the (bmap_get n k))) (map fst n)" if "bmap_ok n" for n :: "('a, 'b) bmap"
    using bmap_ok_distinct [OF that]
    unfolding map_map by (subst map_idI) (auto simp: comp_def map_of_is_SomeI)
  from this [OF assms(1)] this [OF assms(2)] show ?thesis using keys assms(3) by metis
qed

lemma filter_key_ext:
  assumes "bmap_ok ms" "bmap_ok ns" "filter (\<lambda>f. fst f \<noteq> k) ms = filter (\<lambda>f. fst f \<noteq> k) ns" "bmap_get ms k = bmap_get ns k"
  shows "ms = ns"
proof (rule bmap_ext [OF assms(1,2)], rule ext)
  fix j
  have "bmap_get (filter (\<lambda>f. fst f \<noteq> k) xs) j = bmap_get xs j" if "j \<noteq> k" for xs :: "('a \<times> 'b) list"
    using that by (induction xs) auto
  then show "bmap_get ms j = bmap_get ns j" using assms(3,4) by (cases "j = k") (simp, metis)
qed

text \<open>
  The interface of an ordered map: what the clients of \<^verbatim>\<open>BTreeMap\<close> rely on. The derived facts
  are about a map built by successive insertions.
\<close>

locale ordered_map =
  fixes empty :: "'m" and get :: "'m \<Rightarrow> 'k \<Rightarrow> 'v option"
    and insert_op :: "'k \<Rightarrow> 'v \<Rightarrow> 'm \<Rightarrow> 'm" and inv :: "'m \<Rightarrow> bool"
  assumes get_empty: "get empty k = None"
    and get_insert: "inv m \<Longrightarrow> get (insert_op k v m) k' = (if k' = k then Some v else get m k')"
    and inv_empty: "inv empty"
    and inv_insert: "inv m \<Longrightarrow> inv (insert_op k v m)"
begin

lemma inv_fold: "inv m \<Longrightarrow> inv (fold (\<lambda>(k, v). insert_op k v) xs m)"
  by (induction xs arbitrary: m) (auto simp: inv_insert)

lemma get_fold:
  "inv m \<Longrightarrow> get (fold (\<lambda>(k, v). insert_op k v) xs m) k =
     (case map_of (rev xs) k of Some v \<Rightarrow> Some v | None \<Rightarrow> get m k)"
  by (induction xs arbitrary: m)
    (auto simp: inv_insert get_insert map_add_def split: option.splits)

lemma get_from: "get (fold (\<lambda>(k, v). insert_op k v) xs empty) k = map_of (rev xs) k"
  by (simp add: get_fold inv_empty get_empty split: option.splits)

end

interpretation bm: ordered_map "[]" bmap_get bmap_insert bmap_ok
  by unfold_locales (auto simp: bmap_get_insert bmap_ok_insert)

lemma bmap_ok_from [simp, intro]: "bmap_ok (bmap_from xs)"
  unfolding bmap_from_def by (rule bm.inv_fold) simp

lemma bmap_get_from: "bmap_get (bmap_from xs) = map_of (rev xs)"
  unfolding bmap_from_def by (rule ext) (rule bm.get_from)

lemma bmap_from_ok: "bmap_ok m \<Longrightarrow> bmap_from m = m"
proof -
  assume ok: "bmap_ok m"
  have "map_of (rev m) = map_of m"
    using bmap_ok_distinct [OF ok] by (intro map_of_inject_set [THEN iffD2]) (simp_all add: rev_map [symmetric])
  then show ?thesis using ok by (intro bmap_ext) (simp_all add: bmap_get_from)
qed

section \<open>A join that updates its target and reports the change\<close>

text \<open>
  \<^verbatim>\<open>x.join_assign(y) -> bool\<close> as a function from both arguments to the new target and the flag.
  \<open>ok\<close> is the part of the type on which the contract holds; \<open>rank\<close> bounds how often a target
  can still change.
\<close>

locale flagged_join =
  fixes join :: "'v \<Rightarrow> 'v \<Rightarrow> 'v \<times> bool" and ok :: "'v \<Rightarrow> bool" and rank :: "'v \<Rightarrow> nat"
  assumes join_ok: "ok x \<Longrightarrow> ok y \<Longrightarrow> ok (fst (join x y))"
    and flag_exact: "ok x \<Longrightarrow> ok y \<Longrightarrow> snd (join x y) \<longleftrightarrow> fst (join x y) \<noteq> x"
    and rank_less: "ok x \<Longrightarrow> ok y \<Longrightarrow> snd (join x y) \<Longrightarrow> rank (fst (join x y)) < rank x"
begin

lemma unchanged: "ok x \<Longrightarrow> ok y \<Longrightarrow> \<not> snd (join x y) \<Longrightarrow> join x y = (x, False)"
  using flag_exact by (metis prod.collapse)

lemma rank_le: "ok x \<Longrightarrow> ok y \<Longrightarrow> rank (fst (join x y)) \<le> rank x"
  using rank_less flag_exact by (cases "snd (join x y)") (auto intro: less_imp_le)

end

lemma map_of_value: "map_of m k = Some v \<Longrightarrow> v \<in> snd ` set m"
  by (drule map_of_SomeD) force

lemma option_eqI: "(\<And>x. a = Some x \<longleftrightarrow> b = Some x) \<Longrightarrow> a = b"
  by (cases a; cases b) auto

lemma find_member: "find P xs = Some k \<Longrightarrow> k \<in> set xs \<and> P k"
  by (induction xs) (auto split: if_splits)

text \<open>\<^verbatim>\<open>Iterator::find_map\<close>.\<close>

fun find_map :: "('a \<Rightarrow> 'b option) \<Rightarrow> 'a list \<Rightarrow> 'b option" where
  "find_map f [] = None"
| "find_map f (x # xs) = (case f x of None \<Rightarrow> find_map f xs | Some y \<Rightarrow> Some y)"

section \<open>Strings\<close>

definition str_starts_with :: "string \<Rightarrow> string \<Rightarrow> bool" where
  "str_starts_with s p = prefix p s"

definition str_contains :: "string \<Rightarrow> string \<Rightarrow> bool" where
  "str_contains s p = sublist p s"

fun strip_prefix :: "string \<Rightarrow> string \<Rightarrow> string option" where
  "strip_prefix [] s = Some s"
| "strip_prefix (p # ps) [] = None"
| "strip_prefix (p # ps) (c # s) = (if p = c then strip_prefix ps s else None)"

lemma strip_prefix_Some: "strip_prefix p s = Some r \<longleftrightarrow> s = p @ r"
  by (induction p s rule: strip_prefix.induct) auto

definition in_range :: "char \<Rightarrow> char \<Rightarrow> char \<Rightarrow> bool" where
  "in_range lo hi c \<longleftrightarrow> (of_char lo :: nat) \<le> of_char c \<and> (of_char c :: nat) \<le> of_char hi"

definition is_ascii_digit :: "char \<Rightarrow> bool" where
  "is_ascii_digit = in_range (CHR ''0'') (CHR ''9'')"
definition is_ascii_lower :: "char \<Rightarrow> bool" where
  "is_ascii_lower = in_range (CHR ''a'') (CHR ''z'')"
definition is_ascii_upper :: "char \<Rightarrow> bool" where
  "is_ascii_upper = in_range (CHR ''A'') (CHR ''Z'')"
definition is_ascii_alphabetic :: "char \<Rightarrow> bool" where
  "is_ascii_alphabetic c \<longleftrightarrow> is_ascii_lower c \<or> is_ascii_upper c"
definition is_ascii_hexdigit :: "char \<Rightarrow> bool" where
  "is_ascii_hexdigit c \<longleftrightarrow> is_ascii_digit c \<or> in_range (CHR ''a'') (CHR ''f'') c
     \<or> in_range (CHR ''A'') (CHR ''F'') c"

definition ascii_lowercase :: "string \<Rightarrow> string" where
  "ascii_lowercase = map (\<lambda>c. if is_ascii_upper c then char_of ((of_char c :: nat) + 32) else c)"

lemma length_ascii_lowercase [simp]: "length (ascii_lowercase s) = length s"
  by (simp add: ascii_lowercase_def)

text \<open>\<^verbatim>\<open>str::split\<close> on one ASCII character; the empty string has one (empty) piece.\<close>

fun split_on :: "char \<Rightarrow> string \<Rightarrow> string list" where
  "split_on d [] = [[]]"
| "split_on d (c # s) =
     (if c = d then [] # split_on d s
      else (case split_on d s of [] \<Rightarrow> [[c]] | x # xs \<Rightarrow> (c # x) # xs))"

fun join_with :: "string \<Rightarrow> string list \<Rightarrow> string" where
  "join_with sep [] = []"
| "join_with sep [x] = x"
| "join_with sep (x # y # xs) = x @ sep @ join_with sep (y # xs)"

lemma split_on_not_Nil [simp]: "split_on d s \<noteq> []"
  by (induction s) (auto split: list.splits)

lemma join_split [simp]: "join_with [d] (split_on d s) = s"
proof (induction s)
  case (Cons c s)
  obtain x xs where sp: "split_on d s = x # xs"
    using split_on_not_Nil by (metis list.exhaust)
  with Cons show ?case by (cases xs) auto
qed simp

lemma split_on_no_sep: "x \<in> set (split_on d s) \<Longrightarrow> d \<notin> set x"
  by (induction s arbitrary: x) (auto split: list.splits if_splits)

end
