(* ===== verification/Budget.thy ===== *)
theory Budget
  imports Prelude
begin

text \<open>
  The resource envelope of \<^verbatim>\<open>src/foundation/budget.rs\<close>: the limits (\<open>budget\<close>), the tracker that
  accounts for files, entries, nodes and edges, and the typed error. Every operation returns the
  new tracker and the error, if any; counters are 64-bit words with the code's saturating
  addition. The locale \<open>counter_op\<close> states what each accounting operation promises.
\<close>

record budget =
  max_input_bytes :: u64
  max_file_bytes :: u64
  max_snapshot_bytes :: u64
  max_entries :: u64
  max_nodes :: u64
  max_edges :: u64
  max_nesting :: u32

definition default_budget :: budget where
  "default_budget = \<lparr>
     max_input_bytes = 16 * 1048576,
     max_file_bytes = 16 * 1048576,
     max_snapshot_bytes = 4096 * 1048576,
     max_entries = 1000000,
     max_nodes = 1000000,
     max_edges = 1000000 * 4,
     max_nesting = 128\<rparr>"

datatype budget_kind =
  InputBytes | FileBytes | SnapshotBytes | Entries | Nodes | Edges | Nesting

record budget_error =
  be_kind :: budget_kind
  be_limit :: u64
  be_attempted :: u64

record tracker =
  tr_budget :: budget
  tr_snapshot_bytes :: u64
  tr_entries :: u64
  tr_nodes :: u64
  tr_edges :: u64

definition tracker_new :: "budget \<Rightarrow> tracker" where
  "tracker_new b = \<lparr>tr_budget = b, tr_snapshot_bytes = 0, tr_entries = 0, tr_nodes = 0, tr_edges = 0\<rparr>"

text \<open>\<^verbatim>\<open>add\<close>: the new value of the counter and the error.\<close>

definition budget_add :: "u64 \<Rightarrow> u64 \<Rightarrow> u64 \<Rightarrow> budget_kind \<Rightarrow> u64 \<times> budget_error option" where
  "budget_add current amount limit kind =
     (let attempted = saturating_add current amount
      in if attempted > limit
         then (current, Some \<lparr>be_kind = kind, be_limit = limit, be_attempted = attempted\<rparr>)
         else (attempted, None))"

definition tracker_input :: "tracker \<Rightarrow> nat \<Rightarrow> budget_error option" where
  "tracker_input t bytes =
     (let attempted = (if bytes \<le> u64_max then of_nat bytes else - 1 :: u64)
      in if attempted > max_input_bytes (tr_budget t)
         then Some \<lparr>be_kind = InputBytes, be_limit = max_input_bytes (tr_budget t), be_attempted = attempted\<rparr>
         else None)"

definition tracker_file :: "u64 \<Rightarrow> tracker \<Rightarrow> tracker \<times> budget_error option" where
  "tracker_file bytes t =
     (if bytes > max_file_bytes (tr_budget t)
      then (t, Some \<lparr>be_kind = FileBytes, be_limit = max_file_bytes (tr_budget t), be_attempted = bytes\<rparr>)
      else (case budget_add (tr_snapshot_bytes t) bytes (max_snapshot_bytes (tr_budget t)) SnapshotBytes of
              (c, e) \<Rightarrow> (t\<lparr>tr_snapshot_bytes := c\<rparr>, e)))"

definition tracker_entry :: "tracker \<Rightarrow> tracker \<times> budget_error option" where
  "tracker_entry t =
     (case budget_add (tr_entries t) 1 (max_entries (tr_budget t)) Entries of
        (c, e) \<Rightarrow> (t\<lparr>tr_entries := c\<rparr>, e))"

definition tracker_node :: "tracker \<Rightarrow> tracker \<times> budget_error option" where
  "tracker_node t =
     (case budget_add (tr_nodes t) 1 (max_nodes (tr_budget t)) Nodes of
        (c, e) \<Rightarrow> (t\<lparr>tr_nodes := c\<rparr>, e))"

definition tracker_edge :: "tracker \<Rightarrow> tracker \<times> budget_error option" where
  "tracker_edge t =
     (case budget_add (tr_edges t) 1 (max_edges (tr_budget t)) Edges of
        (c, e) \<Rightarrow> (t\<lparr>tr_edges := c\<rparr>, e))"

section \<open>The accounting contract\<close>

lemma budget_add_None:
  "budget_add c a l k = (c', None) \<Longrightarrow> unat c' = min (unat c + unat a) u64_max \<and> c' \<le> l"
  by (auto simp: budget_add_def Let_def unat_saturating_add split: if_splits)

lemma budget_add_Some:
  "budget_add c a l k = (c', Some e) \<Longrightarrow>
     c' = c \<and> be_kind e = k \<and> be_limit e = l \<and> unat l < unat c + unat a"
  by (auto simp: budget_add_def Let_def unat_saturating_add word_less_nat_alt split: if_splits)

text \<open>
  One accounting operation: the counter it moves, by how much, and the limit. A refused
  operation leaves the tracker as it was; an accepted one moves the counter exactly, unless the
  sum leaves 64 bits, which needs the limit \<^verbatim>\<open>u64::MAX\<close>.
\<close>

locale counter_op =
  fixes op :: "tracker \<Rightarrow> tracker \<times> budget_error option"
    and used :: "tracker \<Rightarrow> u64" and limit :: "budget \<Rightarrow> u64" and cost :: nat
  assumes refused: "snd (op t) = Some e \<Longrightarrow> fst (op t) = t"
    and accepted: "snd (op t) = None \<Longrightarrow>
      unat (used (fst (op t))) = min (unat (used t) + cost) u64_max
      \<and> used (fst (op t)) \<le> limit (tr_budget t)"
    and same_budget: "tr_budget (fst (op t)) = tr_budget t"
begin

lemma used_within:
  "used t \<le> limit (tr_budget t) \<Longrightarrow> used (fst (op t)) \<le> limit (tr_budget (fst (op t)))"
  using refused accepted same_budget by (cases "snd (op t)") auto

lemma used_exact:
  assumes "unat (limit (tr_budget t)) < u64_max" "snd (op t) = None"
  shows "unat (used (fst (op t))) = unat (used t) + cost"
  using accepted [OF assms(2)] assms(1) by (auto simp: word_le_nat_alt min_def split: if_splits)

end

lemmas tracker_defs = tracker_file_def tracker_entry_def tracker_node_def tracker_edge_def

interpretation file_op: counter_op "tracker_file b" tr_snapshot_bytes max_snapshot_bytes "unat b" for b
  by unfold_locales
    (auto simp: tracker_defs split: if_splits prod.splits dest!: budget_add_None budget_add_Some)

interpretation entry_op: counter_op tracker_entry tr_entries max_entries 1
  by unfold_locales
    (auto simp: tracker_defs split: if_splits prod.splits dest!: budget_add_None budget_add_Some)

interpretation node_op: counter_op tracker_node tr_nodes max_nodes 1
  by unfold_locales
    (auto simp: tracker_defs split: if_splits prod.splits dest!: budget_add_None budget_add_Some)

interpretation edge_op: counter_op tracker_edge tr_edges max_edges 1
  by unfold_locales
    (auto simp: tracker_defs split: if_splits prod.splits dest!: budget_add_None budget_add_Some)

section \<open>Any sequence of operations\<close>

datatype tracker_op = OpFile u64 | OpEntry | OpNode | OpEdge

fun tracker_step :: "tracker_op \<Rightarrow> tracker \<Rightarrow> tracker \<times> budget_error option" where
  "tracker_step (OpFile b) t = tracker_file b t"
| "tracker_step OpEntry t = tracker_entry t"
| "tracker_step OpNode t = tracker_node t"
| "tracker_step OpEdge t = tracker_edge t"

text \<open>The callers' loop: every operation in turn, with the operations that were accepted.\<close>

fun tracker_run :: "tracker_op list \<Rightarrow> tracker \<Rightarrow> tracker \<times> tracker_op list" where
  "tracker_run [] t = (t, [])"
| "tracker_run (x # xs) t =
     (case tracker_step x t of
        (t', None) \<Rightarrow> (case tracker_run xs t' of (u, acc) \<Rightarrow> (u, x # acc))
      | (t', Some e) \<Rightarrow> tracker_run xs t')"

definition tracker_ok :: "tracker \<Rightarrow> bool" where
  "tracker_ok t \<longleftrightarrow>
     tr_snapshot_bytes t \<le> max_snapshot_bytes (tr_budget t) \<and> tr_entries t \<le> max_entries (tr_budget t)
     \<and> tr_nodes t \<le> max_nodes (tr_budget t) \<and> tr_edges t \<le> max_edges (tr_budget t)"

text \<open>No limit is \<^verbatim>\<open>u64::MAX\<close>, as in the default envelope: then no accepted sum saturates.\<close>

definition budget_finite :: "budget \<Rightarrow> bool" where
  "budget_finite b \<longleftrightarrow> unat (max_snapshot_bytes b) < u64_max \<and> unat (max_entries b) < u64_max
     \<and> unat (max_nodes b) < u64_max \<and> unat (max_edges b) < u64_max"

fun op_bytes :: "tracker_op \<Rightarrow> nat" where
  "op_bytes (OpFile b) = unat b"
| "op_bytes _ = 0"

lemma frame_simps [simp]:
  "tr_entries (fst (tracker_file b t)) = tr_entries t" "tr_nodes (fst (tracker_file b t)) = tr_nodes t"
  "tr_edges (fst (tracker_file b t)) = tr_edges t"
  "tr_snapshot_bytes (fst (tracker_entry t)) = tr_snapshot_bytes t"
  "tr_nodes (fst (tracker_entry t)) = tr_nodes t" "tr_edges (fst (tracker_entry t)) = tr_edges t"
  "tr_snapshot_bytes (fst (tracker_node t)) = tr_snapshot_bytes t"
  "tr_entries (fst (tracker_node t)) = tr_entries t" "tr_edges (fst (tracker_node t)) = tr_edges t"
  "tr_snapshot_bytes (fst (tracker_edge t)) = tr_snapshot_bytes t"
  "tr_entries (fst (tracker_edge t)) = tr_entries t" "tr_nodes (fst (tracker_edge t)) = tr_nodes t"
  by (auto simp: tracker_defs split: prod.splits)

lemma step_budget [simp]: "tr_budget (fst (tracker_step x t)) = tr_budget t"
  by (cases x)
    (simp_all add: file_op.same_budget entry_op.same_budget node_op.same_budget edge_op.same_budget)

lemma step_refused: "snd (tracker_step x t) = Some e \<Longrightarrow> fst (tracker_step x t) = t"
  by (cases x) (auto dest: file_op.refused entry_op.refused node_op.refused edge_op.refused)

lemma step_ok: "tracker_ok t \<Longrightarrow> tracker_ok (fst (tracker_step x t))"
  using file_op.used_within [of t] entry_op.used_within [of t] node_op.used_within [of t]
    edge_op.used_within [of t]
  by (cases x) (auto simp: tracker_ok_def file_op.same_budget entry_op.same_budget
    node_op.same_budget edge_op.same_budget)

lemma step_exact:
  assumes "budget_finite (tr_budget t)" "snd (tracker_step x t) = None"
  shows "unat (tr_snapshot_bytes (fst (tracker_step x t))) = unat (tr_snapshot_bytes t) + op_bytes x
    \<and> unat (tr_entries (fst (tracker_step x t))) = unat (tr_entries t) + (if x = OpEntry then 1 else 0)
    \<and> unat (tr_nodes (fst (tracker_step x t))) = unat (tr_nodes t) + (if x = OpNode then 1 else 0)
    \<and> unat (tr_edges (fst (tracker_step x t))) = unat (tr_edges t) + (if x = OpEdge then 1 else 0)"
  using assms file_op.used_exact [of t] entry_op.used_exact [of t] node_op.used_exact [of t]
    edge_op.used_exact [of t]
  by (cases x) (auto simp: budget_finite_def)

lemma run_ok: "tracker_ok t \<Longrightarrow> tracker_ok (fst (tracker_run xs t))"
proof (induction xs arbitrary: t)
  case (Cons x xs)
  from step_ok [OF Cons.prems, of x] show ?case
    by (auto split: prod.splits option.splits dest: Cons.IH)
qed simp

text \<open>
  C40. Accounting is safe and exact: after any sequence of operations on a fresh tracker no counter
  is above its limit, and with limits below \<^verbatim>\<open>u64::MAX\<close> every counter is exactly the sum of what
  the accepted operations charged (refused operations charged nothing).
\<close>

theorem tracker_run_accounts:
  assumes "budget_finite b" and "tracker_run xs (tracker_new b) = (t, acc)"
  shows "tracker_ok t
    \<and> unat (tr_snapshot_bytes t) = sum_list (map op_bytes acc)
    \<and> unat (tr_entries t) = count_list acc OpEntry
    \<and> unat (tr_nodes t) = count_list acc OpNode
    \<and> unat (tr_edges t) = count_list acc OpEdge"
proof -
  have gen: "tr_budget u = tr_budget s
      \<and> unat (tr_snapshot_bytes u) = unat (tr_snapshot_bytes s) + sum_list (map op_bytes ys)
      \<and> unat (tr_entries u) = unat (tr_entries s) + count_list ys OpEntry
      \<and> unat (tr_nodes u) = unat (tr_nodes s) + count_list ys OpNode
      \<and> unat (tr_edges u) = unat (tr_edges s) + count_list ys OpEdge"
    if "tracker_run xs s = (u, ys)" "budget_finite (tr_budget s)" for s u ys
    using that
  proof (induction xs arbitrary: s u ys)
    case (Cons x xs)
    obtain s' e where st: "tracker_step x s = (s', e)" by fastforce
    then have b: "tr_budget s' = tr_budget s" using step_budget [of x s] by simp
    show ?case
    proof (cases e)
      case None
      with Cons.prems st obtain zs where z: "tracker_run xs s' = (u, zs)" "ys = x # zs"
        by (auto split: prod.splits)
      from Cons.IH [OF z(1)] Cons.prems(2) b step_exact [of s x] st None z(2)
      show ?thesis by (auto split: if_splits)
    next
      case (Some e')
      with st step_refused [of x s e'] have "s' = s" by simp
      with Cons st Some show ?thesis by auto
    qed
  qed simp
  have "tracker_ok (tracker_new b)" by (simp add: tracker_ok_def tracker_new_def)
  from run_ok [OF this, of xs] assms(2) have "tracker_ok t" by simp
  with gen [OF assms(2)] assms(1) show ?thesis by (simp add: tracker_new_def)
qed

theorem tracker_run_accounts_witness:
  "tracker_run [OpFile 5, OpFile 99999999, OpNode] (tracker_new default_budget) =
     (\<lparr>tr_budget = default_budget, tr_snapshot_bytes = 5, tr_entries = 0, tr_nodes = 1, tr_edges = 0\<rparr>,
      [OpFile 5, OpNode])
   \<and> tracker_ok (fst (tracker_run [OpFile 5, OpFile 99999999, OpNode] (tracker_new default_budget)))"
proof -
  have fin: "budget_finite default_budget"
    by (simp add: budget_finite_def default_budget_def u64_max_def)
  have run: "tracker_run [OpFile 5, OpFile 99999999, OpNode] (tracker_new default_budget) =
     (\<lparr>tr_budget = default_budget, tr_snapshot_bytes = 5, tr_entries = 0, tr_nodes = 1, tr_edges = 0\<rparr>,
      [OpFile 5, OpNode])"
    by (simp add: tracker_new_def tracker_file_def tracker_node_def budget_add_def Let_def
      default_budget_def saturating_add_def u64_max_def)
  from tracker_run_accounts [OF fin run] run show ?thesis by simp
qed

end
