(* ===== verification/Paths.thy ===== *)
theory Paths
  imports Prelude
begin

text \<open>
  Portable paths (\<^verbatim>\<open>src/foundation/path.rs\<close>), the mutability classes of dependency references
  (\<^verbatim>\<open>src/foundation/dependency_identity.rs\<close>) and the relative-path normaliser of the program
  composer (\<^verbatim>\<open>normalize_relative\<close> in \<^verbatim>\<open>src/verifier/mod.rs\<close>). All separators are ASCII, so
  working on UTF-8 bytes is working on characters.
\<close>

section \<open>Splitting once\<close>

definition split_once :: "char \<Rightarrow> string \<Rightarrow> (string \<times> string) option" where
  "split_once d s =
     (if d \<in> set s then Some (takeWhile (\<lambda>c. c \<noteq> d) s, tl (dropWhile (\<lambda>c. c \<noteq> d) s)) else None)"

definition rsplit_once :: "char \<Rightarrow> string \<Rightarrow> (string \<times> string) option" where
  "rsplit_once d s = map_option (\<lambda>(r, l). (rev l, rev r)) (split_once d (rev s))"

lemma split_once_Some: "split_once d s = Some (l, r) \<longleftrightarrow> s = l @ d # r \<and> d \<notin> set l"
proof
  assume "split_once d s = Some (l, r)"
  then have d: "d \<in> set s" "l = takeWhile (\<lambda>c. c \<noteq> d) s" "r = tl (dropWhile (\<lambda>c. c \<noteq> d) s)"
    by (auto simp: split_once_def split: if_splits)
  then have ne: "dropWhile (\<lambda>c. c \<noteq> d) s \<noteq> []" by (auto simp: dropWhile_eq_Nil_conv)
  then have "hd (dropWhile (\<lambda>c. c \<noteq> d) s) = d" using hd_dropWhile [OF ne] by simp
  with ne have "dropWhile (\<lambda>c. c \<noteq> d) s = d # r" unfolding d(3) by (metis list.collapse)
  then show "s = l @ d # r \<and> d \<notin> set l"
    unfolding d(2) by (metis takeWhile_dropWhile_id set_takeWhileD)
next
  assume "s = l @ d # r \<and> d \<notin> set l"
  then show "split_once d s = Some (l, r)"
    by (auto simp: split_once_def takeWhile_append dropWhile_append)
qed

lemma split_once_None: "split_once d s = None \<longleftrightarrow> d \<notin> set s"
  by (auto simp: split_once_def)

lemma rsplit_once_Some: "rsplit_once d s = Some (l, r) \<longleftrightarrow> s = l @ d # r \<and> d \<notin> set r"
proof -
  have "rsplit_once d s = Some (l, r) \<longleftrightarrow> split_once d (rev s) = Some (rev r, rev l)"
    by (auto simp: rsplit_once_def)
  also have "\<dots> \<longleftrightarrow> rev s = rev (l @ d # r) \<and> d \<notin> set r"
    by (simp add: split_once_Some)
  finally show ?thesis by (simp only: rev_is_rev_conv)
qed

lemma rsplit_once_None: "rsplit_once d s = None \<longleftrightarrow> d \<notin> set s"
  by (simp add: rsplit_once_def split_once_None)

section \<open>Public paths\<close>

datatype path_error =
  PathEmpty | PathAbsolute | PathDrivePrefix | PathBackslash | PathEmptySegment
| PathDotSegment | PathParentSegment | PathNul

fun check_segments :: "string list \<Rightarrow> path_error option" where
  "check_segments [] = None"
| "check_segments (s # ss) =
     (if s = [] then Some PathEmptySegment
      else if s = ''.'' then Some PathDotSegment
      else if s = ''..'' then Some PathParentSegment
      else check_segments ss)"

definition drive_prefixed :: "string \<Rightarrow> bool" where
  "drive_prefixed s = (case s of a # b # _ \<Rightarrow> is_ascii_alphabetic a \<and> b = CHR '':'' | _ \<Rightarrow> False)"

definition public_path_new :: "string \<Rightarrow> path_error + string" where
  "public_path_new value =
     (if value = [] then Inl PathEmpty
      else if CHR 0x00 \<in> set value then Inl PathNul
      else if str_starts_with value ''/'' then Inl PathAbsolute
      else if CHR 0x5C \<in> set value then Inl PathBackslash
      else if drive_prefixed value then Inl PathDrivePrefix
      else (case check_segments (split_on CHR ''/'' value) of
              Some e \<Rightarrow> Inl e | None \<Rightarrow> Inr value))"

definition normalize_slashes :: "string \<Rightarrow> string" where
  "normalize_slashes = map (\<lambda>c. if c = CHR 0x5C then CHR ''/'' else c)"

section \<open>Relative normalisation\<close>

text \<open>The stack of components; popping an empty stack is the early return \<^verbatim>\<open>None\<close>.\<close>

fun fold_components :: "string list \<Rightarrow> string list \<Rightarrow> string list option" where
  "fold_components [] stack = Some (rev stack)"
| "fold_components (c # cs) stack =
     (if c = [] \<or> c = ''.'' then fold_components cs stack
      else if c = ''..'' then (case stack of [] \<Rightarrow> None | _ # st \<Rightarrow> fold_components cs st)
      else fold_components cs (c # stack))"

definition normalize_relative :: "string \<Rightarrow> string option" where
  "normalize_relative value =
     map_option (join_with ''/'')
       (fold_components (split_on CHR ''/'' (normalize_slashes value)) [])"

definition plain_segment :: "string \<Rightarrow> bool" where
  "plain_segment s \<longleftrightarrow> s \<noteq> [] \<and> s \<noteq> ''.'' \<and> s \<noteq> ''..'' \<and> CHR ''/'' \<notin> set s \<and> CHR 0x5C \<notin> set s"

lemma check_segments_None:
  "check_segments ss = None \<longleftrightarrow> (\<forall>s \<in> set ss. s \<noteq> [] \<and> s \<noteq> ''.'' \<and> s \<noteq> ''..'')"
  by (induction ss) auto

lemma fold_components_plain:
  "\<forall>s \<in> set cs. plain_segment s \<Longrightarrow> fold_components cs st = Some (rev st @ cs)"
  by (induction cs arbitrary: st) (auto simp: plain_segment_def)

lemma fold_components_Some_plain:
  "fold_components cs st = Some out \<Longrightarrow> \<forall>s \<in> set cs. CHR ''/'' \<notin> set s \<and> CHR 0x5C \<notin> set s
     \<Longrightarrow> \<forall>s \<in> set st. plain_segment s \<Longrightarrow> \<forall>s \<in> set out. plain_segment s"
proof (induction cs arbitrary: st)
  case (Cons c cs)
  consider "c = [] \<or> c = ''.''" | "c = ''..''" | "plain_segment c"
    using Cons.prems(2) by (auto simp: plain_segment_def)
  then show ?case
  proof cases
    case 1
    with Cons show ?thesis by auto
  next
    case 2
    with Cons.prems(1) obtain x st' where "st = x # st'" "fold_components cs st' = Some out"
      by (cases st) auto
    with Cons show ?thesis by simp
  next
    case 3
    then have "fold_components (c # cs) st = fold_components cs (c # st)"
      by (simp add: plain_segment_def)
    with 3 Cons.prems show ?thesis by (intro Cons.IH [of "c # st"]) auto
  qed
qed auto

lemma normalize_slashes_id: "CHR 0x5C \<notin> set s \<Longrightarrow> normalize_slashes s = s"
  by (induction s) (auto simp: normalize_slashes_def)

lemma normalize_slashes_no_backslash [simp]: "CHR 0x5C \<notin> set (normalize_slashes s)"
  by (auto simp: normalize_slashes_def)

lemma set_split_on: "x \<in> set (split_on d s) \<Longrightarrow> set x \<subseteq> set s"
proof (induction s arbitrary: x)
  case (Cons c s)
  obtain y ys where "split_on d s = y # ys" using split_on_not_Nil by (metis list.exhaust)
  with Cons.prems Cons.IH [of y] Cons.IH [of x] show ?case by (auto split: if_splits)
qed simp

lemma split_on_append:
  "d \<notin> set x \<Longrightarrow> split_on d (x @ d # r) = x # split_on d r"
  by (induction x) auto

lemma split_on_none: "d \<notin> set x \<Longrightarrow> split_on d x = [x]"
  by (induction x) auto

lemma split_join: "xs \<noteq> [] \<Longrightarrow> \<forall>x \<in> set xs. d \<notin> set x \<Longrightarrow> split_on d (join_with [d] xs) = xs"
  by (induction "[d]" xs rule: join_with.induct) (auto simp: split_on_append split_on_none)

lemma set_join_with: "set (join_with sep xs) \<subseteq> set sep \<union> \<Union> (set ` set xs)"
  by (induction sep xs rule: join_with.induct) auto

lemma normalize_join:
  assumes "\<forall>s \<in> set out. plain_segment s"
  shows "normalize_relative (join_with ''/'' out) = Some (join_with ''/'' out)"
proof -
  have "CHR 0x5C \<notin> set (join_with ''/'' out)"
    using set_join_with [of "''/''" out] assms by (auto simp: plain_segment_def)
  moreover have "fold_components (split_on CHR ''/'' (join_with ''/'' out)) [] = Some out"
  proof (cases "out = []")
    case False
    with assms have "split_on CHR ''/'' (join_with ''/'' out) = out"
      by (intro split_join) (auto simp: plain_segment_def)
    with assms show ?thesis by (simp add: fold_components_plain)
  qed simp
  ultimately show ?thesis by (simp add: normalize_relative_def normalize_slashes_id)
qed

text \<open>
  A public path never leaves the workspace root: the smart constructor returns its argument
  unchanged, and the argument is already its own normal form, a non-empty sequence of components
  none of which is empty, a dot or a parent reference, with no drive prefix, backslash or NUL.
\<close>

theorem public_path_is_normal:
  assumes "public_path_new s = Inr p"
  shows "p = s \<and> normalize_relative s = Some s
    \<and> (\<exists>segs. segs \<noteq> [] \<and> s = join_with ''/'' segs \<and> (\<forall>x \<in> set segs. plain_segment x))
    \<and> \<not> drive_prefixed s \<and> CHR 0x00 \<notin> set s"
proof -
  let ?segs = "split_on CHR ''/'' s"
  from assms have p: "p = s" "CHR 0x5C \<notin> set s" "check_segments ?segs = None"
      "\<not> drive_prefixed s" "CHR 0x00 \<notin> set s"
    by (auto simp: public_path_new_def split: if_splits option.splits)
  have plain: "\<forall>x \<in> set ?segs. plain_segment x"
    using p(2,3) set_split_on [of _ "CHR ''/''" s] split_on_no_sep [of _ "CHR ''/''" s]
    by (auto simp: check_segments_None plain_segment_def)
  have "normalize_relative (join_with ''/'' ?segs) = Some (join_with ''/'' ?segs)"
    using plain by (rule normalize_join)
  then have "normalize_relative s = Some s" by simp
  moreover have "?segs \<noteq> [] \<and> s = join_with ''/'' ?segs" by simp
  ultimately show ?thesis using p plain by blast
qed

theorem public_path_is_normal_witness:
  "public_path_new ''a/b.yml'' = Inr ''a/b.yml'' \<and> normalize_relative ''a/b.yml'' = Some ''a/b.yml''"
proof -
  have "public_path_new ''a/b.yml'' = Inr ''a/b.yml''"
    by (simp add: public_path_new_def str_starts_with_def drive_prefixed_def)
  with public_path_is_normal [OF this] show ?thesis by simp
qed

text \<open>
  Normalising a relative path is idempotent, and a non-empty result without NUL or drive prefix
  is a public path: composing a caller's directory with a reference can only produce a path inside
  the workspace, or nothing.
\<close>

theorem normalize_relative_public:
  assumes "normalize_relative s = Some t"
  shows "normalize_relative t = Some t
    \<and> (t = [] \<or> CHR 0x00 \<in> set t \<or> drive_prefixed t \<or> public_path_new t = Inr t)"
proof -
  from assms obtain out where
      out: "fold_components (split_on CHR ''/'' (normalize_slashes s)) [] = Some out"
      and t: "t = join_with ''/'' out"
    by (auto simp: normalize_relative_def)
  have "\<forall>x \<in> set (split_on CHR ''/'' (normalize_slashes s)). CHR ''/'' \<notin> set x \<and> CHR 0x5C \<notin> set x"
    using set_split_on [of _ "CHR ''/''" "normalize_slashes s"]
      split_on_no_sep [of _ "CHR ''/''" "normalize_slashes s"] normalize_slashes_no_backslash by blast
  from fold_components_Some_plain [OF out this] have plain: "\<forall>x \<in> set out. plain_segment x" by simp
  have bs: "CHR 0x5C \<notin> set t"
    using set_join_with [of "''/''" out] plain by (auto simp: plain_segment_def t)
  have "public_path_new t = Inr t" if "t \<noteq> []" "CHR 0x00 \<notin> set t" "\<not> drive_prefixed t"
  proof -
    have "out \<noteq> []" using that(1) by (auto simp: t)
    then have sp: "split_on CHR ''/'' t = out"
      unfolding t using plain by (intro split_join) (auto simp: plain_segment_def)
    have "\<not> str_starts_with t ''/''"
    proof
      assume "str_starts_with t ''/''"
      then obtain t' where "t = CHR ''/'' # t'" by (auto simp: str_starts_with_def prefix_def)
      then have "[] \<in> set (split_on CHR ''/'' t)" by simp
      with sp plain show False by (auto simp: plain_segment_def)
    qed
    moreover have "check_segments (split_on CHR ''/'' t) = None"
      using plain sp by (simp add: check_segments_None plain_segment_def)
    ultimately show ?thesis using that bs by (simp add: public_path_new_def)
  qed
  with normalize_join [OF plain] t show ?thesis by blast
qed

theorem normalize_relative_public_witness:
  "normalize_relative ''x/./../a'' = Some ''a'' \<and> normalize_relative ''a'' = Some ''a''"
proof -
  have "normalize_relative ''x/./../a'' = Some ''a''"
    by (simp add: normalize_relative_def normalize_slashes_def)
  with normalize_relative_public [OF this] show ?thesis by simp
qed

section \<open>Dependency references\<close>

datatype dependency_class = DepLocal | DepImmutable | DepMutable | DepUnknown

definition exact_hex :: "string \<Rightarrow> nat \<Rightarrow> bool" where
  "exact_hex value len \<longleftrightarrow> length value = len \<and> list_all is_ascii_hexdigit value"

definition exact_lower_hex :: "string \<Rightarrow> nat \<Rightarrow> bool" where
  "exact_lower_hex value len \<longleftrightarrow> length value = len
     \<and> list_all (\<lambda>b. is_ascii_digit b \<or> in_range (CHR ''a'') (CHR ''f'') b) value"

definition valid_content_digest :: "string \<Rightarrow> bool" where
  "valid_content_digest value =
     (case strip_prefix ''sha256:'' value of None \<Rightarrow> False | Some hex \<Rightarrow> exact_lower_hex hex 64)"

definition immutable_revision :: "string \<Rightarrow> bool" where
  "immutable_revision value \<longleftrightarrow> exact_hex value 40 \<or> exact_hex value 64 \<or> valid_content_digest value"

definition classify_reference :: "string \<Rightarrow> dependency_class" where
  "classify_reference reference =
     (if str_starts_with reference ''./'' \<or> str_starts_with reference ''../'' then DepLocal
      else (case rsplit_once CHR ''@'' reference of
              Some (_, revision) \<Rightarrow> if immutable_revision revision then DepImmutable else DepMutable
            | None \<Rightarrow> if str_contains reference ''://'' then DepMutable else DepUnknown))"

text \<open>
  Only an exact hexadecimal object name or a canonical SHA-256 digest after the last \<^verbatim>\<open>@\<close> makes
  a reference immutable: the class is exact in both directions, and a mutable reference is one
  that names a revision or a URL without such a pin.
\<close>

theorem classify_reference_exact:
  "classify_reference r = DepImmutable \<longleftrightarrow>
     \<not> str_starts_with r ''./'' \<and> \<not> str_starts_with r ''../''
     \<and> (\<exists>base rev. r = base @ CHR ''@'' # rev \<and> CHR ''@'' \<notin> set rev
          \<and> (exact_hex rev 40 \<or> exact_hex rev 64
             \<or> (\<exists>hex. rev = ''sha256:'' @ hex \<and> exact_lower_hex hex 64)))"
  (is "?lhs \<longleftrightarrow> ?rhs")
proof -
  have digest: "valid_content_digest v \<longleftrightarrow> (\<exists>hex. v = ''sha256:'' @ hex \<and> exact_lower_hex hex 64)" for v
    unfolding valid_content_digest_def
    by (cases "strip_prefix ''sha256:'' v") (auto simp: strip_prefix_Some dest: strip_prefix_Some [THEN iffD2])
  have revision: "rsplit_once CHR ''@'' r = Some (base, rev) \<longleftrightarrow> r = base @ CHR ''@'' # rev \<and> CHR ''@'' \<notin> set rev"
    for base rev by (rule rsplit_once_Some)
  have "classify_reference r = DepImmutable \<longleftrightarrow>
      \<not> str_starts_with r ''./'' \<and> \<not> str_starts_with r ''../''
      \<and> (\<exists>base rev. rsplit_once CHR ''@'' r = Some (base, rev) \<and> immutable_revision rev)"
    by (auto simp: classify_reference_def split: option.splits prod.splits)
  then show ?thesis by (simp add: revision immutable_revision_def digest conj_assoc)
qed

end
