(* ===== verification/Utf8.thy ===== *)
theory Utf8
  imports Prelude
begin

text \<open>
  The part of Rust's \<^verbatim>\<open>str\<close> the program uses beyond bytes: validity, the encoding of a scalar
  value, the sequence of encoded characters (\<open>utf8_chars\<close>), character boundaries and the
  UTF-16 width of a character. A Rust \<^verbatim>\<open>char\<close> is represented by its UTF-8 bytes.
\<close>

abbreviation byte_of :: "char \<Rightarrow> nat" where "byte_of c \<equiv> of_char c"

definition utf8_cont :: "char \<Rightarrow> bool" where
  "utf8_cont c \<longleftrightarrow> 128 \<le> byte_of c \<and> byte_of c < 192"

definition byte_in :: "nat \<Rightarrow> nat \<Rightarrow> char \<Rightarrow> bool" where
  "byte_in lo hi c \<longleftrightarrow> lo \<le> byte_of c \<and> byte_of c \<le> hi"

text \<open>Well-formed byte sequences, as \<^verbatim>\<open>str::from_utf8\<close> accepts them.\<close>

fun utf8_valid :: "string \<Rightarrow> bool" where
  "utf8_valid [] = True"
| "utf8_valid (a # s) =
     (if byte_of a < 128 then utf8_valid s
      else if byte_in 194 223 a then
        (case s of b # s1 \<Rightarrow> utf8_cont b \<and> utf8_valid s1 | _ \<Rightarrow> False)
      else if byte_in 224 239 a then
        (case s of b # c # s2 \<Rightarrow>
           byte_in (if byte_of a = 224 then 160 else 128) (if byte_of a = 237 then 159 else 191) b
           \<and> utf8_cont c \<and> utf8_valid s2
         | _ \<Rightarrow> False)
      else if byte_in 240 244 a then
        (case s of b # c # d # s3 \<Rightarrow>
           byte_in (if byte_of a = 240 then 144 else 128) (if byte_of a = 244 then 143 else 191) b
           \<and> utf8_cont c \<and> utf8_cont d \<and> utf8_valid s3
         | _ \<Rightarrow> False)
      else False)"

definition utf8_encode :: "nat \<Rightarrow> string" where
  "utf8_encode n =
     (if n < 128 then [char_of n]
      else if n < 2048 then [char_of (192 + n div 64), char_of (128 + n mod 64)]
      else if n < 65536 then
        [char_of (224 + n div 4096), char_of (128 + n div 64 mod 64), char_of (128 + n mod 64)]
      else
        [char_of (240 + n div 262144), char_of (128 + n div 4096 mod 64),
         char_of (128 + n div 64 mod 64), char_of (128 + n mod 64)])"

definition utf8_width :: "char \<Rightarrow> nat" where
  "utf8_width a =
     (if byte_of a < 128 then 1 else if byte_of a < 224 then 2 else if byte_of a < 240 then 3 else 4)"

lemma utf8_width_pos [simp]: "0 < utf8_width a"
  by (simp add: utf8_width_def)

text \<open>\<^verbatim>\<open>str::chars\<close>: every lead byte takes its continuation bytes along.\<close>

function utf8_chars :: "string \<Rightarrow> string list" where
  "utf8_chars [] = []"
| "utf8_chars (a # s) = (a # take (utf8_width a - 1) s) # utf8_chars (drop (utf8_width a - 1) s)"
  by pat_completeness auto
termination
  by (relation "measure length") auto

definition is_char_boundary :: "string \<Rightarrow> nat \<Rightarrow> bool" where
  "is_char_boundary s i \<longleftrightarrow> i = 0 \<or> i = length s \<or> (i < length s \<and> \<not> utf8_cont (s ! i))"

text \<open>\<^verbatim>\<open>char::len_utf16\<close>: two units exactly for the four-byte characters.\<close>

definition len_utf16 :: "string \<Rightarrow> nat" where
  "len_utf16 ch = (case ch of [] \<Rightarrow> 0 | a # _ \<Rightarrow> if byte_of a < 240 then 1 else 2)"

definition utf8_char :: "string \<Rightarrow> bool" where
  "utf8_char g \<longleftrightarrow> (case g of [] \<Rightarrow> False | a # r \<Rightarrow>
     \<not> utf8_cont a \<and> length g = utf8_width a \<and> list_all utf8_cont r)"

lemma utf8_valid_cases:
  assumes "utf8_valid (a # s)"
  obtains r t where "s = r @ t" "utf8_char (a # r)" "utf8_valid t" "length r = utf8_width a - 1"
    "utf8_valid (a # r)"
proof -
  consider "byte_of a < 128" | "byte_in 194 223 a" | "byte_in 224 239 a" | "byte_in 240 244 a"
    using assms by (auto split: if_splits)
  then show thesis
  proof cases
    case 1
    with assms show thesis
      by (intro that [of "[]" s]) (auto simp: utf8_char_def utf8_cont_def utf8_width_def)
  next
    case 2
    then have g: "\<not> byte_of a < 128" by (simp add: byte_in_def)
    with 2 assms obtain b t where s: "s = b # t" "utf8_cont b" "utf8_valid t"
      by (auto split: list.splits)
    with 2 g show thesis
      by (intro that [of "[b]" t]) (auto simp: utf8_char_def utf8_cont_def utf8_width_def byte_in_def)
  next
    case 3
    then have g: "\<not> byte_of a < 128" "\<not> byte_in 194 223 a" by (auto simp: byte_in_def)
    with 3 assms obtain b c t where s: "s = b # c # t"
        "byte_in (if byte_of a = 224 then 160 else 128) (if byte_of a = 237 then 159 else 191) b"
        "utf8_cont c" "utf8_valid t"
      by (auto split: list.splits)
    from s(2) have "utf8_cont b" by (auto simp: byte_in_def utf8_cont_def split: if_splits)
    with 3 g s show thesis
      by (intro that [of "[b, c]" t]) (auto simp: utf8_char_def utf8_cont_def utf8_width_def byte_in_def)
  next
    case 4
    then have g: "\<not> byte_of a < 128" "\<not> byte_in 194 223 a" "\<not> byte_in 224 239 a"
      by (auto simp: byte_in_def)
    with 4 assms obtain b c d t where s: "s = b # c # d # t"
        "byte_in (if byte_of a = 240 then 144 else 128) (if byte_of a = 244 then 143 else 191) b"
        "utf8_cont c" "utf8_cont d" "utf8_valid t"
      by (auto split: list.splits)
    from s(2) have "utf8_cont b" by (auto simp: byte_in_def utf8_cont_def split: if_splits)
    with 4 g s show thesis
      by (intro that [of "[b, c, d]" t]) (auto simp: utf8_char_def utf8_cont_def utf8_width_def byte_in_def)
  qed
qed

lemma utf8_chars_char: "utf8_char g \<Longrightarrow> utf8_chars (g @ s) = g # utf8_chars s"
  by (cases g) (auto simp: utf8_char_def)

lemma utf8_valid_induct [consumes 1, case_names Nil Char]:
  assumes "utf8_valid s" and "P []"
    and "\<And>g t. utf8_char g \<Longrightarrow> utf8_valid t \<Longrightarrow> P t \<Longrightarrow> P (g @ t)"
  shows "P s"
  using assms(1)
proof (induction s rule: length_induct)
  case (1 s)
  show ?case
  proof (cases s)
    case (Cons a r)
    from "1.prems" obtain q t where "s = (a # q) @ t" "utf8_char (a # q)" "utf8_valid t"
      unfolding Cons by (metis append_Cons utf8_valid_cases)
    with "1.IH" have "P t" by simp
    with \<open>utf8_char (a # q)\<close> \<open>utf8_valid t\<close> \<open>s = (a # q) @ t\<close> show ?thesis
      by (metis assms(3))
  qed (simp add: assms(2))
qed

lemma utf8_chars_valid:
  "utf8_valid s \<Longrightarrow> concat (utf8_chars s) = s \<and> (\<forall>g \<in> set (utf8_chars s). utf8_char g)"
  by (induction s rule: utf8_valid_induct) (auto simp: utf8_chars_char)

lemma utf8_chars_append: "utf8_valid a \<Longrightarrow> utf8_chars (a @ b) = utf8_chars a @ utf8_chars b"
  by (induction a rule: utf8_valid_induct) (auto simp: utf8_chars_char)

lemma utf8_chars_concat: "\<forall>g \<in> set gs. utf8_char g \<Longrightarrow> utf8_chars (concat gs) = gs"
  by (induction gs) (auto simp: utf8_chars_char)

lemma utf8_char_ne [simp]: "utf8_char g \<Longrightarrow> g \<noteq> []"
  by (auto simp: utf8_char_def)

text \<open>A boundary splits the characters; the bytes on either side are whole characters.\<close>

lemma boundary_split:
  assumes "\<forall>g \<in> set gs. utf8_char g"
  shows "is_char_boundary (concat gs) i \<and> i \<le> length (concat gs) \<longleftrightarrow>
    (\<exists>pre suf. gs = pre @ suf \<and> length (concat pre) = i)"
  using assms
proof (induction gs arbitrary: i)
  case Nil
  then show ?case by (auto simp: is_char_boundary_def)
next
  case (Cons g gs)
  then obtain a r where g: "g = a # r" "\<not> utf8_cont a" "list_all utf8_cont r"
    by (auto simp: utf8_char_def split: list.splits)
  show ?case
  proof (cases "i < length g")
    case True
    have "is_char_boundary (concat (g # gs)) i \<longleftrightarrow> i = 0"
      using True g by (cases i) (auto simp: is_char_boundary_def nth_append list_all_length)
    moreover have "(\<exists>pre suf. g # gs = pre @ suf \<and> length (concat pre) = i) \<longleftrightarrow> i = 0"
      using True by (auto simp: Cons_eq_append_conv)
    ultimately show ?thesis using True by auto
  next
    case False
    have eq: "is_char_boundary (concat (g # gs)) i \<and> i \<le> length (concat (g # gs)) \<longleftrightarrow>
        is_char_boundary (concat gs) (i - length g) \<and> i - length g \<le> length (concat gs)"
    proof (cases "i = length g")
      case True
      then show ?thesis
        using Cons.prems g by (cases gs) (auto simp: is_char_boundary_def nth_append utf8_char_def
          split: list.splits)
    next
      case False
      with \<open>\<not> i < length g\<close> show ?thesis by (auto simp: is_char_boundary_def nth_append)
    qed
    have "(\<exists>pre suf. g # gs = pre @ suf \<and> length (concat pre) = i) \<longleftrightarrow>
        (\<exists>pre suf. gs = pre @ suf \<and> length (concat pre) = i - length g)"
    proof
      assume "\<exists>pre suf. g # gs = pre @ suf \<and> length (concat pre) = i"
      then obtain pre suf where ps: "g # gs = pre @ suf" "length (concat pre) = i" by blast
      with False g obtain pre' where "pre = g # pre'" by (cases pre) auto
      with ps show "\<exists>pre suf. gs = pre @ suf \<and> length (concat pre) = i - length g" by auto
    next
      assume "\<exists>pre suf. gs = pre @ suf \<and> length (concat pre) = i - length g"
      then obtain pre suf where "gs = pre @ suf" "length (concat pre) = i - length g" by blast
      with False show "\<exists>pre suf. g # gs = pre @ suf \<and> length (concat pre) = i"
        by (intro exI [of _ "g # pre"] exI [of _ suf]) auto
    qed
    with eq Cons show ?thesis by auto
  qed
qed

lemma utf8_valid_ascii: "\<forall>c \<in> set s. byte_of c < 128 \<Longrightarrow> utf8_valid s"
  by (induction s) auto

end
