(* ===== verification/Spans.thy ===== *)
theory Spans
  imports Utf8
begin

text \<open>
  Source positions and spans (\<^verbatim>\<open>src/foundation/span.rs\<close>): the interned source identity, byte and
  line positions with the derived orders, \<open>merge\<close>, and the two translations between byte offsets and
  the UTF-16 positions of the editor protocol. Error strings are the code's.
\<close>

type_synonym source_id = nat

record position =
  pos_byte :: nat
  pos_line :: nat
  pos_column :: nat

record utf16_position =
  u16_line :: nat
  u16_character :: nat

record span =
  sp_source :: source_id
  sp_start :: position
  sp_stop :: position

definition default_position :: position where
  "default_position = \<lparr>pos_byte = 0, pos_line = 1, pos_column = 1\<rparr>"

definition default_span :: span where
  "default_span = \<lparr>sp_source = 0, sp_start = default_position, sp_stop = default_position\<rparr>"

text \<open>The derived orders compare the fields in declaration order.\<close>

definition position_key :: "'a position_scheme \<Rightarrow> nat \<times> nat \<times> nat \<times> 'a" where
  "position_key p = (pos_byte p, pos_line p, pos_column p, position.more p)"

lemma position_key_inj: "position_key p = position_key q \<longleftrightarrow> p = q"
  by (auto simp: position_key_def)

instantiation position_ext :: (linorder) linorder
begin

definition less_eq_position_ext :: "'a position_scheme \<Rightarrow> 'a position_scheme \<Rightarrow> bool" where
  "less_eq_position_ext p q \<longleftrightarrow> position_key p \<le> position_key q"
definition less_position_ext :: "'a position_scheme \<Rightarrow> 'a position_scheme \<Rightarrow> bool" where
  "less_position_ext p q \<longleftrightarrow> position_key p < position_key q"

instance
  by standard (auto simp: less_eq_position_ext_def less_position_ext_def less_le_not_le position_key_inj
    intro: order_trans dest: antisym)

end

definition span_key :: "'a span_scheme \<Rightarrow> nat \<times> position \<times> position \<times> 'a" where
  "span_key s = (sp_source s, sp_start s, sp_stop s, span.more s)"

lemma span_key_inj: "span_key p = span_key q \<longleftrightarrow> p = q"
  by (auto simp: span_key_def)

instantiation span_ext :: (linorder) linorder
begin

definition less_eq_span_ext :: "'a span_scheme \<Rightarrow> 'a span_scheme \<Rightarrow> bool" where
  "less_eq_span_ext p q \<longleftrightarrow> span_key p \<le> span_key q"
definition less_span_ext :: "'a span_scheme \<Rightarrow> 'a span_scheme \<Rightarrow> bool" where
  "less_span_ext p q \<longleftrightarrow> span_key p < span_key q"

instance
  by standard (auto simp: less_eq_span_ext_def less_span_ext_def less_le_not_le span_key_inj
    intro: order_trans dest: antisym)

end

definition span_contains :: "span \<Rightarrow> nat \<Rightarrow> bool" where
  "span_contains s b \<longleftrightarrow> pos_byte (sp_start s) \<le> b \<and> b \<le> pos_byte (sp_stop s)"

definition span_merge :: "span \<Rightarrow> span \<Rightarrow> span" where
  "span_merge s t =
     (if sp_source s \<noteq> sp_source t then s
      else \<lparr>sp_source = sp_source s, sp_start = min (sp_start s) (sp_start t),
            sp_stop = max (sp_stop s) (sp_stop t)\<rparr>)"

lemma position_le_byte: "(p :: position) \<le> q \<Longrightarrow> pos_byte p \<le> pos_byte q"
  by (auto simp: less_eq_position_ext_def position_key_def less_eq_prod_def)

text \<open>
  Merging two spans of one source covers everything either of them covered, commutes, and is
  idempotent; a span of another source is ignored.
\<close>

theorem span_merge_covers:
  "(sp_source s = sp_source t \<longrightarrow>
      (span_contains s b \<or> span_contains t b \<longrightarrow> span_contains (span_merge s t) b)
      \<and> span_merge s t = span_merge t s)
   \<and> span_merge s s = s \<and> (sp_source s \<noteq> sp_source t \<longrightarrow> span_merge s t = s)"
proof -
  have "pos_byte (min (sp_start s) (sp_start t)) \<le> pos_byte (sp_start s)"
    "pos_byte (min (sp_start s) (sp_start t)) \<le> pos_byte (sp_start t)"
    "pos_byte (sp_stop s) \<le> pos_byte (max (sp_stop s) (sp_stop t))"
    "pos_byte (sp_stop t) \<le> pos_byte (max (sp_stop s) (sp_stop t))"
    by (simp_all add: position_le_byte)
  then show ?thesis
    by (auto simp: span_merge_def span_contains_def min.commute max.commute)
qed

theorem span_merge_covers_witness:
  "span_contains (span_merge default_span (default_span\<lparr>sp_stop := \<lparr>pos_byte = 9, pos_line = 1, pos_column = 10\<rparr>\<rparr>)) 9"
proof -
  let ?t = "default_span\<lparr>sp_stop := \<lparr>pos_byte = 9, pos_line = 1, pos_column = 10\<rparr>\<rparr>"
  have "sp_source default_span = sp_source ?t" "span_contains ?t 9"
    by (simp_all add: default_span_def default_position_def span_contains_def)
  with span_merge_covers [of default_span ?t 9] show ?thesis by blast
qed

section \<open>Editor positions\<close>

text \<open>
  The first loop of \<^verbatim>\<open>utf16_to_byte\<close>: it walks the bytes with their offsets and stops as soon as
  the target line is reached; the result is the last line number and line start.
\<close>

fun find_line :: "nat \<Rightarrow> string \<Rightarrow> nat \<Rightarrow> nat \<Rightarrow> nat \<Rightarrow> nat \<times> nat" where
  "find_line target [] offset line line_start = (line, line_start)"
| "find_line target (b # bs) offset line line_start =
     (if line = target then (line, line_start)
      else if b = CHR 0x0A then find_line target bs (offset + 1) (line + 1) (offset + 1)
      else find_line target bs (offset + 1) line line_start)"

text \<open>The second loop: characters of the line with their offsets and the running UTF-16 column.\<close>

fun find_column :: "nat \<Rightarrow> string list \<Rightarrow> nat \<Rightarrow> nat \<Rightarrow> string + nat" where
  "find_column wanted [] at utf16 =
     (if utf16 = wanted then Inr at else Inl ''character is out of range'')"
| "find_column wanted (ch # chs) at utf16 =
     (if utf16 = wanted then Inr at
      else if min (utf16 + len_utf16 ch) u32_max > wanted
      then Inl ''UTF-16 position splits a surrogate pair''
      else find_column wanted chs (at + length ch) (min (utf16 + len_utf16 ch) u32_max))"

definition not_newline :: "char \<Rightarrow> bool" where
  "not_newline c \<longleftrightarrow> c \<noteq> CHR 0x0A"

definition utf16_to_byte :: "string \<Rightarrow> utf16_position \<Rightarrow> string + nat" where
  "utf16_to_byte source position =
     (case find_line (u16_line position) source 0 0 0 of (line, line_start) \<Rightarrow>
        if line \<noteq> u16_line position then Inl ''line is out of range''
        else find_column (u16_character position)
               (utf8_chars (takeWhile not_newline (drop line_start source))) line_start 0)"

text \<open>\<^verbatim>\<open>rfind\<close> of the last newline of the prefix, plus one.\<close>

definition last_line_start :: "string \<Rightarrow> nat" where
  "last_line_start p = length p - length (takeWhile not_newline (rev p))"

fun utf16_width :: "string list \<Rightarrow> nat \<Rightarrow> nat option" where
  "utf16_width [] acc = Some acc"
| "utf16_width (ch # chs) acc =
     (if acc + len_utf16 ch \<le> u32_max then utf16_width chs (acc + len_utf16 ch) else None)"

definition byte_to_utf16 :: "string \<Rightarrow> nat \<Rightarrow> string + utf16_position" where
  "byte_to_utf16 source byte =
     (if byte > length source \<or> \<not> is_char_boundary source byte
      then Inl ''byte is not a UTF-8 boundary''
      else let prefix = take byte source; line = count_list prefix (CHR 0x0A) in
        if line > u32_max then Inl ''line is out of range''
        else (case utf16_width (utf8_chars (drop (last_line_start prefix) prefix)) 0 of
                None \<Rightarrow> Inl ''UTF-16 column is out of range''
              | Some character \<Rightarrow> Inr \<lparr>u16_line = line, u16_character = character\<rparr>))"

subsection \<open>Lines and characters\<close>

abbreviation newline_char :: string where "newline_char \<equiv> [CHR 0x0A]"

lemma find_line_prefix:
  assumes "p = [] \<or> last p = CHR 0x0A"
  shows "find_line (line + count_list p (CHR 0x0A)) (p @ q) off line lst =
    (line + count_list p (CHR 0x0A), if p = [] then lst else off + length p)"
  using assms
proof (induction p arbitrary: off line lst)
  case Nil
  show ?case by (cases q) auto
next
  case (Cons c p)
  show ?case
  proof (cases "c = CHR 0x0A")
    case True
    with Cons.prems Cons.IH [of "line + 1" "off + 1" "off + 1"] show ?thesis
      by (cases "p = []") auto
  next
    case False
    with Cons.prems have p: "p \<noteq> []" "last p = CHR 0x0A" by (auto split: if_splits)
    then have "CHR 0x0A \<in> set p" using last_in_set by metis
    then have "count_list p (CHR 0x0A) \<noteq> 0" by (simp add: count_list_0_iff)
    with False p Cons.IH [of line "off + 1" lst] show ?thesis by auto
  qed
qed

lemma find_line_reached:
  assumes "find_line target s off line lst = (target, ls)"
  shows "\<exists>p q. s = p @ q \<and> (p = [] \<or> last p = CHR 0x0A) \<and> line + count_list p (CHR 0x0A) = target
    \<and> ls = (if p = [] then lst else off + length p)"
  using assms
proof (induction s arbitrary: off line lst)
  case (Cons b bs)
  show ?case
  proof (cases "line = target")
    case True
    with Cons.prems show ?thesis by (intro exI [of _ "[]"] exI [of _ "b # bs"]) auto
  next
    case False
    show ?thesis
    proof (cases "b = CHR 0x0A")
      case True
      with Cons.prems False have "find_line target bs (off + 1) (line + 1) (off + 1) = (target, ls)"
        by simp
      from Cons.IH [OF this] obtain p q where "bs = p @ q" "p = [] \<or> last p = CHR 0x0A"
          "line + 1 + count_list p (CHR 0x0A) = target"
          "ls = (if p = [] then off + 1 else off + 1 + length p)" by blast
      with True show ?thesis by (intro exI [of _ "b # p"] exI [of _ q]) auto
    next
      case ne: False
      with Cons.prems False have "find_line target bs (off + 1) line lst = (target, ls)" by simp
      from Cons.IH [OF this] obtain p q where pq: "bs = p @ q" "p = [] \<or> last p = CHR 0x0A"
          "line + count_list p (CHR 0x0A) = target" "ls = (if p = [] then lst else off + 1 + length p)"
        by blast
      with False have "p \<noteq> []" by auto
      with pq ne show ?thesis by (intro exI [of _ "b # p"] exI [of _ q]) auto
    qed
  qed
qed auto

lemma utf8_char_newline: "utf8_char g \<Longrightarrow> CHR 0x0A \<in> set g \<longleftrightarrow> g = newline_char"
  by (cases g) (auto simp: utf8_char_def utf8_cont_def utf8_width_def list_all_iff split: if_splits)

lemma takeWhile_groups:
  "\<forall>g \<in> set gs. utf8_char g \<Longrightarrow>
     takeWhile not_newline (concat gs) = concat (takeWhile (\<lambda>g. g \<noteq> newline_char) gs)"
proof (induction gs)
  case (Cons g gs)
  show ?case
  proof (cases "g = newline_char")
    case False
    with Cons.prems utf8_char_newline [of g] have "\<forall>c \<in> set g. not_newline c"
      by (auto simp: not_newline_def)
    with False Cons show ?thesis by (simp add: takeWhile_append2)
  qed (simp add: not_newline_def)
qed simp

lemma len_utf16_pos: "utf8_char g \<Longrightarrow> 0 < len_utf16 g"
  by (cases g) (auto simp: len_utf16_def utf8_char_def)

lemma utf16_width_sum:
  "utf16_width gs n = (if n + sum_list (map len_utf16 gs) \<le> u32_max
     then Some (n + sum_list (map len_utf16 gs)) else None)" if "n \<le> u32_max"
  using that by (induction gs arbitrary: n) auto

lemma find_column_hit:
  "\<forall>g \<in> set gs. utf8_char g \<Longrightarrow> n + sum_list (map len_utf16 gs) \<le> u32_max \<Longrightarrow>
     find_column (n + sum_list (map len_utf16 gs)) (gs @ hs) at n = Inr (at + length (concat gs))"
proof (induction gs arbitrary: n at)
  case Nil
  then show ?case by (cases hs) auto
next
  case (Cons g gs)
  with len_utf16_pos [of g] Cons.IH [of "n + len_utf16 g" "at + length g"] show ?case
    by (auto simp: add.assoc)
qed

lemma find_column_reached:
  "find_column wanted gs at n = Inr b \<Longrightarrow> n + sum_list (map len_utf16 gs) \<le> u32_max \<Longrightarrow>
     \<exists>pre suf. gs = pre @ suf \<and> n + sum_list (map len_utf16 pre) = wanted \<and> b = at + length (concat pre)"
proof (induction gs arbitrary: n at)
  case (Cons g gs)
  show ?case
  proof (cases "n = wanted")
    case True
    with Cons.prems show ?thesis by (intro exI [of _ "[]"] exI [of _ "g # gs"]) auto
  next
    case False
    with Cons.prems have "find_column wanted gs (at + length g) (n + len_utf16 g) = Inr b"
      by (auto split: if_splits)
    from Cons.IH [OF this] Cons.prems(2) obtain pre suf where
      "gs = pre @ suf" "n + len_utf16 g + sum_list (map len_utf16 pre) = wanted"
        "b = at + length g + length (concat pre)" by auto
    then show ?thesis by (intro exI [of _ "g # pre"] exI [of _ suf]) auto
  qed
qed (auto split: if_splits)

lemma len_utf16_le: "utf8_char g \<Longrightarrow> len_utf16 g \<le> length g"
  by (cases g) (auto simp: len_utf16_def utf8_char_def utf8_width_def)

lemma sum_utf16_le:
  "\<forall>g \<in> set gs. utf8_char g \<Longrightarrow> sum_list (map len_utf16 gs) \<le> length (concat gs)"
  by (induction gs) (auto intro: add_mono len_utf16_le)

text \<open>The last line of a prefix: a line start, then characters without a newline.\<close>

lemma last_line_groups:
  assumes "\<forall>g \<in> set pre. utf8_char g"
  obtains pre1 pre2 where "pre = pre1 @ pre2" "last_line_start (concat pre) = length (concat pre1)"
    "newline_char \<notin> set pre2" "concat pre1 = [] \<or> last (concat pre1) = CHR 0x0A"
proof
  let ?p2 = "rev (takeWhile (\<lambda>g. g \<noteq> newline_char) (rev pre))"
  let ?p1 = "rev (dropWhile (\<lambda>g. g \<noteq> newline_char) (rev pre))"
  have nn: "\<forall>c \<in> set (concat gs). not_newline c" if "newline_char \<notin> set gs" "set gs \<subseteq> set pre" for gs
    using that utf8_char_newline assms by (fastforce simp: not_newline_def)
  show pre: "pre = ?p1 @ ?p2" by (metis rev_append rev_rev_ident takeWhile_dropWhile_id)
  show p2: "newline_char \<notin> set ?p2" by (auto dest: set_takeWhileD)
  show p1: "concat ?p1 = [] \<or> last (concat ?p1) = CHR 0x0A"
  proof (cases "dropWhile (\<lambda>g. g \<noteq> newline_char) (rev pre)")
    case (Cons g gs)
    then have "g = newline_char" using hd_dropWhile [of "\<lambda>g. g \<noteq> newline_char" "rev pre"] by simp
    with Cons show ?thesis by simp
  next
    case Nil
    then show ?thesis by (simp only: rev.simps concat.simps simp_thms)
  qed
  have "set ?p2 \<subseteq> set pre" by (auto dest: set_takeWhileD)
  with nn [OF p2] have "takeWhile not_newline (rev (concat ?p2) @ rev (concat ?p1)) =
      rev (concat ?p2) @ takeWhile not_newline (rev (concat ?p1))"
    by (intro takeWhile_append2) auto
  moreover have "takeWhile not_newline (rev P) = []" if "P = [] \<or> last P = CHR 0x0A" for P
    using that by (cases P rule: rev_cases) (auto simp: not_newline_def)
  from this [OF p1] have "takeWhile not_newline (rev (concat ?p1)) = []" .
  moreover have "rev (concat pre) = rev (concat ?p2) @ rev (concat ?p1)"
    by (subst pre) simp
  ultimately have "takeWhile not_newline (rev (concat pre)) = rev (concat ?p2)" by simp
  moreover have "length (concat pre) = length (concat ?p1) + length (concat ?p2)"
    by (subst pre) simp
  ultimately show "last_line_start (concat pre) = length (concat ?p1)"
    by (simp add: last_line_start_def)
qed

text \<open>
  The two translations as one statement about characters: the position of the byte offset after the
  characters \<open>pre\<close> of a source \<open>concat (pre @ suf)\<close>.
\<close>

lemma count_newline_groups:
  "\<forall>g \<in> set gs. utf8_char g \<Longrightarrow> newline_char \<notin> set gs \<Longrightarrow> count_list (concat gs) (CHR 0x0A) = 0"
  using utf8_char_newline by (fastforce simp: count_list_0_iff)

lemma newline_group_split:
  assumes "concat gs = p @ q" "\<forall>g \<in> set gs. utf8_char g" "p = [] \<or> last p = CHR 0x0A"
  shows "\<exists>pre suf. gs = pre @ suf \<and> concat pre = p \<and> concat suf = q"
  using assms
proof (induction gs arbitrary: p)
  case (Cons g gs)
  show ?case
  proof (cases "p = []")
    case True
    with Cons.prems show ?thesis by (intro exI [of _ "[]"] exI [of _ "g # gs"]) auto
  next
    case ne: False
    from Cons.prems(1) consider us where "p = g @ us" "concat gs = us @ q"
      | us where "g = p @ us" "q = us @ concat gs"
      by (auto simp: append_eq_append_conv2)
    then show ?thesis
    proof cases
      case 1
      with Cons.prems(3) ne have "us = [] \<or> last us = CHR 0x0A" by (auto simp: last_append split: if_splits)
      from Cons.IH [OF 1(2) _ this] Cons.prems(2) obtain pre suf where
        "gs = pre @ suf" "concat pre = us" "concat suf = q" by auto
      with 1 show ?thesis by (intro exI [of _ "g # pre"] exI [of _ suf]) auto
    next
      case 2
      with ne Cons.prems(3) last_in_set [of p] have "CHR 0x0A \<in> set g" by auto
      with utf8_char_newline [of g] Cons.prems(2) have "g = newline_char" by auto
      with 2 ne have "p = g" "q = concat gs" by (cases p; auto)+
      then show ?thesis by (intro exI [of _ "[g]"] exI [of _ gs]) auto
    qed
  qed
qed auto

lemma byte_to_utf16_groups:
  assumes u: "\<forall>g \<in> set (pre1 @ pre2 @ suf). utf8_char g" and nn: "newline_char \<notin> set pre2"
    and nl: "concat pre1 = [] \<or> last (concat pre1) = CHR 0x0A"
    and small: "length (concat (pre1 @ pre2 @ suf)) \<le> u32_max"
    and src: "source = concat (pre1 @ pre2 @ suf)"
  defines "pos \<equiv> \<lparr>u16_line = count_list (concat pre1) (CHR 0x0A), u16_character = sum_list (map len_utf16 pre2)\<rparr>"
  shows "byte_to_utf16 source (length (concat (pre1 @ pre2))) = Inr pos"
    and "utf16_to_byte source pos = Inr (length (concat (pre1 @ pre2)))"
proof -
  let ?b = "length (concat (pre1 @ pre2))"
  have take: "take ?b source = concat (pre1 @ pre2)" by (simp add: src)
  obtain q1 q2 where q: "pre1 @ pre2 = q1 @ q2" "last_line_start (concat (pre1 @ pre2)) = length (concat q1)"
      "newline_char \<notin> set q2" "concat q1 = [] \<or> last (concat q1) = CHR 0x0A"
    using last_line_groups [of "pre1 @ pre2"] u by auto
  have same: "q1 = pre1 \<and> q2 = pre2"
  proof -
    from q(1) consider us where "pre1 = q1 @ us" "us @ pre2 = q2"
      | us where "pre1 @ us = q1" "pre2 = us @ q2"
      by (auto simp: append_eq_append_conv2)
    then show ?thesis
    proof cases
      case 1
      show ?thesis
      proof (cases us rule: rev_cases)
        case (snoc ys y)
        with 1 nl have "last y = CHR 0x0A" "utf8_char y" using u by (auto simp: last_append)
        then have "y = newline_char" using utf8_char_newline [of y] last_in_set [of y] by auto
        with 1 snoc q(3) show ?thesis by auto
      qed (use 1 in simp)
    next
      case 2
      show ?thesis
      proof (cases us rule: rev_cases)
        case (snoc ys y)
        with 2 q(4) have "last y = CHR 0x0A" "utf8_char y" using u by (auto simp: last_append)
        then have "y = newline_char" using utf8_char_newline [of y] last_in_set [of y] by auto
        with 2 snoc nn show ?thesis by auto
      qed (use 2 in simp)
    qed
  qed
  have boundary: "is_char_boundary source ?b \<and> ?b \<le> length source"
    unfolding src boundary_split [OF u] by (intro exI [of _ "pre1 @ pre2"] exI [of _ suf]) simp
  have lines: "count_list (concat (pre1 @ pre2)) (CHR 0x0A) = count_list (concat pre1) (CHR 0x0A)"
    using count_newline_groups [of pre2] u nn by simp
  have "count_list (concat pre1) (CHR 0x0A) \<le> length (concat pre1)" by (rule count_le_length)
  with small have few: "count_list (concat pre1) (CHR 0x0A) \<le> u32_max" by simp
  have cols: "sum_list (map len_utf16 pre2) \<le> u32_max"
    using sum_utf16_le [of pre2] u small by auto
  have "utf16_width (utf8_chars (concat pre2)) 0 = Some (sum_list (map len_utf16 pre2))"
    using u cols utf8_chars_concat [of pre2] by (simp add: utf16_width_sum)
  moreover have "drop (last_line_start (concat (pre1 @ pre2))) (concat (pre1 @ pre2)) = concat pre2"
    using q(2) same by simp
  ultimately show "byte_to_utf16 source ?b = Inr pos"
    using boundary few lines unfolding byte_to_utf16_def take pos_def Let_def by auto
  have "find_line (0 + count_list (concat pre1) (CHR 0x0A)) (concat pre1 @ concat (pre2 @ suf)) 0 0 0 =
      (0 + count_list (concat pre1) (CHR 0x0A), if concat pre1 = [] then 0 else 0 + length (concat pre1))"
    by (rule find_line_prefix [OF nl])
  then have fl: "find_line (u16_line pos) source 0 0 0 = (u16_line pos, length (concat pre1))"
    by (auto simp: src pos_def)
  have "utf8_chars (takeWhile not_newline (concat (pre2 @ suf))) =
      pre2 @ takeWhile (\<lambda>g. g \<noteq> newline_char) suf"
  proof -
    have "takeWhile (\<lambda>g. g \<noteq> newline_char) (pre2 @ suf) = pre2 @ takeWhile (\<lambda>g. g \<noteq> newline_char) suf"
      using nn by (intro takeWhile_append2) auto
    moreover have "\<forall>g \<in> set (pre2 @ takeWhile (\<lambda>g. g \<noteq> newline_char) suf). utf8_char g"
      using u by (auto dest: set_takeWhileD)
    ultimately show ?thesis
      using u by (subst takeWhile_groups) (simp_all add: utf8_chars_concat del: concat_append)
  qed
  then have "utf8_chars (takeWhile not_newline (drop (length (concat pre1)) source)) =
      pre2 @ takeWhile (\<lambda>g. g \<noteq> newline_char) suf" by (simp add: src)
  with find_column_hit [of pre2 0 _ "length (concat pre1)"] u cols
  have "find_column (u16_character pos)
      (utf8_chars (takeWhile not_newline (drop (length (concat pre1)) source))) (length (concat pre1)) 0 =
      Inr ?b" by (simp add: pos_def)
  with fl show "utf16_to_byte source pos = Inr ?b" by (simp add: utf16_to_byte_def)
qed

text \<open>
  The two editor translations are inverse to each other on every valid source of at most
  \<^verbatim>\<open>u32::MAX\<close> bytes (a source inside the input budget is far smaller): a byte offset is a character
  boundary at a UTF-16 position exactly if that position translates back to the offset, across
  lines and astral characters.
\<close>

theorem utf16_byte_roundtrip:
  assumes valid: "utf8_valid source" and small: "length source \<le> u32_max"
  shows "byte_to_utf16 source byte = Inr pos \<longleftrightarrow> utf16_to_byte source pos = Inr byte"
proof -
  let ?gs = "utf8_chars source"
  have gs: "concat ?gs = source" "\<forall>g \<in> set ?gs. utf8_char g" using utf8_chars_valid [OF valid] by auto
  show ?thesis
  proof
    assume b: "byte_to_utf16 source byte = Inr pos"
    then have "is_char_boundary source byte \<and> byte \<le> length source"
      by (auto simp: byte_to_utf16_def split: if_splits)
    then obtain pre suf where ps: "?gs = pre @ suf" "length (concat pre) = byte"
      using boundary_split [of ?gs byte] gs by auto
    have "\<forall>g \<in> set pre. utf8_char g" using gs(2) ps(1) by simp
    then obtain pre1 pre2 where pp: "pre = pre1 @ pre2" "newline_char \<notin> set pre2"
        "concat pre1 = [] \<or> last (concat pre1) = CHR 0x0A"
      by (rule last_line_groups)
    have src: "source = concat (pre1 @ pre2 @ suf)" using gs(1) ps(1) pp(1) by simp
    have u: "\<forall>g \<in> set (pre1 @ pre2 @ suf). utf8_char g" using gs(2) ps(1) pp(1) by simp
    note r = byte_to_utf16_groups [OF u pp(2,3) _ src]
    from r(1) r(2) small b src ps pp(1) show "utf16_to_byte source pos = Inr byte" by simp
  next
    assume b: "utf16_to_byte source pos = Inr byte"
    then obtain ls where fl: "find_line (u16_line pos) source 0 0 0 = (u16_line pos, ls)"
      and fc: "find_column (u16_character pos) (utf8_chars (takeWhile not_newline (drop ls source))) ls 0 = Inr byte"
      by (auto simp: utf16_to_byte_def split: prod.splits if_splits)
    from find_line_reached [OF fl] obtain p q where
      pq: "source = p @ q" "p = [] \<or> last p = CHR 0x0A" "count_list p (CHR 0x0A) = u16_line pos" "ls = length p"
      by (auto split: if_splits)
    from newline_group_split [of ?gs p q] gs pq(1,2) obtain pre1 suf1 where
      g1: "?gs = pre1 @ suf1" "concat pre1 = p" "concat suf1 = q" by auto
    have u1: "\<forall>g \<in> set suf1. utf8_char g" using gs(2) g1(1) by simp
    have chars: "utf8_chars (takeWhile not_newline (drop ls source)) = takeWhile (\<lambda>g. g \<noteq> newline_char) suf1"
    proof -
      have "drop ls source = concat suf1" using pq(1,4) g1(3) by simp
      moreover have "\<forall>g \<in> set (takeWhile (\<lambda>g. g \<noteq> newline_char) suf1). utf8_char g"
        using u1 by (auto dest: set_takeWhileD)
      ultimately show ?thesis by (simp only: takeWhile_groups [OF u1] utf8_chars_concat)
    qed
    let ?line = "takeWhile (\<lambda>g. g \<noteq> newline_char) suf1"
    have "concat suf1 = concat ?line @ concat (dropWhile (\<lambda>g. g \<noteq> newline_char) suf1)"
      by (metis concat_append takeWhile_dropWhile_id)
    then have "length (concat ?line) \<le> u32_max" using small pq(1) g1(3) by simp
    moreover have "\<forall>g \<in> set ?line. utf8_char g" using u1 by (auto dest: set_takeWhileD)
    ultimately have "0 + sum_list (map len_utf16 ?line) \<le> u32_max"
      using sum_utf16_le [of ?line] by simp
    from find_column_reached [OF fc [unfolded chars] this] obtain pre2 tl where
      p2: "?line = pre2 @ tl" "sum_list (map len_utf16 pre2) = u16_character pos"
        "byte = ls + length (concat pre2)" by auto
    have nn: "newline_char \<notin> set pre2"
      using p2(1) by (metis (mono_tags, lifting) Un_iff set_append set_takeWhileD)
    have "suf1 = pre2 @ (tl @ dropWhile (\<lambda>g. g \<noteq> newline_char) suf1)"
      using p2(1) by (metis append.assoc takeWhile_dropWhile_id)
    then obtain suf where suf: "suf1 = pre2 @ suf" by blast
    have src: "source = concat (pre1 @ pre2 @ suf)" using pq(1) g1 suf by simp
    have u: "\<forall>g \<in> set (pre1 @ pre2 @ suf). utf8_char g" using gs(2) g1(1) suf by simp
    have nl: "concat pre1 = [] \<or> last (concat pre1) = CHR 0x0A" using pq(2) g1(2) by simp
    from byte_to_utf16_groups(1) [OF u nn nl _ src] small
    show "byte_to_utf16 source byte = Inr pos" by (simp add: src p2 pq(3,4) g1(2))
  qed
qed

theorem utf16_byte_roundtrip_witness:
  "byte_to_utf16 ([CHR ''a'', CHR 0xF0, CHR 0x9F, CHR 0x98, CHR 0x80, CHR ''b'']) 5 = Inr \<lparr>u16_line = 0, u16_character = 3\<rparr>
   \<and> utf16_to_byte ([CHR ''a'', CHR 0xF0, CHR 0x9F, CHR 0x98, CHR 0x80, CHR ''b'']) \<lparr>u16_line = 0, u16_character = 3\<rparr> = Inr 5"
proof -
  let ?s = "[CHR ''a'', CHR 0xF0, CHR 0x9F, CHR 0x98, CHR 0x80, CHR ''b'']"
  have v: "utf8_valid ?s" "length ?s \<le> u32_max"
    by (simp_all add: utf8_encode_def byte_in_def utf8_cont_def u32_max_def)
  have "byte_to_utf16 ?s 5 = Inr \<lparr>u16_line = 0, u16_character = 3\<rparr>"
    by (simp add: byte_to_utf16_def utf8_encode_def is_char_boundary_def utf8_cont_def Let_def u32_max_def
      last_line_start_def not_newline_def utf8_width_def len_utf16_def)
  with utf16_byte_roundtrip [OF v] show ?thesis by blast
qed

end
