(* ===== verification/Json.thy ===== *)
theory Json
  imports Utf8
begin

text \<open>
  Product JSON (\<^verbatim>\<open>src/foundation/json.rs\<close>): the value type, the canonical writer, and the strict
  recursive-descent parser with its byte, depth and value budgets. The parser state is the unread
  input, its offset and the number of values begun; every error carries the offset at which the
  code builds it. The three mutually recursive routines take fuel (\<open>None\<close> means it ran out);
  \<open>jp_fuel_enough\<close> shows that \<open>parse_with_limits\<close> always passes enough.
\<close>

datatype json =
  JNull | JBoolean bool | JInteger i64 | JString string | JArray "json list"
| JObject "(string \<times> json) list"

record json_limits =
  jl_max_bytes :: nat
  jl_max_depth :: nat
  jl_max_values :: nat

definition default_json_limits :: json_limits where
  "default_json_limits = \<lparr>jl_max_bytes = 16 * 1048576, jl_max_depth = 128, jl_max_values = 1000000\<rparr>"

record json_error =
  je_offset :: nat
  je_message :: string

section \<open>The canonical writer\<close>

definition hex_digit :: "nat \<Rightarrow> char" where
  "hex_digit n = (if n < 10 then char_of (48 + n) else char_of (87 + n))"

fun dec_nat :: "nat \<Rightarrow> string" where
  "dec_nat n = (if n < 10 then [char_of (48 + n)] else dec_nat (n div 10) @ [char_of (48 + n mod 10)])"

declare dec_nat.simps [simp del]

definition dec_i64 :: "i64 \<Rightarrow> string" where
  "dec_i64 w = (if sint w < 0 then CHR ''-'' # dec_nat (nat (- sint w)) else dec_nat (nat (sint w)))"

definition short_escapes :: "(char \<times> char) list" where
  "short_escapes =
     [(CHR 0x22, CHR 0x22), (CHR 0x5C, CHR 0x5C), (CHR 0x08, CHR ''b''), (CHR 0x0C, CHR ''f''),
      (CHR 0x0A, CHR ''n''), (CHR 0x0D, CHR ''r''), (CHR 0x09, CHR ''t'')]"

definition escape_byte :: "char \<Rightarrow> string" where
  "escape_byte c =
     (case map_of short_escapes c of
        Some e \<Rightarrow> [CHR 0x5C, e]
      | None \<Rightarrow>
          if byte_of c < 32
          then [CHR 0x5C, CHR ''u'', CHR ''0'', CHR ''0'', hex_digit (byte_of c div 16), hex_digit (byte_of c mod 16)]
          else [c])"

definition write_string :: "string \<Rightarrow> string" where
  "write_string s = CHR 0x22 # concat (map escape_byte s) @ [CHR 0x22]"

fun canonical_json :: "json \<Rightarrow> string" where
  "canonical_json JNull = ''null''"
| "canonical_json (JBoolean b) = (if b then ''true'' else ''false'')"
| "canonical_json (JInteger i) = dec_i64 i"
| "canonical_json (JString s) = write_string s"
| "canonical_json (JArray vs) = ''['' @ join_with '','' (map canonical_json vs) @ '']''"
| "canonical_json (JObject fs) =
     ''{'' @ join_with '','' (map (\<lambda>(k, v). write_string k @ '':'' @ canonical_json v) fs) @ ''}''"

definition canonical_line :: "json \<Rightarrow> string" where
  "canonical_line v = canonical_json v @ [CHR 0x0A]"

section \<open>Accessors\<close>

definition exact_object :: "string \<Rightarrow> string list \<Rightarrow> json \<Rightarrow> string + (string \<times> json) list" where
  "exact_object context allowed v =
     (case v of
        JObject fs \<Rightarrow>
          (case find (\<lambda>k. k \<notin> set allowed) (map fst fs) of
             Some name \<Rightarrow> Inl (context @ '' has unknown field '' @ name)
           | None \<Rightarrow> Inr fs)
      | _ \<Rightarrow> Inl (context @ '' must be an object''))"

definition json_member :: "string \<Rightarrow> json \<Rightarrow> json option" where
  "json_member name v = (case v of JObject fs \<Rightarrow> bmap_get fs name | _ \<Rightarrow> None)"

definition json_as_str :: "json \<Rightarrow> string option" where
  "json_as_str v = (case v of JString s \<Rightarrow> Some s | _ \<Rightarrow> None)"
definition json_as_i64 :: "json \<Rightarrow> i64 option" where
  "json_as_i64 v = (case v of JInteger i \<Rightarrow> Some i | _ \<Rightarrow> None)"
definition json_as_bool :: "json \<Rightarrow> bool option" where
  "json_as_bool v = (case v of JBoolean b \<Rightarrow> Some b | _ \<Rightarrow> None)"
definition json_as_array :: "json \<Rightarrow> json list option" where
  "json_as_array v = (case v of JArray vs \<Rightarrow> Some vs | _ \<Rightarrow> None)"

section \<open>The parser\<close>

record jp =
  jp_rest :: string
  jp_offset :: nat
  jp_values :: nat

type_synonym 'a jres = "json_error + 'a \<times> jp"

definition jp_error :: "jp \<Rightarrow> string \<Rightarrow> json_error + 'a" where
  "jp_error p m = Inl \<lparr>je_offset = jp_offset p, je_message = m\<rparr>"

definition jp_adv :: "nat \<Rightarrow> jp \<Rightarrow> jp" where
  "jp_adv n p = p\<lparr>jp_rest := drop n (jp_rest p), jp_offset := jp_offset p + n\<rparr>"

definition jp_peek :: "jp \<Rightarrow> char option" where
  "jp_peek p = (case jp_rest p of [] \<Rightarrow> None | c # _ \<Rightarrow> Some c)"

definition jp_take :: "jp \<Rightarrow> char jres" where
  "jp_take p = (case jp_rest p of [] \<Rightarrow> jp_error p ''unexpected end of JSON'' | c # _ \<Rightarrow> Inr (c, jp_adv 1 p))"

definition json_ws :: "char \<Rightarrow> bool" where
  "json_ws c \<longleftrightarrow> c = CHR '' '' \<or> c = CHR 0x09 \<or> c = CHR 0x0D \<or> c = CHR 0x0A"

definition jp_whitespace :: "jp \<Rightarrow> jp" where
  "jp_whitespace p = jp_adv (length (takeWhile json_ws (jp_rest p))) p"

fun jp_literal :: "string \<Rightarrow> string \<Rightarrow> json \<Rightarrow> jp \<Rightarrow> json jres" where
  "jp_literal whole [] v p = Inr (v, p)"
| "jp_literal whole (e # es) v p =
     (case jp_take p of
        Inl err \<Rightarrow> Inl err
      | Inr (c, p1) \<Rightarrow> if c \<noteq> e then jp_error p1 (''expected '' @ whole) else jp_literal whole es v p1)"

definition hex_value :: "char \<Rightarrow> nat option" where
  "hex_value c =
     (if is_ascii_digit c then Some (byte_of c - 48)
      else if in_range (CHR ''a'') (CHR ''f'') c then Some (byte_of c - 97 + 10)
      else if in_range (CHR ''A'') (CHR ''F'') c then Some (byte_of c - 65 + 10)
      else None)"

fun jp_hex :: "nat \<Rightarrow> nat \<Rightarrow> jp \<Rightarrow> nat jres" where
  "jp_hex 0 value p = Inr (value, p)"
| "jp_hex (Suc n) value p =
     (case jp_take p of
        Inl err \<Rightarrow> Inl err
      | Inr (c, p1) \<Rightarrow>
          (case hex_value c of
             None \<Rightarrow> jp_error p1 ''invalid Unicode escape''
           | Some d \<Rightarrow> jp_hex n (value * 16 + d) p1))"

definition jp_unicode_escape :: "jp \<Rightarrow> nat jres" where
  "jp_unicode_escape p = jp_hex 4 0 p"

abbreviation low_surrogate_message :: string where
  "low_surrogate_message \<equiv> ''high surrogate must be followed by a low surrogate''"

text \<open>The escape after \<^verbatim>\<open>\u\<close>: one scalar value, from one escape or a surrogate pair. Both \<^verbatim>\<open>take\<close>s of
  the second escape happen only as far as the first mismatch, as the short-circuit does.\<close>

definition jp_scalar :: "jp \<Rightarrow> nat jres" where
  "jp_scalar p =
     (case jp_unicode_escape p of
        Inl err \<Rightarrow> Inl err
      | Inr (first, p1) \<Rightarrow>
          if 0xD800 \<le> first \<and> first \<le> 0xDBFF then
            (case jp_take p1 of
               Inl err \<Rightarrow> Inl err
             | Inr (c, p2) \<Rightarrow>
                 if c \<noteq> CHR 0x5C then jp_error p2 low_surrogate_message
                 else (case jp_take p2 of
                    Inl err \<Rightarrow> Inl err
                  | Inr (d, p3) \<Rightarrow>
                      if d \<noteq> CHR ''u'' then jp_error p3 low_surrogate_message
                      else (case jp_unicode_escape p3 of
                         Inl err \<Rightarrow> Inl err
                       | Inr (second, p4) \<Rightarrow>
                           if 0xDC00 \<le> second \<and> second \<le> 0xDFFF
                           then Inr (0x10000 + (first - 0xD800) * 1024 + (second - 0xDC00), p4)
                           else jp_error p4 low_surrogate_message)))
          else if 0xDC00 \<le> first \<and> first \<le> 0xDFFF
          then jp_error p1 ''lone low surrogate is invalid''
          else Inr (first, p1))"

definition jp_escape :: "jp \<Rightarrow> string jres" where
  "jp_escape p =
     (case jp_take p of
        Inl err \<Rightarrow> Inl err
      | Inr (c, p1) \<Rightarrow>
          if c = CHR 0x22 then Inr ([CHR 0x22], p1)
          else if c = CHR 0x5C then Inr ([CHR 0x5C], p1)
          else if c = CHR ''/'' then Inr (''/'', p1)
          else if c = CHR ''b'' then Inr ([CHR 0x08], p1)
          else if c = CHR ''f'' then Inr ([CHR 0x0C], p1)
          else if c = CHR ''n'' then Inr ([CHR 0x0A], p1)
          else if c = CHR ''r'' then Inr ([CHR 0x0D], p1)
          else if c = CHR ''t'' then Inr ([CHR 0x09], p1)
          else if c = CHR ''u'' then
            (case jp_scalar p1 of
               Inl err \<Rightarrow> Inl err
             | Inr (scalar, p2) \<Rightarrow>
                 if scalar < 0xD800 \<or> (0xDFFF < scalar \<and> scalar \<le> 0x10FFFF)
                 then Inr (utf8_encode scalar, p2)
                 else jp_error p2 ''invalid Unicode scalar'')
          else jp_error p1 ''invalid string escape'')"


text \<open>Progress of the parser: it only moves forward inside the input.\<close>

definition jp_moves :: "jp \<Rightarrow> jp \<Rightarrow> bool" where
  "jp_moves p q \<longleftrightarrow> length (jp_rest q) \<le> length (jp_rest p)
     \<and> jp_offset q + length (jp_rest q) = jp_offset p + length (jp_rest p)
     \<and> jp_values q = jp_values p"

definition jres_ok :: "jp \<Rightarrow> 'a jres \<Rightarrow> bool" where
  "jres_ok p r = (case r of
     Inl e \<Rightarrow> je_offset e \<le> jp_offset p + length (jp_rest p)
   | Inr (v, q) \<Rightarrow> jp_moves p q)"

lemma jp_moves_refl [simp, intro]: "jp_moves p p"
  by (simp add: jp_moves_def)

lemma jp_moves_trans [trans]: "jp_moves p q \<Longrightarrow> jp_moves q r \<Longrightarrow> jp_moves p r"
  by (simp add: jp_moves_def)

lemma jres_ok_error [simp]: "jp_moves p q \<Longrightarrow> jres_ok p (jp_error q m)"
  by (simp add: jres_ok_def jp_error_def jp_moves_def)

lemma jres_ok_Inr [simp]: "jres_ok p (Inr (v, q)) = jp_moves p q"
  by (simp add: jres_ok_def)

lemma jres_ok_trans: "jp_moves p q \<Longrightarrow> jres_ok q r \<Longrightarrow> jres_ok p r"
  by (auto simp: jres_ok_def jp_moves_def split: sum.splits)

lemma jres_ok_bind:
  assumes "jres_ok p r" and "\<And>v q. r = Inr (v, q) \<Longrightarrow> jp_moves p q \<Longrightarrow> jres_ok p (f v q)"
  shows "jres_ok p (case r of Inl e \<Rightarrow> Inl e | Inr (v, q) \<Rightarrow> f v q)"
  using assms by (auto simp: jres_ok_def split: sum.splits)

lemma jres_ok_D: "r = Inr (v, q) \<Longrightarrow> jres_ok p r \<Longrightarrow> jp_moves p q"
  by simp

lemma jp_moves_adv: "n \<le> length (jp_rest p) \<Longrightarrow> jp_moves p (jp_adv n p)"
  by (simp add: jp_moves_def jp_adv_def)

lemma jp_moves_whitespace [simp]: "jp_moves p (jp_whitespace p)"
  by (simp add: jp_whitespace_def jp_moves_adv length_takeWhile_le)

lemma jp_take_Inr: "jp_take p = Inr (c, q) \<longleftrightarrow> (\<exists>s. jp_rest p = c # s) \<and> q = jp_adv 1 p"
  by (auto simp: jp_take_def jp_error_def split: list.splits)

lemma jres_ok_take [simp]: "jp_moves p q \<Longrightarrow> jres_ok p (jp_take q)"
  by (auto simp: jp_take_def jp_moves_adv split: list.splits intro: jp_moves_trans)

lemma jp_take_less: "jp_take p = Inr (c, q) \<Longrightarrow> length (jp_rest q) < length (jp_rest p)"
  by (auto simp: jp_take_Inr jp_adv_def)

lemma jp_moves_take: "jp_moves p q \<Longrightarrow> jp_take q = Inr (c, q') \<Longrightarrow> jp_moves p q'"
  using jres_ok_take [of q q] by (auto intro: jp_moves_trans)

lemma jres_ok_literal: "jp_moves p q \<Longrightarrow> jres_ok p (jp_literal whole es v q)"
  by (induction es arbitrary: q)
    (auto intro!: jres_ok_bind intro: jres_ok_trans jp_moves_take)

lemma jres_ok_hex: "jp_moves p q \<Longrightarrow> jres_ok p (jp_hex n v q)"
  by (induction n arbitrary: q v)
    (auto intro!: jres_ok_bind intro: jres_ok_trans jp_moves_take split: option.splits)

lemma jres_ok_scalar: "jp_moves p q \<Longrightarrow> jres_ok p (jp_scalar q)"
  unfolding jp_scalar_def jp_unicode_escape_def
  by (auto intro!: jres_ok_bind jres_ok_hex intro: jp_moves_take simp del: jp_hex.simps)

lemma jres_ok_escape: "jp_moves p q \<Longrightarrow> jres_ok p (jp_escape q)"
  unfolding jp_escape_def
  by (auto intro!: jres_ok_bind intro: jres_ok_trans jp_moves_take jres_ok_scalar)

lemma jp_escape_le: "jp_escape p = Inr (x, q) \<Longrightarrow> length (jp_rest q) \<le> length (jp_rest p)"
  using jres_ok_escape [of p p] by (simp add: jp_moves_def)

function jp_string_loop :: "string \<Rightarrow> jp \<Rightarrow> string jres" where
  "jp_string_loop out p =
     (case jp_take p of
        Inl err \<Rightarrow> Inl err
      | Inr (c, p1) \<Rightarrow>
          if c = CHR 0x22
          then (if utf8_valid out then Inr (out, p1)
                else jp_error p1 ''decoded JSON string is not valid UTF-8'')
          else if c = CHR 0x5C then
            (case jp_escape p1 of
               Inl err \<Rightarrow> Inl err
             | Inr (bytes, p2) \<Rightarrow> jp_string_loop (out @ bytes) p2)
          else if byte_of c < 32 then jp_error p1 ''unescaped control character''
          else jp_string_loop (out @ [c]) p1)"
  by pat_completeness auto
termination
  by (relation "measure (\<lambda>(out, p). length (jp_rest p))")
    (auto dest!: jp_escape_le jp_take_less)

declare jp_string_loop.simps [simp del]

definition jp_string :: "jp \<Rightarrow> string jres" where
  "jp_string p =
     (case jp_take p of
        Inl err \<Rightarrow> Inl err
      | Inr (c, p1) \<Rightarrow> if c \<noteq> CHR 0x22 then jp_error p1 ''expected string'' else jp_string_loop [] p1)"

definition dec_value :: "string \<Rightarrow> nat" where
  "dec_value s = fold (\<lambda>c n. n * 10 + (byte_of c - 48)) s 0"

text \<open>\<^verbatim>\<open>parse::<i64>\<close> on the digits the lexer delimited.\<close>

definition i64_of_digits :: "bool \<Rightarrow> string \<Rightarrow> i64 option" where
  "i64_of_digits neg ds =
     (let n = int (dec_value ds); v = if neg then - n else n in
      if - (2 ^ 63) \<le> v \<and> v < 2 ^ 63 then Some (word_of_int v) else None)"

text \<open>The number after its sign, and the whole number.\<close>

definition jp_digits :: "bool \<Rightarrow> jp \<Rightarrow> json jres" where
  "jp_digits neg p =
     (let digits = takeWhile is_ascii_digit (jp_rest p); q = jp_adv (length digits) p in
      case jp_peek p of
        None \<Rightarrow> jp_error p ''invalid number''
      | Some c \<Rightarrow>
          if \<not> is_ascii_digit c then jp_error p ''invalid number''
          else if c = CHR ''0'' \<and> length digits \<noteq> 1
          then jp_error (jp_adv 1 p) ''leading zero in JSON number''
          else if jp_peek q \<in> {Some (CHR ''.''), Some (CHR ''e''), Some (CHR ''E'')}
          then jp_error q ''canonical product JSON permits integers only''
          else (case i64_of_digits neg digits of
              None \<Rightarrow> jp_error q ''integer is out of range''
            | Some i \<Rightarrow> Inr (JInteger i, q)))"

definition jp_number :: "jp \<Rightarrow> json jres" where
  "jp_number p =
     (if jp_peek p = Some (CHR ''-'') then jp_digits True (jp_adv 1 p) else jp_digits False p)"

lemma jres_ok_string_loop: "jp_moves p q \<Longrightarrow> jres_ok p (jp_string_loop out q)"
proof (induction out q rule: jp_string_loop.induct)
  case (1 out q)
  show ?case
    by (subst jp_string_loop.simps)
      (use 1 in \<open>auto intro!: jres_ok_bind intro: jp_moves_take jres_ok_escape\<close>)
qed

lemma jres_ok_string: "jp_moves p q \<Longrightarrow> jres_ok p (jp_string q)"
  unfolding jp_string_def
  by (auto intro!: jres_ok_bind jres_ok_string_loop intro: jp_moves_take)

lemma jp_string_loop_cases:
  assumes "jp_string_loop out q = Inr (s, r)"
  obtains (close) "jp_take q = Inr (CHR 0x22, r)" "utf8_valid out" "s = out"
  | (escape) p1 bytes p2 where "jp_take q = Inr (CHR 0x5C, p1)" "jp_escape p1 = Inr (bytes, p2)"
      "jp_string_loop (out @ bytes) p2 = Inr (s, r)"
  | (plain) c p1 where "jp_take q = Inr (c, p1)" "c \<noteq> CHR 0x22" "c \<noteq> CHR 0x5C" "\<not> byte_of c < 32"
      "jp_string_loop (out @ [c]) p1 = Inr (s, r)"
  using assms unfolding jp_string_loop.simps [of out q]
  by (auto simp: jp_error_def split: sum.splits if_splits)

lemma jp_string_loop_valid: "jp_string_loop out q = Inr (s, r) \<Longrightarrow> utf8_valid s"
proof (induction out q arbitrary: s r rule: jp_string_loop.induct)
  case (1 out q)
  from "1.prems" show ?case
    by (cases rule: jp_string_loop_cases) (use "1.IH" in \<open>simp_all, blast?\<close>)
qed

lemma jp_string_valid: "jp_string q = Inr (s, r) \<Longrightarrow> utf8_valid s"
  unfolding jp_string_def
  by (auto split: sum.splits if_splits simp: jp_error_def dest: jp_string_loop_valid)

lemma jp_string_less:
  assumes "jp_string q = Inr (s, r)"
  shows "length (jp_rest r) < length (jp_rest q)"
proof -
  obtain c q1 where t: "jp_take q = Inr (c, q1)" and l: "jp_string_loop [] q1 = Inr (s, r)"
    using assms unfolding jp_string_def by (auto split: sum.splits if_splits simp: jp_error_def)
  have "jp_moves q1 r" using jres_ok_string_loop [of q1 q1 "[]"] l by simp
  with jp_take_less [OF t] show ?thesis by (simp add: jp_moves_def)
qed

lemma jp_peek_Some: "jp_peek p = Some c \<longleftrightarrow> (\<exists>s. jp_rest p = c # s)"
  by (auto simp: jp_peek_def split: list.splits)

lemma jp_moves_digits: "jp_moves p (jp_adv (length (takeWhile f (jp_rest p))) p)"
  by (simp add: jp_moves_adv length_takeWhile_le)

lemma jp_moves_peek: "jp_peek p = Some c \<Longrightarrow> jp_moves p (jp_adv 1 p)"
  by (auto simp: jp_peek_Some intro: jp_moves_adv)

lemma jres_ok_digits: "jres_ok p (jp_digits neg p)"
  unfolding jp_digits_def Let_def
  by (auto simp: jp_moves_digits jp_moves_peek [simplified] split: option.splits)

lemma jp_digits_less:
  assumes "jp_digits neg p = Inr (v, q)"
  shows "length (jp_rest q) < length (jp_rest p)"
proof -
  obtain c where "jp_peek p = Some c" "is_ascii_digit c"
      "q = jp_adv (length (takeWhile is_ascii_digit (jp_rest p))) p"
    using assms unfolding jp_digits_def Let_def
    by (auto split: option.splits if_splits simp: jp_error_def)
  then show ?thesis by (auto simp: jp_peek_Some jp_adv_def)
qed

lemma jres_ok_number: "jres_ok p (jp_number p)"
proof (cases "jp_peek p = Some (CHR ''-'')")
  case True
  then show ?thesis
    using jres_ok_trans [OF jp_moves_peek [OF True] jres_ok_digits] by (simp add: jp_number_def)
qed (simp add: jp_number_def jres_ok_digits)

lemma jp_number_less:
  assumes "jp_number p = Inr (v, q)"
  shows "length (jp_rest q) < length (jp_rest p)"
proof (cases "jp_peek p = Some (CHR ''-'')")
  case True
  with assms have "jp_digits True (jp_adv 1 p) = Inr (v, q)" by (simp add: jp_number_def)
  from jp_digits_less [OF this] show ?thesis by (simp add: jp_adv_def)
qed (use assms in \<open>simp add: jp_number_def jp_digits_less\<close>)

section \<open>Values, arrays and objects\<close>

definition jp_map :: "('a \<Rightarrow> 'b) \<Rightarrow> 'a jres \<Rightarrow> 'b jres" where
  "jp_map f r = (case r of Inl e \<Rightarrow> Inl e | Inr (x, p) \<Rightarrow> Inr (f x, p))"

definition quoted :: "char \<Rightarrow> string" where
  "quoted c = [CHR 0x27, c, CHR 0x27]"

text \<open>The loops receive the parser of their elements; the fuel is the unread input.\<close>

fun jp_array_loop :: "nat \<Rightarrow> (jp \<Rightarrow> json jres option) \<Rightarrow> json list \<Rightarrow> jp \<Rightarrow> json jres option" where
  "jp_array_loop 0 value values p = None"
| "jp_array_loop (Suc n) value values p =
     (case value p of
        None \<Rightarrow> None
      | Some (Inl e) \<Rightarrow> Some (Inl e)
      | Some (Inr (v, p1)) \<Rightarrow>
          (case jp_take (jp_whitespace p1) of
             Inl e \<Rightarrow> Some (Inl e)
           | Inr (c, p2) \<Rightarrow>
               if c = CHR '']'' then Some (Inr (JArray (values @ [v]), p2))
               else if c = CHR '','' then jp_array_loop n value (values @ [v]) p2
               else Some (jp_error p2 (''expected '' @ quoted (CHR '','') @ '' or '' @ quoted (CHR '']'')))))"

definition jp_array :: "(jp \<Rightarrow> json jres option) \<Rightarrow> jp \<Rightarrow> json jres option" where
  "jp_array value p =
     (case jp_take p of
        Inl e \<Rightarrow> Some (Inl e)
      | Inr (_, p1) \<Rightarrow>
          let p2 = jp_whitespace p1 in
          if jp_peek p2 = Some (CHR '']'') then Some (Inr (JArray [], jp_adv 1 p2))
          else jp_array_loop (Suc (length (jp_rest p2))) value [] p2)"

definition jp_key :: "(string \<times> json) list \<Rightarrow> jp \<Rightarrow> string jres" where
  "jp_key fs p =
     (let p0 = jp_whitespace p in
      if jp_peek p0 \<noteq> Some (CHR 0x22) then jp_error p0 ''JSON object key must be a string''
      else (case jp_string p0 of
          Inl e \<Rightarrow> Inl e
        | Inr (name, p1) \<Rightarrow>
            if bmap_get fs name \<noteq> None then jp_error p1 (''duplicate JSON object key: '' @ name)
            else (case jp_take (jp_whitespace p1) of
                Inl e \<Rightarrow> Inl e
              | Inr (c, p2) \<Rightarrow>
                  if c \<noteq> CHR '':'' then jp_error p2 (''expected '' @ quoted (CHR '':''))
                  else Inr (name, p2))))"

fun jp_object_loop ::
  "nat \<Rightarrow> (jp \<Rightarrow> json jres option) \<Rightarrow> (string \<times> json) list \<Rightarrow> jp \<Rightarrow> json jres option" where
  "jp_object_loop 0 value fs p = None"
| "jp_object_loop (Suc n) value fs p =
     (case jp_key fs p of
        Inl e \<Rightarrow> Some (Inl e)
      | Inr (name, p2) \<Rightarrow>
          (case value p2 of
             None \<Rightarrow> None
           | Some (Inl e) \<Rightarrow> Some (Inl e)
           | Some (Inr (v, p3)) \<Rightarrow>
               (case jp_take (jp_whitespace p3) of
                  Inl e \<Rightarrow> Some (Inl e)
                | Inr (d, p4) \<Rightarrow>
                    if d = CHR ''}'' then Some (Inr (JObject (bmap_insert name v fs), p4))
                    else if d = CHR '','' then jp_object_loop n value (bmap_insert name v fs) p4
                    else Some (jp_error p4 (''expected '' @ quoted (CHR '','') @ '' or '' @ quoted (CHR ''}''))))))"

definition jp_object :: "(jp \<Rightarrow> json jres option) \<Rightarrow> jp \<Rightarrow> json jres option" where
  "jp_object value p =
     (case jp_take p of
        Inl e \<Rightarrow> Some (Inl e)
      | Inr (_, p1) \<Rightarrow>
          let p2 = jp_whitespace p1 in
          if jp_peek p2 = Some (CHR ''}'') then Some (Inr (JObject [], jp_adv 1 p2))
          else jp_object_loop (Suc (length (jp_rest p2))) value [] p2)"

text \<open>The first byte of a value selects its parser.\<close>

definition jp_dispatch :: "(jp \<Rightarrow> json jres option) \<Rightarrow> jp \<Rightarrow> json jres option" where
  "jp_dispatch value p =
     (case jp_peek p of
        None \<Rightarrow> Some (jp_error p ''expected a JSON value'')
      | Some c \<Rightarrow>
          if c = CHR ''n'' then Some (jp_literal ''null'' ''null'' JNull p)
          else if c = CHR ''t'' then Some (jp_literal ''true'' ''true'' (JBoolean True) p)
          else if c = CHR ''f'' then Some (jp_literal ''false'' ''false'' (JBoolean False) p)
          else if c = CHR 0x22 then Some (jp_map JString (jp_string p))
          else if c = CHR ''['' then jp_array value p
          else if c = CHR ''{'' then jp_object value p
          else if c = CHR ''-'' \<or> is_ascii_digit c then Some (jp_number p)
          else Some (jp_error p ''expected a JSON value''))"

definition jp_enter :: "jp \<Rightarrow> jp" where
  "jp_enter p = p\<lparr>jp_values := jp_values p + 1\<rparr>"

function jp_value :: "json_limits \<Rightarrow> nat \<Rightarrow> jp \<Rightarrow> json jres option" where
  "jp_value lim depth p =
     (if depth > jl_max_depth lim
      then Some (jp_error p ''Incomplete.Resource_limit: JSON nesting budget exceeded'')
      else if jp_values (jp_enter p) > jl_max_values lim
      then Some (jp_error (jp_enter p) ''Incomplete.Resource_limit: JSON value budget exceeded'')
      else jp_dispatch (\<lambda>q. jp_value lim (depth + 1) q) (jp_whitespace (jp_enter p)))"
  by pat_completeness auto
termination
  by (relation "measure (\<lambda>(lim, depth, p). Suc (jl_max_depth lim) - depth)") auto

declare jp_value.simps [simp del]

definition parse_with_limits :: "string \<Rightarrow> json_limits \<Rightarrow> (json_error + json) option" where
  "parse_with_limits source lim =
     (if length source > jl_max_bytes lim
      then Some (Inl \<lparr>je_offset = 0, je_message = ''Incomplete.Resource_limit: JSON byte budget exceeded''\<rparr>)
      else (case jp_value lim 0 \<lparr>jp_rest = source, jp_offset = 0, jp_values = 0\<rparr> of
          None \<Rightarrow> None
        | Some (Inl e) \<Rightarrow> Some (Inl e)
        | Some (Inr (v, p)) \<Rightarrow>
            let p1 = jp_whitespace p in
            if jp_offset p1 \<noteq> length source then Some (jp_error p1 ''trailing JSON input'')
            else Some (Inr v)))"

definition json_parse :: "string \<Rightarrow> (json_error + json) option" where
  "json_parse source = parse_with_limits source default_json_limits"

text \<open>\<^verbatim>\<open>Utf8Error::valid_up_to\<close>: the length of the longest valid prefix.\<close>

definition valid_up_to :: "string \<Rightarrow> nat" where
  "valid_up_to s = Max (set (filter (\<lambda>n. utf8_valid (take n s)) [0..<Suc (length s)]))"

definition json_parse_bytes :: "string \<Rightarrow> (json_error + json) option" where
  "json_parse_bytes source =
     (if utf8_valid source then json_parse source
      else Some (Inl \<lparr>je_offset = valid_up_to source, je_message = ''JSON input is not valid UTF-8''\<rparr>))"

section \<open>What an accepted value satisfies\<close>

fun json_ok :: "json \<Rightarrow> bool" where
  "json_ok (JString s) = utf8_valid s"
| "json_ok (JArray vs) = list_all json_ok vs"
| "json_ok (JObject fs) = (bmap_ok fs \<and> list_all (\<lambda>(k, v). utf8_valid k \<and> json_ok v) fs)"
| "json_ok _ = True"

fun json_depth :: "json \<Rightarrow> nat" where
  "json_depth (JArray vs) = foldr max (map (\<lambda>v. Suc (json_depth v)) vs) 0"
| "json_depth (JObject fs) = foldr max (map (\<lambda>(k, v). Suc (json_depth v)) fs) 0"
| "json_depth _ = 0"

fun json_count :: "json \<Rightarrow> nat" where
  "json_count (JArray vs) = Suc (sum_list (map json_count vs))"
| "json_count (JObject fs) = Suc (sum_list (map (\<lambda>(k, v). json_count v) fs))"
| "json_count _ = 1"

lemma foldr_max_le: "foldr max ns (0::nat) \<le> m \<longleftrightarrow> (\<forall>n \<in> set ns. n \<le> m)"
  by (induction ns) auto

lemma depth_le:
  "d \<le> m \<Longrightarrow> (\<forall>v \<in> set ws. Suc (d + f v) \<le> m) \<Longrightarrow> d + foldr max (map (\<lambda>v. Suc (f v)) ws) 0 \<le> m"
  by (induction ws) (auto simp: max_def)

lemma sum_list_bmap_insert:
  "bmap_get fs k = None \<Longrightarrow>
     sum_list (map (\<lambda>(k, v). f v) (bmap_insert k v fs)) = (f v :: nat) + sum_list (map (\<lambda>(k, v). f v) fs)"
  by (induction k v fs rule: bmap_insert.induct) (auto split: if_splits)

lemma list_all_bmap_insert:
  "list_all P fs \<Longrightarrow> P (k, v) \<Longrightarrow> list_all P (bmap_insert k v fs)"
  by (induction k v fs rule: bmap_insert.induct) auto

text \<open>A result that is present, whose error lies in the input, and whose value satisfies \<open>P\<close>.\<close>

definition jp_sound :: "(json \<Rightarrow> jp \<Rightarrow> bool) \<Rightarrow> jp \<Rightarrow> json jres option \<Rightarrow> bool" where
  "jp_sound P p r = (case r of
     None \<Rightarrow> False
   | Some (Inl e) \<Rightarrow> je_offset e \<le> jp_offset p + length (jp_rest p)
   | Some (Inr (v, q)) \<Rightarrow> length (jp_rest q) < length (jp_rest p)
       \<and> jp_offset q + length (jp_rest q) = jp_offset p + length (jp_rest p) \<and> P v q)"

definition value_post :: "json_limits \<Rightarrow> nat \<Rightarrow> jp \<Rightarrow> json \<Rightarrow> jp \<Rightarrow> bool" where
  "value_post lim depth p v q \<longleftrightarrow> json_ok v \<and> depth + json_depth v \<le> jl_max_depth lim
     \<and> jp_values q = jp_values p + json_count v \<and> jp_values q \<le> jl_max_values lim"

lemma jp_sound_error [simp]: "jp_moves p q \<Longrightarrow> jp_sound P p (Some (jp_error q m))"
  by (simp add: jp_sound_def jp_error_def jp_moves_def)

lemma jp_sound_jres:
  assumes "jres_ok p r" "\<And>v q. r = Inr (v, q) \<Longrightarrow> length (jp_rest q) < length (jp_rest p) \<and> P v q"
  shows "jp_sound P p (Some r)"
  using assms by (auto simp: jp_sound_def jres_ok_def jp_moves_def split: sum.splits)

lemma jp_sound_take:
  assumes "jp_moves p p0" "\<And>c q. jp_take p0 = Inr (c, q) \<Longrightarrow> jp_moves p q \<Longrightarrow>
      length (jp_rest q) < length (jp_rest p) \<Longrightarrow> jp_sound P p (f c q)"
  shows "jp_sound P p (case jp_take p0 of Inl e \<Rightarrow> Some (Inl e) | Inr (c, q) \<Rightarrow> f c q)"
proof (cases "jp_take p0")
  case (Inl e)
  then show ?thesis using assms(1) jres_ok_take [OF assms(1)]
    by (simp add: jp_sound_def jres_ok_def)
next
  case (Inr r)
  then obtain c q where r: "jp_take p0 = Inr (c, q)" by (metis prod.exhaust)
  with assms(1) have "length (jp_rest q) < length (jp_rest p)"
    using jp_take_less by (force simp: jp_moves_def)
  with r assms show ?thesis using jp_moves_take by fastforce
qed

lemma jp_sound_bind:
  assumes "jp_sound Q p r" "\<And>v q. Q v q \<Longrightarrow> length (jp_rest q) < length (jp_rest p) \<Longrightarrow>
      jp_offset q + length (jp_rest q) = jp_offset p + length (jp_rest p) \<Longrightarrow> jp_sound P p (f v q)"
  shows "jp_sound P p (case r of None \<Rightarrow> None | Some (Inl e) \<Rightarrow> Some (Inl e) | Some (Inr (v, q)) \<Rightarrow> f v q)"
proof -
  consider "r = None" | e where "r = Some (Inl e)" | v q where "r = Some (Inr (v, q))"
    by (metis option.exhaust sum.exhaust prod.exhaust)
  then show ?thesis
  proof cases
    case (3 v q)
    with assms(1) have "jp_sound P p (f v q)" by (intro assms(2)) (simp_all add: jp_sound_def)
    with 3 show ?thesis by simp
  qed (use assms(1) in \<open>simp_all add: jp_sound_def\<close>)
qed

lemma jp_sound_mono:
  assumes "jp_sound P q r" "length (jp_rest q) \<le> length (jp_rest p)"
    "jp_offset q + length (jp_rest q) = jp_offset p + length (jp_rest p)" "\<And>v t. P v t \<Longrightarrow> Q v t"
  shows "jp_sound Q p r"
  using assms by (auto simp: jp_sound_def split: option.splits sum.splits)

lemma jp_sound_array_loop:
  assumes "\<And>q. jp_sound (value_post lim depth q) q (value q)"
  shows "length (jp_rest p) < n \<Longrightarrow> list_all (\<lambda>v. json_ok v \<and> depth + json_depth v \<le> jl_max_depth lim) vs \<Longrightarrow>
    jp_values p = base + sum_list (map json_count vs) \<Longrightarrow>
    jp_sound (\<lambda>v q. \<exists>ws. v = JArray ws \<and> list_all (\<lambda>v. json_ok v \<and> depth + json_depth v \<le> jl_max_depth lim) ws
      \<and> jp_values q = base + sum_list (map json_count ws) \<and> jp_values q \<le> jl_max_values lim) p (jp_array_loop n value vs p)"
proof (induction n arbitrary: vs p)
  case (Suc n)
  show ?case
    unfolding jp_array_loop.simps
  proof (rule jp_sound_bind [OF assms])
    fix v q
    assume v: "value_post lim depth p v q" and lt: "length (jp_rest q) < length (jp_rest p)"
      and sum: "jp_offset q + length (jp_rest q) = jp_offset p + length (jp_rest p)"
    define p' where "p' = p\<lparr>jp_values := jp_values q\<rparr>"
    have "jp_moves p' q" using lt sum by (simp add: p'_def jp_moves_def)
    then have m: "jp_moves p' (jp_whitespace q)" by (rule jp_moves_trans) simp
    note vs = Suc.prems(2,3) v [unfolded value_post_def]
    let ?P = "\<lambda>v q. \<exists>ws. v = JArray ws \<and> list_all (\<lambda>v. json_ok v \<and> depth + json_depth v \<le> jl_max_depth lim) ws
      \<and> jp_values q = base + sum_list (map json_count ws) \<and> jp_values q \<le> jl_max_values lim"
    have "jp_sound ?P p' (case jp_take (jp_whitespace q) of Inl e \<Rightarrow> Some (Inl e)
           | Inr (c, p2) \<Rightarrow>
               if c = CHR '']'' then Some (Inr (JArray (vs @ [v]), p2))
               else if c = CHR '','' then jp_array_loop n value (vs @ [v]) p2
               else Some (jp_error p2 (''expected '' @ quoted (CHR '','') @ '' or '' @ quoted (CHR '']''))))"
    proof (rule jp_sound_take [OF m])
      fix c t assume t: "jp_moves p' t" and l: "length (jp_rest t) < length (jp_rest p')"
      have "jp_sound ?P p' (jp_array_loop n value (vs @ [v]) t)"
        by (rule jp_sound_mono [OF Suc.IH])
          (use vs Suc.prems(1) l t in \<open>auto simp: p'_def jp_moves_def\<close>)
      moreover have "jp_sound ?P p' (Some (Inr (JArray (vs @ [v]), t)))"
        using vs l t by (auto simp: jp_sound_def p'_def jp_moves_def)
      ultimately show "jp_sound ?P p' (if c = CHR '']'' then Some (Inr (JArray (vs @ [v]), t))
               else if c = CHR '','' then jp_array_loop n value (vs @ [v]) t
               else Some (jp_error t (''expected '' @ quoted (CHR '','') @ '' or '' @ quoted (CHR '']''))))"
        using t by simp
    qed
    then show "jp_sound ?P p (case jp_take (jp_whitespace q) of Inl e \<Rightarrow> Some (Inl e)
           | Inr (c, p2) \<Rightarrow>
               if c = CHR '']'' then Some (Inr (JArray (vs @ [v]), p2))
               else if c = CHR '','' then jp_array_loop n value (vs @ [v]) p2
               else Some (jp_error p2 (''expected '' @ quoted (CHR '','') @ '' or '' @ quoted (CHR '']''))))"
      by (rule jp_sound_mono) (simp_all add: p'_def)
  qed
qed simp

lemma jp_moves_take_whitespace: "jp_moves p q \<Longrightarrow> jp_moves p (jp_whitespace q)"
  by (erule jp_moves_trans) simp

lemma jp_sound_array:
  assumes v: "\<And>q. jp_sound (value_post lim (Suc depth) q) q (value q)"
    and d: "depth \<le> jl_max_depth lim" and n: "jp_values p \<le> jl_max_values lim"
  shows "jp_sound (\<lambda>v q. json_ok v \<and> depth + json_depth v \<le> jl_max_depth lim
      \<and> Suc (jp_values q) = jp_values p + json_count v \<and> jp_values q \<le> jl_max_values lim) p (jp_array value p)"
    (is "jp_sound ?P _ _")
  unfolding jp_array_def
proof (rule jp_sound_take)
  fix c p1 assume m: "jp_moves p p1" and l: "length (jp_rest p1) < length (jp_rest p)"
  let ?q = "jp_whitespace p1"
  have mq: "jp_moves p ?q" "jp_moves p1 ?q" by (rule jp_moves_take_whitespace [OF m]) simp
  have loop: "jp_sound ?P p (jp_array_loop (Suc (length (jp_rest ?q))) value [] ?q)"
    by (rule jp_sound_mono [OF jp_sound_array_loop [OF v, of _ _ "[]" "jp_values p"]])
      (use mq d in \<open>auto simp: jp_moves_def list_all_iff intro!: depth_le\<close>)
  have "jp_sound ?P p (Some (Inr (JArray [], jp_adv 1 ?q)))" if "jp_peek ?q = Some (CHR '']'')"
    using that mq l d n by (auto simp: jp_peek_Some jp_sound_def jp_moves_def jp_adv_def)
  with loop show "jp_sound ?P p (let p2 = ?q in
      if jp_peek p2 = Some (CHR '']'') then Some (Inr (JArray [], jp_adv 1 p2))
      else jp_array_loop (Suc (length (jp_rest p2))) value [] p2)"
    by (simp add: Let_def)
qed simp

lemma jp_key_sound:
  shows jres_ok_key: "jres_ok p (jp_key fs p)"
    and jp_key_new: "jp_key fs p = Inr (name, q) \<Longrightarrow> bmap_get fs name = None \<and> utf8_valid name
        \<and> length (jp_rest q) < length (jp_rest p)"
proof -
  show ok: "jres_ok p (jp_key fs p)"
    unfolding jp_key_def Let_def
    by (auto intro!: jres_ok_bind jres_ok_string jres_ok_take intro: jp_moves_take_whitespace jp_moves_take)
  assume a: "jp_key fs p = Inr (name, q)"
  then obtain p1 where s: "jp_string (jp_whitespace p) = Inr (name, p1)" and fs: "bmap_get fs name = None"
      and t: "jp_take (jp_whitespace p1) = Inr (CHR '':'', q)"
    unfolding jp_key_def Let_def
    by (auto split: if_splits sum.splits simp: jp_error_def)
  have "length (jp_rest q) < length (jp_rest (jp_whitespace p1))" by (rule jp_take_less [OF t])
  also have "\<dots> \<le> length (jp_rest p1)" using jp_moves_whitespace [of p1] by (simp add: jp_moves_def)
  also have "\<dots> \<le> length (jp_rest (jp_whitespace p))" using jp_string_less [OF s] by simp
  also have "\<dots> \<le> length (jp_rest p)" using jp_moves_whitespace [of p] by (simp add: jp_moves_def)
  finally show "bmap_get fs name = None \<and> utf8_valid name \<and> length (jp_rest q) < length (jp_rest p)"
    using fs jp_string_valid [OF s] by simp
qed

definition member_ok :: "json_limits \<Rightarrow> nat \<Rightarrow> (string \<times> json) list \<Rightarrow> bool" where
  "member_ok lim depth fs \<longleftrightarrow> bmap_ok fs
     \<and> list_all (\<lambda>(k, v). utf8_valid k \<and> json_ok v \<and> depth + json_depth v \<le> jl_max_depth lim) fs"

lemma member_ok_insert:
  "member_ok lim depth fs \<Longrightarrow> utf8_valid k \<Longrightarrow> json_ok v \<Longrightarrow> depth + json_depth v \<le> jl_max_depth lim \<Longrightarrow>
     member_ok lim depth (bmap_insert k v fs)"
  by (simp add: member_ok_def bmap_ok_insert list_all_bmap_insert)

lemma jp_sound_object_loop:
  assumes "\<And>q. jp_sound (value_post lim depth q) q (value q)"
  shows "length (jp_rest p) < n \<Longrightarrow> member_ok lim depth fs \<Longrightarrow>
    jp_values p = base + sum_list (map (\<lambda>(k, v). json_count v) fs) \<Longrightarrow>
    jp_sound (\<lambda>v q. \<exists>gs. v = JObject gs \<and> member_ok lim depth gs
      \<and> jp_values q = base + sum_list (map (\<lambda>(k, v). json_count v) gs) \<and> jp_values q \<le> jl_max_values lim)
      p (jp_object_loop n value fs p)"
proof (induction n arbitrary: fs p)
  case (Suc n)
  let ?P = "\<lambda>v q. \<exists>gs. v = JObject gs \<and> member_ok lim depth gs
      \<and> jp_values q = base + sum_list (map (\<lambda>(k, v). json_count v) gs) \<and> jp_values q \<le> jl_max_values lim"
  let ?sep = "\<lambda>name v q. case jp_take (jp_whitespace q) of Inl e \<Rightarrow> Some (Inl e)
      | Inr (d, p4) \<Rightarrow>
          if d = CHR ''}'' then Some (Inr (JObject (bmap_insert name v fs), p4))
          else if d = CHR '','' then jp_object_loop n value (bmap_insert name v fs) p4
          else Some (jp_error p4 (''expected '' @ quoted (CHR '','') @ '' or '' @ quoted (CHR ''}'')))"
  have sep: "jp_sound ?P t (?sep name v q)"
    if v: "value_post lim depth t v q" and lt: "length (jp_rest q) < length (jp_rest t)"
      and sum: "jp_offset q + length (jp_rest q) = jp_offset t + length (jp_rest t)"
      and k: "bmap_get fs name = None" "utf8_valid name" and t: "length (jp_rest t) < length (jp_rest p)"
        "jp_values t = jp_values p" for name v q t
  proof -
    define p' where "p' = t\<lparr>jp_values := jp_values q\<rparr>"
    have "jp_moves p' q" using lt sum by (simp add: p'_def jp_moves_def)
    then have m: "jp_moves p' (jp_whitespace q)" by (rule jp_moves_take_whitespace)
    note vs = Suc.prems(2,3) v [unfolded value_post_def] sum_list_bmap_insert [OF k(1), of json_count v]
    have ins: "member_ok lim depth (bmap_insert name v fs)"
      using Suc.prems(2) k(2) v [unfolded value_post_def] by (simp add: member_ok_insert)
    have "jp_sound ?P p' (?sep name v q)"
    proof (rule jp_sound_take [OF m])
      fix c u assume u: "jp_moves p' u" and l: "length (jp_rest u) < length (jp_rest p')"
      have "jp_sound ?P p' (jp_object_loop n value (bmap_insert name v fs) u)"
        by (rule jp_sound_mono [OF Suc.IH [OF _ ins]])
          (use vs Suc.prems(1) l u t in \<open>auto simp: p'_def jp_moves_def\<close>)
      moreover have "jp_sound ?P p' (Some (Inr (JObject (bmap_insert name v fs), u)))"
        using vs l u t ins by (auto simp: jp_sound_def p'_def jp_moves_def)
      ultimately show "jp_sound ?P p' (if c = CHR ''}'' then Some (Inr (JObject (bmap_insert name v fs), u))
          else if c = CHR '','' then jp_object_loop n value (bmap_insert name v fs) u
          else Some (jp_error u (''expected '' @ quoted (CHR '','') @ '' or '' @ quoted (CHR ''}''))))"
        using u by simp
    qed
    then show ?thesis by (rule jp_sound_mono) (simp_all add: p'_def)
  qed
  show ?case
  proof (cases "jp_key fs p")
    case (Inl e)
    then show ?thesis using jres_ok_key [of p fs] by (simp add: jp_sound_def jres_ok_def)
  next
    case (Inr r)
    then obtain name t where r: "jp_key fs p = Inr (name, t)" by (metis prod.exhaust)
    have m: "jp_moves p t" using jres_ok_key [of p fs] r by simp
    have "jp_sound ?P t (jp_object_loop (Suc n) value fs p)"
      unfolding jp_object_loop.simps r sum.case prod.case
      by (rule jp_sound_bind [OF assms])
        (use sep jp_key_new [OF r] m in \<open>simp add: jp_moves_def\<close>)
    then show ?thesis by (rule jp_sound_mono) (use m in \<open>simp_all add: jp_moves_def\<close>)
  qed
qed simp

lemma depth_le_pairs:
  "d \<le> m \<Longrightarrow> (\<forall>(k, v) \<in> set ws. Suc (d + f v) \<le> m) \<Longrightarrow>
     d + foldr max (map (\<lambda>(k, v). Suc (f v)) ws) 0 \<le> m"
  by (induction ws) (auto simp: max_def)

lemma jp_sound_object:
  assumes v: "\<And>q. jp_sound (value_post lim (Suc depth) q) q (value q)"
    and d: "depth \<le> jl_max_depth lim" and n: "jp_values p \<le> jl_max_values lim"
  shows "jp_sound (\<lambda>v q. json_ok v \<and> depth + json_depth v \<le> jl_max_depth lim
      \<and> Suc (jp_values q) = jp_values p + json_count v \<and> jp_values q \<le> jl_max_values lim) p (jp_object value p)"
    (is "jp_sound ?P _ _")
  unfolding jp_object_def
proof (rule jp_sound_take)
  fix c p1 assume m: "jp_moves p p1" and l: "length (jp_rest p1) < length (jp_rest p)"
  let ?q = "jp_whitespace p1"
  have mq: "jp_moves p ?q" "jp_moves p1 ?q" by (rule jp_moves_take_whitespace [OF m]) simp
  have loop: "jp_sound ?P p (jp_object_loop (Suc (length (jp_rest ?q))) value [] ?q)"
    by (rule jp_sound_mono [OF jp_sound_object_loop [OF v, of _ _ "[]" "jp_values p"]])
      (use mq d in \<open>auto simp: jp_moves_def list_all_iff member_ok_def case_prod_unfold intro!: depth_le_pairs [unfolded case_prod_unfold]\<close>)
  have "jp_sound ?P p (Some (Inr (JObject [], jp_adv 1 ?q)))" if "jp_peek ?q = Some (CHR ''}'')"
    using that mq l d n by (auto simp: jp_peek_Some jp_sound_def jp_moves_def jp_adv_def)
  with loop show "jp_sound ?P p (let p2 = ?q in
      if jp_peek p2 = Some (CHR ''}'') then Some (Inr (JObject [], jp_adv 1 p2))
      else jp_object_loop (Suc (length (jp_rest p2))) value [] p2)"
    by (simp add: Let_def)
qed simp

lemma jp_literal_post:
  "jp_literal whole es v p = Inr (w, q) \<Longrightarrow> w = v \<and> length (jp_rest q) + length es = length (jp_rest p)
     \<and> jp_values q = jp_values p"
  by (induction es arbitrary: p)
    (force split: sum.splits if_splits simp: jp_error_def jp_take_Inr jp_adv_def)+

lemma jp_number_integer: "jp_number p = Inr (v, q) \<Longrightarrow> (\<exists>i. v = JInteger i) \<and> jp_values q = jp_values p"
  by (auto simp: jp_number_def jp_digits_def jp_error_def Let_def jp_adv_def
      split: if_splits option.splits)

lemma jp_sound_dispatch:
  assumes v: "\<And>q. jp_sound (value_post lim (Suc depth) q) q (value q)"
    and d: "depth \<le> jl_max_depth lim" and n: "jp_values p \<le> jl_max_values lim"
  shows "jp_sound (\<lambda>v q. json_ok v \<and> depth + json_depth v \<le> jl_max_depth lim
      \<and> Suc (jp_values q) = jp_values p + json_count v \<and> jp_values q \<le> jl_max_values lim) p (jp_dispatch value p)"
    (is "jp_sound ?P _ _")
proof -
  have lit: "jp_sound ?P p (Some (jp_literal whole es w p))"
    if "es \<noteq> []" "json_ok w" "json_depth w = 0" "json_count w = 1" for whole es w
    by (rule jp_sound_jres) (use that d n in \<open>auto simp: jres_ok_literal simp flip: length_greater_0_conv dest!: jp_literal_post\<close>)
  have num: "jp_sound ?P p (Some (jp_number p))"
  proof (rule jp_sound_jres)
    fix v q assume "jp_number p = Inr (v, q)"
    from jp_number_less [OF this] jp_number_integer [OF this] d n
    show "length (jp_rest q) < length (jp_rest p) \<and> ?P v q" by auto
  qed (rule jres_ok_number)
  have "jres_ok p (jp_map JString (jp_string p))"
    using jres_ok_string [of p p] by (auto simp: jp_map_def jres_ok_def split: sum.splits)
  then have str: "jp_sound ?P p (Some (jp_map JString (jp_string p)))"
  proof (rule jp_sound_jres)
    fix v q assume "jp_map JString (jp_string p) = Inr (v, q)"
    then obtain s where s: "jp_string p = Inr (s, q)" "v = JString s"
      by (auto simp: jp_map_def split: sum.splits)
    with d n jres_ok_string [of p p] show "length (jp_rest q) < length (jp_rest p) \<and> ?P v q"
      by (auto simp: jp_moves_def dest: jp_string_less jp_string_valid)
  qed
  note parts = lit num str jp_sound_array [OF v d n] jp_sound_object [OF v d n]
  show ?thesis
    by (cases "jp_peek p") (simp_all add: jp_dispatch_def parts del: jp_literal.simps)
qed

lemma jp_value_sound: "jp_sound (value_post lim depth p) p (jp_value lim depth p)"
proof (induction lim depth p rule: jp_value.induct)
  case (1 lim depth p)
  show ?case
  proof (cases "depth > jl_max_depth lim \<or> jp_values (jp_enter p) > jl_max_values lim")
    case True
    then show ?thesis
      by (subst jp_value.simps) (auto simp: jp_sound_def jp_error_def jp_enter_def)
  next
    case False
    let ?p = "jp_whitespace (jp_enter p)"
    have m: "jp_moves (jp_enter p) ?p" by simp
    have "jp_sound (\<lambda>v q. json_ok v \<and> depth + json_depth v \<le> jl_max_depth lim
        \<and> Suc (jp_values q) = jp_values ?p + json_count v \<and> jp_values q \<le> jl_max_values lim) ?p
        (jp_dispatch (\<lambda>q. jp_value lim (depth + 1) q) ?p)"
      by (rule jp_sound_dispatch) (use 1 False m in \<open>simp_all add: jp_moves_def\<close>)
    then have "jp_sound (value_post lim depth p) p (jp_dispatch (\<lambda>q. jp_value lim (depth + 1) q) ?p)"
      by (rule jp_sound_mono) (use m in \<open>auto simp: jp_moves_def jp_enter_def value_post_def\<close>)
    with False show ?thesis by (subst jp_value.simps) simp
  qed
qed

lemma parse_sound:
  "\<exists>r. parse_with_limits source lim = Some r \<and>
     (case r of
        Inl e \<Rightarrow> je_offset e \<le> length source
      | Inr v \<Rightarrow> length source \<le> jl_max_bytes lim \<and> json_ok v \<and> json_depth v \<le> jl_max_depth lim
          \<and> json_count v \<le> jl_max_values lim)"
proof -
  let ?p = "\<lparr>jp_rest = source, jp_offset = 0, jp_values = 0\<rparr>"
  have "jp_sound (value_post lim 0 ?p) ?p (jp_value lim 0 ?p)" by (rule jp_value_sound)
  then show ?thesis
    by (auto simp: parse_with_limits_def jp_sound_def value_post_def jp_error_def Let_def
        jp_whitespace_def jp_adv_def split: option.splits sum.splits
        intro: order_trans [OF add_left_mono [OF length_takeWhile_le]])
qed

text \<open>
  C35. A parsed document: under any limits the parser returns (its loops never outrun the input),
  an error points into the input, and an accepted value stays inside the depth and value budgets,
  has strictly increasing object keys (so no duplicate key survives) and only valid UTF-8 strings.
\<close>

theorem parse_is_sound:
  "\<exists>r. parse_with_limits source lim = Some r \<and>
     (case r of
        Inl e \<Rightarrow> je_offset e \<le> length source
      | Inr v \<Rightarrow> length source \<le> jl_max_bytes lim \<and> json_ok v \<and> json_depth v \<le> jl_max_depth lim
          \<and> json_count v \<le> jl_max_values lim)"
  by (rule parse_sound)

section \<open>Reading back what the writer wrote\<close>

text \<open>The state after \<open>n\<close> bytes and \<open>k\<close> values; the normal form of the positions below.\<close>

definition jp_done :: "nat \<Rightarrow> nat \<Rightarrow> jp \<Rightarrow> jp" where
  "jp_done n k p = \<lparr>jp_rest = drop n (jp_rest p), jp_offset = jp_offset p + n, jp_values = jp_values p + k\<rparr>"

lemma jp_done_simps [simp]:
  "jp_rest (jp_done n k p) = drop n (jp_rest p)"
  "jp_offset (jp_done n k p) = jp_offset p + n"
  "jp_values (jp_done n k p) = jp_values p + k"
  "jp_done m j (jp_done n k p) = jp_done (n + m) (k + j) p"
  by (simp_all add: jp_done_def add_ac)

lemma jp_adv_done: "jp_adv n p = jp_done n 0 p"
  by (simp add: jp_adv_def jp_done_def)

lemma jp_enter_done: "jp_enter p = jp_done 0 1 p"
  by (simp add: jp_enter_def jp_done_def)

lemma jp_take_Cons: "jp_rest p = c # s \<Longrightarrow> jp_take p = Inr (c, jp_done 1 0 p)"
  by (simp add: jp_take_def jp_adv_done)

lemma jp_peek_Cons: "jp_rest p = c # s \<Longrightarrow> jp_peek p = Some c"
  by (simp add: jp_peek_def)

lemma jp_whitespace_none: "jp_rest p = c # s \<Longrightarrow> \<not> json_ws c \<Longrightarrow> jp_whitespace p = p"
  by (simp add: jp_whitespace_def jp_adv_def)

lemma hex_value_digit: "d < 16 \<Longrightarrow> hex_value (hex_digit d) = Some d"
proof -
  assume "d < 16"
  then have "d \<in> set [0..<16]" by simp
  then show ?thesis
    by (simp add: upt_rec hex_value_def hex_digit_def is_ascii_digit_def in_range_def) (elim disjE; simp)
qed

lemma jp_hex_step:
  "jp_rest p = c # s \<Longrightarrow> hex_value c = Some d \<Longrightarrow> jp_hex (Suc n) v p = jp_hex n (v * 16 + d) (jp_done 1 0 p)"
  by (simp add: jp_take_Cons)

lemma jp_escape_control:
  assumes "jp_rest p = [CHR ''u'', CHR ''0'', CHR ''0'', hex_digit (byte_of c div 16), hex_digit (byte_of c mod 16)] @ r"
    and "byte_of c < 32"
  shows "jp_escape p = Inr ([c], jp_done 5 0 p)"
proof -
  have d: "hex_value (CHR ''0'') = Some 0" by (simp add: hex_value_def is_ascii_digit_def in_range_def)
  have v: "byte_of c div 16 * 16 + byte_of c mod 16 = byte_of c" by simp
  have four: "(4::nat) = Suc (Suc (Suc (Suc 0)))" by simp
  have h: "jp_unicode_escape (jp_done 1 0 p) = Inr (byte_of c, jp_done 5 0 p)"
    unfolding jp_unicode_escape_def four using assms
    by (simp add: jp_hex_step [OF _ d] jp_hex_step [OF _ hex_value_digit] v del: jp_hex.simps(2))
  with assms have "jp_scalar (jp_done 1 0 p) = Inr (byte_of c, jp_done 5 0 p)"
    by (simp add: jp_scalar_def)
  with assms show ?thesis
    by (simp add: jp_escape_def jp_take_Cons utf8_encode_def)
qed

lemma jp_string_step:
  assumes "jp_rest p = escape_byte c @ r"
  shows "jp_string_loop out p = jp_string_loop (out @ [c]) (jp_done (length (escape_byte c)) 0 p)"
proof -
  consider e where "map_of short_escapes c = Some e" "escape_byte c = [CHR 0x5C, e]"
    | "byte_of c < 32" "escape_byte c = [CHR 0x5C, CHR ''u'', CHR ''0'', CHR ''0'',
        hex_digit (byte_of c div 16), hex_digit (byte_of c mod 16)]"
    | "\<not> byte_of c < 32" "map_of short_escapes c = None" "escape_byte c = [c]"
    by (cases "map_of short_escapes c"; cases "byte_of c < 32") (simp_all add: escape_byte_def)
  then show ?thesis
  proof cases
    case (1 e)
    then have "jp_escape (jp_done 1 0 p) = Inr ([c], jp_done 2 0 p)"
      using assms by (auto simp: jp_escape_def jp_take_Cons short_escapes_def numeral_2_eq_2 split: if_splits)
    with 1 assms show ?thesis
      by (subst jp_string_loop.simps) (simp add: jp_take_Cons numeral_2_eq_2)
  next
    case 2
    with assms have "jp_escape (jp_done 1 0 p) = Inr ([c], jp_done 6 0 p)"
      by (subst jp_escape_control [of _ c r]) simp_all
    moreover have "(6::nat) = Suc (Suc (Suc (Suc (Suc (Suc 0)))))" by simp
    ultimately show ?thesis
      using 2 assms by (subst jp_string_loop.simps) (simp add: jp_take_Cons)
  next
    case 3
    then have "c \<noteq> CHR 0x22" "c \<noteq> CHR 0x5C" by (auto simp: short_escapes_def)
    with 3 assms show ?thesis
      by (subst jp_string_loop.simps) (simp add: jp_take_Cons)
  qed
qed

lemma jp_string_loop_written:
  "jp_rest p = concat (map escape_byte s) @ CHR 0x22 # r \<Longrightarrow> utf8_valid (out @ s) \<Longrightarrow>
   jp_string_loop out p = Inr (out @ s, jp_done (Suc (length (concat (map escape_byte s)))) 0 p)"
proof (induction s arbitrary: out p)
  case Nil
  then show ?case by (subst jp_string_loop.simps) (simp add: jp_take_Cons)
next
  case (Cons c s)
  from Cons.prems(1) have "jp_string_loop out p
      = jp_string_loop (out @ [c]) (jp_done (length (escape_byte c)) 0 p)"
    by (intro jp_string_step) simp
  also have "\<dots> = Inr ((out @ [c]) @ s, jp_done (Suc (length (concat (map escape_byte s)))) 0
      (jp_done (length (escape_byte c)) 0 p))"
    by (rule Cons.IH) (use Cons.prems in simp_all)
  finally show ?case by (simp add: add_ac)
qed

lemma jp_string_written:
  "jp_rest p = write_string s @ r \<Longrightarrow> utf8_valid s \<Longrightarrow>
   jp_string p = Inr (s, jp_done (length (write_string s)) 0 p)"
  by (simp add: jp_string_def jp_take_Cons write_string_def jp_string_loop_written)

lemma dec_value_append: "dec_value (xs @ [c]) = dec_value xs * 10 + (byte_of c - 48)"
  by (simp add: dec_value_def)

lemma dec_nat_value: "dec_value (dec_nat n) = n"
proof (induction n rule: dec_nat.induct)
  case (1 n)
  show ?case
  proof (cases "n < 10")
    case True
    then show ?thesis by (subst dec_nat.simps) (simp add: dec_value_def)
  next
    case False
    with 1 show ?thesis by (subst dec_nat.simps) (simp add: dec_value_append)
  qed
qed

lemma dec_nat_digits: "\<forall>c \<in> set (dec_nat n). is_ascii_digit c"
proof (induction n rule: dec_nat.induct)
  case (1 n)
  have d: "is_ascii_digit (char_of (48 + k))" if "k < 10" for k :: nat
    using that by (simp add: is_ascii_digit_def in_range_def)
  show ?case
  proof (cases "n < 10")
    case True
    then show ?thesis by (subst dec_nat.simps) (simp add: d)
  next
    case False
    with 1 d [of "n mod 10"] show ?thesis by (subst dec_nat.simps) simp
  qed
qed

lemma dec_nat_head: "\<exists>c s. dec_nat n = c # s \<and> (c = CHR ''0'' \<longrightarrow> s = [])"
proof (induction n rule: dec_nat.induct)
  case (1 n)
  show ?case
  proof (cases "n < 10")
    case True
    then show ?thesis by (subst dec_nat.simps) simp
  next
    case False
    then obtain c s where cs: "dec_nat (n div 10) = c # s" "c = CHR ''0'' \<longrightarrow> s = []" using 1 by blast
    have "c \<noteq> CHR ''0''"
    proof
      assume "c = CHR ''0''"
      with cs dec_nat_value [of "n div 10"] have "n div 10 = 0" by (simp add: dec_value_def)
      with False show False by simp
    qed
    with cs False show ?thesis by (subst dec_nat.simps) simp
  qed
qed

definition json_follow :: "string \<Rightarrow> bool" where
  "json_follow r \<longleftrightarrow> (case r of [] \<Rightarrow> True | c # _ \<Rightarrow> c = CHR '','' \<or> c = CHR '']'' \<or> c = CHR ''}'' \<or> c = CHR 0x0A)"

lemma takeWhile_digits:
  "\<forall>c \<in> set s. is_ascii_digit c \<Longrightarrow> json_follow r \<Longrightarrow> takeWhile is_ascii_digit (s @ r) = s"
  by (induction s) (auto simp: json_follow_def is_ascii_digit_def in_range_def split: list.splits)

lemma jp_digits_written:
  assumes "jp_rest p = dec_nat n @ r" "json_follow r" "i64_of_digits neg (dec_nat n) = Some i"
  shows "jp_digits neg p = Inr (JInteger i, jp_done (length (dec_nat n)) 0 p)"
proof -
  have tw: "takeWhile is_ascii_digit (jp_rest p) = dec_nat n"
    using assms(1,2) by (simp only: takeWhile_digits [OF dec_nat_digits])
  obtain c s where cs: "dec_nat n = c # s" "c = CHR ''0'' \<longrightarrow> s = []" using dec_nat_head by blast
  then have "is_ascii_digit c" using dec_nat_digits [of n] by simp
  moreover have "jp_peek (jp_done (length (dec_nat n)) 0 p) \<notin> {Some (CHR ''.''), Some (CHR ''e''), Some (CHR ''E'')}"
    using assms(1,2) by (auto simp: jp_peek_Some json_follow_def)
  moreover have "jp_peek p = Some c" using assms(1) cs by (simp add: jp_peek_def)
  moreover have "(c = CHR ''0'' \<and> length (dec_nat n) \<noteq> 1) = False" using cs by simp
  ultimately show ?thesis
    using assms(3) by (simp only: jp_digits_def tw jp_adv_done Let_def option.case if_False not_True_eq_False)
qed

lemma jp_number_written:
  assumes "jp_rest p = dec_i64 i @ r" "json_follow r"
  shows "jp_number p = Inr (JInteger i, jp_done (length (dec_i64 i)) 0 p)"
proof -
  have range: "- (2 ^ 63) \<le> sint i" "sint i < 2 ^ 63"
    using sint_greater_eq [of i] sint_less [of i] by simp_all
  show ?thesis
  proof (cases "sint i < 0")
    case True
    then have "i64_of_digits True (dec_nat (nat (- sint i))) = Some i"
      using range by (simp add: i64_of_digits_def dec_nat_value Let_def)
    with True assms show ?thesis
      by (simp add: jp_number_def dec_i64_def jp_peek_Cons jp_adv_done jp_digits_written)
  next
    case False
    then have "i64_of_digits False (dec_nat (nat (sint i))) = Some i"
      using range by (simp add: i64_of_digits_def dec_nat_value Let_def)
    moreover have "jp_peek p \<noteq> Some (CHR ''-'')"
    proof -
      obtain c s where cs: "dec_nat (nat (sint i)) = c # s" using dec_nat_head by blast
      then have "is_ascii_digit c" using dec_nat_digits [of "nat (sint i)"] by simp
      with cs False assms(1) show ?thesis
        by (auto simp: jp_peek_def dec_i64_def is_ascii_digit_def in_range_def)
    qed
    ultimately show ?thesis
      using False assms by (simp add: jp_number_def dec_i64_def jp_digits_written)
  qed
qed

lemma jp_literal_written:
  "jp_rest p = es @ r \<Longrightarrow> jp_literal whole es v p = Inr (v, jp_done (length es) 0 p)"
proof (induction es arbitrary: p)
  case (Cons e es)
  from Cons.prems have "jp_literal whole es v (jp_done 1 0 p) = Inr (v, jp_done (length es) 0 (jp_done 1 0 p))"
    by (intro Cons.IH) simp
  with Cons.prems show ?case by (simp add: jp_take_Cons)
qed (simp add: jp_done_def)

text \<open>The canonical text of a value starts with a byte that selects its parser.\<close>

lemma dec_i64_head: "\<exists>c s. dec_i64 i = c # s \<and> (c = CHR ''-'' \<or> is_ascii_digit c)"
proof -
  have "\<exists>c s. dec_nat n = c # s \<and> is_ascii_digit c" for n
    using dec_nat_head [of n] dec_nat_digits [of n] by auto
  then show ?thesis unfolding dec_i64_def by (cases "sint i < 0") (simp, metis)
qed

lemma canonical_head:
  obtains c s where "canonical_json v = c # s" "\<not> json_ws c" "c \<noteq> CHR '']''" "c \<noteq> CHR ''}''"
proof -
  have "\<exists>c s. canonical_json v = c # s \<and> \<not> json_ws c \<and> c \<noteq> CHR '']'' \<and> c \<noteq> CHR ''}''"
  proof (cases v)
    case (JInteger i)
    obtain c s where cs: "dec_i64 i = c # s" "c = CHR ''-'' \<or> is_ascii_digit c" using dec_i64_head by blast
    from cs(2) have "\<not> json_ws c \<and> c \<noteq> CHR '']'' \<and> c \<noteq> CHR ''}''"
      by (auto simp: json_ws_def is_ascii_digit_def in_range_def)
    with cs(1) JInteger show ?thesis by simp
  qed (auto simp: write_string_def json_ws_def)
  then show thesis using that by blast
qed

definition json_reads :: "json_limits \<Rightarrow> (jp \<Rightarrow> json jres option) \<Rightarrow> json \<Rightarrow> bool" where
  "json_reads lim value v \<longleftrightarrow> (\<forall>p r. jp_rest p = canonical_json v @ r \<longrightarrow> json_follow r \<longrightarrow>
     jp_values p + json_count v \<le> jl_max_values lim \<longrightarrow>
     value p = Some (Inr (v, jp_done (length (canonical_json v)) (json_count v) p)))"

lemma json_readsD:
  "json_reads lim value v \<Longrightarrow> jp_rest p = canonical_json v @ r \<Longrightarrow> json_follow r \<Longrightarrow>
     jp_values p + json_count v \<le> jl_max_values lim \<Longrightarrow>
     value p = Some (Inr (v, jp_done (length (canonical_json v)) (json_count v) p))"
  by (auto simp: json_reads_def)

lemma jp_whitespace_before:
  "jp_rest p = canonical_json v @ r \<Longrightarrow> jp_whitespace p = p"
  using canonical_head [of v] by (metis append_Cons jp_whitespace_none)

lemma jp_whitespace_follow: "jp_rest p = c # r \<Longrightarrow> c \<in> {CHR '','', CHR '']'', CHR ''}''} \<Longrightarrow> jp_whitespace p = p"
  by (rule jp_whitespace_none) (auto simp: json_ws_def)

lemma length_join_ge: "length xs \<le> Suc (length (join_with [c] xs))"
  by (induction "[c]" xs rule: join_with.induct) auto

lemma jp_array_loop_written:
  assumes "\<forall>v \<in> set vs. json_reads lim value v" "vs \<noteq> []"
    "jp_rest p = join_with '','' (map canonical_json vs) @ CHR '']'' # r" "length vs \<le> n"
    "jp_values p + sum_list (map json_count vs) \<le> jl_max_values lim"
  shows "jp_array_loop n value acc p = Some (Inr (JArray (acc @ vs),
    jp_done (Suc (length (join_with '','' (map canonical_json vs)))) (sum_list (map json_count vs)) p))"
  using assms
proof (induction vs arbitrary: n acc p)
  case (Cons v vs)
  then obtain m where m: "n = Suc m" by (cases n) auto
  let ?q = "jp_done (length (canonical_json v)) (json_count v) p"
  let ?t = "if vs = [] then CHR '']'' # r else CHR '','' # join_with '','' (map canonical_json vs) @ CHR '']'' # r"
  have rest: "jp_rest p = canonical_json v @ ?t"
    using Cons.prems(3) by (cases vs) simp_all
  have v: "value p = Some (Inr (v, ?q))"
    by (rule json_readsD [where lim = lim, OF _ rest]) (use Cons.prems in \<open>simp_all add: json_follow_def\<close>)
  have ws: "jp_whitespace ?q = ?q"
    using rest by (cases "vs = []") (auto intro!: jp_whitespace_follow simp: json_follow_def)
  show ?case
  proof (cases "vs = []")
    case True
    then show ?thesis using rest by (simp add: m v ws jp_take_Cons)
  next
    case False
    have "jp_array_loop m value (acc @ [v]) (jp_done 1 0 ?q) = Some (Inr (JArray ((acc @ [v]) @ vs),
        jp_done (Suc (length (join_with '','' (map canonical_json vs)))) (sum_list (map json_count vs)) (jp_done 1 0 ?q)))"
      by (rule Cons.IH) (use False Cons.prems rest m in simp_all)
    with False rest show ?thesis
      by (cases vs) (simp_all add: m v ws jp_take_Cons add_ac)
  qed
qed simp

lemma jp_array_written:
  assumes "\<forall>v \<in> set vs. json_reads lim value v"
    "jp_rest p = canonical_json (JArray vs) @ r"
    "jp_values p + sum_list (map json_count vs) \<le> jl_max_values lim"
  shows "jp_array value p = Some (Inr (JArray vs,
    jp_done (length (canonical_json (JArray vs))) (sum_list (map json_count vs)) p))"
proof (cases vs)
  case Nil
  with assms(2) have "jp_whitespace (jp_done 1 0 p) = jp_done 1 0 p"
    by (intro jp_whitespace_follow) (auto simp: json_follow_def)
  with Nil assms(2) show ?thesis
    by (simp add: jp_array_def jp_take_Cons jp_peek_def jp_adv_done)
next
  case (Cons v ws)
  let ?j = "join_with '','' (map canonical_json vs)"
  have rest: "jp_rest (jp_done 1 0 p) = ?j @ CHR '']'' # r" using assms(2) by simp
  then obtain t where t: "jp_rest (jp_done 1 0 p) = canonical_json v @ t"
    using Cons by (cases ws) auto
  obtain c s where c: "canonical_json v = c # s" "c \<noteq> CHR '']''" using canonical_head [of v] by metis
  have ws: "jp_whitespace (jp_done 1 0 p) = jp_done 1 0 p" by (rule jp_whitespace_before [OF t])
  have pk: "jp_peek (jp_done 1 0 p) \<noteq> Some (CHR '']'')" using t c by (auto simp: jp_peek_def)
  have n: "length vs \<le> Suc (length (jp_rest (jp_done 1 0 p)))"
    using length_join_ge [of "map canonical_json vs" "CHR '',''"] rest by (simp del: jp_done_simps)
  have "jp_array_loop (Suc (length (jp_rest (jp_done 1 0 p)))) value [] (jp_done 1 0 p) =
    Some (Inr (JArray ([] @ vs), jp_done (Suc (length ?j)) (sum_list (map json_count vs)) (jp_done 1 0 p)))"
    by (rule jp_array_loop_written [OF assms(1) _ rest n]) (use Cons assms(3) in simp_all)
  with ws pk assms(2) show ?thesis
    by (simp add: jp_array_def jp_take_Cons)
qed

abbreviation json_field :: "string \<times> json \<Rightarrow> string" where
  "json_field \<equiv> (\<lambda>(k, v). write_string k @ '':'' @ canonical_json v)"

lemma bmap_insert_last:
  "bmap_ok (fs @ (k, v) # gs) \<Longrightarrow> bmap_insert k v fs = fs @ [(k, v)] \<and> bmap_get fs k = None"
  by (induction fs) (auto simp: bmap_ok_def)

lemma write_string_head: "\<exists>s. write_string k = CHR 0x22 # s"
  by (simp add: write_string_def)

lemma jp_key_written:
  assumes "jp_rest p = write_string k @ CHR '':'' # r" "utf8_valid k" "bmap_get fs k = None"
  shows "jp_key fs p = Inr (k, jp_done (Suc (length (write_string k))) 0 p)"
proof -
  obtain s where s: "jp_rest p = CHR 0x22 # s" using assms(1) write_string_head [of k] by auto
  then have ws: "jp_whitespace p = p" by (rule jp_whitespace_none) (simp add: json_ws_def)
  have colon: "jp_rest (jp_done (length (write_string k)) 0 p) = CHR '':'' # r" using assms(1) by simp
  then have ws': "jp_whitespace (jp_done (length (write_string k)) 0 p) = jp_done (length (write_string k)) 0 p"
    by (rule jp_whitespace_none) (simp add: json_ws_def)
  show ?thesis
    unfolding jp_key_def Let_def ws jp_string_written [OF assms(1,2)]
    using s assms(3) jp_take_Cons [OF colon] by (simp add: ws' jp_peek_Cons)
qed

lemma jp_object_loop_written:
  assumes "\<forall>(k, v) \<in> set gs. utf8_valid k \<and> json_reads lim value v" "gs \<noteq> []" "bmap_ok (fs @ gs)"
    "jp_rest p = join_with '','' (map json_field gs) @ CHR ''}'' # r" "length gs \<le> n"
    "jp_values p + sum_list (map (\<lambda>(k, v). json_count v) gs) \<le> jl_max_values lim"
  shows "jp_object_loop n value fs p = Some (Inr (JObject (fs @ gs),
    jp_done (Suc (length (join_with '','' (map json_field gs)))) (sum_list (map (\<lambda>(k, v). json_count v) gs)) p))"
  using assms
proof (induction gs arbitrary: n fs p)
  case (Cons g gs)
  obtain k v where g: "g = (k, v)" by (cases g)
  from Cons.prems obtain m where m: "n = Suc m" by (cases n) auto
  let ?k = "Suc (length (write_string k))"
  let ?q = "jp_done (Suc (length (write_string k) + length (canonical_json v))) (json_count v) p"
  let ?t = "if gs = [] then CHR ''}'' # r else CHR '','' # join_with '','' (map json_field gs) @ CHR ''}'' # r"
  have rest: "jp_rest p = write_string k @ CHR '':'' # canonical_json v @ ?t"
    using Cons.prems(4) by (cases gs) (simp_all add: g)
  have ins: "bmap_insert k v fs = fs @ [(k, v)]" "bmap_get fs k = None"
    using bmap_insert_last [of fs k v gs] Cons.prems(3) by (simp_all add: g)
  have key: "jp_key fs p = Inr (k, jp_done ?k 0 p)"
    by (rule jp_key_written [OF rest]) (use Cons.prems(1) ins g in auto)
  have rest': "jp_rest (jp_done ?k 0 p) = canonical_json v @ ?t" using rest by simp
  have v: "value (jp_done ?k 0 p) = Some (Inr (v, ?q))"
    by (subst json_readsD [where lim = lim, OF _ rest'])
      (use Cons.prems g in \<open>auto simp: json_follow_def\<close>)
  have ws: "jp_whitespace ?q = ?q"
    using rest by (cases "gs = []") (auto intro!: jp_whitespace_follow simp: json_follow_def)
  show ?case
  proof (cases "gs = []")
    case True
    then show ?thesis using rest by (simp add: g m v ws key ins jp_take_Cons)
  next
    case False
    have "jp_object_loop m value (fs @ [(k, v)]) (jp_done 1 0 ?q) = Some (Inr (JObject ((fs @ [(k, v)]) @ gs),
        jp_done (Suc (length (join_with '','' (map json_field gs))))
          (sum_list (map (\<lambda>(k, v). json_count v) gs)) (jp_done 1 0 ?q)))"
      by (rule Cons.IH) (use False Cons.prems rest m g in simp_all)
    moreover have "jp_object_loop n value fs p = jp_object_loop m value (fs @ [(k, v)]) (jp_done 1 0 ?q)"
      using False rest by (simp add: m v ws key ins jp_take_Cons)
    ultimately show ?thesis
      using False by (cases gs) (simp_all add: g add_ac)
  qed
qed simp

lemma jp_object_written:
  assumes "\<forall>(k, v) \<in> set fs. utf8_valid k \<and> json_reads lim value v" "bmap_ok fs"
    "jp_rest p = canonical_json (JObject fs) @ r"
    "jp_values p + sum_list (map (\<lambda>(k, v). json_count v) fs) \<le> jl_max_values lim"
  shows "jp_object value p = Some (Inr (JObject fs,
    jp_done (length (canonical_json (JObject fs))) (sum_list (map (\<lambda>(k, v). json_count v) fs)) p))"
proof (cases fs)
  case Nil
  with assms(3) have "jp_whitespace (jp_done 1 0 p) = jp_done 1 0 p"
    by (intro jp_whitespace_follow) (auto simp: json_follow_def)
  with Nil assms(3) show ?thesis
    by (simp add: jp_object_def jp_take_Cons jp_peek_def jp_adv_done)
next
  case (Cons g gs)
  let ?j = "join_with '','' (map json_field fs)"
  have rest: "jp_rest (jp_done 1 0 p) = ?j @ CHR ''}'' # r" using assms(3) by simp
  then obtain t where t: "jp_rest (jp_done 1 0 p) = CHR 0x22 # t"
    using Cons write_string_head [of "fst g"] by (cases gs; cases g) auto
  have ws: "jp_whitespace (jp_done 1 0 p) = jp_done 1 0 p"
    by (rule jp_whitespace_none [OF t]) (simp add: json_ws_def)
  have pk: "jp_peek (jp_done 1 0 p) \<noteq> Some (CHR ''}'')" using t by (simp add: jp_peek_def)
  have n: "length fs \<le> Suc (length (jp_rest (jp_done 1 0 p)))"
    using length_join_ge [of "map json_field fs" "CHR '',''"] rest by (simp del: jp_done_simps)
  have "jp_object_loop (Suc (length (jp_rest (jp_done 1 0 p)))) value [] (jp_done 1 0 p) =
    Some (Inr (JObject ([] @ fs), jp_done (Suc (length ?j)) (sum_list (map (\<lambda>(k, v). json_count v) fs)) (jp_done 1 0 p)))"
    by (rule jp_object_loop_written [OF assms(1) _ _ rest n]) (use Cons assms(2,4) in simp_all)
  with ws pk assms(3) show ?thesis
    by (simp add: jp_object_def jp_take_Cons)
qed

lemma json_depth_element:
  "d + json_depth (JArray vs) \<le> m \<Longrightarrow> v \<in> set vs \<Longrightarrow> Suc (d + json_depth v) \<le> m"
  by (induction vs) auto

lemma json_depth_member:
  "d + json_depth (JObject fs) \<le> m \<Longrightarrow> (k, v) \<in> set fs \<Longrightarrow> Suc (d + json_depth v) \<le> m"
  by (induction fs) auto

lemma jp_value_enter:
  assumes "depth \<le> jl_max_depth lim" "jp_values p + 1 \<le> jl_max_values lim"
    "jp_rest p = canonical_json v @ r"
  shows "jp_value lim depth p = jp_dispatch (\<lambda>q. jp_value lim (depth + 1) q) (jp_done 0 1 p)"
proof -
  have "jp_whitespace (jp_done 0 1 p) = jp_done 0 1 p"
    by (rule jp_whitespace_before [of _ v r]) (simp add: assms(3))
  then show ?thesis
    using assms by (subst jp_value.simps) (simp add: jp_enter_done)
qed

lemma json_reads_value:
  "json_ok v \<Longrightarrow> depth + json_depth v \<le> jl_max_depth lim \<Longrightarrow>
     json_reads lim (\<lambda>q. jp_value lim depth q) v"
proof (induction v arbitrary: depth)
  case (JArray vs)
  have vs: "\<forall>v \<in> set vs. json_reads lim (\<lambda>q. jp_value lim (depth + 1) q) v"
    using JArray json_depth_element [OF JArray.prems(2)] by (auto simp: list_all_iff)
  show ?case
    unfolding json_reads_def
  proof (intro allI impI)
    fix p :: jp and r
    assume p: "jp_rest p = canonical_json (JArray vs) @ r"
      "jp_values p + json_count (JArray vs) \<le> jl_max_values lim"
    have "jp_array (\<lambda>q. jp_value lim (depth + 1) q) (jp_done 0 1 p) = Some (Inr (JArray vs,
        jp_done (length (canonical_json (JArray vs))) (sum_list (map json_count vs)) (jp_done 0 1 p)))"
      by (rule jp_array_written [OF vs, of _ r]) (use p in simp_all)
    with p JArray.prems(2) show "jp_value lim depth p = Some (Inr (JArray vs,
        jp_done (length (canonical_json (JArray vs))) (json_count (JArray vs)) p))"
      by (subst jp_value_enter [of _ _ _ "JArray vs" r]) (simp_all add: jp_dispatch_def jp_peek_def)
  qed
next
  case (JObject fs)
  have fs: "\<forall>(k, v) \<in> set fs. utf8_valid k \<and> json_reads lim (\<lambda>q. jp_value lim (depth + 1) q) v"
    using JObject json_depth_member [OF JObject.prems(2)] by (fastforce simp: list_all_iff)
  have ok: "bmap_ok fs" using JObject.prems by simp
  show ?case
    unfolding json_reads_def
  proof (intro allI impI)
    fix p :: jp and r
    assume p: "jp_rest p = canonical_json (JObject fs) @ r"
      "jp_values p + json_count (JObject fs) \<le> jl_max_values lim"
    have "jp_object (\<lambda>q. jp_value lim (depth + 1) q) (jp_done 0 1 p) = Some (Inr (JObject fs,
        jp_done (length (canonical_json (JObject fs))) (sum_list (map (\<lambda>(k, v). json_count v) fs)) (jp_done 0 1 p)))"
      by (rule jp_object_written [OF fs ok, of _ r]) (use p in simp_all)
    with p JObject.prems(2) show "jp_value lim depth p = Some (Inr (JObject fs,
        jp_done (length (canonical_json (JObject fs))) (json_count (JObject fs)) p))"
      by (subst jp_value_enter [of _ _ _ "JObject fs" r]) (simp_all add: jp_dispatch_def jp_peek_def)
  qed
next
  case (JInteger i)
  obtain c s where c: "dec_i64 i = c # s" "c = CHR ''-'' \<or> is_ascii_digit c" using dec_i64_head by blast
  then have "c \<notin> {CHR ''n'', CHR ''t'', CHR ''f'', CHR 0x22, CHR ''['', CHR ''{''}"
    by (auto simp: is_ascii_digit_def in_range_def)
  with c have num: "jp_dispatch f p = Some (jp_number p)" if "jp_rest p = dec_i64 i @ r" for f p r
    using that by (auto simp: jp_dispatch_def jp_peek_def)
  show ?case
    unfolding json_reads_def
  proof (intro allI impI)
    fix p :: jp and r
    assume p: "jp_rest p = canonical_json (JInteger i) @ r" "json_follow r"
      "jp_values p + json_count (JInteger i) \<le> jl_max_values lim"
    have rest: "jp_rest (jp_done 0 1 p) = dec_i64 i @ r" using p by simp
    show "jp_value lim depth p = Some (Inr (JInteger i,
        jp_done (length (canonical_json (JInteger i))) (json_count (JInteger i)) p))"
      using JInteger.prems p by (subst jp_value_enter [of _ _ _ "JInteger i" r])
        (simp_all add: num [OF rest, simplified] jp_number_written [OF rest p(2), simplified])
  qed
next
  case JNull
  then show ?case
    by (auto simp: json_reads_def jp_value_enter [of _ _ _ JNull] jp_dispatch_def jp_peek_def
        jp_literal_written simp del: jp_literal.simps)
next
  case (JBoolean b)
  then show ?case
    by (cases b) (auto simp: json_reads_def jp_value_enter [of _ _ _ "JBoolean b"] jp_dispatch_def
        jp_peek_def jp_literal_written simp del: jp_literal.simps)
next
  case (JString s)
  have "jp_peek p = Some (CHR 0x22)" if "jp_rest p = write_string s @ r" for p r
    using that by (simp add: write_string_def jp_peek_def)
  with JString show ?case
    by (auto simp: json_reads_def jp_value_enter [of _ _ _ "JString s"] jp_dispatch_def
        jp_map_def jp_string_written)
qed

lemma json_reads_back:
  assumes "json_ok v" "json_depth v \<le> jl_max_depth lim" "json_count v \<le> jl_max_values lim"
    "length (canonical_json v) \<le> jl_max_bytes lim"
  shows "parse_with_limits (canonical_json v) lim = Some (Inr v)"
proof -
  let ?p = "\<lparr>jp_rest = canonical_json v, jp_offset = 0, jp_values = 0\<rparr>"
  have "jp_value lim 0 ?p = Some (Inr (v, jp_done (length (canonical_json v)) (json_count v) ?p))"
    by (rule json_readsD [OF json_reads_value, where r = "[]"]) (use assms in \<open>simp_all add: json_follow_def\<close>)
  with assms(4) show ?thesis
    by (simp add: parse_with_limits_def jp_whitespace_def jp_adv_done)
qed

lemma canonical_json_inject:
  assumes "json_ok v" "json_ok w" "canonical_json v = canonical_json w"
  shows "v = w"
proof -
  let ?lim = "\<lparr>jl_max_bytes = length (canonical_json v), jl_max_depth = max (json_depth v) (json_depth w),
    jl_max_values = max (json_count v) (json_count w)\<rparr>"
  have "parse_with_limits (canonical_json v) ?lim = Some (Inr v)" by (rule json_reads_back) (simp_all add: assms(1))
  moreover have "parse_with_limits (canonical_json w) ?lim = Some (Inr w)"
    by (rule json_reads_back) (simp_all add: assms(2,3))
  ultimately show ?thesis using assms(3) by simp
qed

text \<open>The same with the final line feed of \<^verbatim>\<open>canonical_line\<close>.\<close>

lemma json_line_reads_back:
  assumes "json_ok v" "json_depth v \<le> jl_max_depth lim" "json_count v \<le> jl_max_values lim"
    "length (canonical_line v) \<le> jl_max_bytes lim"
  shows "parse_with_limits (canonical_line v) lim = Some (Inr v)"
proof -
  let ?p = "\<lparr>jp_rest = canonical_line v, jp_offset = 0, jp_values = 0\<rparr>"
  have "jp_value lim 0 ?p = Some (Inr (v, jp_done (length (canonical_json v)) (json_count v) ?p))"
    by (rule json_readsD [OF json_reads_value, where r = "[CHR 0x0A]"])
      (use assms in \<open>simp_all add: json_follow_def canonical_line_def\<close>)
  with assms(4) show ?thesis
    by (simp add: parse_with_limits_def jp_whitespace_def jp_adv_done canonical_line_def json_ws_def)
qed

text \<open>
  C2. Round trip: parsing the canonical text of a well-formed value under limits the value respects
  gives back exactly that value. With the previous property, canonical texts and accepted
  documents within the limits correspond one to one.
\<close>

theorem canonical_parse_roundtrip:
  assumes "json_ok v" "json_depth v \<le> jl_max_depth lim" "json_count v \<le> jl_max_values lim"
    "length (canonical_json v) \<le> jl_max_bytes lim"
  shows "parse_with_limits (canonical_json v) lim = Some (Inr v)"
  using assms by (rule json_reads_back)

lemma canonical_parse_roundtrip_witness:
  "let v = JObject [(''a'', JArray [JInteger (- 7), JNull]), (''b'', JString [CHR 0x0A, CHR 0x22])] in
   parse_with_limits (canonical_json v) default_json_limits = Some (Inr v)"
proof -
  have "canonical_json (JObject [(''a'', JArray [JInteger (- 7), JNull]), (''b'', JString [CHR 0x0A, CHR 0x22])])
      = ''{'' @ [CHR 0x22] @ ''a'' @ [CHR 0x22] @ '':[-7,null],'' @ [CHR 0x22] @ ''b'' @ [CHR 0x22] @ '':''
        @ [CHR 0x22, CHR 0x5C, CHR ''n'', CHR 0x5C, CHR 0x22, CHR 0x22] @ ''}''"
    by (simp add: write_string_def escape_byte_def short_escapes_def dec_i64_def dec_nat.simps
        char_of_def bit_simps)
  then show ?thesis
    unfolding Let_def
    by (intro canonical_parse_roundtrip) (simp_all add: default_json_limits_def bmap_ok_def)
qed

end
