(* ===== verification/Unknowns.thy ===== *)
theory Unknowns
  imports Json
begin

text \<open>
  The reasons for which the analysis does not know something (\<^verbatim>\<open>src/domain/unknown.rs\<close>), with
  the derived order (constructor first, then detail), their JSON form and their display form.
\<close>

datatype unknown_reason =
  UnsupportedSyntax string
| ExternalState string
| UnresolvedDependency string
| RecursiveCall string
| DynamicString string
| PhaseUnavailable string
| MissingEvidence string
| ResourceLimit string

fun unknown_rank :: "unknown_reason \<Rightarrow> nat" where
  "unknown_rank (UnsupportedSyntax _) = 0"
| "unknown_rank (ExternalState _) = 1"
| "unknown_rank (UnresolvedDependency _) = 2"
| "unknown_rank (RecursiveCall _) = 3"
| "unknown_rank (DynamicString _) = 4"
| "unknown_rank (PhaseUnavailable _) = 5"
| "unknown_rank (MissingEvidence _) = 6"
| "unknown_rank (ResourceLimit _) = 7"

fun kind_and_detail :: "unknown_reason \<Rightarrow> string \<times> string" where
  "kind_and_detail (UnsupportedSyntax d) = (''unsupported_syntax'', d)"
| "kind_and_detail (ExternalState d) = (''external_state'', d)"
| "kind_and_detail (UnresolvedDependency d) = (''unresolved_dependency'', d)"
| "kind_and_detail (RecursiveCall d) = (''recursive_call'', d)"
| "kind_and_detail (DynamicString d) = (''dynamic_string'', d)"
| "kind_and_detail (PhaseUnavailable d) = (''phase_unavailable'', d)"
| "kind_and_detail (MissingEvidence d) = (''missing_evidence'', d)"
| "kind_and_detail (ResourceLimit d) = (''resource_limit'', d)"

definition unknown_to_json :: "unknown_reason \<Rightarrow> json" where
  "unknown_to_json u = (let (kind, detail) = kind_and_detail u in
     JObject (bmap_from [(''detail'', JString detail), (''kind'', JString kind)]))"

definition unknown_display :: "unknown_reason \<Rightarrow> string" where
  "unknown_display u = (let (kind, detail) = kind_and_detail u in
     if detail = [] then kind else kind @ '': '' @ detail)"

definition unknown_key :: "unknown_reason \<Rightarrow> nat \<times> string" where
  "unknown_key u = (unknown_rank u, snd (kind_and_detail u))"

lemma unknown_key_inj: "unknown_key a = unknown_key b \<longleftrightarrow> a = b"
  by (cases a; cases b) (simp_all add: unknown_key_def)

instantiation unknown_reason :: linorder
begin

definition less_eq_unknown_reason :: "unknown_reason \<Rightarrow> unknown_reason \<Rightarrow> bool" where
  "less_eq_unknown_reason a b \<longleftrightarrow> unknown_key a \<le> unknown_key b"

definition less_unknown_reason :: "unknown_reason \<Rightarrow> unknown_reason \<Rightarrow> bool" where
  "less_unknown_reason a b \<longleftrightarrow> unknown_key a < unknown_key b"

instance
  by standard (auto simp: less_eq_unknown_reason_def less_unknown_reason_def less_le_not_le
      unknown_key_inj intro: order_trans dest: antisym)

end

lemma kind_and_detail_inj: "kind_and_detail a = kind_and_detail b \<longleftrightarrow> a = b"
  by (cases a; cases b) simp_all

lemma unknown_to_json_inj: "unknown_to_json a = unknown_to_json b \<longleftrightarrow> a = b"
proof -
  have "''detail'' < (''kind'' :: string)" by (simp add: less_char_def)
  then show ?thesis
    by (auto simp: unknown_to_json_def bmap_from_def prod_eq_iff kind_and_detail_inj [symmetric]
        split: prod.splits)
qed

end
