(* ===== verification/Abstract_Values.thy ===== *)
theory Abstract_Values
  imports Unknowns Spans
begin

text \<open>
  The abstract values of the analysis (\<^verbatim>\<open>src/domain/abstract_value.rs\<close>): the value lattice with its
  string, list and object parts, the trust and secrecy lattices, provenance, and the in-place joins
  that report whether they changed their target. A join function returns the new target and the
  flag. \<open>join_flat\<close> is the part of \<^verbatim>\<open>join_value\<close> the in-place join falls back to;
  \<open>join_value\<close> is the whole routine.
\<close>

datatype value_type = TyNever | TyNull | TyBool | TyNumber | TyString | TyList | TyObject | TyDynamic

fun value_type_name :: "value_type \<Rightarrow> string" where
  "value_type_name TyNever = ''never''"
| "value_type_name TyNull = ''null''"
| "value_type_name TyBool = ''bool''"
| "value_type_name TyNumber = ''number''"
| "value_type_name TyString = ''string''"
| "value_type_name TyList = ''list''"
| "value_type_name TyObject = ''object''"
| "value_type_name TyDynamic = ''dynamic''"

datatype abstract_truth = AFalse | ATrue | AMaybe

datatype string_value =
  SBottom
| SConstants "string list"
| SAffix (s_prefix: "string option") (s_suffix: "string option")
| SPattern string
| STop

datatype trust = Trusted | TMixed | Untrusted | TUnknown (trust_reasons: "unknown_reason list")

datatype secrecy = Public | Sensitive | Secret | SUnknown (secrecy_reasons: "unknown_reason list")

record provenance =
  pv_origin :: string
  pv_span :: span
  pv_operation :: string

datatype abstract_value = AV
  (av_type: value_type) (av_value: avalue) (av_trust: trust) (av_secrecy: secrecy)
  (av_provenance: "provenance list")
and avalue =
  VBottom
| VNull
| VBoolean abstract_truth
| VNumber "i64 option" "i64 option"
| VString string_value
| VList "abstract_value list option"
| VObject "(string \<times> abstract_value) list option"
| VUnknown "unknown_reason list"

definition default_value :: abstract_value where
  "default_value = AV TyNever VBottom Trusted Public []"

section \<open>The order of provenance\<close>

definition provenance_key :: "'a provenance_scheme \<Rightarrow> string \<times> span \<times> string \<times> 'a" where
  "provenance_key p = (pv_origin p, pv_span p, pv_operation p, provenance.more p)"

lemma provenance_key_inj: "provenance_key p = provenance_key q \<longleftrightarrow> p = q"
  by (auto simp: provenance_key_def)

instantiation provenance_ext :: (linorder) linorder
begin

definition less_eq_provenance_ext :: "'a provenance_scheme \<Rightarrow> 'a provenance_scheme \<Rightarrow> bool" where
  "less_eq_provenance_ext p q \<longleftrightarrow> provenance_key p \<le> provenance_key q"
definition less_provenance_ext :: "'a provenance_scheme \<Rightarrow> 'a provenance_scheme \<Rightarrow> bool" where
  "less_provenance_ext p q \<longleftrightarrow> provenance_key p < provenance_key q"

instance
  by standard (auto simp: less_eq_provenance_ext_def less_provenance_ext_def less_le_not_le
    provenance_key_inj intro: order_trans dest: antisym)

end

section \<open>Constructors\<close>

definition deduplicate_reasons :: "unknown_reason list \<Rightarrow> unknown_reason list" where
  "deduplicate_reasons rs = bset rs"

definition string_constant :: "string \<Rightarrow> trust \<Rightarrow> secrecy \<Rightarrow> provenance list \<Rightarrow> abstract_value" where
  "string_constant s t c p = AV TyString (VString (SConstants [s])) t c p"

definition unknown_value :: "unknown_reason \<Rightarrow> abstract_value" where
  "unknown_value r = AV TyDynamic (VUnknown [r]) (TUnknown [r]) (SUnknown [r]) []"

definition constants :: "abstract_value \<Rightarrow> string list option" where
  "constants x = (case av_value x of VString (SConstants vs) \<Rightarrow> Some vs | _ \<Rightarrow> None)"

definition is_untrusted :: "abstract_value \<Rightarrow> bool" where
  "is_untrusted x \<longleftrightarrow> av_trust x = Untrusted"
definition is_secret :: "abstract_value \<Rightarrow> bool" where
  "is_secret x \<longleftrightarrow> av_secrecy x = Secret"

section \<open>Joins of sorted sequences\<close>

text \<open>The two-pointer merge loop on what is left of both sequences.\<close>

fun merge_sorted :: "'a::linorder list \<Rightarrow> 'a list \<Rightarrow> 'a list" where
  "merge_sorted [] ys = ys"
| "merge_sorted xs [] = xs"
| "merge_sorted (x # xs) (y # ys) =
     (if x < y then x # merge_sorted xs (y # ys)
      else if x = y then x # merge_sorted xs ys
      else y # merge_sorted (x # xs) ys)"

definition dedup_sorted :: "'a::linorder list \<Rightarrow> 'a list" where
  "dedup_sorted xs = remdups_adj (sort xs)"

fun windows_increasing :: "'a::linorder list \<Rightarrow> bool" where
  "windows_increasing (x # y # xs) \<longleftrightarrow> x < y \<and> windows_increasing (y # xs)"
| "windows_increasing _ \<longleftrightarrow> True"

definition join_sorted_unique_assign :: "'a::linorder list \<Rightarrow> 'a list \<Rightarrow> 'a list \<times> bool" where
  "join_sorted_unique_assign left right =
     (let was_canonical = windows_increasing left;
          left1 = (if was_canonical then left else dedup_sorted left);
          merged = merge_sorted left1 (dedup_sorted right)
      in (merged, \<not> was_canonical \<or> length merged \<noteq> length left1))"

definition assign_if_changed :: "'a \<Rightarrow> 'a \<Rightarrow> 'a \<times> bool" where
  "assign_if_changed target v = (if target = v then (target, False) else (v, True))"

lemma windows_increasing_iff: "windows_increasing xs \<longleftrightarrow> canonical xs"
  by (induction xs rule: windows_increasing.induct) (auto intro: less_trans)

lemma merge_sorted_set [simp]: "set (merge_sorted xs ys) = set xs \<union> set ys"
  by (induction xs ys rule: merge_sorted.induct) auto

lemma merge_sorted_canonical: "canonical xs \<Longrightarrow> canonical ys \<Longrightarrow> canonical (merge_sorted xs ys)"
  by (induction xs ys rule: merge_sorted.induct) auto

lemma dedup_sorted_bset: "dedup_sorted xs = bset xs"
  by (rule canonical_eqI) (simp_all add: dedup_sorted_def remdups_adj_canonical)

lemma join_sorted_spec:
  "join_sorted_unique_assign left right = (bset (left @ right), bset (left @ right) \<noteq> left)"
proof -
  have m: "merge_sorted (bset left) (bset right) = bset (left @ right)"
    by (rule canonical_eqI) (simp_all add: merge_sorted_canonical)
  show ?thesis
  proof (cases "canonical left")
    case True
    have "length (bset (left @ right)) \<noteq> length left \<longleftrightarrow> bset (left @ right) \<noteq> left"
    proof -
      have "left = bset (left @ right)" if "length (bset (left @ right)) = length left"
      proof (rule canonical_eqI [OF True canonical_bset])
        have "card (set (left @ right)) = card (set left)"
          using that True by (simp add: length_bset canonical_distinct distinct_card)
        then show "set left = set (bset (left @ right))"
          using card_subset_eq [of "set (left @ right)" "set left"] by auto
      qed
      then show ?thesis by auto
    qed
    with True m show ?thesis
      by (simp add: join_sorted_unique_assign_def windows_increasing_iff dedup_sorted_bset
          bset_canonical_id [OF True])
  next
    case False
    then have "bset (left @ right) \<noteq> left" using canonical_bset by metis
    with False m show ?thesis
      by (simp add: join_sorted_unique_assign_def windows_increasing_iff dedup_sorted_bset)
  qed
qed

section \<open>Joins of strings\<close>

definition common_prefix :: "string \<Rightarrow> string \<Rightarrow> string option" where
  "common_prefix left right =
     (let n = length (takeWhile (\<lambda>(a, b). a = b) (zip left right)) in
      if n = 0 then None
      else map_option (\<lambda>k. take k left) (find (is_char_boundary left) (rev [0..<Suc n])))"

definition common_suffix :: "string \<Rightarrow> string \<Rightarrow> string option" where
  "common_suffix left right =
     (let suffix = takeWhile (\<lambda>(a, b). a = b) (zip (rev (utf8_chars left)) (rev (utf8_chars right))) in
      if suffix = [] then None else Some (concat (rev (map fst suffix))))"

definition affix_or_top :: "string option \<Rightarrow> string option \<Rightarrow> string_value" where
  "affix_or_top p s = (if p = None \<and> s = None then STop else SAffix p s)"

definition opt_pair :: "('a \<Rightarrow> 'b \<Rightarrow> 'c option) \<Rightarrow> 'a option \<Rightarrow> 'b option \<Rightarrow> 'c option" where
  "opt_pair f a b = (case (a, b) of (Some x, Some y) \<Rightarrow> f x y | _ \<Rightarrow> None)"

fun join_strings :: "string_value \<Rightarrow> string_value \<Rightarrow> string_value" where
  "join_strings SBottom v = v"
| "join_strings v SBottom = v"
| "join_strings (SConstants l) (SConstants r) =
     (let vs = bset (l @ r) in if length vs \<le> 8 then SConstants vs else STop)"
| "join_strings (SConstants vs) (SAffix p s) =
     (if length vs = 1
      then affix_or_top (Option.bind p (common_prefix (hd vs))) (Option.bind s (common_suffix (hd vs)))
      else STop)"
| "join_strings (SAffix p s) (SConstants vs) =
     (if length vs = 1
      then affix_or_top (Option.bind p (common_prefix (hd vs))) (Option.bind s (common_suffix (hd vs)))
      else STop)"
| "join_strings (SAffix lp ls) (SAffix rp rs) =
     affix_or_top (opt_pair common_prefix lp rp) (opt_pair common_suffix ls rs)"
| "join_strings (SPattern l) (SPattern r) = (if l = r then SPattern l else STop)"
| "join_strings _ _ = STop"

definition join_strings_assign :: "string_value \<Rightarrow> string_value \<Rightarrow> string_value \<times> bool" where
  "join_strings_assign left right =
     (if left = SBottom then (if right = SBottom then (left, False) else (right, True))
      else if right = SBottom then (left, False)
      else (case (left, right) of
          (SConstants vs, SConstants rs) \<Rightarrow>
            let (joined, changed) = join_sorted_unique_assign vs rs in
            if 8 < length joined then (STop, True) else (SConstants joined, changed)
        | _ \<Rightarrow>
            if (\<exists>p. left = SPattern p \<and> right = SPattern p) then (left, False)
            else if left = STop then (left, False)
            else if right = STop then (STop, True)
            else assign_if_changed left (join_strings left right)))"

lemma join_strings_assign_spec:
  "join_strings_assign l r = (join_strings l r, join_strings l r \<noteq> l)"
  by (cases l; cases r)
    (auto simp: join_strings_assign_def join_sorted_spec assign_if_changed_def Let_def affix_or_top_def)

section \<open>Joins of trust and secrecy\<close>

definition join_trust_assign :: "trust \<Rightarrow> trust \<Rightarrow> trust \<times> bool" where
  "join_trust_assign left right =
     (case (left, right) of
        (Untrusted, _) \<Rightarrow> (left, False)
      | (Trusted, Trusted) \<Rightarrow> (left, False)
      | (_, Untrusted) \<Rightarrow> (Untrusted, True)
      | (TUnknown l, TUnknown r) \<Rightarrow>
          let (joined, changed) = join_sorted_unique_assign l r in (TUnknown joined, changed)
      | (TUnknown _, _) \<Rightarrow> (left, False)
      | (_, TUnknown r) \<Rightarrow> (TUnknown r, True)
      | (TMixed, _) \<Rightarrow> (left, False)
      | (_, TMixed) \<Rightarrow> (TMixed, True))"

definition join_secrecy_assign :: "secrecy \<Rightarrow> secrecy \<Rightarrow> secrecy \<times> bool" where
  "join_secrecy_assign left right =
     (case (left, right) of
        (Secret, _) \<Rightarrow> (left, False)
      | (Public, Public) \<Rightarrow> (left, False)
      | (_, Secret) \<Rightarrow> (Secret, True)
      | (SUnknown l, SUnknown r) \<Rightarrow>
          let (joined, changed) = join_sorted_unique_assign l r in (SUnknown joined, changed)
      | (SUnknown _, _) \<Rightarrow> (left, False)
      | (_, SUnknown r) \<Rightarrow> (SUnknown r, True)
      | (Sensitive, _) \<Rightarrow> (left, False)
      | (_, Sensitive) \<Rightarrow> (Sensitive, True))"

definition join_provenance_assign :: "provenance list \<Rightarrow> provenance list \<Rightarrow> provenance list \<times> bool" where
  "join_provenance_assign left right = join_sorted_unique_assign left right"

abbreviation incompatible_reason :: unknown_reason where
  "incompatible_reason \<equiv> UnsupportedSyntax ''incompatible value join''"

section \<open>Joins of values\<close>

definition opt_zip_with :: "('a \<Rightarrow> 'a \<Rightarrow> 'a) \<Rightarrow> 'a option \<Rightarrow> 'a option \<Rightarrow> 'a option" where
  "opt_zip_with f a b = opt_pair (\<lambda>x y. Some (f x y)) a b"

definition smin :: "i64 \<Rightarrow> i64 \<Rightarrow> i64" where "smin a b = (if a <=s b then a else b)"
definition smax :: "i64 \<Rightarrow> i64 \<Rightarrow> i64" where "smax a b = (if a <=s b then b else a)"

definition join_flat :: "avalue \<Rightarrow> avalue \<Rightarrow> avalue" where
  "join_flat left right =
     (case (left, right) of
        (VNull, VNull) \<Rightarrow> VNull
      | (VBoolean a, VBoolean b) \<Rightarrow> VBoolean (if a = b then a else AMaybe)
      | (VNumber lmin lmax, VNumber rmin rmax) \<Rightarrow>
          VNumber (opt_zip_with smin lmin rmin) (opt_zip_with smax lmax rmax)
      | (VString l, VString r) \<Rightarrow> VString (join_strings l r)
      | (VList _, VList _) \<Rightarrow> VList None
      | (VObject _, VObject _) \<Rightarrow> VObject None
      | (VUnknown l, VUnknown r) \<Rightarrow> VUnknown (deduplicate_reasons (l @ r))
      | (VUnknown l, _) \<Rightarrow> VUnknown (deduplicate_reasons (l @ [incompatible_reason]))
      | (_, VUnknown r) \<Rightarrow> VUnknown (deduplicate_reasons (r @ [incompatible_reason]))
      | _ \<Rightarrow> VUnknown [incompatible_reason])"

definition join_type :: "value_type \<Rightarrow> value_type \<Rightarrow> value_type" where
  "join_type l r = (if l = TyNever then r else if r = TyNever \<or> l = r then l else TyDynamic)"

text \<open>
  The body of \<^verbatim>\<open>join_value_assign\<close> with the join of the nested values as an argument. The loop over
  the right object reads the entry of the original left object: its keys are distinct, so no
  iteration sees an entry another one wrote.
\<close>

definition join_elements ::
  "(abstract_value \<Rightarrow> abstract_value \<Rightarrow> abstract_value \<times> bool) \<Rightarrow> abstract_value list \<Rightarrow>
   abstract_value list \<Rightarrow> abstract_value list \<times> bool" where
  "join_elements join left right =
     (let rs = map (\<lambda>(l, r). join l r) (zip left right) in
      (map fst rs, fold (\<lambda>r changed. snd r \<or> changed) rs False))"

definition join_field ::
  "(abstract_value \<Rightarrow> abstract_value \<Rightarrow> abstract_value \<times> bool) \<Rightarrow> (string \<times> abstract_value) list \<Rightarrow>
   string \<times> abstract_value \<Rightarrow> (string \<times> abstract_value) list \<times> bool \<Rightarrow> (string \<times> abstract_value) list \<times> bool" where
  "join_field join left = (\<lambda>(key, r) (m, changed).
     (case bmap_get left key of
        Some l \<Rightarrow> let (joined, c) = join l r in (bmap_insert key joined m, changed \<or> c)
      | None \<Rightarrow> (bmap_insert key r m, True)))"

definition join_value_step ::
  "(abstract_value \<Rightarrow> abstract_value \<Rightarrow> abstract_value \<times> bool) \<Rightarrow> avalue \<Rightarrow> avalue \<Rightarrow> avalue \<times> bool" where
  "join_value_step join left right =
     (case (left, right) of
        (VString l, VString r) \<Rightarrow> let (s, c) = join_strings_assign l r in (VString s, c)
      | (VList (Some ls), VList (Some rs)) \<Rightarrow>
          if length ls = length rs
          then let (vs, c) = join_elements join ls rs in (VList (Some vs), c)
          else assign_if_changed left (join_flat left right)
      | (VObject (Some ls), VObject (Some rs)) \<Rightarrow>
          let (m, c) = fold (join_field join ls) rs (ls, False) in (VObject (Some m), c)
      | (VUnknown l, VUnknown r) \<Rightarrow> let (rs, c) = join_sorted_unique_assign l r in (VUnknown rs, c)
      | (VUnknown l, _) \<Rightarrow>
          let (rs, c) = join_sorted_unique_assign l [incompatible_reason] in (VUnknown rs, c)
      | (_, VUnknown r) \<Rightarrow>
          (VUnknown (fst (join_sorted_unique_assign r [incompatible_reason])), True)
      | _ \<Rightarrow> assign_if_changed left (join_flat left right))"

definition children :: "avalue \<Rightarrow> abstract_value set" where
  "children v = (case v of
     VList (Some vs) \<Rightarrow> set vs | VObject (Some fs) \<Rightarrow> snd ` set fs | _ \<Rightarrow> {})"

lemma join_elements_cong [fundef_cong]:
  assumes "ls = ls'" "rs = rs'" "\<And>a b. a \<in> set ls' \<Longrightarrow> join a b = join' a b"
  shows "join_elements join ls rs = join_elements join' ls' rs'"
proof -
  have "map (\<lambda>(l, r). join l r) (zip ls rs) = map (\<lambda>(l, r). join' l r) (zip ls' rs')"
    using assms by (auto dest: set_zip_leftD)
  then show ?thesis by (simp add: join_elements_def)
qed

lemma join_value_step_cong [fundef_cong]:
  assumes "l = l'" "r = r'" "\<And>a b. a \<in> children l' \<Longrightarrow> join a b = join' a b"
  shows "join_value_step join l r = join_value_step join' l' r'"
proof -
  have f: "join_field join ls = join_field join' ls" if "l' = VObject (Some ls)" for ls
    using that assms(3) by (force simp: fun_eq_iff join_field_def children_def dest: map_of_SomeD split: option.splits)
  have e: "join_elements join ls rs = join_elements join' ls rs" if "l' = VList (Some ls)" for ls rs
    using that assms(3) by (intro join_elements_cong) (auto simp: children_def)
  show ?thesis
    unfolding assms(1,2) join_value_step_def
    by (cases l'; cases r') (auto simp: e f split: option.splits)
qed

lemma size_list_member: "x \<in> set xs \<Longrightarrow> f x \<le> size_list f xs"
  by (induction xs) auto

lemma children_size:
  assumes "a \<in> children v"
  shows "size a < size v"
proof -
  consider vs where "v = VList (Some vs)" "a \<in> set vs" | k fs where "v = VObject (Some fs)" "(k, a) \<in> set fs"
    using assms by (cases v) (auto simp: children_def split: option.splits)
  then show ?thesis
  proof cases
    case 1
    with size_list_member [of a _ size] show ?thesis by (fastforce simp: less_Suc_eq_le)
  next
    case 2
    with size_list_member [of "(k, a)" fs "size_prod (\<lambda>x. 0) size"] show ?thesis
      by (simp add: less_Suc_eq_le)
  qed
qed

lemma size_av_value: "size (av_value x) < size x"
  by (cases x) simp

function join_assign :: "abstract_value \<Rightarrow> abstract_value \<Rightarrow> abstract_value \<times> bool" where
  "join_assign left right =
     (if av_value left = VBottom then (if left = right then (left, False) else (right, True))
      else if av_value right = VBottom then (left, False)
      else
        let ty = join_type (av_type left) (av_type right);
            (v, v_changed) = join_value_step (\<lambda>a b. join_assign a b) (av_value left) (av_value right);
            (t, t_changed) = join_trust_assign (av_trust left) (av_trust right);
            (s, s_changed) = join_secrecy_assign (av_secrecy left) (av_secrecy right);
            (p, p_changed) = join_provenance_assign (av_provenance left) (av_provenance right)
        in (AV ty v t s p, av_type left \<noteq> ty \<or> v_changed \<or> t_changed \<or> s_changed \<or> p_changed))"
  by pat_completeness auto
termination
  by (relation "measure (\<lambda>(l, r). size l)")
    (auto dest!: children_size intro: less_trans [OF _ size_av_value])

declare join_assign.simps [simp del]

definition join_abstract :: "abstract_value \<Rightarrow> abstract_value \<Rightarrow> abstract_value" where
  "join_abstract left right = fst (join_assign left right)"

definition join_value_assign :: "avalue \<Rightarrow> avalue \<Rightarrow> avalue \<times> bool" where
  "join_value_assign left right = join_value_step join_assign left right"

definition bmap_get_or :: "'v \<Rightarrow> ('k \<times> 'v) list \<Rightarrow> 'k \<Rightarrow> 'v" where
  "bmap_get_or d m k = (case bmap_get m k of Some v \<Rightarrow> v | None \<Rightarrow> d)"

text \<open>\<^verbatim>\<open>join_value\<close> with all its arms.\<close>

definition join_value :: "avalue \<Rightarrow> avalue \<Rightarrow> avalue" where
  "join_value left right =
     (case (left, right) of
        (VList (Some ls), VList (Some rs)) \<Rightarrow>
          if length ls = length rs
          then VList (Some (map (\<lambda>(a, b). join_abstract a b) (zip ls rs)))
          else join_flat left right
      | (VObject (Some ls), VObject (Some rs)) \<Rightarrow>
          VObject (Some (map (\<lambda>k. (k, join_abstract (bmap_get_or default_value ls k) (bmap_get_or default_value rs k)))
            (bset (bmap_keys ls @ bmap_keys rs))))
      | _ \<Rightarrow> join_flat left right)"

section \<open>Source remapping\<close>

definition remap_id :: "(source_id \<Rightarrow> source_id option) \<Rightarrow> source_id \<Rightarrow> source_id" where
  "remap_id f i = (case f i of Some j \<Rightarrow> j | None \<Rightarrow> i)"

definition remap_span :: "(source_id \<Rightarrow> source_id option) \<Rightarrow> span \<Rightarrow> span" where
  "remap_span f s = s\<lparr>sp_source := remap_id f (sp_source s)\<rparr>"

definition remap_provenance :: "(source_id \<Rightarrow> source_id option) \<Rightarrow> provenance \<Rightarrow> provenance" where
  "remap_provenance f p = p\<lparr>pv_span := remap_span f (pv_span p)\<rparr>"

primrec av_remap_sources :: "(source_id \<Rightarrow> source_id option) \<Rightarrow> abstract_value \<Rightarrow> abstract_value"
and remap_value_sources :: "(source_id \<Rightarrow> source_id option) \<Rightarrow> avalue \<Rightarrow> avalue" where
  "av_remap_sources f (AV ty v t s p) = AV ty (remap_value_sources f v) t s (map (remap_provenance f) p)"
| "remap_value_sources f VBottom = VBottom"
| "remap_value_sources f VNull = VNull"
| "remap_value_sources f (VBoolean b) = VBoolean b"
| "remap_value_sources f (VNumber a b) = VNumber a b"
| "remap_value_sources f (VString s) = VString s"
| "remap_value_sources f (VList vs) = VList (map_option (map (av_remap_sources f)) vs)"
| "remap_value_sources f (VObject fs) = VObject (map_option (map (map_prod id (av_remap_sources f))) fs)"
| "remap_value_sources f (VUnknown rs) = VUnknown rs"

section \<open>The joins report exactly whether they changed their target\<close>

text \<open>The representation invariant: objects are maps, at every depth.\<close>

definition keys_ok :: "avalue \<Rightarrow> bool" where
  "keys_ok v = (case v of VObject (Some fs) \<Rightarrow> bmap_ok fs | _ \<Rightarrow> True)"

function aval_ok :: "abstract_value \<Rightarrow> bool" where
  "aval_ok x \<longleftrightarrow> keys_ok (av_value x) \<and> (\<forall>c \<in> children (av_value x). aval_ok c)"
  by pat_completeness auto
termination
  by (relation "measure size") (auto dest!: children_size intro: less_trans [OF _ size_av_value])

declare aval_ok.simps [simp del]

lemma join_field_fold:
  assumes "distinct (map fst rs)" "bmap_ok m" "bmap_ok ls"
  shows "bmap_ok (fst (fold (join_field join ls) rs (m, c)))
    \<and> bmap_get (fst (fold (join_field join ls) rs (m, c))) k =
       (case map_of rs k of
          None \<Rightarrow> bmap_get m k
        | Some r \<Rightarrow> Some (case bmap_get ls k of None \<Rightarrow> r | Some l \<Rightarrow> fst (join l r)))
    \<and> snd (fold (join_field join ls) rs (m, c)) =
       (c \<or> (\<exists>(k, r) \<in> set rs. case bmap_get ls k of None \<Rightarrow> True | Some l \<Rightarrow> snd (join l r)))"
  using assms
proof (induction rs arbitrary: m c)
  case (Cons kr rs)
  obtain k' r where kr: "kr = (k', r)" by (cases kr)
  have distinct: "distinct (map fst rs)" "k' \<notin> fst ` set rs" using Cons.prems kr by auto
  then have none: "map_of rs k' = None" by (metis map_of_eq_None_iff)
  show ?case
  proof (cases "bmap_get ls k'")
    case None
    with Cons.IH [OF distinct(1) bmap_ok_insert [OF Cons.prems(2)] Cons.prems(3), of k' r True] none
    show ?thesis by (auto simp: kr join_field_def bmap_get_insert [OF Cons.prems(2)] split: option.split)
  next
    case (Some l)
    obtain j d where j: "join l r = (j, d)" by (cases "join l r")
    from Cons.IH [OF distinct(1) bmap_ok_insert [OF Cons.prems(2)] Cons.prems(3), of k' j "c \<or> d"] none Some j
    show ?thesis by (auto simp: kr join_field_def bmap_get_insert [OF Cons.prems(2)] split: option.split)
  qed
qed simp

lemma join_object_exact:
  assumes ok: "bmap_ok ls" "bmap_ok rs"
    and exact: "\<And>l r. l \<in> snd ` set ls \<Longrightarrow> r \<in> snd ` set rs \<Longrightarrow> snd (join l r) \<longleftrightarrow> fst (join l r) \<noteq> l"
  shows "snd (fold (join_field join ls) rs (ls, False)) \<longleftrightarrow> fst (fold (join_field join ls) rs (ls, False)) \<noteq> ls"
proof -
  let ?m = "fst (fold (join_field join ls) rs (ls, False))"
  note spec = join_field_fold [OF bmap_ok_distinct [OF ok(2)] ok(1) ok(1), of join False]
  have rs: "(k, r) \<in> set rs \<longleftrightarrow> bmap_get rs k = Some r" for k r
    using bmap_ok_distinct [OF ok(2)] by (simp add: map_of_eq_Some_iff)
  have get: "bmap_get ?m k = bmap_get ls k \<longleftrightarrow>
      (\<forall>r. bmap_get rs k = Some r \<longrightarrow> (\<exists>l. bmap_get ls k = Some l \<and> fst (join l r) = l))" for k
    using spec [of k] by (cases "bmap_get rs k"; cases "bmap_get ls k") auto
  have same: "fst (join l r) = l \<longleftrightarrow> \<not> snd (join l r)" if "bmap_get ls k = Some l" "bmap_get rs k = Some r" for k l r
    using exact [of l r] that by (force dest: map_of_SomeD)
  have "?m = ls \<longleftrightarrow> (\<forall>k. bmap_get ?m k = bmap_get ls k)"
    using bmap_ext [of ?m ls] spec ok by (auto simp: fun_eq_iff)
  also have "\<dots> \<longleftrightarrow> (\<forall>k r. bmap_get rs k = Some r \<longrightarrow> (\<exists>l. bmap_get ls k = Some l \<and> \<not> snd (join l r)))"
    unfolding get using same by blast
  also have "\<dots> \<longleftrightarrow> \<not> snd (fold (join_field join ls) rs (ls, False))"
    using spec by (fastforce simp: rs split: option.splits)
  finally show ?thesis by blast
qed

lemma fold_or: "fold (\<lambda>r changed. snd r \<or> changed) rs c \<longleftrightarrow> c \<or> (\<exists>r \<in> set rs. snd r)"
  by (induction rs arbitrary: c) auto

lemma join_elements_exact:
  assumes "length ls = length rs"
    and "\<And>l r. l \<in> set ls \<Longrightarrow> r \<in> set rs \<Longrightarrow> snd (join l r) \<longleftrightarrow> fst (join l r) \<noteq> l"
  shows "snd (join_elements join ls rs) \<longleftrightarrow> fst (join_elements join ls rs) \<noteq> ls"
  using assms
proof (induction ls rs rule: list_induct2)
  case (Cons l ls r rs)
  then show ?case by (simp add: join_elements_def fold_or Let_def)
qed (simp add: join_elements_def)

lemma join_value_step_exact:
  assumes ok: "keys_ok left" "keys_ok right"
    and exact: "\<And>l r. l \<in> children left \<Longrightarrow> r \<in> children right \<Longrightarrow> snd (join l r) \<longleftrightarrow> fst (join l r) \<noteq> l"
  shows "snd (join_value_step join left right) \<longleftrightarrow> fst (join_value_step join left right) \<noteq> left"
proof -
  consider (elements) ls rs where "left = VList (Some ls)" "right = VList (Some rs)" "length ls = length rs"
    | (object) ls rs where "left = VObject (Some ls)" "right = VObject (Some rs)"
    | (other) "\<And>ls rs. left = VList (Some ls) \<Longrightarrow> right = VList (Some rs) \<Longrightarrow> length ls \<noteq> length rs"
        "\<And>ls rs. left = VObject (Some ls) \<Longrightarrow> right = VObject (Some rs) \<Longrightarrow> False"
    by blast
  then show ?thesis
  proof cases
    case (elements ls rs)
    have "snd (join_elements join ls rs) \<longleftrightarrow> fst (join_elements join ls rs) \<noteq> ls"
      by (rule join_elements_exact) (use elements exact in \<open>auto simp: children_def\<close>)
    with elements show ?thesis by (cases "join_elements join ls rs") (simp add: join_value_step_def)
  next
    case (object ls rs)
    have "snd (fold (join_field join ls) rs (ls, False)) \<longleftrightarrow> fst (fold (join_field join ls) rs (ls, False)) \<noteq> ls"
      by (rule join_object_exact) (use object ok exact in \<open>auto simp: children_def keys_ok_def\<close>)
    with object show ?thesis
      by (cases "fold (join_field join ls) rs (ls, False)") (simp add: join_value_step_def)
  next
    case other
    then show ?thesis
      by (cases left; cases right)
        (auto simp: join_value_step_def join_strings_assign_spec join_sorted_spec assign_if_changed_def
          split: option.splits)
  qed
qed

lemma join_trust_exact: "snd (join_trust_assign l r) \<longleftrightarrow> fst (join_trust_assign l r) \<noteq> l"
  by (cases l; cases r) (auto simp: join_trust_assign_def join_sorted_spec)

lemma join_secrecy_exact: "snd (join_secrecy_assign l r) \<longleftrightarrow> fst (join_secrecy_assign l r) \<noteq> l"
  by (cases l; cases r) (auto simp: join_secrecy_assign_def join_sorted_spec)

lemma join_provenance_exact: "snd (join_provenance_assign l r) \<longleftrightarrow> fst (join_provenance_assign l r) \<noteq> l"
  by (simp add: join_provenance_assign_def join_sorted_spec)

lemma join_assign_step:
  "av_value l \<noteq> VBottom \<Longrightarrow> av_value r \<noteq> VBottom \<Longrightarrow> join_assign l r =
     (let ty = join_type (av_type l) (av_type r);
          v = join_value_assign (av_value l) (av_value r);
          t = join_trust_assign (av_trust l) (av_trust r);
          s = join_secrecy_assign (av_secrecy l) (av_secrecy r);
          p = join_provenance_assign (av_provenance l) (av_provenance r)
      in (AV ty (fst v) (fst t) (fst s) (fst p),
          av_type l \<noteq> ty \<or> snd v \<or> snd t \<or> snd s \<or> snd p))"
  by (subst join_assign.simps) (simp add: Let_def case_prod_unfold join_value_assign_def)

lemma join_assign_exact:
  "aval_ok l \<Longrightarrow> aval_ok r \<Longrightarrow> snd (join_assign l r) \<longleftrightarrow> fst (join_assign l r) \<noteq> l"
proof (induction l r rule: join_assign.induct)
  case (1 l r)
  show ?case
  proof (cases "av_value l = VBottom \<or> av_value r = VBottom")
    case True
    then show ?thesis by (subst (1 2) join_assign.simps) auto
  next
    case False
    have step: "snd (join_value_assign (av_value l) (av_value r))
        \<longleftrightarrow> fst (join_value_assign (av_value l) (av_value r)) \<noteq> av_value l"
      unfolding join_value_assign_def
      by (rule join_value_step_exact)
        (use "1.prems" [unfolded aval_ok.simps [of l] aval_ok.simps [of r]] "1.IH" False in auto)
    with False show ?thesis
      by (cases l) (auto simp: join_assign_step Let_def join_trust_exact join_secrecy_exact join_provenance_exact)
  qed
qed

definition elementwise :: "avalue \<Rightarrow> avalue \<Rightarrow> bool" where
  "elementwise left right = (case (left, right) of
     (VList (Some ls), VList (Some rs)) \<Rightarrow> length ls = length rs
   | (VObject (Some _), VObject (Some _)) \<Rightarrow> True
   | _ \<Rightarrow> False)"

lemma join_value_step_leaf:
  assumes "\<not> elementwise left right"
  shows "(fst (join_value_step join left right) = left \<or> children (fst (join_value_step join left right)) = {})
    \<and> (keys_ok left \<longrightarrow> keys_ok (fst (join_value_step join left right)))"
proof -
  have "children (join_flat left right) = {}" "keys_ok (join_flat left right)"
    by (cases left; cases right; simp add: join_flat_def children_def keys_ok_def)+
  then have "fst (assign_if_changed left (join_flat left right)) = left \<or> children (fst (assign_if_changed left (join_flat left right))) = {}"
      "keys_ok left \<longrightarrow> keys_ok (fst (assign_if_changed left (join_flat left right)))"
    by (simp_all add: assign_if_changed_def)
  then show ?thesis
    using assms
    by (cases left; cases right)
      (auto simp: elementwise_def join_value_step_def case_prod_unfold Let_def children_def keys_ok_def split: option.splits)
qed

lemma elementwise_cases:
  assumes "elementwise left right"
  obtains (elements) ls rs where "left = VList (Some ls)" "right = VList (Some rs)" "length ls = length rs"
    | (object) ls rs where "left = VObject (Some ls)" "right = VObject (Some rs)"
  using assms by (cases left; cases right) (auto simp: elementwise_def split: option.splits)

lemma join_value_step_keeps:
  assumes ok: "keys_ok left" "keys_ok right"
    and q: "\<forall>c \<in> children left. Q c" "\<forall>c \<in> children right. Q c"
    and join: "\<And>l r. l \<in> children left \<Longrightarrow> r \<in> children right \<Longrightarrow> Q (fst (join l r))"
  shows "keys_ok (fst (join_value_step join left right)) \<and> (\<forall>c \<in> children (fst (join_value_step join left right)). Q c)"
proof -
  consider "elementwise left right" | "\<not> elementwise left right" by blast
  then show ?thesis
  proof cases
    case 2
    from join_value_step_leaf [OF this, of join] ok q show ?thesis by (metis empty_iff)
  next
    case 1
    then show ?thesis
    proof (cases rule: elementwise_cases)
    case (elements ls rs)
    then show ?thesis
      using join by (auto simp: join_value_step_def join_elements_def Let_def children_def keys_ok_def
          dest: set_zip_leftD set_zip_rightD)
  next
    case (object ls rs)
    let ?m = "fst (fold (join_field join ls) rs (ls, False))"
    have oks: "bmap_ok ls" "bmap_ok rs" using ok object by (simp_all add: keys_ok_def)
    note spec = join_field_fold [OF bmap_ok_distinct [OF oks(2)] oks(1) oks(1), of join False]
    have m: "bmap_ok ?m" using spec by blast
    have ls: "(k, c) \<in> set ls \<Longrightarrow> Q c" and rs: "(k, c) \<in> set rs \<Longrightarrow> Q c" for k c
      using q object by (auto simp: children_def)
    have both: "(k, l) \<in> set ls \<Longrightarrow> (k', r) \<in> set rs \<Longrightarrow> Q (fst (join l r))" for k k' l r
      using join [of l r] object by (force simp: children_def)
    have "\<forall>c \<in> snd ` set ?m. Q c"
    proof
      fix c assume "c \<in> snd ` set ?m"
      then obtain k where "bmap_get ?m k = Some c"
        using map_of_is_SomeI [OF bmap_ok_distinct [OF m]] by fastforce
      with spec [of k] show "Q c"
        by (cases "bmap_get rs k"; cases "bmap_get ls k")
          (auto dest!: map_of_SomeD intro: ls rs both)
    qed
    with m object show ?thesis
      by (cases "fold (join_field join ls) rs (ls, False)")
        (simp add: join_value_step_def children_def keys_ok_def)
    qed
  qed
qed

lemma join_assign_ok: "aval_ok l \<Longrightarrow> aval_ok r \<Longrightarrow> aval_ok (fst (join_assign l r))"
proof (induction l r rule: join_assign.induct)
  case (1 l r)
  show ?case
  proof (cases "av_value l = VBottom \<or> av_value r = VBottom")
    case True
    with "1.prems" show ?thesis by (subst join_assign.simps) auto
  next
    case False
    have "keys_ok (fst (join_value_step join_assign (av_value l) (av_value r)))
      \<and> (\<forall>c \<in> children (fst (join_value_step join_assign (av_value l) (av_value r))). aval_ok c)"
      by (rule join_value_step_keeps)
        (use "1.prems" [unfolded aval_ok.simps [of l] aval_ok.simps [of r]] "1.IH" False in auto)
    with False show ?thesis
      by (subst aval_ok.simps) (simp add: join_assign_step Let_def join_value_assign_def)
  qed
qed

text \<open>
  \<open>join_assign\<close> returns true exactly when the resulting abstract value differs from the value on
  entry, and the result is again a value whose objects have strictly increasing keys.
\<close>

theorem join_assign_flag_exact:
  assumes "aval_ok l" "aval_ok r"
  shows "(snd (join_assign l r) \<longleftrightarrow> fst (join_assign l r) \<noteq> l) \<and> aval_ok (fst (join_assign l r))"
  using assms join_assign_exact join_assign_ok by blast

lemma join_assign_flag_exact_witness:
  "let l = string_constant ''a'' Trusted Public []; r = string_constant ''b'' Untrusted Public [] in
   snd (join_assign l r) \<and> aval_ok (fst (join_assign l r))"
proof -
  define l where "l = string_constant ''a'' Trusted Public []"
  define r where "r = string_constant ''b'' Untrusted Public []"
  have ok: "aval_ok l" "aval_ok r"
    by (subst aval_ok.simps, simp add: l_def r_def string_constant_def keys_ok_def children_def)+
  have "av_trust (fst (join_assign l r)) = Untrusted" "av_trust l = Trusted"
    by (simp_all add: l_def r_def string_constant_def join_assign_step Let_def join_trust_assign_def)
  then have "fst (join_assign l r) \<noteq> l" by auto
  with join_assign_flag_exact [OF ok] show ?thesis
    by (simp add: Let_def l_def r_def)
qed

end
