(* ===== verification/Value_Semantics.thy ===== *)
theory Value_Semantics
  imports Abstract_Values "HOL-Library.Multiset"
begin

text \<open>
  What abstract values mean. \<open>describes\<close> relates an abstract value to the configuration values it
  stands for; the theorems show that the join of \<^verbatim>\<open>src/domain/abstract_value.rs\<close>
  over-approximates both arguments, that its in-place and out-of-place forms agree, and that trust
  and secrecy form semilattices.
\<close>

section \<open>What an abstract value stands for\<close>

text \<open>
  Concrete configuration values, and the ones an abstract value describes. \<open>matches\<close> interprets a
  pattern, which the code never looks into. An object describes the objects whose fields it knows;
  a field may be absent.
\<close>

datatype cvalue = CNull | CBool bool | CNum int | CStr string | CList "cvalue list"
  | CObj "(string \<times> cvalue) list"

definition type_matches :: "value_type \<Rightarrow> cvalue \<Rightarrow> bool" where
  "type_matches ty c = (case ty of
     TyNever \<Rightarrow> False
   | TyNull \<Rightarrow> c = CNull
   | TyBool \<Rightarrow> (case c of CBool _ \<Rightarrow> True | _ \<Rightarrow> False)
   | TyNumber \<Rightarrow> (case c of CNum _ \<Rightarrow> True | _ \<Rightarrow> False)
   | TyString \<Rightarrow> (case c of CStr _ \<Rightarrow> True | _ \<Rightarrow> False)
   | TyList \<Rightarrow> (case c of CList _ \<Rightarrow> True | _ \<Rightarrow> False)
   | TyObject \<Rightarrow> (case c of CObj _ \<Rightarrow> True | _ \<Rightarrow> False)
   | TyDynamic \<Rightarrow> True)"

definition string_describes :: "(string \<Rightarrow> string \<Rightarrow> bool) \<Rightarrow> string_value \<Rightarrow> string \<Rightarrow> bool" where
  "string_describes matches s t = (case s of
     SBottom \<Rightarrow> False
   | SConstants vs \<Rightarrow> t \<in> set vs
   | SAffix p q \<Rightarrow> (case p of None \<Rightarrow> True | Some x \<Rightarrow> prefix x t) \<and> (case q of None \<Rightarrow> True | Some y \<Rightarrow> suffix y t)
   | SPattern p \<Rightarrow> matches p t
   | STop \<Rightarrow> True)"

definition number_describes :: "i64 option \<Rightarrow> i64 option \<Rightarrow> int \<Rightarrow> bool" where
  "number_describes lo hi n \<longleftrightarrow>
     (case lo of None \<Rightarrow> True | Some a \<Rightarrow> sint a \<le> n) \<and> (case hi of None \<Rightarrow> True | Some b \<Rightarrow> n \<le> sint b)"

primrec describes :: "(string \<Rightarrow> string \<Rightarrow> bool) \<Rightarrow> abstract_value \<Rightarrow> cvalue \<Rightarrow> bool"
and value_describes :: "(string \<Rightarrow> string \<Rightarrow> bool) \<Rightarrow> avalue \<Rightarrow> cvalue \<Rightarrow> bool" where
  "describes m (AV ty v t s p) = (\<lambda>c. type_matches ty c \<and> value_describes m v c)"
| "value_describes m VBottom = (\<lambda>c. False)"
| "value_describes m VNull = (\<lambda>c. c = CNull)"
| "value_describes m (VBoolean b) = (\<lambda>c. case c of CBool x \<Rightarrow> b = AMaybe \<or> b = (if x then ATrue else AFalse) | _ \<Rightarrow> False)"
| "value_describes m (VNumber lo hi) = (\<lambda>c. case c of CNum n \<Rightarrow> number_describes lo hi n | _ \<Rightarrow> False)"
| "value_describes m (VString s) = (\<lambda>c. case c of CStr t \<Rightarrow> string_describes m s t | _ \<Rightarrow> False)"
| "value_describes m (VList vs) = (\<lambda>c. case c of
     CList xs \<Rightarrow> (case map_option (map (describes m)) vs of None \<Rightarrow> True | Some ps \<Rightarrow> list_all2 (\<lambda>p x. p x) ps xs)
   | _ \<Rightarrow> False)"
| "value_describes m (VObject fs) = (\<lambda>c. case c of
     CObj xs \<Rightarrow> (case map_option (map (map_prod id (describes m))) fs of None \<Rightarrow> True
       | Some ps \<Rightarrow> \<forall>(k, x) \<in> set xs. case map_of ps k of None \<Rightarrow> False | Some p \<Rightarrow> p x)
   | _ \<Rightarrow> False)"
| "value_describes m (VUnknown rs) = (\<lambda>c. True)"

lemma map_of_map_prod: "map_of (map (map_prod id f) fs) k = map_option f (map_of fs k)"
  by (induction fs) auto

lemma describes_list [simp]:
  "value_describes m (VList (Some vs)) (CList xs) = list_all2 (describes m) vs xs"
  by (simp add: list.rel_map)

lemma describes_object [simp]:
  "value_describes m (VObject (Some fs)) (CObj xs) =
     (\<forall>(k, x) \<in> set xs. \<exists>v. bmap_get fs k = Some v \<and> describes m v x)"
proof -
  have "(case map_option (describes m) x of None \<Rightarrow> False | Some p \<Rightarrow> p y) \<longleftrightarrow> (\<exists>v. x = Some v \<and> describes m v y)" for x y
    by (cases x) simp_all
  then show ?thesis by (simp add: map_of_map_prod)
qed

lemma describes_iff: "describes m x c \<longleftrightarrow> type_matches (av_type x) c \<and> value_describes m (av_value x) c"
  by (cases x) simp

lemma takeWhile_zip_take:
  "take (length (takeWhile (\<lambda>(a, b). a = b) (zip l r))) l = take (length (takeWhile (\<lambda>(a, b). a = b) (zip l r))) r"
  by (induction l r rule: list_induct2') auto

lemma common_prefix_sound: "common_prefix l r = Some p \<Longrightarrow> prefix p l \<and> prefix p r"
proof -
  let ?n = "length (takeWhile (\<lambda>(a, b). a = b) (zip l r))"
  assume "common_prefix l r = Some p"
  then obtain k where f: "find (is_char_boundary l) (rev [0..<Suc ?n]) = Some k" and p: "p = take k l"
    by (auto simp: common_prefix_def Let_def simp del: upt_Suc split: if_splits)
  from find_member [OF f] p have k: "k \<le> ?n" "p = take k l" by auto
  from k have "p = take k r" using takeWhile_zip_take [of l r] by (metis min.absorb1 take_take)
  with k show ?thesis using take_is_prefix by metis
qed

lemma concat_utf8_chars [simp]: "concat (utf8_chars s) = s"
  by (induction s rule: utf8_chars.induct) simp_all

lemma common_suffix_sound:
  assumes "common_suffix l r = Some s"
  shows "suffix s l \<and> suffix s r"
proof -
  let ?n = "length (takeWhile (\<lambda>(a, b). a = b) (zip (rev (utf8_chars l)) (rev (utf8_chars r))))"
  have part: "suffix (concat (rev (take n (rev (utf8_chars t))))) t" for n t
    by (metis concat_append concat_utf8_chars append_take_drop_id rev_append rev_rev_ident suffixI)
  have eq: "map fst (takeWhile (\<lambda>(a, b). a = b) (zip xs ys)) =
      take (length (takeWhile (\<lambda>(a, b). a = b) (zip xs ys))) xs" for xs ys :: "string list"
    by (induction xs ys rule: list_induct2') auto
  have "s = concat (rev (take ?n (rev (utf8_chars l))))"
    using assms by (auto simp: common_suffix_def Let_def eq split: if_splits)
  with part show ?thesis using takeWhile_zip_take by metis
qed

lemma affix_parts:
  "string_describes m (SAffix p q) t \<longleftrightarrow>
     (\<forall>x. p = Some x \<longrightarrow> prefix x t) \<and> (\<forall>y. q = Some y \<longrightarrow> suffix y t)"
  by (cases p; cases q) (simp_all add: string_describes_def)

lemma affix_or_topI:
  "(\<And>x. p = Some x \<Longrightarrow> prefix x t) \<Longrightarrow> (\<And>y. q = Some y \<Longrightarrow> suffix y t) \<Longrightarrow>
     string_describes m (affix_or_top p q) t"
  using affix_parts [of m p q t] by (simp add: affix_or_top_def) (simp add: string_describes_def)

lemma bind_prefix: "Option.bind p (common_prefix v) = Some x \<Longrightarrow> \<exists>y. p = Some y \<and> prefix x v \<and> prefix x y"
  by (cases p) (auto dest: common_prefix_sound)

lemma bind_suffix: "Option.bind p (common_suffix v) = Some x \<Longrightarrow> \<exists>y. p = Some y \<and> suffix x v \<and> suffix x y"
  by (cases p) (auto dest: common_suffix_sound)

lemma pair_prefix: "opt_pair common_prefix a b = Some x \<Longrightarrow> \<exists>u v. a = Some u \<and> b = Some v \<and> prefix x u \<and> prefix x v"
  by (cases a; cases b) (auto simp: opt_pair_def dest: common_prefix_sound)

lemma pair_suffix: "opt_pair common_suffix a b = Some x \<Longrightarrow> \<exists>u v. a = Some u \<and> b = Some v \<and> suffix x u \<and> suffix x v"
  by (cases a; cases b) (auto simp: opt_pair_def dest: common_suffix_sound)

lemma constant_affix_sound:
  assumes "t \<in> set vs \<or> string_describes m (SAffix p q) t" "length vs = 1"
  shows "string_describes m (affix_or_top (Option.bind p (common_prefix (hd vs))) (Option.bind q (common_suffix (hd vs)))) t"
proof -
  from assms(2) obtain v where v: "vs = [v]" by (auto simp: length_Suc_conv)
  show ?thesis
    by (rule affix_or_topI)
      (use assms(1) v in \<open>auto simp: affix_parts dest!: bind_prefix bind_suffix
        intro: prefix_order.trans suffix_order.trans\<close>)
qed

lemma join_strings_sound:
  assumes "string_describes m l t \<or> string_describes m r t"
  shows "string_describes m (join_strings l r) t"
proof -
  have aff: "string_describes m (join_strings (SAffix a b) (SAffix c d)) t"
    if "string_describes m (SAffix a b) t \<or> string_describes m (SAffix c d) t" for a b c d
    unfolding join_strings.simps
    by (rule affix_or_topI)
      (use that in \<open>auto simp: affix_parts dest!: pair_prefix pair_suffix
        intro: prefix_order.trans suffix_order.trans\<close>)
  have top: "string_describes m STop t" by (simp add: string_describes_def)
  have con: "string_describes m (SConstants vs) t \<longleftrightarrow> t \<in> set vs" for vs by (simp add: string_describes_def)
  have bot: "\<not> string_describes m SBottom t" by (simp add: string_describes_def)
  show ?thesis
    using assms aff constant_affix_sound [of t _ m] top bot
    by (cases l; cases r) (auto simp: con Let_def)
qed

lemma join_flat_sound:
  assumes "value_describes m l c \<or> value_describes m r c"
    and "l \<noteq> VBottom" "r \<noteq> VBottom"
  shows "value_describes m (join_flat l r) c"
proof -
  have num: "number_describes (opt_zip_with smin a b) (opt_zip_with smax a' b') n"
    if "number_describes a a' n \<or> number_describes b b' n" for a b a' b' n
    using that by (cases a; cases b; cases a'; cases b')
      (auto simp: number_describes_def opt_zip_with_def opt_pair_def smin_def smax_def word_sle_eq)
  show ?thesis
    using assms num join_strings_sound
    by (cases l; cases r) (auto simp: join_flat_def split: cvalue.splits)
qed

lemma list_all2_join_left:
  "list_all2 P ls xs \<Longrightarrow> length ls = length rs \<Longrightarrow>
     (\<And>l r x. l \<in> set ls \<Longrightarrow> r \<in> set rs \<Longrightarrow> P l x \<or> P r x \<Longrightarrow> P (j l r) x) \<Longrightarrow>
     list_all2 P (map (\<lambda>(l, r). j l r) (zip ls rs)) xs"
proof (induction ls xs arbitrary: rs rule: list_all2_induct)
  case (Cons l ls x xs)
  then obtain r rs' where "rs = r # rs'" by (cases rs) auto
  with Cons show ?case by (auto intro!: Cons.IH)
qed simp

lemma list_all2_join_right:
  "list_all2 P rs xs \<Longrightarrow> length ls = length rs \<Longrightarrow>
     (\<And>l r x. l \<in> set ls \<Longrightarrow> r \<in> set rs \<Longrightarrow> P l x \<or> P r x \<Longrightarrow> P (j l r) x) \<Longrightarrow>
     list_all2 P (map (\<lambda>(l, r). j l r) (zip ls rs)) xs"
proof (induction rs xs arbitrary: ls rule: list_all2_induct)
  case (Cons r rs x xs)
  then obtain l ls' where "ls = l # ls'" by (cases ls) auto
  with Cons show ?case by (auto intro!: Cons.IH)
qed simp

lemma join_value_step_sound:
  assumes ok: "keys_ok left" "keys_ok right" and ne: "left \<noteq> VBottom" "right \<noteq> VBottom"
    and join: "\<And>l r c. l \<in> children left \<Longrightarrow> r \<in> children right \<Longrightarrow> describes m l c \<or> describes m r c \<Longrightarrow>
      describes m (fst (join l r)) c"
    and c: "value_describes m left c \<or> value_describes m right c"
  shows "value_describes m (fst (join_value_step join left right)) c"
proof (cases "elementwise left right")
  case True
  then show ?thesis
  proof (cases rule: elementwise_cases)
    case (elements ls rs)
    with c obtain xs where xs: "c = CList xs" "list_all2 (describes m) ls xs \<or> list_all2 (describes m) rs xs"
      by (cases c) (auto simp: list.rel_map)
    have "list_all2 (describes m) (map (\<lambda>(l, r). fst (join l r)) (zip ls rs)) xs"
      using xs(2) elements(3) join elements list_all2_join_left [of "describes m" ls xs rs "\<lambda>l r. fst (join l r)"]
        list_all2_join_right [of "describes m" rs xs ls "\<lambda>l r. fst (join l r)"]
      by (auto simp: children_def)
    then show ?thesis
      using elements xs
      by (simp add: join_value_step_def join_elements_def Let_def case_prod_unfold comp_def del: value_describes.simps)
  next
    case (object ls rs)
    let ?m = "fst (fold (join_field join ls) rs (ls, False))"
    have oks: "bmap_ok ls" "bmap_ok rs" using ok object by (simp_all add: keys_ok_def)
    note spec = join_field_fold [OF bmap_ok_distinct [OF oks(2)] oks(1) oks(1), of join False]
    obtain xs where xs: "c = CObj xs" using c object by (cases c) auto
    have "\<exists>v. bmap_get ?m k = Some v \<and> describes m v x" if "(k, x) \<in> set xs" for k x
    proof -
      have lr: "(\<exists>v. bmap_get ls k = Some v \<and> describes m v x) \<or> (\<exists>v. bmap_get rs k = Some v \<and> describes m v x)"
        using c object xs that by (auto simp del: value_describes.simps)
      have j: "describes m (fst (join l r)) x"
        if "bmap_get ls k = Some l" "bmap_get rs k = Some r" "describes m l x \<or> describes m r x" for l r
        using that object by (intro join) (auto simp: children_def dest: map_of_value)
      from lr j spec [of k] show ?thesis
        by (cases "bmap_get rs k"; cases "bmap_get ls k") auto
    qed
    then show ?thesis
      using object xs
      by (simp add: join_value_step_def case_prod_unfold Let_def del: value_describes.simps)
  qed
next
  case False
  have flat: "value_describes m (join_flat left right) c" by (rule join_flat_sound [OF c ne])
  have "fst (join_value_step join left right) = join_flat left right \<or> (\<exists>rs. fst (join_value_step join left right) = VUnknown rs)"
    using False by (cases left; cases right)
      (auto simp: elementwise_def join_value_step_def assign_if_changed_def join_strings_assign_spec
        join_flat_def case_prod_unfold Let_def split: option.splits)
  with flat show ?thesis by (metis value_describes.simps(8))
qed

lemma join_assign_sound:
  "aval_ok l \<Longrightarrow> aval_ok r \<Longrightarrow> describes m l c \<or> describes m r c \<Longrightarrow> describes m (fst (join_assign l r)) c"
proof (induction l r arbitrary: c rule: join_assign.induct)
  case (1 l r)
  show ?case
  proof (cases "av_value l = VBottom \<or> av_value r = VBottom")
    case True
    with "1.prems"(3) show ?thesis
      by (subst join_assign.simps) (auto simp: describes_iff)
  next
    case False
    have "value_describes m (fst (join_value_step join_assign (av_value l) (av_value r))) c"
      by (rule join_value_step_sound)
        (use "1.prems" [unfolded aval_ok.simps [of l] aval_ok.simps [of r]] "1.IH" False in \<open>auto simp: describes_iff\<close>)
    moreover have "type_matches (join_type (av_type l) (av_type r)) c"
      using "1.prems"(3) by (auto simp: describes_iff join_type_def type_matches_def)
    ultimately show ?thesis
      using False by (simp add: join_assign_step Let_def join_value_assign_def)
  qed
qed

text \<open>
  C4. Soundness of the join: whatever either abstract value describes, the joined value describes,
  whatever patterns mean; nested lists and objects included.
\<close>

theorem join_sound:
  assumes "aval_ok l" "aval_ok r" "describes m l c \<or> describes m r c"
  shows "describes m (join_abstract l r) c"
  using join_assign_sound [OF assms] by (simp add: join_abstract_def)

lemma join_sound_witness:
  "describes (\<lambda>_ _. False)
     (join_abstract (string_constant ''main'' Trusted Public []) (string_constant ''dev'' Untrusted Public []))
     (CStr ''dev'')"
proof (rule join_sound)
  show "aval_ok (string_constant ''main'' Trusted Public [])" "aval_ok (string_constant ''dev'' Untrusted Public [])"
    by (subst aval_ok.simps, simp add: string_constant_def keys_ok_def children_def)+
qed (simp add: string_constant_def type_matches_def string_describes_def)

section \<open>The two forms of the value join\<close>

function bottom_canonical :: "abstract_value \<Rightarrow> bool" where
  "bottom_canonical x \<longleftrightarrow>
     (av_value x = VBottom \<longrightarrow> x = default_value) \<and> (\<forall>c \<in> children (av_value x). bottom_canonical c)"
  by pat_completeness auto
termination
  by (relation "measure size") (auto dest!: children_size intro: less_trans [OF _ size_av_value])

declare bottom_canonical.simps [simp del]

lemma join_default_left: "join_abstract default_value r = r"
  unfolding join_abstract_def by (subst join_assign.simps) (simp add: default_value_def)

lemma join_default_right: "bottom_canonical l \<Longrightarrow> join_abstract l default_value = l"
  unfolding join_abstract_def
  by (subst join_assign.simps) (auto simp: bottom_canonical.simps [of l] default_value_def)

lemma join_value_object:
  assumes ok: "bmap_ok ls" "bmap_ok rs" and can: "\<forall>v \<in> snd ` set ls. bottom_canonical v"
  shows "map (\<lambda>k. (k, join_abstract (bmap_get_or default_value ls k) (bmap_get_or default_value rs k)))
      (bset (bmap_keys ls @ bmap_keys rs)) = fst (fold (join_field join_assign ls) rs (ls, False))"
    (is "?l = ?r")
proof (rule bmap_ext)
  note spec = join_field_fold [OF bmap_ok_distinct [OF ok(2)] ok(1) ok(1), of join_assign False]
  show "bmap_ok ?l" by (simp add: bmap_ok_def comp_def)
  show "bmap_ok ?r" using spec by blast
  show "bmap_get ?l = bmap_get ?r"
  proof
    fix k
    have mem: "k \<in> fst ` set m \<longleftrightarrow> bmap_get m k \<noteq> None" for m :: "(string \<times> abstract_value) list"
      by (metis map_of_eq_None_iff)
    have canl: "join_abstract a default_value = a" if "bmap_get ls k = Some a" for a
      using can map_of_value [OF that] by (metis join_default_right)
    have "bmap_get ?l k = (if k \<in> fst ` set ls \<union> fst ` set rs
        then Some (join_abstract (bmap_get_or default_value ls k) (bmap_get_or default_value rs k)) else None)"
      by (simp add: map_of_map_restrict restrict_map_def)
    also have "\<dots> = bmap_get ?r k"
      using spec [of k] can
      by (cases "bmap_get ls k"; cases "bmap_get rs k")
        (simp_all add: mem bmap_get_or_def join_default_left canl join_abstract_def [symmetric])
    finally show "bmap_get ?l k = bmap_get ?r k" .
  qed
qed

text \<open>
  The in-place value join computes the out-of-place one: on values whose bottom parts are the
  default value, \<open>join_value\<close> (which rebuilds lists and objects element by element) and
  \<open>join_value_assign\<close> (which updates them) give the same value.
\<close>

theorem join_value_agrees:
  assumes "keys_ok l" "keys_ok r" "\<forall>c \<in> children l. bottom_canonical c"
  shows "fst (join_value_assign l r) = join_value l r"
proof (cases "elementwise l r")
  case True
  then show ?thesis
  proof (cases rule: elementwise_cases)
    case (elements ls rs)
    then show ?thesis
      by (simp add: join_value_assign_def join_value_def join_value_step_def join_elements_def Let_def
          case_prod_unfold comp_def join_abstract_def)
  next
    case (object ls rs)
    then show ?thesis
      using assms join_value_object [of ls rs]
      by (simp add: join_value_assign_def join_value_def join_value_step_def case_prod_unfold Let_def
          keys_ok_def children_def)
  qed
next
  case False
  then show ?thesis
    by (cases l; cases r)
      (auto simp: join_value_assign_def join_value_def elementwise_def join_value_step_def
        assign_if_changed_def join_strings_assign_spec join_flat_def join_sorted_spec deduplicate_reasons_def
        case_prod_unfold Let_def split: option.splits)
qed

lemma join_value_agrees_witness:
  "let l = VObject (Some [(''a'', string_constant ''x'' Trusted Public [])]);
       r = VObject (Some [(''b'', string_constant ''y'' Trusted Public [])]) in
   fst (join_value_assign l r) = join_value l r"
  unfolding Let_def
proof (rule join_value_agrees)
  have "bottom_canonical (string_constant ''x'' Trusted Public [])"
    by (subst bottom_canonical.simps) (simp add: string_constant_def children_def)
  then show "\<forall>c \<in> children (VObject (Some [(''a'', string_constant ''x'' Trusted Public [])])). bottom_canonical c"
    by (simp add: children_def)
qed (simp_all add: keys_ok_def bmap_ok_def)

section \<open>Trust and secrecy as semilattices\<close>

definition join_trust :: "trust \<Rightarrow> trust \<Rightarrow> trust" where
  "join_trust a b = fst (join_trust_assign a b)"

definition join_secrecy :: "secrecy \<Rightarrow> secrecy \<Rightarrow> secrecy" where
  "join_secrecy a b = fst (join_secrecy_assign a b)"

lemma bset_absorb [simp]: "bset (bset xs @ ys) = bset (xs @ ys)"
  by (simp add: bset_eq_iff)

lemma bset_commute: "bset (xs @ ys) = bset (ys @ xs)" "bset (xs @ ys @ zs) = bset (xs @ zs @ ys)"
  by (simp_all add: bset_eq_iff Un_ac)

lemma join_trust_simps [simp]:
  "join_trust Untrusted y = Untrusted" "join_trust y Untrusted = Untrusted"
  "join_trust Trusted y = y" "join_trust y Trusted = y" "join_trust TMixed TMixed = TMixed"
  "join_trust (TUnknown l) TMixed = TUnknown l" "join_trust TMixed (TUnknown l) = TUnknown l"
  "join_trust (TUnknown l) (TUnknown r) = TUnknown (bset (l @ r))"
  by (cases y; simp add: join_trust_def join_trust_assign_def join_sorted_spec)+

lemma join_secrecy_simps [simp]:
  "join_secrecy Secret y = Secret" "join_secrecy y Secret = Secret"
  "join_secrecy Public y = y" "join_secrecy y Public = y" "join_secrecy Sensitive Sensitive = Sensitive"
  "join_secrecy (SUnknown l) Sensitive = SUnknown l" "join_secrecy Sensitive (SUnknown l) = SUnknown l"
  "join_secrecy (SUnknown l) (SUnknown r) = SUnknown (bset (l @ r))"
  by (cases y; simp add: join_secrecy_def join_secrecy_assign_def join_sorted_spec)+

lemma join_trust_commute: "join_trust (join_trust a x) y = join_trust (join_trust a y) x"
  by (cases a; cases x; cases y; simp add: bset_eq_iff Un_ac)

lemma join_secrecy_commute: "join_secrecy (join_secrecy a x) y = join_secrecy (join_secrecy a y) x"
  by (cases a; cases x; cases y; simp add: bset_eq_iff Un_ac)

lemma foldl_join_trust_untrusted:
  "foldl join_trust a ts = Untrusted \<longleftrightarrow> Untrusted \<in> set (a # ts)"
proof (induction ts arbitrary: a)
  case (Cons t ts)
  have "join_trust a t = Untrusted \<longleftrightarrow> a = Untrusted \<or> t = Untrusted"
    by (cases a; cases t) simp_all
  then have "Untrusted \<in> set (join_trust a t # ts) \<longleftrightarrow> Untrusted \<in> set (a # t # ts)" by (metis set_ConsD list.set_intros)
  then show ?case by (simp only: foldl_Cons Cons.IH)
qed auto

lemma foldl_join_secrecy_secret:
  "foldl join_secrecy a ts = Secret \<longleftrightarrow> Secret \<in> set (a # ts)"
proof (induction ts arbitrary: a)
  case (Cons t ts)
  have "join_secrecy a t = Secret \<longleftrightarrow> a = Secret \<or> t = Secret"
    by (cases a; cases t) simp_all
  then have "Secret \<in> set (join_secrecy a t # ts) \<longleftrightarrow> Secret \<in> set (a # t # ts)" by (metis set_ConsD list.set_intros)
  then show ?case by (simp only: foldl_Cons Cons.IH)
qed auto

text \<open>
  Trust accumulates independently of the order in which contributions arrive, is untrusted
  exactly when some contribution is, and secrecy likewise with \<open>Secret\<close>.
\<close>

theorem trust_secrecy_order_independent:
  assumes "mset ts = mset us" "mset ss = mset zs"
  shows "foldl join_trust t ts = foldl join_trust t us
    \<and> (foldl join_trust t ts = Untrusted \<longleftrightarrow> Untrusted \<in> set (t # ts))
    \<and> foldl join_secrecy s ss = foldl join_secrecy s zs
    \<and> (foldl join_secrecy s ss = Secret \<longleftrightarrow> Secret \<in> set (s # ss))"
proof -
  have "fold (\<lambda>x a. join_trust a x) ts = fold (\<lambda>x a. join_trust a x) us"
    by (rule fold_multiset_equiv) (use assms in \<open>auto simp: fun_eq_iff join_trust_commute\<close>)
  moreover have "fold (\<lambda>x a. join_secrecy a x) ss = fold (\<lambda>x a. join_secrecy a x) zs"
    by (rule fold_multiset_equiv) (use assms in \<open>auto simp: fun_eq_iff join_secrecy_commute\<close>)
  moreover have "set us = set ts" "set zs = set ss"
    using assms by (metis set_mset_mset)+
  ultimately show ?thesis
    by (simp add: foldl_conv_fold foldl_join_trust_untrusted [unfolded foldl_conv_fold]
        foldl_join_secrecy_secret [unfolded foldl_conv_fold])
qed

lemma trust_secrecy_order_independent_witness:
  "foldl join_trust Trusted [TMixed, Untrusted] = foldl join_trust Trusted [Untrusted, TMixed]
   \<and> foldl join_secrecy Public [Secret] = Secret"
  using trust_secrecy_order_independent [of "[TMixed, Untrusted]" "[Untrusted, TMixed]" "[Secret]" "[Secret]" Trusted Public]
  by simp

end
