(* ===== verification/Value_Rank.thy ===== *)
theory Value_Rank
  imports Value_Semantics
begin

text \<open>
  How often a join can still change its target. A \<open>value_universe\<close> fixes the unknown reasons, the
  provenance records and the string length that occur in a program; over it every join of
  \<^verbatim>\<open>src/domain/abstract_value.rs\<close> that the front ends' values reach (strings and unknowns, with trust,
  secrecy and provenance) satisfies the \<open>flagged_join\<close> contract, which is what makes the dataflow
  worklist stop.
\<close>

record value_universe =
  vu_reasons :: "unknown_reason list"
  vu_provenance :: "provenance list"
  vu_length :: nat

definition all_reasons :: "value_universe \<Rightarrow> unknown_reason set" where
  "all_reasons u = insert incompatible_reason (set (vu_reasons u))"

lemma finite_all_reasons [simp]: "finite (all_reasons u)"
  by (simp add: all_reasons_def)

definition subset_ok :: "'a::linorder set \<Rightarrow> 'a list \<Rightarrow> bool" where
  "subset_ok A xs \<longleftrightarrow> canonical xs \<and> set xs \<subseteq> A"

definition subset_rank :: "'a set \<Rightarrow> 'a list \<Rightarrow> nat" where
  "subset_rank A xs = card (A - set xs)"

lemma subset_ok_join: "subset_ok A l \<Longrightarrow> subset_ok A r \<Longrightarrow> subset_ok A (bset (l @ r))"
  by (simp add: subset_ok_def)

lemma subset_rank_join:
  assumes "finite A" "subset_ok A l" "subset_ok A r" "bset (l @ r) \<noteq> l"
  shows "subset_rank A (bset (l @ r)) < subset_rank A l"
  unfolding subset_rank_def
proof (rule psubset_card_mono)
  have "\<not> set r \<subseteq> set l"
  proof
    assume "set r \<subseteq> set l"
    then have "bset (l @ r) = l"
      using assms(2) by (intro canonical_eqI) (auto simp: subset_ok_def)
    with assms(4) show False ..
  qed
  then show "A - set (bset (l @ r)) \<subset> A - set l"
    using assms(3) by (auto simp: subset_ok_def)
qed (use assms(1) in simp)

lemma subset_rank_le: "finite A \<Longrightarrow> subset_rank A xs \<le> card A"
  by (simp add: subset_rank_def card_Diff_subset_Int card_mono)

interpretation reasons_join: flagged_join join_sorted_unique_assign "subset_ok (all_reasons u)"
    "subset_rank (all_reasons u)" for u
  by unfold_locales (auto simp: join_sorted_spec subset_ok_join subset_rank_join)

interpretation provenance_join: flagged_join join_provenance_assign "subset_ok (set (vu_provenance u))"
    "subset_rank (set (vu_provenance u))" for u
  by unfold_locales (auto simp: join_provenance_assign_def join_sorted_spec subset_ok_join subset_rank_join)

section \<open>Trust and secrecy\<close>

definition trust_in :: "value_universe \<Rightarrow> trust \<Rightarrow> bool" where
  "trust_in u t = (case t of TUnknown rs \<Rightarrow> subset_ok (all_reasons u) rs | _ \<Rightarrow> True)"

definition trust_rank :: "value_universe \<Rightarrow> trust \<Rightarrow> nat" where
  "trust_rank u t = (case t of
     Untrusted \<Rightarrow> 0 | TUnknown rs \<Rightarrow> 1 + subset_rank (all_reasons u) rs
   | TMixed \<Rightarrow> 2 + card (all_reasons u) | Trusted \<Rightarrow> 3 + card (all_reasons u))"

definition secrecy_in :: "value_universe \<Rightarrow> secrecy \<Rightarrow> bool" where
  "secrecy_in u t = (case t of SUnknown rs \<Rightarrow> subset_ok (all_reasons u) rs | _ \<Rightarrow> True)"

definition secrecy_rank :: "value_universe \<Rightarrow> secrecy \<Rightarrow> nat" where
  "secrecy_rank u t = (case t of
     Secret \<Rightarrow> 0 | SUnknown rs \<Rightarrow> 1 + subset_rank (all_reasons u) rs
   | Sensitive \<Rightarrow> 2 + card (all_reasons u) | Public \<Rightarrow> 3 + card (all_reasons u))"

interpretation trust_join: flagged_join join_trust_assign "trust_in u" "trust_rank u" for u
proof
  fix x y
  assume ok: "trust_in u x" "trust_in u y"
  then show "trust_in u (fst (join_trust_assign x y))"
    by (cases x; cases y) (auto simp: join_trust_assign_def trust_in_def join_sorted_spec subset_ok_join)
  show "snd (join_trust_assign x y) \<longleftrightarrow> fst (join_trust_assign x y) \<noteq> x" by (rule join_trust_exact)
  assume "snd (join_trust_assign x y)"
  with ok show "trust_rank u (fst (join_trust_assign x y)) < trust_rank u x"
    by (cases x; cases y)
      (auto simp: join_trust_assign_def trust_in_def trust_rank_def join_sorted_spec less_Suc_eq_le
        intro!: le_SucI subset_rank_le subset_rank_join Suc_leI)
qed

interpretation secrecy_join: flagged_join join_secrecy_assign "secrecy_in u" "secrecy_rank u" for u
proof
  fix x y
  assume ok: "secrecy_in u x" "secrecy_in u y"
  then show "secrecy_in u (fst (join_secrecy_assign x y))"
    by (cases x; cases y) (auto simp: join_secrecy_assign_def secrecy_in_def join_sorted_spec subset_ok_join)
  show "snd (join_secrecy_assign x y) \<longleftrightarrow> fst (join_secrecy_assign x y) \<noteq> x" by (rule join_secrecy_exact)
  assume "snd (join_secrecy_assign x y)"
  with ok show "secrecy_rank u (fst (join_secrecy_assign x y)) < secrecy_rank u x"
    by (cases x; cases y)
      (auto simp: join_secrecy_assign_def secrecy_in_def secrecy_rank_def join_sorted_spec less_Suc_eq_le
        intro!: le_SucI subset_rank_le subset_rank_join Suc_leI)
qed

section \<open>Strings\<close>

definition option_rank :: "string option \<Rightarrow> nat" where
  "option_rank p = (case p of None \<Rightarrow> 0 | Some x \<Rightarrow> Suc (length x))"

definition string_in :: "value_universe \<Rightarrow> string_value \<Rightarrow> bool" where
  "string_in u s = (case s of
     SConstants vs \<Rightarrow> canonical vs \<and> length vs \<le> 8 \<and> (\<forall>v \<in> set vs. length v \<le> vu_length u)
   | SAffix p q \<Rightarrow> option_rank p \<le> Suc (vu_length u) \<and> option_rank q \<le> Suc (vu_length u)
   | _ \<Rightarrow> True)"

definition string_rank :: "value_universe \<Rightarrow> string_value \<Rightarrow> nat" where
  "string_rank u s = (case s of
     STop \<Rightarrow> 0
   | SPattern _ \<Rightarrow> 1
   | SAffix p q \<Rightarrow> 1 + option_rank p + option_rank q
   | SConstants vs \<Rightarrow> 2 * vu_length u + 4 + (8 - length vs)
   | SBottom \<Rightarrow> 2 * vu_length u + 13)"

text \<open>An affix part can only lose its end, and keeps its rank only if it stays the same.\<close>

definition shrinks :: "string option \<Rightarrow> string option \<Rightarrow> bool" where
  "shrinks p q \<longleftrightarrow> option_rank p \<le> option_rank q \<and> (option_rank p = option_rank q \<longrightarrow> p = q)"

lemma shrinks_prefix: "(\<And>x. p = Some x \<Longrightarrow> \<exists>y. q = Some y \<and> prefix x y) \<Longrightarrow> shrinks p q"
  by (cases p; cases q) (auto simp: shrinks_def option_rank_def prefix_def)

lemma shrinks_suffix: "(\<And>x. p = Some x \<Longrightarrow> \<exists>y. q = Some y \<and> suffix x y) \<Longrightarrow> shrinks p q"
  by (cases p; cases q) (auto simp: shrinks_def option_rank_def suffix_def)

lemma affix_join:
  assumes "shrinks p' p" "shrinks q' q" "string_in u (SAffix p q)"
  shows "string_in u (affix_or_top p' q')"
    and "affix_or_top p' q' \<noteq> SAffix p q \<Longrightarrow> string_rank u (affix_or_top p' q') < string_rank u (SAffix p q)"
  using assms by (auto simp: affix_or_top_def string_in_def string_rank_def shrinks_def) linarith?

lemma bind_shrinks:
  "shrinks (Option.bind p (common_prefix v)) p" "shrinks (Option.bind q (common_suffix v)) q"
  by (rule shrinks_prefix, blast dest: bind_prefix) (rule shrinks_suffix, blast dest: bind_suffix)

lemma pair_shrinks:
  "shrinks (opt_pair common_prefix p p') p" "shrinks (opt_pair common_suffix q q') q"
  by (rule shrinks_prefix, blast dest: pair_prefix) (rule shrinks_suffix, blast dest: pair_suffix)

lemma affix_rank_bound: "string_in u (SAffix p q) \<Longrightarrow> string_rank u (SAffix p q) < 2 * vu_length u + 4"
  by (simp add: string_in_def string_rank_def)

lemma affix_or_top_bound:
  assumes "string_in u (affix_or_top p q)"
  shows "string_rank u (affix_or_top p q) < string_rank u (SConstants vs)"
proof (cases "p = None \<and> q = None")
  case True
  then show ?thesis by (simp add: affix_or_top_def string_rank_def)
next
  case False
  with assms affix_rank_bound [of u p q] show ?thesis
    by (simp add: affix_or_top_def) (simp add: string_rank_def)
qed

lemma constants_join_rank:
  assumes "canonical l" "bset (l @ r) \<noteq> l"
  shows "length l < length (bset (l @ r))"
proof -
  have "card (set l) < card (set (l @ r))"
  proof (rule psubset_card_mono)
    have "bset (l @ r) = l" if "set (l @ r) = set l"
      using assms(1) that by (intro canonical_eqI) simp_all
    with assms(2) show "set l \<subset> set (l @ r)" by auto
  qed simp
  then show ?thesis
    using assms(1) by (simp add: length_bset distinct_card [OF canonical_distinct])
qed

interpretation string_join: flagged_join join_strings_assign "string_in u" "string_rank u" for u
proof
  fix x y
  show "snd (join_strings_assign x y) \<longleftrightarrow> fst (join_strings_assign x y) \<noteq> x"
    by (simp add: join_strings_assign_spec)
  assume ok: "string_in u x" "string_in u y"
  have both: "string_in u (join_strings x y) \<and> (join_strings x y \<noteq> x \<longrightarrow> string_rank u (join_strings x y) < string_rank u x)"
  proof (cases x)
    case SBottom
    with ok affix_rank_bound [of u] show ?thesis by (cases y) (fastforce simp: string_rank_def)+
  next
    case x: (SConstants vs)
    show ?thesis
    proof (cases y)
      case y: (SConstants ws)
      have "length (bset (vs @ ws)) \<le> 8 \<Longrightarrow> bset (vs @ ws) \<noteq> vs \<Longrightarrow> 8 - length (bset (vs @ ws)) < 8 - length vs"
        using constants_join_rank [of vs ws] ok x by (simp add: string_in_def)
      with x y ok show ?thesis
        by (auto simp: string_in_def string_rank_def Let_def)
    next
      case y: (SAffix p q)
      note aff = affix_join(1) [OF bind_shrinks, of u p q "hd vs" "hd vs"]
      with x y ok show ?thesis
        using affix_or_top_bound [of u _ _ vs] by (auto simp: string_in_def [of u STop] string_rank_def [of u STop] string_rank_def [of u "SConstants vs"])
    qed (use x ok in \<open>auto simp: string_in_def string_rank_def\<close>)
  next
    case x: (SAffix p q)
    show ?thesis
    proof (cases y)
      case y: (SConstants ws)
      from x y ok affix_join [OF bind_shrinks, of u p q "hd ws" "hd ws"] show ?thesis
        by (auto simp: string_in_def [of u STop] string_rank_def [of u STop] string_rank_def [of u "SAffix p q"])
    next
      case y: (SAffix p' q')
      from x y ok affix_join [OF pair_shrinks, of u p q p' q'] show ?thesis by auto
    qed (use x ok in \<open>auto simp: string_in_def string_rank_def\<close>)
  next
    case (SPattern z)
    then show ?thesis by (cases y) (auto simp: string_in_def string_rank_def)
  next
    case STop
    then show ?thesis by (cases y) (auto simp: string_in_def string_rank_def)
  qed
  then show "string_in u (fst (join_strings_assign x y))" by (simp add: join_strings_assign_spec)
  assume "snd (join_strings_assign x y)"
  with both show "string_rank u (fst (join_strings_assign x y)) < string_rank u x"
    by (simp add: join_strings_assign_spec)
qed

section \<open>Whole values\<close>

definition value_in :: "value_universe \<Rightarrow> avalue \<Rightarrow> bool" where
  "value_in u v = (case v of
     VString s \<Rightarrow> string_in u s | VUnknown rs \<Rightarrow> subset_ok (all_reasons u) rs | _ \<Rightarrow> False)"

definition value_rank :: "value_universe \<Rightarrow> avalue \<Rightarrow> nat" where
  "value_rank u v = (case v of
     VString s \<Rightarrow> 1 + card (all_reasons u) + string_rank u s
   | VUnknown rs \<Rightarrow> subset_rank (all_reasons u) rs
   | _ \<Rightarrow> 0)"

interpretation value_join: flagged_join join_value_assign "value_in u" "value_rank u" for u
proof
  fix x y
  assume ok: "value_in u x" "value_in u y"
  have inc: "subset_ok (all_reasons u) [incompatible_reason]"
    by (simp add: subset_ok_def all_reasons_def)
  note simps = join_value_assign_def join_value_step_def Let_def case_prod_unfold
  consider (strings) s t where "x = VString s" "y = VString t"
    | (left) r where "x = VUnknown r"
    | (right) s r where "x = VString s" "y = VUnknown r"
    using ok by (cases x; cases y) (simp_all add: value_in_def)
  then have "value_in u (fst (join_value_assign x y))
    \<and> (snd (join_value_assign x y) \<longleftrightarrow> fst (join_value_assign x y) \<noteq> x)
    \<and> (snd (join_value_assign x y) \<longrightarrow> value_rank u (fst (join_value_assign x y)) < value_rank u x)"
  proof cases
    case strings
    with ok show ?thesis
      using string_join.join_ok [of u s t] string_join.flag_exact [of u s t] string_join.rank_less [of u s t]
      by (simp add: simps value_in_def value_rank_def)
  next
    case left
    with ok inc show ?thesis
      using reasons_join.join_ok [of u r] reasons_join.flag_exact [of u r] reasons_join.rank_less [of u r]
      by (cases y) (simp_all add: simps value_in_def value_rank_def)
  next
    case right
    with ok inc show ?thesis
      using reasons_join.join_ok [of u r "[incompatible_reason]"]
      by (simp add: simps value_in_def value_rank_def less_Suc_eq_le trans_le_add1 subset_rank_le)
  qed
  then show "value_in u (fst (join_value_assign x y))"
    and "snd (join_value_assign x y) \<longleftrightarrow> fst (join_value_assign x y) \<noteq> x"
    and "snd (join_value_assign x y) \<Longrightarrow> value_rank u (fst (join_value_assign x y)) < value_rank u x"
    by blast+
qed

definition abstract_in :: "value_universe \<Rightarrow> abstract_value \<Rightarrow> bool" where
  "abstract_in u x \<longleftrightarrow> x = default_value
     \<or> (value_in u (av_value x) \<and> trust_in u (av_trust x) \<and> secrecy_in u (av_secrecy x)
        \<and> subset_ok (set (vu_provenance u)) (av_provenance x))"

definition type_rank :: "value_type \<Rightarrow> nat" where
  "type_rank ty = (case ty of TyNever \<Rightarrow> 2 | TyDynamic \<Rightarrow> 0 | _ \<Rightarrow> 1)"

definition parts_rank :: "value_universe \<Rightarrow> abstract_value \<Rightarrow> nat" where
  "parts_rank u x = type_rank (av_type x) + value_rank u (av_value x) + trust_rank u (av_trust x)
     + secrecy_rank u (av_secrecy x) + subset_rank (set (vu_provenance u)) (av_provenance x)"

definition abstract_bound :: "value_universe \<Rightarrow> nat" where
  "abstract_bound u = 2 + (14 + card (all_reasons u) + 2 * vu_length u) + (3 + card (all_reasons u))
     + (3 + card (all_reasons u)) + card (set (vu_provenance u))"

definition abstract_rank :: "value_universe \<Rightarrow> abstract_value \<Rightarrow> nat" where
  "abstract_rank u x = (if av_value x = VBottom then Suc (abstract_bound u) else parts_rank u x)"

lemma string_rank_bound: "string_in u s \<Longrightarrow> string_rank u s \<le> 2 * vu_length u + 13"
  by (cases s) (auto simp: string_in_def string_rank_def)

lemma value_rank_bound: "value_in u v \<Longrightarrow> value_rank u v \<le> 14 + card (all_reasons u) + 2 * vu_length u"
  using string_rank_bound [of u] subset_rank_le [OF finite_all_reasons, of u]
  by (cases v) (fastforce simp: value_in_def value_rank_def intro: le_trans)+

lemma parts_rank_bound:
  assumes "value_in u (av_value x)"
  shows "parts_rank u x \<le> abstract_bound u"
proof -
  have "trust_rank u t \<le> 3 + card (all_reasons u)" "secrecy_rank u s \<le> 3 + card (all_reasons u)" for t s
    using subset_rank_le [OF finite_all_reasons, of u]
    by (cases t; cases s; auto simp: trust_rank_def secrecy_rank_def intro: le_SucI)+
  moreover have "type_rank (av_type x) \<le> 2" by (simp add: type_rank_def split: value_type.split)
  moreover have "subset_rank (set (vu_provenance u)) (av_provenance x) \<le> card (set (vu_provenance u))"
    by (simp add: subset_rank_le)
  ultimately show ?thesis
    unfolding parts_rank_def abstract_bound_def
    using value_rank_bound [OF assms] by (meson add_mono)
qed

lemma join_type_rank: "join_type a b \<noteq> a \<Longrightarrow> type_rank (join_type a b) < type_rank a"
  by (cases a; cases b) (auto simp: join_type_def type_rank_def)

lemma abstract_in_ok: "abstract_in u x \<Longrightarrow> aval_ok x"
  by (subst aval_ok.simps)
    (auto simp: abstract_in_def value_in_def keys_ok_def children_def default_value_def split: avalue.splits)

lemma value_in_not_bottom [simp]: "value_in u v \<Longrightarrow> v \<noteq> VBottom"
  by (auto simp: value_in_def)

lemma value_in_VBottom [simp]: "\<not> value_in u VBottom"
  by (simp add: value_in_def)

interpretation abstract_join: flagged_join join_assign "abstract_in u" "abstract_rank u" for u
proof
  fix x y
  assume ok: "abstract_in u x" "abstract_in u y"
  show exact: "snd (join_assign x y) \<longleftrightarrow> fst (join_assign x y) \<noteq> x"
    using ok by (simp add: join_assign_exact abstract_in_ok)
  have main: "abstract_in u (fst (join_assign x y))
    \<and> (snd (join_assign x y) \<longrightarrow> abstract_rank u (fst (join_assign x y)) < abstract_rank u x)"
  proof (cases "av_value x = VBottom \<or> av_value y = VBottom")
    case True
    have "fst (join_assign x y) = (if av_value x = VBottom \<and> x \<noteq> y then y else x)"
      using True by (subst join_assign.simps) auto
    moreover have "abstract_rank u y < abstract_rank u x" if "av_value x = VBottom" "x \<noteq> y"
    proof -
      have "value_in u (av_value y)" using that ok by (auto simp: abstract_in_def)
      with that show ?thesis using parts_rank_bound [of u y] by (auto simp: abstract_rank_def)
    qed
    ultimately show ?thesis using ok exact by auto
  next
    case False
    then have x: "value_in u (av_value x)" "trust_in u (av_trust x)" "secrecy_in u (av_secrecy x)"
        "subset_ok (set (vu_provenance u)) (av_provenance x)"
      and y: "value_in u (av_value y)" "trust_in u (av_trust y)" "secrecy_in u (av_secrecy y)"
        "subset_ok (set (vu_provenance u)) (av_provenance y)"
      using ok by (auto simp: abstract_in_def default_value_def)
    let ?j = "fst (join_assign x y)"
    have parts: "av_type ?j = join_type (av_type x) (av_type y)"
        "av_value ?j = fst (join_value_assign (av_value x) (av_value y))"
        "av_trust ?j = fst (join_trust_assign (av_trust x) (av_trust y))"
        "av_secrecy ?j = fst (join_secrecy_assign (av_secrecy x) (av_secrecy y))"
        "av_provenance ?j = fst (join_provenance_assign (av_provenance x) (av_provenance y))"
      using False by (simp_all add: join_assign_step Let_def)
    have in_u: "value_in u (av_value ?j)" "abstract_in u ?j"
      using x y value_join.join_ok [of u] trust_join.join_ok [of u] secrecy_join.join_ok [of u]
        provenance_join.join_ok [of u]
      by (simp_all add: parts abstract_in_def)
    have le: "type_rank (av_type ?j) \<le> type_rank (av_type x)" "value_rank u (av_value ?j) \<le> value_rank u (av_value x)"
        "trust_rank u (av_trust ?j) \<le> trust_rank u (av_trust x)"
        "secrecy_rank u (av_secrecy ?j) \<le> secrecy_rank u (av_secrecy x)"
        "subset_rank (set (vu_provenance u)) (av_provenance ?j) \<le> subset_rank (set (vu_provenance u)) (av_provenance x)"
      unfolding parts
      by (cases "join_type (av_type x) (av_type y) = av_type x")
        (simp_all add: join_type_rank less_imp_le x y value_join.rank_le trust_join.rank_le secrecy_join.rank_le
          provenance_join.rank_le)
    have "parts_rank u ?j < parts_rank u x" if "snd (join_assign x y)"
    proof -
      have "av_type ?j \<noteq> av_type x \<or> snd (join_value_assign (av_value x) (av_value y))
          \<or> snd (join_trust_assign (av_trust x) (av_trust y)) \<or> snd (join_secrecy_assign (av_secrecy x) (av_secrecy y))
          \<or> snd (join_provenance_assign (av_provenance x) (av_provenance y))"
        using that False parts(1) by (simp add: join_assign_step Let_def)
      then have "type_rank (av_type ?j) < type_rank (av_type x) \<or> value_rank u (av_value ?j) < value_rank u (av_value x)
          \<or> trust_rank u (av_trust ?j) < trust_rank u (av_trust x)
          \<or> secrecy_rank u (av_secrecy ?j) < secrecy_rank u (av_secrecy x)
          \<or> subset_rank (set (vu_provenance u)) (av_provenance ?j) < subset_rank (set (vu_provenance u)) (av_provenance x)"
        using x y value_join.rank_less [of u] trust_join.rank_less [of u] secrecy_join.rank_less [of u]
          provenance_join.rank_less [of u] join_type_rank [of "av_type x" "av_type y"]
        unfolding parts by blast
      with le show ?thesis unfolding parts_rank_def by linarith
    qed
    with in_u False show ?thesis by (simp add: abstract_rank_def)
  qed
  then show "abstract_in u (fst (join_assign x y))" by blast
  assume "snd (join_assign x y)"
  with main show "abstract_rank u (fst (join_assign x y)) < abstract_rank u x" by blast
qed

end
