(* ===== verification/Kinds.thy ===== *)
theory Kinds
  imports Prelude
begin

text \<open>
  The enumerations of the intermediate representation (\<^verbatim>\<open>src/domain/ir.rs\<close>) with their names and
  the derived order, which is the order of declaration.
\<close>

datatype provider =
  PrGithub | PrGitlab | PrAzure | PrCircleci

fun provider_name :: "provider \<Rightarrow> string" where
  "provider_name PrGithub = ''github''"
| "provider_name PrGitlab = ''gitlab''"
| "provider_name PrAzure = ''azure''"
| "provider_name PrCircleci = ''circleci''"

fun provider_index :: "provider \<Rightarrow> nat" where
  "provider_index PrGithub = 0"
| "provider_index PrGitlab = 1"
| "provider_index PrAzure = 2"
| "provider_index PrCircleci = 3"

lemma provider_index_inj: "provider_index a = provider_index b \<longleftrightarrow> a = b"
  by (cases a; cases b) simp_all

instantiation provider :: linorder
begin

definition less_eq_provider :: "provider \<Rightarrow> provider \<Rightarrow> bool" where
  "less_eq_provider a b \<longleftrightarrow> provider_index a \<le> provider_index b"
definition less_provider :: "provider \<Rightarrow> provider \<Rightarrow> bool" where
  "less_provider a b \<longleftrightarrow> provider_index a < provider_index b"

instance
  by standard (auto simp: less_eq_provider_def less_provider_def provider_index_inj)

end

datatype phase =
  PhSource | PhCompile | PhPlan | PhRun | PhPost

fun phase_name :: "phase \<Rightarrow> string" where
  "phase_name PhSource = ''source''"
| "phase_name PhCompile = ''compile''"
| "phase_name PhPlan = ''plan''"
| "phase_name PhRun = ''run''"
| "phase_name PhPost = ''post''"

fun phase_index :: "phase \<Rightarrow> nat" where
  "phase_index PhSource = 0"
| "phase_index PhCompile = 1"
| "phase_index PhPlan = 2"
| "phase_index PhRun = 3"
| "phase_index PhPost = 4"

lemma phase_index_inj: "phase_index a = phase_index b \<longleftrightarrow> a = b"
  by (cases a; cases b) simp_all

instantiation phase :: linorder
begin

definition less_eq_phase :: "phase \<Rightarrow> phase \<Rightarrow> bool" where
  "less_eq_phase a b \<longleftrightarrow> phase_index a \<le> phase_index b"
definition less_phase :: "phase \<Rightarrow> phase \<Rightarrow> bool" where
  "less_phase a b \<longleftrightarrow> phase_index a < phase_index b"

instance
  by standard (auto simp: less_eq_phase_def less_phase_def phase_index_inj)

end

datatype node_kind =
  NkTrigger | NkParameter | NkWorkflow | NkStage | NkJob
| NkStep | NkCall | NkCommand | NkGate | NkResource
| NkEffect | NkOpaque

fun node_kind_name :: "node_kind \<Rightarrow> string" where
  "node_kind_name NkTrigger = ''trigger''"
| "node_kind_name NkParameter = ''parameter''"
| "node_kind_name NkWorkflow = ''workflow''"
| "node_kind_name NkStage = ''stage''"
| "node_kind_name NkJob = ''job''"
| "node_kind_name NkStep = ''step''"
| "node_kind_name NkCall = ''call''"
| "node_kind_name NkCommand = ''command''"
| "node_kind_name NkGate = ''gate''"
| "node_kind_name NkResource = ''resource''"
| "node_kind_name NkEffect = ''effect''"
| "node_kind_name NkOpaque = ''opaque''"

fun node_kind_index :: "node_kind \<Rightarrow> nat" where
  "node_kind_index NkTrigger = 0"
| "node_kind_index NkParameter = 1"
| "node_kind_index NkWorkflow = 2"
| "node_kind_index NkStage = 3"
| "node_kind_index NkJob = 4"
| "node_kind_index NkStep = 5"
| "node_kind_index NkCall = 6"
| "node_kind_index NkCommand = 7"
| "node_kind_index NkGate = 8"
| "node_kind_index NkResource = 9"
| "node_kind_index NkEffect = 10"
| "node_kind_index NkOpaque = 11"

lemma node_kind_index_inj: "node_kind_index a = node_kind_index b \<longleftrightarrow> a = b"
  by (cases a; cases b) simp_all

instantiation node_kind :: linorder
begin

definition less_eq_node_kind :: "node_kind \<Rightarrow> node_kind \<Rightarrow> bool" where
  "less_eq_node_kind a b \<longleftrightarrow> node_kind_index a \<le> node_kind_index b"
definition less_node_kind :: "node_kind \<Rightarrow> node_kind \<Rightarrow> bool" where
  "less_node_kind a b \<longleftrightarrow> node_kind_index a < node_kind_index b"

instance
  by standard (auto simp: less_eq_node_kind_def less_node_kind_def node_kind_index_inj)

end

datatype edge_kind =
  EkControl | EkData | EkCall | EkGrant | EkPersist
| EkRead | EkWrite

fun edge_kind_name :: "edge_kind \<Rightarrow> string" where
  "edge_kind_name EkControl = ''control''"
| "edge_kind_name EkData = ''data''"
| "edge_kind_name EkCall = ''call''"
| "edge_kind_name EkGrant = ''grant''"
| "edge_kind_name EkPersist = ''persist''"
| "edge_kind_name EkRead = ''read''"
| "edge_kind_name EkWrite = ''write''"

fun edge_kind_index :: "edge_kind \<Rightarrow> nat" where
  "edge_kind_index EkControl = 0"
| "edge_kind_index EkData = 1"
| "edge_kind_index EkCall = 2"
| "edge_kind_index EkGrant = 3"
| "edge_kind_index EkPersist = 4"
| "edge_kind_index EkRead = 5"
| "edge_kind_index EkWrite = 6"

lemma edge_kind_index_inj: "edge_kind_index a = edge_kind_index b \<longleftrightarrow> a = b"
  by (cases a; cases b) simp_all

instantiation edge_kind :: linorder
begin

definition less_eq_edge_kind :: "edge_kind \<Rightarrow> edge_kind \<Rightarrow> bool" where
  "less_eq_edge_kind a b \<longleftrightarrow> edge_kind_index a \<le> edge_kind_index b"
definition less_edge_kind :: "edge_kind \<Rightarrow> edge_kind \<Rightarrow> bool" where
  "less_edge_kind a b \<longleftrightarrow> edge_kind_index a < edge_kind_index b"

instance
  by standard (auto simp: less_eq_edge_kind_def less_edge_kind_def edge_kind_index_inj)

end

datatype capability =
  CapRepositoryRead | CapRepositoryWrite | CapTokenRead | CapTokenWrite | CapOidc
| CapCloudCredential | CapSecretAccess | CapNetwork | CapFilesystemRead | CapFilesystemWrite
| CapShell | CapArtifactRead | CapArtifactWrite | CapCacheRead | CapCacheWrite
| CapDeployment | CapSelfHostedPersistence | CapAiTool

fun capability_name :: "capability \<Rightarrow> string" where
  "capability_name CapRepositoryRead = ''repository_read''"
| "capability_name CapRepositoryWrite = ''repository_write''"
| "capability_name CapTokenRead = ''token_read''"
| "capability_name CapTokenWrite = ''token_write''"
| "capability_name CapOidc = ''oidc''"
| "capability_name CapCloudCredential = ''cloud_credential''"
| "capability_name CapSecretAccess = ''secret_access''"
| "capability_name CapNetwork = ''network''"
| "capability_name CapFilesystemRead = ''filesystem_read''"
| "capability_name CapFilesystemWrite = ''filesystem_write''"
| "capability_name CapShell = ''shell''"
| "capability_name CapArtifactRead = ''artifact_read''"
| "capability_name CapArtifactWrite = ''artifact_write''"
| "capability_name CapCacheRead = ''cache_read''"
| "capability_name CapCacheWrite = ''cache_write''"
| "capability_name CapDeployment = ''deployment''"
| "capability_name CapSelfHostedPersistence = ''self_hosted_persistence''"
| "capability_name CapAiTool = ''ai_tool''"

fun capability_index :: "capability \<Rightarrow> nat" where
  "capability_index CapRepositoryRead = 0"
| "capability_index CapRepositoryWrite = 1"
| "capability_index CapTokenRead = 2"
| "capability_index CapTokenWrite = 3"
| "capability_index CapOidc = 4"
| "capability_index CapCloudCredential = 5"
| "capability_index CapSecretAccess = 6"
| "capability_index CapNetwork = 7"
| "capability_index CapFilesystemRead = 8"
| "capability_index CapFilesystemWrite = 9"
| "capability_index CapShell = 10"
| "capability_index CapArtifactRead = 11"
| "capability_index CapArtifactWrite = 12"
| "capability_index CapCacheRead = 13"
| "capability_index CapCacheWrite = 14"
| "capability_index CapDeployment = 15"
| "capability_index CapSelfHostedPersistence = 16"
| "capability_index CapAiTool = 17"

lemma capability_index_inj: "capability_index a = capability_index b \<longleftrightarrow> a = b"
  by (cases a; cases b) simp_all

instantiation capability :: linorder
begin

definition less_eq_capability :: "capability \<Rightarrow> capability \<Rightarrow> bool" where
  "less_eq_capability a b \<longleftrightarrow> capability_index a \<le> capability_index b"
definition less_capability :: "capability \<Rightarrow> capability \<Rightarrow> bool" where
  "less_capability a b \<longleftrightarrow> capability_index a < capability_index b"

instance
  by standard (auto simp: less_eq_capability_def less_capability_def capability_index_inj)

end

datatype observable_effect =
  EffRepositoryChange | EffNetworkRequest | EffFileRead | EffFileWrite | EffCommandExecution
| EffArtifactPublish | EffCachePublish | EffDeploymentChange | EffCredentialUse | EffWorkflowChange
| EffAiAgentExecution

fun observable_effect_name :: "observable_effect \<Rightarrow> string" where
  "observable_effect_name EffRepositoryChange = ''repository_change''"
| "observable_effect_name EffNetworkRequest = ''network_request''"
| "observable_effect_name EffFileRead = ''file_read''"
| "observable_effect_name EffFileWrite = ''file_write''"
| "observable_effect_name EffCommandExecution = ''command_execution''"
| "observable_effect_name EffArtifactPublish = ''artifact_publish''"
| "observable_effect_name EffCachePublish = ''cache_publish''"
| "observable_effect_name EffDeploymentChange = ''deployment_change''"
| "observable_effect_name EffCredentialUse = ''credential_use''"
| "observable_effect_name EffWorkflowChange = ''workflow_change''"
| "observable_effect_name EffAiAgentExecution = ''ai_agent_execution''"

fun observable_effect_index :: "observable_effect \<Rightarrow> nat" where
  "observable_effect_index EffRepositoryChange = 0"
| "observable_effect_index EffNetworkRequest = 1"
| "observable_effect_index EffFileRead = 2"
| "observable_effect_index EffFileWrite = 3"
| "observable_effect_index EffCommandExecution = 4"
| "observable_effect_index EffArtifactPublish = 5"
| "observable_effect_index EffCachePublish = 6"
| "observable_effect_index EffDeploymentChange = 7"
| "observable_effect_index EffCredentialUse = 8"
| "observable_effect_index EffWorkflowChange = 9"
| "observable_effect_index EffAiAgentExecution = 10"

lemma observable_effect_index_inj: "observable_effect_index a = observable_effect_index b \<longleftrightarrow> a = b"
  by (cases a; cases b) simp_all

instantiation observable_effect :: linorder
begin

definition less_eq_observable_effect :: "observable_effect \<Rightarrow> observable_effect \<Rightarrow> bool" where
  "less_eq_observable_effect a b \<longleftrightarrow> observable_effect_index a \<le> observable_effect_index b"
definition less_observable_effect :: "observable_effect \<Rightarrow> observable_effect \<Rightarrow> bool" where
  "less_observable_effect a b \<longleftrightarrow> observable_effect_index a < observable_effect_index b"

instance
  by standard (auto simp: less_eq_observable_effect_def less_observable_effect_def observable_effect_index_inj)

end

end
