(* ===== verification/Conditions.thy ===== *)
theory Conditions
  imports Json
begin

text \<open>
  Conditions (\<^verbatim>\<open>src/domain/condition.rs\<close>): reduced ordered binary decision diagrams over named
  atoms. \<open>cond_eval\<close> is the Boolean function a diagram denotes; \<open>cond_ok\<close> says that it is ordered
  and reduced. The section on the order gives the derived \<^verbatim>\<open>Ord\<close> as a \<open>linorder\<close> instance.
\<close>

datatype truth = TFalse | TTrue | TUnknown

datatype condition = CFalse | CTrue | Branch string condition condition

datatype operation = OpAnd | OpOr

section \<open>Operations\<close>

definition cond_branch :: "string \<Rightarrow> condition \<Rightarrow> condition \<Rightarrow> condition" where
  "cond_branch v low high = (if low = high then low else Branch v low high)"

definition cond_atom :: "string \<Rightarrow> condition" where
  "cond_atom v = cond_branch v CFalse CTrue"

fun cond_not :: "condition \<Rightarrow> condition" where
  "cond_not CFalse = CTrue"
| "cond_not CTrue = CFalse"
| "cond_not (Branch v low high) = cond_branch v (cond_not low) (cond_not high)"

function cond_apply :: "operation \<Rightarrow> condition \<Rightarrow> condition \<Rightarrow> condition" where
  "cond_apply op l r =
     (if l = r then l
      else (case (op, l, r) of
          (OpAnd, CFalse, _) \<Rightarrow> CFalse
        | (OpAnd, _, CFalse) \<Rightarrow> CFalse
        | (OpAnd, CTrue, v) \<Rightarrow> v
        | (OpAnd, v, CTrue) \<Rightarrow> v
        | (OpOr, CFalse, v) \<Rightarrow> v
        | (OpOr, v, CFalse) \<Rightarrow> v
        | (OpOr, CTrue, _) \<Rightarrow> CTrue
        | (OpOr, _, CTrue) \<Rightarrow> CTrue
        | (_, Branch lv ll lh, Branch rv rl rh) \<Rightarrow>
            if lv < rv then cond_branch lv (cond_apply op ll r) (cond_apply op lh r)
            else if rv < lv then cond_branch rv (cond_apply op l rl) (cond_apply op l rh)
            else cond_branch lv (cond_apply op ll rl) (cond_apply op lh rh)))"
  by pat_completeness auto
termination
  by (relation "measure (\<lambda>(op, l, r). size l + size r)") auto

declare cond_apply.simps [simp del]

definition cond_and :: "condition \<Rightarrow> condition \<Rightarrow> condition" where
  "cond_and a b = cond_apply OpAnd a b"
definition cond_or :: "condition \<Rightarrow> condition \<Rightarrow> condition" where
  "cond_or a b = cond_apply OpOr a b"
definition satisfiable :: "condition \<Rightarrow> bool" where
  "satisfiable c \<longleftrightarrow> c \<noteq> CFalse"
definition cond_implies :: "condition \<Rightarrow> condition \<Rightarrow> bool" where
  "cond_implies a b \<longleftrightarrow> \<not> satisfiable (cond_and a (cond_not b))"

fun evaluate :: "(string \<Rightarrow> bool option) \<Rightarrow> condition \<Rightarrow> truth" where
  "evaluate lookup CFalse = TFalse"
| "evaluate lookup CTrue = TTrue"
| "evaluate lookup (Branch v low high) =
     (case lookup v of
        Some False \<Rightarrow> evaluate lookup low
      | Some True \<Rightarrow> evaluate lookup high
      | None \<Rightarrow>
          let l = evaluate lookup low; h = evaluate lookup high in
          if l = h then l else TUnknown)"

fun cond_collect :: "condition \<Rightarrow> string list" where
  "cond_collect (Branch v low high) = v # cond_collect low @ cond_collect high"
| "cond_collect _ = []"

definition cond_atoms :: "condition \<Rightarrow> string list" where
  "cond_atoms c = bset (cond_collect c)"

fun cond_to_json :: "condition \<Rightarrow> json" where
  "cond_to_json CFalse = JBoolean False"
| "cond_to_json CTrue = JBoolean True"
| "cond_to_json (Branch v low high) = JObject (bmap_from
     [(''high'', cond_to_json high), (''low'', cond_to_json low), (''variable'', JString v)])"

fun cond_display :: "condition \<Rightarrow> string" where
  "cond_display CFalse = ''false''"
| "cond_display CTrue = ''true''"
| "cond_display (Branch v low high) =
     (if low = CFalse \<and> high = CTrue then v
      else ''((not '' @ v @ '' and '' @ cond_display low @ '') or ('' @ v @ '' and ''
           @ cond_display high @ ''))'')"

section \<open>The derived order\<close>

fun cond_key :: "condition \<Rightarrow> (nat \<times> string) list" where
  "cond_key CFalse = [(0, [])]"
| "cond_key CTrue = [(1, [])]"
| "cond_key (Branch v low high) = (2, v) # cond_key low @ cond_key high"

lemma cond_key_prefix: "cond_key a @ x = cond_key b @ y \<Longrightarrow> a = b \<and> x = y"
proof (induction a arbitrary: b x y)
  case (Branch v l h)
  from Branch.prems obtain l' h' where b: "b = Branch v l' h'" by (cases b) auto
  with Branch.prems have "cond_key l @ (cond_key h @ x) = cond_key l' @ (cond_key h' @ y)" by simp
  with Branch.IH b show ?case by blast
next
  case CFalse
  then show ?case by (cases b) auto
next
  case CTrue
  then show ?case by (cases b) auto
qed

lemma cond_key_inj: "cond_key a = cond_key b \<longleftrightarrow> a = b"
  using cond_key_prefix [of a "[]" b "[]"] by auto

instantiation condition :: linorder
begin

definition less_eq_condition :: "condition \<Rightarrow> condition \<Rightarrow> bool" where
  "less_eq_condition a b \<longleftrightarrow> cond_key a \<le> cond_key b"

definition less_condition :: "condition \<Rightarrow> condition \<Rightarrow> bool" where
  "less_condition a b \<longleftrightarrow> cond_key a < cond_key b"

instance
  by standard (auto simp: less_eq_condition_def less_condition_def less_le_not_le
      cond_key_inj intro: order_trans dest: antisym)

end

section \<open>What a condition denotes\<close>

fun cond_eval :: "(string \<Rightarrow> bool) \<Rightarrow> condition \<Rightarrow> bool" where
  "cond_eval env CFalse = False"
| "cond_eval env CTrue = True"
| "cond_eval env (Branch v low high) = (if env v then cond_eval env high else cond_eval env low)"

definition root_above :: "string \<Rightarrow> condition \<Rightarrow> bool" where
  "root_above v c = (case c of Branch w _ _ \<Rightarrow> v < w | _ \<Rightarrow> True)"

fun cond_ok :: "condition \<Rightarrow> bool" where
  "cond_ok (Branch v low high) \<longleftrightarrow>
     low \<noteq> high \<and> root_above v low \<and> root_above v high \<and> cond_ok low \<and> cond_ok high"
| "cond_ok _ \<longleftrightarrow> True"

lemma root_above_simps [simp]:
  "root_above v CFalse" "root_above v CTrue" "root_above v (Branch w l h) = (v < w)"
  by (simp_all add: root_above_def)

lemma root_above_trans: "v < w \<Longrightarrow> root_above w c \<Longrightarrow> root_above v c"
  by (cases c) auto

lemma cond_ok_above: "cond_ok c \<Longrightarrow> root_above v c \<Longrightarrow> w \<in> set (cond_collect c) \<Longrightarrow> v < w"
  by (induction c arbitrary: v) (auto dest: root_above_trans)

lemma cond_eval_cong:
  "(\<And>v. v \<in> set (cond_collect c) \<Longrightarrow> env v = env' v) \<Longrightarrow> cond_eval env c = cond_eval env' c"
  by (induction c) auto

lemma eval_branch [simp]: "cond_eval env (cond_branch v l h) = cond_eval env (Branch v l h)"
  by (simp add: cond_branch_def)

lemma eval_not: "cond_eval env (cond_not c) = (\<not> cond_eval env c)"
  by (induction c) auto

lemma eval_apply:
  "cond_eval env (cond_apply op l r) =
     (case op of OpAnd \<Rightarrow> cond_eval env l \<and> cond_eval env r | OpOr \<Rightarrow> cond_eval env l \<or> cond_eval env r)"
proof (induction op l r rule: cond_apply.induct)
  case (1 op l r)
  show ?case
    by (subst cond_apply.simps, use 1 in \<open>cases op; cases l; cases r\<close>) (auto split: if_splits)
qed

lemma ok_branch: "root_above v l \<Longrightarrow> root_above v h \<Longrightarrow> cond_ok l \<Longrightarrow> cond_ok h \<Longrightarrow>
    cond_ok (cond_branch v l h)"
  by (simp add: cond_branch_def)

lemma above_branch: "root_above w l \<Longrightarrow> root_above w h \<Longrightarrow> w < v \<Longrightarrow> root_above w (cond_branch v l h)"
  by (simp add: cond_branch_def)

lemma ok_not: "cond_ok c \<Longrightarrow> cond_ok (cond_not c) \<and> (\<forall>w. root_above w c \<longrightarrow> root_above w (cond_not c))"
proof (induction c)
  case (Branch v l h)
  then have "root_above v (cond_not l)" "root_above v (cond_not h)"
      "cond_ok (cond_not l)" "cond_ok (cond_not h)" by auto
  then show ?case by (auto intro: ok_branch above_branch root_above_trans)
qed auto

lemma apply_same: "cond_apply op c c = c"
  by (simp add: cond_apply.simps)

lemma apply_less: "lv < rv \<Longrightarrow> cond_apply op (Branch lv ll lh) (Branch rv rl rh) =
    cond_branch lv (cond_apply op ll (Branch rv rl rh)) (cond_apply op lh (Branch rv rl rh))"
  by (subst cond_apply.simps) (cases op; auto)

lemma apply_greater: "rv < lv \<Longrightarrow> cond_apply op (Branch lv ll lh) (Branch rv rl rh) =
    cond_branch rv (cond_apply op (Branch lv ll lh) rl) (cond_apply op (Branch lv ll lh) rh)"
  by (subst cond_apply.simps) (cases op; auto)

lemma apply_equal: "(ll, lh) \<noteq> (rl, rh) \<Longrightarrow> cond_apply op (Branch v ll lh) (Branch v rl rh) =
    cond_branch v (cond_apply op ll rl) (cond_apply op lh rh)"
  by (subst cond_apply.simps) (cases op; auto)

lemma apply_constant:
  "l \<in> {CFalse, CTrue} \<or> r \<in> {CFalse, CTrue} \<Longrightarrow> cond_apply op l r \<in> {CFalse, CTrue, l, r}"
  by (subst cond_apply.simps) (cases op; cases l; cases r; auto)

lemma ok_apply:
  "cond_ok l \<Longrightarrow> cond_ok r \<Longrightarrow>
     cond_ok (cond_apply op l r) \<and> (\<forall>w. root_above w l \<longrightarrow> root_above w r \<longrightarrow> root_above w (cond_apply op l r))"
proof (induction "size l + size r" arbitrary: l r rule: less_induct)
  case less
  have ih: "cond_ok (cond_apply op a b)" "root_above w a \<Longrightarrow> root_above w b \<Longrightarrow> root_above w (cond_apply op a b)"
    if "size a + size b < size l + size r" "cond_ok a" "cond_ok b" for a b w
    using less.hyps [of a b] that by blast+
  show ?case
  proof (cases "l \<in> {CFalse, CTrue} \<or> r \<in> {CFalse, CTrue} \<or> l = r")
    case True
    then have "cond_apply op l r \<in> {CFalse, CTrue, l, r}"
      using apply_constant [of l r op] by (auto simp: apply_same)
    with less.prems show ?thesis by auto
  next
    case False
    then obtain lv ll lh rv rl rh where lr: "l = Branch lv ll lh" "r = Branch rv rl rh" "l \<noteq> r"
      by (cases l; cases r; auto)
    note ok = less.prems [unfolded lr, simplified]
    consider "lv < rv" | "rv < lv" | "lv = rv" by fastforce
    then show ?thesis
    proof cases
      case 1
      have b: "cond_ok (cond_apply op ll r)" "cond_ok (cond_apply op lh r)"
          "root_above lv (cond_apply op ll r)" "root_above lv (cond_apply op lh r)"
        using ok 1 lr less.prems by (auto intro!: ih)
      with 1 lr show ?thesis
        by (auto simp: apply_less intro!: ok_branch above_branch intro: root_above_trans)
    next
      case 2
      have b: "cond_ok (cond_apply op l rl)" "cond_ok (cond_apply op l rh)"
          "root_above rv (cond_apply op l rl)" "root_above rv (cond_apply op l rh)"
        using ok 2 lr less.prems by (auto intro!: ih)
      with 2 lr show ?thesis
        by (auto simp: apply_greater intro!: ok_branch above_branch intro: root_above_trans)
    next
      case 3
      have b: "cond_ok (cond_apply op ll rl)" "cond_ok (cond_apply op lh rh)"
          "root_above rv (cond_apply op ll rl)" "root_above rv (cond_apply op lh rh)"
        using ok 3 lr by (auto intro!: ih)
      with 3 lr show ?thesis
        by (auto simp: apply_equal intro!: ok_branch above_branch intro: root_above_trans)
    qed
  qed
qed

lemma eval_upd_above: "cond_ok c \<Longrightarrow> root_above v c \<Longrightarrow> cond_eval (env(v := x)) c = cond_eval env c"
  by (rule cond_eval_cong) (auto dest: cond_ok_above)

lemma cond_canonical:
  "cond_ok a \<Longrightarrow> cond_ok b \<Longrightarrow> (\<And>env. cond_eval env a = cond_eval env b) \<Longrightarrow> a = b"
proof (induction "size a + size b" arbitrary: a b rule: less_induct)
  case less
  have split: False if c: "c = Branch v l h" "cond_ok c" "cond_ok d" "root_above v d"
      "\<And>env. cond_eval env c = cond_eval env d" "size c + size d \<le> size a + size b" for c d v l h
  proof -
    have "cond_eval env l = cond_eval env d" "cond_eval env h = cond_eval env d" for env
      using c(5) [of "env(v := False)"] c(5) [of "env(v := True)"] c(1-4) by (simp_all add: eval_upd_above)
    then have "l = d" "h = d"
      using less.hyps [of l d] less.hyps [of h d] c by auto
    with c show False by simp
  qed
  show ?case
  proof (cases a)
    case a: (Branch v l h)
    show ?thesis
    proof (cases "root_above v b")
      case True
      then show ?thesis using split [of a v l h b] a less.prems by auto
    next
      case False
      then obtain w l' h' where b: "b = Branch w l' h'" "\<not> v < w" by (cases b) auto
      show ?thesis
      proof (cases "w < v")
        case True
        then show ?thesis using split [of b w l' h' a] a b less.prems by auto
      next
        case False
        with b have w: "w = v" by simp
        have "cond_eval env l = cond_eval env l'" "cond_eval env h = cond_eval env h'" for env
          using less.prems(3) [of "env(v := False)"] less.prems(3) [of "env(v := True)"]
            less.prems(1,2) a b w by (simp_all add: eval_upd_above)
        then have "l = l'" "h = h'"
          using less.hyps [of l l'] less.hyps [of h h'] less.prems(1,2) a b by auto
        with a b w show ?thesis by simp
      qed
    qed
  next
    case a: CFalse
    show ?thesis
    proof (cases b)
      case (Branch v l h)
      then show ?thesis using split [of b v l h a] a less.prems by auto
    qed (use a less.prems in auto)
  next
    case a: CTrue
    show ?thesis
    proof (cases b)
      case (Branch v l h)
      then show ?thesis using split [of b v l h a] a less.prems by auto
    qed (use a less.prems in auto)
  qed
qed

section \<open>Properties\<close>

text \<open>
  The constructors and connectives compute the Boolean function they name, and keep diagrams
  ordered and reduced.
\<close>

theorem condition_connectives:
  assumes "cond_ok a" "cond_ok b"
  shows "cond_ok (cond_atom v) \<and> cond_ok (cond_not a) \<and> cond_ok (cond_and a b) \<and> cond_ok (cond_or a b)
    \<and> cond_eval env (cond_atom v) = env v
    \<and> cond_eval env (cond_not a) = (\<not> cond_eval env a)
    \<and> cond_eval env (cond_and a b) = (cond_eval env a \<and> cond_eval env b)
    \<and> cond_eval env (cond_or a b) = (cond_eval env a \<or> cond_eval env b)"
  using assms
  by (simp add: cond_atom_def cond_branch_def cond_and_def cond_or_def ok_not ok_apply eval_not eval_apply)

lemma condition_connectives_witness:
  "cond_eval (\<lambda>v. v = ''a'') (cond_or (cond_atom ''b'') (cond_atom ''a'')) \<and>
   \<not> cond_eval (\<lambda>v. v = ''a'') (cond_and (cond_atom ''b'') (cond_atom ''a''))"
  using condition_connectives [of "cond_atom ''b''" "cond_atom ''a''" "''a''" "\<lambda>v. v = ''a''"]
  by (simp add: cond_atom_def cond_branch_def)



text \<open>
  Satisfiability and implication are decided exactly: \<open>satisfiable\<close> holds when some assignment
  satisfies the condition, \<open>cond_implies\<close> when every assignment satisfying the first satisfies the
  second.
\<close>

theorem condition_decisions:
  assumes "cond_ok a" "cond_ok b"
  shows "satisfiable a = (\<exists>env. cond_eval env a)
    \<and> cond_implies a b = (\<forall>env. cond_eval env a \<longrightarrow> cond_eval env b)"
proof -
  have sat: "satisfiable c = (\<exists>env. cond_eval env c)" if "cond_ok c" for c
    unfolding satisfiable_def using cond_canonical [OF that, of CFalse] by auto
  have "cond_ok (cond_and a (cond_not b))"
    unfolding cond_and_def using assms ok_not ok_apply by blast
  from sat [OF this] sat [OF assms(1)] show ?thesis
    by (auto simp: cond_implies_def cond_and_def eval_apply eval_not)
qed

lemma condition_decisions_witness:
  "cond_implies (cond_and (cond_atom ''a'') (cond_atom ''b'')) (cond_atom ''b'')"
proof -
  have "cond_ok (cond_and (cond_atom ''a'') (cond_atom ''b''))" "cond_ok (cond_atom ''b'')"
    by (simp_all add: cond_and_def ok_apply cond_atom_def cond_branch_def)
  from condition_decisions [OF this] show ?thesis
    by (simp add: cond_and_def eval_apply)
qed

definition extends :: "(string \<Rightarrow> bool option) \<Rightarrow> (string \<Rightarrow> bool) \<Rightarrow> bool" where
  "extends lookup env \<longleftrightarrow> (\<forall>v x. lookup v = Some x \<longrightarrow> env v = x)"

definition decides :: "(string \<Rightarrow> bool option) \<Rightarrow> condition \<Rightarrow> bool \<Rightarrow> bool" where
  "decides lookup c x \<longleftrightarrow> (\<forall>env. extends lookup env \<longrightarrow> cond_eval env c = x)"

lemma extends_exists: "\<exists>env. extends lookup env"
  by (rule exI [of _ "\<lambda>v. the (lookup v)"]) (simp add: extends_def)

lemma decides_unique: "decides lookup c True \<Longrightarrow> decides lookup c False \<Longrightarrow> False"
  using extends_exists [of lookup] by (auto simp: decides_def)

lemma decides_known:
  "lookup v = Some b \<Longrightarrow> decides lookup (Branch v l h) x = decides lookup (if b then h else l) x"
  by (auto simp: decides_def extends_def)

lemma decides_unknown:
  assumes "lookup v = None" "cond_ok (Branch v l h)"
  shows "decides lookup (Branch v l h) x \<longleftrightarrow> decides lookup l x \<and> decides lookup h x"
proof
  assume d: "decides lookup (Branch v l h) x"
  show "decides lookup l x \<and> decides lookup h x"
    unfolding decides_def
  proof (intro conjI allI impI)
    fix env assume "extends lookup env"
    then have e: "extends lookup (env(v := b))" for b using assms(1) by (auto simp: extends_def)
    show "cond_eval env l = x" "cond_eval env h = x"
      using d [unfolded decides_def, rule_format, OF e [of False]]
        d [unfolded decides_def, rule_format, OF e [of True]] assms(2)
      by (simp_all add: eval_upd_above)
  qed
qed (auto simp: decides_def)

text \<open>
  C8. Three-valued evaluation is exact: under a partial assignment it answers true or false
  exactly when every total assignment extending it does, and unknown otherwise.
\<close>

theorem evaluate_exact:
  assumes "cond_ok c"
  shows "evaluate lookup c =
    (if decides lookup c True then TTrue else if decides lookup c False then TFalse else TUnknown)"
  using assms
proof (induction c)
  case (Branch v l h)
  then show ?case
    by (cases "lookup v")
      (auto simp: decides_known decides_unknown Let_def dest: decides_unique split: if_splits)
qed (use extends_exists [of lookup] in \<open>auto simp: decides_def\<close>)

lemma evaluate_exact_witness:
  "evaluate (\<lambda>v. if v = ''a'' then Some False else None)
     (Branch ''a'' CFalse (Branch ''b'' CFalse CTrue)) = TFalse
   \<and> decides (\<lambda>v. if v = ''a'' then Some False else None)
       (Branch ''a'' CFalse (Branch ''b'' CFalse CTrue)) False"
  using evaluate_exact [of "Branch ''a'' CFalse (Branch ''b'' CFalse CTrue)"
      "\<lambda>v. if v = ''a'' then Some False else None"]
  by (auto simp: less_char_def split: if_splits)

end
