(* ===== verification/Ir.thy ===== *)
theory Ir
  imports Kinds Conditions Abstract_Values Paths
begin

text \<open>
  The intermediate representation (\<^verbatim>\<open>src/domain/ir.rs\<close>): sources, nodes, edges, programs, their
  finalization into dense storage, the lookups and the validator. A fresh provisional node
  identifier is the argument of \<open>node_new\<close>; the process-wide counter that hands them out is the
  caller's.
\<close>

type_synonym node_id = nat

record source =
  src_id :: source_id
  src_path :: string
  src_provider :: provider

record node =
  nd_id :: node_id
  nd_provider :: provider
  nd_kind :: node_kind
  nd_name :: string
  nd_phase :: phase
  nd_span :: span
  nd_condition :: condition
  nd_attributes :: "(string \<times> abstract_value) list"
  nd_capabilities :: "capability list"
  nd_effects :: "observable_effect list"
  nd_unknown :: "unknown_reason option"

record edge =
  ed_kind :: edge_kind
  ed_from :: node_id
  ed_to :: node_id
  ed_condition :: condition
  ed_label :: "string option"

record program =
  pg_sources :: "source list"
  pg_nodes :: "node list"
  pg_edges :: "edge list"
  pg_entrypoints :: "node_id list"

section \<open>Construction\<close>

definition provisional_id :: "u32 \<Rightarrow> (u32 \<times> u32) option" where
  "provisional_id counter = (if counter = - 1 then None else Some (counter, counter + 1))"

definition node_new ::
  "node_id \<Rightarrow> provider \<Rightarrow> node_kind \<Rightarrow> string \<Rightarrow> phase \<Rightarrow> span \<Rightarrow> condition \<Rightarrow>
   (string \<times> abstract_value) list \<Rightarrow> capability list \<Rightarrow> observable_effect list \<Rightarrow> unknown_reason option \<Rightarrow> node" where
  "node_new i pr k nm ph sp c attrs caps effs un =
     \<lparr>nd_id = i, nd_provider = pr, nd_kind = k, nd_name = nm, nd_phase = ph, nd_span = sp,
      nd_condition = c, nd_attributes = attrs, nd_capabilities = bset caps, nd_effects = bset effs,
      nd_unknown = un\<rparr>"

definition node_simple :: "node_id \<Rightarrow> provider \<Rightarrow> node_kind \<Rightarrow> string \<Rightarrow> phase \<Rightarrow> span \<Rightarrow> node" where
  "node_simple i pr k nm ph sp = node_new i pr k nm ph sp CTrue [] [] [] None"

definition node_remap_sources :: "(source_id \<Rightarrow> source_id option) \<Rightarrow> node \<Rightarrow> node" where
  "node_remap_sources f n = n\<lparr>nd_span := remap_span f (nd_span n),
     nd_attributes := map (map_prod id (av_remap_sources f)) (nd_attributes n)\<rparr>"

definition edge_new :: "edge_kind \<Rightarrow> node_id \<Rightarrow> node_id \<Rightarrow> condition \<Rightarrow> string option \<Rightarrow> edge" where
  "edge_new k a b c l = \<lparr>ed_kind = k, ed_from = a, ed_to = b, ed_condition = c, ed_label = l\<rparr>"

definition edge_simple :: "edge_kind \<Rightarrow> node_id \<Rightarrow> node_id \<Rightarrow> edge" where
  "edge_simple k a b = edge_new k a b CTrue None"

definition program_empty :: "provider \<Rightarrow> string \<Rightarrow> program" where
  "program_empty pr path =
     \<lparr>pg_sources = [\<lparr>src_id = 0, src_path = normalize_slashes path, src_provider = pr\<rparr>],
      pg_nodes = [], pg_edges = [], pg_entrypoints = []\<rparr>"

definition add_node :: "node \<Rightarrow> program \<Rightarrow> program" where
  "add_node n p = p\<lparr>pg_nodes := pg_nodes p @ [n]\<rparr>"

definition add_edge :: "edge \<Rightarrow> program \<Rightarrow> program" where
  "add_edge e p = (if ed_from e \<noteq> ed_to e then p\<lparr>pg_edges := pg_edges p @ [e]\<rparr> else p)"

definition add_entrypoint :: "node_id \<Rightarrow> program \<Rightarrow> program" where
  "add_entrypoint i p = p\<lparr>pg_entrypoints := pg_entrypoints p @ [i]\<rparr>"

section \<open>Lookups\<close>

definition source_of :: "program \<Rightarrow> source_id \<Rightarrow> source option" where
  "source_of p i = (if i < length (pg_sources p) \<and> src_id (pg_sources p ! i) = i
                    then Some (pg_sources p ! i) else None)"

definition source_path :: "program \<Rightarrow> string" where
  "source_path p = (case pg_sources p of [] \<Rightarrow> ''<unknown>'' | s # _ \<Rightarrow> src_path s)"

definition source_path_for :: "program \<Rightarrow> source_id \<Rightarrow> string option" where
  "source_path_for p i = map_option src_path (source_of p i)"

definition program_provider :: "program \<Rightarrow> provider" where
  "program_provider p = (case pg_sources p of [] \<Rightarrow> PrGithub | s # _ \<Rightarrow> src_provider s)"

definition find_node :: "program \<Rightarrow> node_id \<Rightarrow> node option" where
  "find_node p i =
     (if i < length (pg_nodes p) \<and> nd_id (pg_nodes p ! i) = i then Some (pg_nodes p ! i)
      else find (\<lambda>n. nd_id n = i) (pg_nodes p))"

definition kind_selected :: "edge_kind option \<Rightarrow> edge \<Rightarrow> bool" where
  "kind_selected k e = (case k of None \<Rightarrow> True | Some w \<Rightarrow> ed_kind e = w)"

definition successors :: "program \<Rightarrow> node_id \<Rightarrow> edge_kind option \<Rightarrow> node list" where
  "successors p i k = List.map_filter (\<lambda>e. find_node p (ed_to e))
     (filter (\<lambda>e. ed_from e = i \<and> kind_selected k e) (pg_edges p))"

definition predecessors :: "program \<Rightarrow> node_id \<Rightarrow> edge_kind option \<Rightarrow> node list" where
  "predecessors p i k = List.map_filter (\<lambda>e. find_node p (ed_from e))
     (filter (\<lambda>e. ed_to e = i \<and> kind_selected k e) (pg_edges p))"

section \<open>Finalization\<close>

text \<open>\<^verbatim>\<open>HashMap\<close> collected from pairs: the last pair of a key wins. An identifier without an entry
  stays as it is.\<close>

definition table :: "('k \<times> 'v) list \<Rightarrow> 'k \<Rightarrow> 'v option" where
  "table xs = map_of (rev xs)"

definition renumbering :: "('a \<Rightarrow> nat) \<Rightarrow> 'a list \<Rightarrow> nat \<Rightarrow> nat option" where
  "renumbering ident xs = table (map (\<lambda>(i, x). (ident x, u32_of_nat i)) (enumerate 0 xs))"

definition node_sort_key ::
  "source list \<Rightarrow> node \<Rightarrow> string \<times> span \<times> provider \<times> node_kind \<times> string \<times> phase" where
  "node_sort_key sources n =
     (let i = sp_source (nd_span n) in
      (if i < length sources then src_path (sources ! i) else [],
       nd_span n, nd_provider n, nd_kind n, nd_name n, nd_phase n))"

definition edge_sort_key :: "edge \<Rightarrow> node_id \<times> node_id \<times> edge_kind \<times> string \<times> string option" where
  "edge_sort_key e = (ed_from e, ed_to e, ed_kind e, cond_display (ed_condition e), ed_label e)"

definition final_sources :: "program \<Rightarrow> source list" where
  "final_sources p = sort_key (\<lambda>s. (src_path s, src_provider s)) (pg_sources p)"

definition numbered_sources :: "source list \<Rightarrow> source list" where
  "numbered_sources ss = map (\<lambda>(i, s). s\<lparr>src_id := u32_of_nat i\<rparr>) (enumerate 0 ss)"

definition numbered_nodes :: "node list \<Rightarrow> node list" where
  "numbered_nodes ns = map (\<lambda>(i, n). n\<lparr>nd_id := u32_of_nat i\<rparr>) (enumerate 0 ns)"

definition final_nodes :: "program \<Rightarrow> node list" where
  "final_nodes p =
     (let sources = final_sources p in
      sort_key (node_sort_key (numbered_sources sources))
        (map (node_remap_sources (renumbering src_id sources)) (pg_nodes p)))"

definition edge_remap :: "(node_id \<Rightarrow> node_id option) \<Rightarrow> edge \<Rightarrow> edge" where
  "edge_remap f e = e\<lparr>ed_from := remap_id f (ed_from e), ed_to := remap_id f (ed_to e)\<rparr>"

definition final_edges :: "(node_id \<Rightarrow> node_id option) \<Rightarrow> edge list \<Rightarrow> edge list" where
  "final_edges f es =
     remdups_adj (sort_key edge_sort_key (filter (\<lambda>e. ed_from e \<noteq> ed_to e) (map (edge_remap f) es)))"

definition finalize :: "program \<Rightarrow> program" where
  "finalize p =
     (let nodes = final_nodes p; f = renumbering nd_id nodes in
      \<lparr>pg_sources = numbered_sources (final_sources p),
       pg_nodes = numbered_nodes nodes,
       pg_edges = final_edges f (pg_edges p),
       pg_entrypoints = remdups_adj (sort (map (remap_id f) (pg_entrypoints p)))\<rparr>)"

section \<open>Validation\<close>

record ir_issue =
  is_code :: string
  is_message :: string
  is_node_ids :: "node_id list"

definition ir_issue_key :: "'a ir_issue_scheme \<Rightarrow> string \<times> string \<times> node_id list \<times> 'a" where
  "ir_issue_key i = (is_code i, is_message i, is_node_ids i, ir_issue.more i)"

lemma ir_issue_key_inj: "ir_issue_key a = ir_issue_key b \<longleftrightarrow> a = b"
  by (auto simp: ir_issue_key_def)

instantiation ir_issue_ext :: (linorder) linorder
begin

definition less_eq_ir_issue_ext :: "'a ir_issue_scheme \<Rightarrow> 'a ir_issue_scheme \<Rightarrow> bool" where
  "less_eq_ir_issue_ext a b \<longleftrightarrow> ir_issue_key a \<le> ir_issue_key b"
definition less_ir_issue_ext :: "'a ir_issue_scheme \<Rightarrow> 'a ir_issue_scheme \<Rightarrow> bool" where
  "less_ir_issue_ext a b \<longleftrightarrow> ir_issue_key a < ir_issue_key b"

instance
  by standard (auto simp: less_eq_ir_issue_ext_def less_ir_issue_ext_def less_le_not_le
    ir_issue_key_inj intro: order_trans dest: antisym)

end

fun duplicate_issues :: "node_id set \<Rightarrow> node list \<Rightarrow> ir_issue list" where
  "duplicate_issues seen [] = []"
| "duplicate_issues seen (n # ns) =
     (if nd_id n \<in> seen
      then \<lparr>is_code = ''IR-DUPLICATE-NODE'', is_message = ''duplicate node ID '' @ dec_nat (nd_id n),
            is_node_ids = [nd_id n]\<rparr> # duplicate_issues seen ns
      else duplicate_issues (insert (nd_id n) seen) ns)"

definition edge_issues :: "(node_id \<Rightarrow> node option) \<Rightarrow> edge \<Rightarrow> ir_issue list" where
  "edge_issues nodes e =
     (case (nodes (ed_from e), nodes (ed_to e)) of
        (Some s, Some t) \<Rightarrow>
          if ed_kind e = EkData \<and> nd_phase t < nd_phase s
          then [\<lparr>is_code = ''IR-PHASE-ORDER'',
                 is_message = phase_name (nd_phase s) @ '' data is unavailable during '' @ phase_name (nd_phase t),
                 is_node_ids = [nd_id s, nd_id t]\<rparr>]
          else []
      | _ \<Rightarrow>
          [\<lparr>is_code = ''IR-DANGLING-EDGE'',
            is_message = edge_kind_name (ed_kind e) @ '' edge '' @ dec_nat (ed_from e) @ '' -> ''
              @ dec_nat (ed_to e) @ '' has a missing endpoint'',
            is_node_ids = [ed_from e, ed_to e]\<rparr>])"

text \<open>The first node of an identifier is the one the validator keeps.\<close>

definition validate :: "program \<Rightarrow> ir_issue list" where
  "validate p =
     sort (duplicate_issues {} (pg_nodes p)
       @ concat (map (edge_issues (map_of (map (\<lambda>n. (nd_id n, n)) (pg_nodes p)))) (pg_edges p)))"

end
