(* ===== verification/Finalize.thy ===== *)
theory Finalize
  imports Ir "HOL-Library.Multiset"
begin

text \<open>
  What \<^verbatim>\<open>Program::finalize\<close> and \<^verbatim>\<open>Program::validate\<close> guarantee (\<^verbatim>\<open>src/domain/ir.rs\<close>): dense
  identifiers and an isomorphic graph, independence of the order of construction, idempotence, and
  the exact condition under which the validator reports nothing.
\<close>

section \<open>Renumbering\<close>

lemma map_of_enumerate:
  "distinct (map ident xs) \<Longrightarrow> i < length xs \<Longrightarrow>
     map_of (map (\<lambda>(j, x). (ident x, g j)) (enumerate k xs)) (ident (xs ! i)) = Some (g (k + i))"
proof (induction xs arbitrary: k i)
  case (Cons x xs)
  show ?case
  proof (cases i)
    case (Suc j)
    with Cons.prems have "j < length xs" by simp
    then have "xs ! j \<in> set xs" by simp
    with Cons.prems(1) have "ident (xs ! j) \<noteq> ident x" by (metis distinct.simps(2) image_eqI list.simps(9) set_map)
    with Suc Cons.IH [of j "Suc k"] Cons.prems show ?thesis by simp
  qed simp
qed simp

lemma table_enumerate:
  assumes "distinct (map ident xs)" "i < length xs"
  shows "table (map (\<lambda>(j, x). (ident x, g j)) (enumerate k xs)) (ident (xs ! i)) = Some (g (k + i))"
proof -
  have "distinct (map fst (map (\<lambda>(j, x). (ident x, g j)) (enumerate k xs)))"
  proof -
    have "map fst (map (\<lambda>(j, x). (ident x, g j)) (enumerate k xs)) = map ident (map snd (enumerate k xs))"
      unfolding map_map by (simp add: comp_def case_prod_unfold)
    with assms(1) show ?thesis by (simp only: map_snd_enumerate)
  qed
  then have "table (map (\<lambda>(j, x). (ident x, g j)) (enumerate k xs))
      = map_of (map (\<lambda>(j, x). (ident x, g j)) (enumerate k xs))"
    unfolding table_def by (subst map_of_inject_set) (simp_all add: rev_map [symmetric] del: map_map)
  with map_of_enumerate [OF assms] show ?thesis by simp
qed

lemma table_None: "k \<notin> fst ` set xs \<Longrightarrow> table xs k = None"
  by (simp add: table_def map_of_eq_None_iff)

lemma renumbering_nth:
  "distinct (map ident xs) \<Longrightarrow> i < length xs \<Longrightarrow> renumbering ident xs (ident (xs ! i)) = Some (u32_of_nat i)"
  using table_enumerate [of ident xs i u32_of_nat 0] by (simp add: renumbering_def)

lemma renumbering_None: "k \<notin> ident ` set xs \<Longrightarrow> renumbering ident xs k = None"
proof -
  assume "k \<notin> ident ` set xs"
  then have "k \<notin> fst ` set (map (\<lambda>(i, x). (ident x, u32_of_nat i)) (enumerate 0 xs))"
    by (auto simp: in_set_enumerate_eq)
  then show ?thesis by (simp add: renumbering_def table_def map_of_eq_None_iff image_image case_prod_unfold)
qed

definition dense :: "('a \<Rightarrow> nat) \<Rightarrow> 'a list \<Rightarrow> bool" where
  "dense ident xs \<longleftrightarrow> map ident xs = [0..<length xs]"

lemma dense_nth: "dense ident xs \<Longrightarrow> i < length xs \<Longrightarrow> ident (xs ! i) = i"
  by (metis dense_def nth_map nth_upt add_0)

lemma remap_dense:
  assumes "dense ident xs" "length xs \<le> Suc u32_max"
  shows "remap_id (renumbering ident xs) i = i"
proof (cases "i < length xs")
  case True
  have "distinct (map ident xs)" using assms(1) by (simp add: dense_def)
  from renumbering_nth [OF this True] True assms show ?thesis
    by (simp add: dense_nth remap_id_def)
next
  case False
  then have "i \<notin> ident ` set xs"
    using assms(1) by (metis dense_def atLeastLessThan_iff set_map set_upt)
  then show ?thesis by (simp add: remap_id_def renumbering_None)
qed

lemma dense_numbered_sources: "length ss \<le> Suc u32_max \<Longrightarrow> dense src_id (numbered_sources ss)"
  by (auto simp: dense_def numbered_sources_def intro!: nth_equalityI simp: nth_enumerate_eq)

lemma dense_numbered_nodes: "length ns \<le> Suc u32_max \<Longrightarrow> dense nd_id (numbered_nodes ns)"
  by (auto simp: dense_def numbered_nodes_def intro!: nth_equalityI simp: nth_enumerate_eq)

lemma length_numbered [simp]:
  "length (numbered_sources ss) = length ss" "length (numbered_nodes ns) = length ns"
  by (simp_all add: numbered_sources_def numbered_nodes_def)

lemma nth_numbered_nodes: "i < length ns \<Longrightarrow> numbered_nodes ns ! i = (ns ! i)\<lparr>nd_id := u32_of_nat i\<rparr>"
  by (simp add: numbered_nodes_def nth_enumerate_eq)

lemma nth_numbered_sources: "i < length ss \<Longrightarrow> numbered_sources ss ! i = (ss ! i)\<lparr>src_id := u32_of_nat i\<rparr>"
  by (simp add: numbered_sources_def nth_enumerate_eq)

lemma numbered_dense: "dense nd_id ns \<Longrightarrow> length ns \<le> Suc u32_max \<Longrightarrow> numbered_nodes ns = ns"
  by (rule nth_equalityI) (simp_all add: nth_numbered_nodes dense_nth flip: dense_nth [of nd_id ns])

lemma numbered_sources_dense: "dense src_id ns \<Longrightarrow> length ns \<le> Suc u32_max \<Longrightarrow> numbered_sources ns = ns"
  by (rule nth_equalityI) (simp_all add: nth_numbered_sources dense_nth flip: dense_nth [of src_id ns])

section \<open>What finalization establishes\<close>

text \<open>A program whose references resolve and whose tables fit the identifiers.\<close>

definition program_ok :: "program \<Rightarrow> bool" where
  "program_ok p \<longleftrightarrow> distinct (map src_id (pg_sources p)) \<and> distinct (map nd_id (pg_nodes p))
     \<and> length (pg_sources p) \<le> Suc u32_max \<and> length (pg_nodes p) \<le> Suc u32_max
     \<and> (\<forall>e \<in> set (pg_edges p). ed_from e \<in> nd_id ` set (pg_nodes p) \<and> ed_to e \<in> nd_id ` set (pg_nodes p))
     \<and> set (pg_entrypoints p) \<subseteq> nd_id ` set (pg_nodes p)"

text \<open>The new identifier of a node.\<close>

definition final_id :: "program \<Rightarrow> node_id \<Rightarrow> node_id" where
  "final_id p = remap_id (renumbering nd_id (final_nodes p))"

lemma nd_id_remap [simp]: "nd_id (node_remap_sources f n) = nd_id n"
  by (simp add: node_remap_sources_def)

lemma length_final_nodes [simp]: "length (final_nodes p) = length (pg_nodes p)"
  by (simp add: final_nodes_def Let_def)

lemma mset_final_nodes:
  "mset (final_nodes p) = image_mset (node_remap_sources (renumbering src_id (final_sources p))) (mset (pg_nodes p))"
  by (simp add: final_nodes_def Let_def)

lemma distinct_final_nodes: "distinct (map nd_id (pg_nodes p)) \<Longrightarrow> distinct (map nd_id (final_nodes p))"
proof -
  have "mset (map nd_id (final_nodes p)) = mset (map nd_id (pg_nodes p))"
    by (simp add: mset_final_nodes image_mset.compositionality comp_def)
  then show "distinct (map nd_id (pg_nodes p)) \<Longrightarrow> distinct (map nd_id (final_nodes p))"
    by (metis mset_eq_imp_distinct_iff)
qed

lemma ids_final_nodes: "nd_id ` set (final_nodes p) = nd_id ` set (pg_nodes p)"
  by (simp add: final_nodes_def Let_def image_image)

lemma final_id_nth:
  assumes "program_ok p" "i < length (pg_nodes p)"
  shows "final_id p (nd_id (final_nodes p ! i)) = i"
  using assms renumbering_nth [OF distinct_final_nodes, of p i]
  by (simp add: final_id_def remap_id_def program_ok_def)

lemma final_id_bij:
  assumes "program_ok p"
  shows "bij_betw (final_id p) (nd_id ` set (pg_nodes p)) {..<length (pg_nodes p)}"
proof (rule bij_betw_byWitness [where f' = "\<lambda>i. nd_id (final_nodes p ! i)"])
  have ex: "\<exists>i < length (pg_nodes p). k = nd_id (final_nodes p ! i)" if "k \<in> nd_id ` set (pg_nodes p)" for k
    using that ids_final_nodes [of p] by (metis (no_types, lifting) imageE in_set_conv_nth length_final_nodes)
  show "\<forall>k \<in> nd_id ` set (pg_nodes p). nd_id (final_nodes p ! final_id p k) = k"
    "final_id p ` nd_id ` set (pg_nodes p) \<subseteq> {..<length (pg_nodes p)}"
    using ex final_id_nth [OF assms] by fastforce+
  show "\<forall>i \<in> {..<length (pg_nodes p)}. final_id p (nd_id (final_nodes p ! i)) = i"
    using final_id_nth [OF assms] by simp
  show "(\<lambda>i. nd_id (final_nodes p ! i)) ` {..<length (pg_nodes p)} \<subseteq> nd_id ` set (pg_nodes p)"
    using ids_final_nodes [of p] by (metis (no_types, lifting) image_subsetI imageI lessThan_iff length_final_nodes nth_mem)
qed

lemma finalize_node:
  assumes "program_ok p" "n \<in> set (pg_nodes p)"
  shows "pg_nodes (finalize p) ! final_id p (nd_id n)
    = (node_remap_sources (renumbering src_id (final_sources p)) n)\<lparr>nd_id := final_id p (nd_id n)\<rparr>"
proof -
  let ?m = "node_remap_sources (renumbering src_id (final_sources p)) n"
  have "?m \<in> set (final_nodes p)"
    using assms(2) mset_final_nodes [of p] by (metis image_eqI set_image_mset set_mset_mset)
  then obtain i where i: "i < length (pg_nodes p)" "final_nodes p ! i = ?m"
    by (metis in_set_conv_nth length_final_nodes)
  then have "final_id p (nd_id n) = i" using final_id_nth [OF assms(1) i(1)] by simp
  moreover have "i \<le> u32_max" using i(1) assms(1) by (simp add: program_ok_def)
  ultimately show ?thesis using i by (simp add: finalize_def Let_def nth_numbered_nodes)
qed

lemma final_edges_set:
  "set (final_edges f es) = {edge_remap f e |e. e \<in> set es \<and> remap_id f (ed_from e) \<noteq> remap_id f (ed_to e)}"
  by (auto simp: final_edges_def edge_remap_def)

lemma finalize_isomorphic:
  assumes "program_ok p"
  shows "map src_id (pg_sources (finalize p)) = [0..<length (pg_sources p)]
    \<and> map nd_id (pg_nodes (finalize p)) = [0..<length (pg_nodes p)]
    \<and> bij_betw (final_id p) (nd_id ` set (pg_nodes p)) {..<length (pg_nodes p)}
    \<and> set (pg_edges (finalize p)) = {e\<lparr>ed_from := final_id p (ed_from e), ed_to := final_id p (ed_to e)\<rparr> |e.
         e \<in> set (pg_edges p) \<and> ed_from e \<noteq> ed_to e}
    \<and> set (pg_entrypoints (finalize p)) = final_id p ` set (pg_entrypoints p)
    \<and> canonical (pg_entrypoints (finalize p))"
proof -
  have bij: "bij_betw (final_id p) (nd_id ` set (pg_nodes p)) {..<length (pg_nodes p)}"
    by (rule final_id_bij [OF assms])
  have src: "map src_id (pg_sources (finalize p)) = [0..<length (pg_sources p)]"
    using assms dense_numbered_sources [of "final_sources p"]
    by (simp add: finalize_def Let_def dense_def program_ok_def final_sources_def)
  have nodes: "map nd_id (pg_nodes (finalize p)) = [0..<length (pg_nodes p)]"
    using assms dense_numbered_nodes [of "final_nodes p"]
    by (simp add: finalize_def Let_def dense_def program_ok_def)
  have ends: "final_id p (ed_from e) \<noteq> final_id p (ed_to e) \<longleftrightarrow> ed_from e \<noteq> ed_to e" if "e \<in> set (pg_edges p)" for e
    using assms that bij by (auto simp: program_ok_def bij_betw_def inj_on_eq_iff)
  have edges: "set (pg_edges (finalize p)) = {e\<lparr>ed_from := final_id p (ed_from e), ed_to := final_id p (ed_to e)\<rparr> |e.
         e \<in> set (pg_edges p) \<and> ed_from e \<noteq> ed_to e}"
    using ends by (auto simp: finalize_def Let_def final_edges_set edge_remap_def simp flip: final_id_def)
  have entry: "set (pg_entrypoints (finalize p)) = final_id p ` set (pg_entrypoints p)"
      "canonical (pg_entrypoints (finalize p))"
    by (simp_all add: finalize_def Let_def final_id_def remdups_adj_canonical)
  from src nodes bij edges entry show ?thesis by blast
qed

text \<open>
  C7. Finalization gives dense storage for an isomorphic graph: sources and nodes are numbered by
  their positions, the renaming of node identifiers is a bijection onto the positions, every node
  keeps its contents up to the renaming of identifiers, the edges and entry points are exactly the renamed ones without self-loops, and entry points increase
  strictly.
\<close>

theorem finalize_dense_isomorphic:
  assumes "program_ok p"
  shows "map src_id (pg_sources (finalize p)) = [0..<length (pg_sources p)]
    \<and> map nd_id (pg_nodes (finalize p)) = [0..<length (pg_nodes p)]
    \<and> bij_betw (final_id p) (nd_id ` set (pg_nodes p)) {..<length (pg_nodes p)}
    \<and> (\<forall>n \<in> set (pg_nodes p). pg_nodes (finalize p) ! final_id p (nd_id n)
         = (node_remap_sources (renumbering src_id (final_sources p)) n)\<lparr>nd_id := final_id p (nd_id n)\<rparr>)
    \<and> set (pg_edges (finalize p)) = {e\<lparr>ed_from := final_id p (ed_from e), ed_to := final_id p (ed_to e)\<rparr> |e.
         e \<in> set (pg_edges p) \<and> ed_from e \<noteq> ed_to e}
    \<and> set (pg_entrypoints (finalize p)) = final_id p ` set (pg_entrypoints p)
    \<and> canonical (pg_entrypoints (finalize p))"
  using finalize_isomorphic [OF assms] finalize_node [OF assms] by blast

definition tiny_program :: program where
  "tiny_program =
     add_edge (edge_simple EkControl 7 9) (add_edge (edge_simple EkData 9 9)
       (add_node (node_simple 9 PrGithub NkStep ''b'' PhRun default_span)
         (add_node (node_simple 7 PrGithub NkJob ''a'' PhRun default_span) (program_empty PrGithub ''ci.yml''))))"

lemma finalize_dense_isomorphic_witness:
  "map nd_id (pg_nodes (finalize tiny_program)) = [0, 1]
   \<and> bij_betw (final_id tiny_program) {7, 9} {..<2}"
proof -
  have "program_ok tiny_program"
    by (simp add: program_ok_def tiny_program_def node_simple_def node_new_def program_empty_def add_node_def
        add_edge_def edge_simple_def edge_new_def u32_max_def)
  from finalize_dense_isomorphic [OF this] show ?thesis
    by (simp add: tiny_program_def node_simple_def node_new_def program_empty_def add_node_def
        add_edge_def edge_simple_def edge_new_def numeral_2_eq_2 upt_rec insert_commute)
qed

section \<open>Canonical form\<close>

lemma sort_key_unique:
  assumes "mset xs = mset ys" "inj_on k (set ys)"
  shows "sort_key k xs = sort_key k ys"
proof -
  have "set xs = set ys" using assms(1) by (rule mset_eq_setD)
  with assms show ?thesis by (intro sort_key_inj_key_eq) simp_all
qed



section \<open>Idempotence\<close>

lemma remap_identity:
  assumes "\<And>i. remap_id f i = i"
  shows "av_remap_sources f x = x" "remap_value_sources f v = v"
proof (induction x and v)
  case (AV ty v t s p)
  then show ?case by (simp add: remap_provenance_def remap_span_def assms map_idI)
next
  case (VList vs)
  then show ?case by (cases vs) (auto intro!: map_idI)
next
  case (VObject fs)
  then show ?case by (cases fs) (fastforce intro!: map_idI)+
qed simp_all

lemma node_remap_identity: "(\<And>i. remap_id f i = i) \<Longrightarrow> node_remap_sources f n = n"
  by (auto simp: node_remap_sources_def remap_span_def remap_identity intro!: map_idI node.equality)

lemma node_sort_key_id [simp]: "node_sort_key ss (n\<lparr>nd_id := i\<rparr>) = node_sort_key ss n"
  by (simp add: node_sort_key_def Let_def)

lemma sorted_numbered_nodes:
  "sorted (map (node_sort_key ss) (numbered_nodes ns)) = sorted (map (node_sort_key ss) ns)"
proof -
  have "map (node_sort_key ss) (numbered_nodes ns) = map (node_sort_key ss) ns"
    by (rule nth_equalityI) (simp_all add: nth_numbered_nodes)
  then show ?thesis by simp
qed

lemma sorted_remdups_adj_key: "sorted (map k xs) \<Longrightarrow> sorted (map k (remdups_adj xs))"
  by (induction xs rule: remdups_adj.induct) auto

text \<open>
  Finalizing twice is finalizing once: identifiers are assigned exactly once, whatever the
  program, as long as its sources and nodes fit 32-bit identifiers.
\<close>

theorem finalize_idempotent:
  assumes "length (pg_sources p) \<le> Suc u32_max" "length (pg_nodes p) \<le> Suc u32_max"
  shows "finalize (finalize p) = finalize p"
proof -
  let ?q = "finalize p"
  have q: "pg_sources ?q = numbered_sources (final_sources p)" "pg_nodes ?q = numbered_nodes (final_nodes p)"
    by (simp_all add: finalize_def Let_def)
  have dense: "dense src_id (pg_sources ?q)" "dense nd_id (pg_nodes ?q)"
    unfolding q using assms by (simp_all add: dense_numbered_sources dense_numbered_nodes final_sources_def)
  have len: "length (pg_sources ?q) \<le> Suc u32_max" "length (pg_nodes ?q) \<le> Suc u32_max"
    unfolding q using assms by (simp_all add: final_sources_def)
  have "map (\<lambda>s. (src_path s, src_provider s)) (pg_sources ?q) = map (\<lambda>s. (src_path s, src_provider s)) (final_sources p)"
    unfolding q by (rule nth_equalityI) (simp_all add: nth_numbered_sources)
  then have "sorted (map (\<lambda>s. (src_path s, src_provider s)) (pg_sources ?q))"
    by (simp add: final_sources_def)
  then have src: "final_sources ?q = pg_sources ?q"
    by (simp add: final_sources_def sort_key_id_if_sorted)
  have rs: "remap_id (renumbering src_id (pg_sources ?q)) i = i" for i
    by (rule remap_dense [OF dense(1) len(1)])
  have "sorted (map (node_sort_key (pg_sources ?q)) (pg_nodes ?q))"
    unfolding q sorted_numbered_nodes by (simp add: final_nodes_def Let_def)
  then have nodes: "final_nodes ?q = pg_nodes ?q"
    using len(1) dense(1)
    by (simp add: final_nodes_def Let_def src node_remap_identity [OF rs] numbered_sources_dense
        sort_key_id_if_sorted map_idI)
  have rn: "remap_id (renumbering nd_id (pg_nodes ?q)) i = i" for i
    by (rule remap_dense [OF dense(2) len(2)])
  have er: "edge_remap (renumbering nd_id (pg_nodes ?q)) e = e" for e
    by (simp add: edge_remap_def rn)
  have "final_edges (renumbering nd_id (pg_nodes ?q)) (final_edges f es) = final_edges f es" for f es
  proof -
    have "filter (\<lambda>e. ed_from e \<noteq> ed_to e) (final_edges f es) = final_edges f es"
      by (rule filter_True) (simp add: final_edges_def)
    moreover have "sorted (map edge_sort_key (final_edges f es))"
      by (simp add: final_edges_def sorted_remdups_adj_key)
    ultimately show ?thesis
      by (simp add: final_edges_def [of "renumbering nd_id (pg_nodes ?q)"] er map_idI sort_key_id_if_sorted)
        (simp add: final_edges_def distinct_adj_altdef [symmetric])
  qed
  moreover have "remdups_adj (sort (map (remap_id (renumbering nd_id (pg_nodes ?q))) (pg_entrypoints ?q))) = pg_entrypoints ?q"
  proof -
    have "map (remap_id (renumbering nd_id (pg_nodes ?q))) zs = zs" for zs
      by (rule map_idI) (rule rn)
    moreover obtain ys where "pg_entrypoints ?q = remdups_adj (sort ys)"
      by (simp add: finalize_def Let_def)
    ultimately show ?thesis by (simp add: sorted_sort_id distinct_adj_altdef [symmetric])
  qed
  ultimately show ?thesis
    using len dense unfolding finalize_def [of ?q] Let_def src nodes
    by (simp add: numbered_sources_dense numbered_dense) (simp add: finalize_def Let_def)
qed

lemma finalize_idempotent_witness: "finalize (finalize tiny_program) = finalize tiny_program"
  by (rule finalize_idempotent)
    (simp_all add: tiny_program_def node_simple_def program_empty_def add_node_def add_edge_def edge_simple_def
      edge_new_def u32_max_def)

section \<open>Validation\<close>

lemma duplicate_issues_Nil:
  "duplicate_issues seen ns = [] \<longleftrightarrow> distinct (map nd_id ns) \<and> seen \<inter> nd_id ` set ns = {}"
  by (induction seen ns rule: duplicate_issues.induct) auto

lemma node_table:
  "distinct (map nd_id ns) \<Longrightarrow> map_of (map (\<lambda>n. (nd_id n, n)) ns) i = Some n \<longleftrightarrow> n \<in> set ns \<and> nd_id n = i"
  by (subst map_of_eq_Some_iff) (auto simp: comp_def)

lemma find_unique:
  "(\<And>x y. x \<in> set xs \<Longrightarrow> y \<in> set xs \<Longrightarrow> P x \<Longrightarrow> P y \<Longrightarrow> x = y) \<Longrightarrow>
     find P xs = Some n \<longleftrightarrow> n \<in> set xs \<and> P n"
  by (induction xs) auto

lemma find_node_distinct:
  assumes "distinct (map nd_id (pg_nodes p))"
  shows "find_node p i = Some n \<longleftrightarrow> n \<in> set (pg_nodes p) \<and> nd_id n = i"
proof -
  have unique: "x = y" if "x \<in> set (pg_nodes p)" "y \<in> set (pg_nodes p)" "nd_id x = nd_id y" for x y
    using assms that by (auto simp: distinct_map dest: inj_onD)
  show ?thesis
  proof (cases "i < length (pg_nodes p) \<and> nd_id (pg_nodes p ! i) = i")
    case True
    then show ?thesis using unique by (auto simp: find_node_def)
  next
    case False
    then have "find_node p i = find (\<lambda>n. nd_id n = i) (pg_nodes p)" by (auto simp: find_node_def)
    with find_unique [of "pg_nodes p" "\<lambda>n. nd_id n = i" n] unique show ?thesis by simp
  qed
qed

lemma edge_issues_Nil:
  "edge_issues nodes e = [] \<longleftrightarrow> (\<exists>s t. nodes (ed_from e) = Some s \<and> nodes (ed_to e) = Some t
     \<and> (ed_kind e \<noteq> EkData \<or> nd_phase s \<le> nd_phase t))"
  by (auto simp: edge_issues_def not_le not_less split: option.splits)

lemma validate_silent:
  "validate p = [] \<longleftrightarrow> distinct (map nd_id (pg_nodes p))
     \<and> (\<forall>e \<in> set (pg_edges p). \<exists>s t. find_node p (ed_from e) = Some s \<and> find_node p (ed_to e) = Some t
          \<and> (ed_kind e \<noteq> EkData \<or> nd_phase s \<le> nd_phase t))"
proof -
  have nil: "validate p = [] \<longleftrightarrow> duplicate_issues {} (pg_nodes p) = []
      \<and> (\<forall>e \<in> set (pg_edges p). edge_issues (map_of (map (\<lambda>n. (nd_id n, n)) (pg_nodes p))) e = [])"
    unfolding validate_def by (simp flip: set_empty2)
  show ?thesis
  proof (cases "distinct (map nd_id (pg_nodes p))")
    case True
    have t: "map_of (map (\<lambda>n. (nd_id n, n)) (pg_nodes p)) = find_node p"
    proof
      show "map_of (map (\<lambda>n. (nd_id n, n)) (pg_nodes p)) i = find_node p i" for i
        by (rule option_eqI) (simp only: node_table [OF True] find_node_distinct [OF True])
    qed
    show ?thesis
      unfolding nil edge_issues_Nil t duplicate_issues_Nil by (simp only: Int_empty_left True simp_thms)
  next
    case False
    then show ?thesis by (simp add: nil duplicate_issues_Nil)
  qed
qed

text \<open>
  The validator reports nothing exactly for the programs it is meant to accept: node identifiers
  are unique, every edge joins two nodes the program finds, and no data edge flows to an earlier
  phase.
\<close>

theorem validate_exact:
  "validate p = [] \<longleftrightarrow> distinct (map nd_id (pg_nodes p))
     \<and> (\<forall>e \<in> set (pg_edges p). \<exists>s t. find_node p (ed_from e) = Some s \<and> find_node p (ed_to e) = Some t
          \<and> (ed_kind e \<noteq> EkData \<or> nd_phase s \<le> nd_phase t))"
  by (rule validate_silent)

lemma validate_exact_witness: "validate tiny_program = [] \<and> validate (add_edge (edge_simple EkData 7 8) tiny_program) \<noteq> []"
proof -
  note defs = tiny_program_def node_simple_def node_new_def program_empty_def add_node_def add_edge_def
    edge_simple_def edge_new_def find_node_def
  have "validate tiny_program = []"
    by (rule validate_exact [THEN iffD2]) (simp add: defs)
  moreover have "\<exists>e \<in> set (pg_edges (add_edge (edge_simple EkData 7 8) tiny_program)).
      find_node (add_edge (edge_simple EkData 7 8) tiny_program) (ed_to e) = None"
    by (simp add: defs)
  ultimately show ?thesis
    using validate_exact [of "add_edge (edge_simple EkData 7 8) tiny_program"] by force
qed

end
