(* ===== verification/Graph_Search.thy ===== *)
theory Graph_Search
  imports Ir
begin

text \<open>
  The adjacency index of a program and its breadth-first searches (\<^verbatim>\<open>GraphIndex\<close> in
  \<^verbatim>\<open>src/verifier/mod.rs\<close>). The searches take fuel; \<open>search_total\<close> and \<open>bfs_total\<close> show that the
  number of edges plus two, which the operations pass, is enough. \<open>search_loop\<close> is the loop of
  \<^verbatim>\<open>reachable\<close> and \<^verbatim>\<open>path_avoiding\<close>, \<open>bfs_loop\<close> the one of \<^verbatim>\<open>shortest_path\<close>, which also records
  predecessors.
\<close>

section \<open>The index\<close>

type_synonym adjacency = "(node_id \<times> (node_id \<times> edge_kind) list) list"

record graph_index =
  gi_graph :: program
  gi_nodes :: "(node_id \<times> node) list"
  gi_outgoing :: adjacency
  gi_incoming :: adjacency

definition push_entry :: "node_id \<Rightarrow> node_id \<times> edge_kind \<Rightarrow> adjacency \<Rightarrow> adjacency" where
  "push_entry k v m = bmap_insert k (bmap_get_or [] m k @ [v]) m"

definition adjacency_of :: "(edge \<Rightarrow> node_id) \<Rightarrow> (edge \<Rightarrow> node_id) \<Rightarrow> edge list \<Rightarrow> adjacency" where
  "adjacency_of a b es =
     map (map_prod id sort) (fold (\<lambda>e. push_entry (a e) (b e, ed_kind e)) es [])"

definition index_new :: "program \<Rightarrow> graph_index" where
  "index_new g =
     \<lparr>gi_graph = g, gi_nodes = bmap_from (map (\<lambda>n. (nd_id n, n)) (pg_nodes g)),
      gi_outgoing = adjacency_of ed_from ed_to (pg_edges g),
      gi_incoming = adjacency_of ed_to ed_from (pg_edges g)\<rparr>"

definition neighbours :: "graph_index \<Rightarrow> node_id \<Rightarrow> (node_id \<times> edge_kind) list" where
  "neighbours idx i = bmap_get_or [] (gi_outgoing idx) i"

lemma push_fold:
  "bmap_ok m \<Longrightarrow> bmap_ok (fold (\<lambda>e. push_entry (a e) (b e, ed_kind e)) es m)
     \<and> bmap_get_or [] (fold (\<lambda>e. push_entry (a e) (b e, ed_kind e)) es m) i
        = bmap_get_or [] m i @ map (\<lambda>e. (b e, ed_kind e)) (filter (\<lambda>e. a e = i) es)
     \<and> (bmap_get (fold (\<lambda>e. push_entry (a e) (b e, ed_kind e)) es m) i = None
        \<longleftrightarrow> bmap_get m i = None \<and> (\<forall>e \<in> set es. a e \<noteq> i))"
proof (induction es arbitrary: m)
  case (Cons e es)
  have "bmap_ok (push_entry (a e) (b e, ed_kind e) m)"
    unfolding push_entry_def by (rule bmap_ok_insert [OF Cons.prems])
  from Cons.IH [OF this] show ?case
    by (auto simp: push_entry_def bmap_get_or_def bmap_get_insert [OF Cons.prems])
qed simp

lemma adjacency_get:
  "bmap_get_or [] (adjacency_of a b es) i = sort (map (\<lambda>e. (b e, ed_kind e)) (filter (\<lambda>e. a e = i) es))"
proof -
  have "bmap_get (map (map_prod id sort) m) i = map_option sort (bmap_get m i)" for m :: adjacency
    by (induction m) auto
  with push_fold [of "[]" a b es i] show ?thesis
    by (auto simp: adjacency_of_def bmap_get_or_def split: option.splits)
qed

lemma neighbours_index:
  "neighbours (index_new g) i = sort (map (\<lambda>e. (ed_to e, ed_kind e)) (filter (\<lambda>e. ed_from e = i) (pg_edges g)))"
  by (simp add: neighbours_def index_new_def adjacency_get)

section \<open>Search for what is reachable\<close>

text \<open>The elements of a list not seen before, each once.\<close>

fun fresh :: "node_id list \<Rightarrow> node_id list \<Rightarrow> node_id list" where
  "fresh seen [] = []"
| "fresh seen (x # xs) = (if x \<in> set seen then fresh seen xs else x # fresh (x # seen) xs)"

fun search_loop ::
  "nat \<Rightarrow> (node_id \<Rightarrow> node_id list) \<Rightarrow> node_id option \<Rightarrow> node_id list \<Rightarrow> node_id list \<Rightarrow>
   (bool \<times> node_id list) option" where
  "search_loop 0 succ goal queue seen = None"
| "search_loop (Suc n) succ goal [] seen = Some (False, seen)"
| "search_loop (Suc n) succ goal (c # queue) seen =
     (if goal = Some c then Some (True, seen)
      else let new = fresh seen (succ c) in search_loop n succ goal (queue @ new) (seen @ new))"

definition search_fuel :: "graph_index \<Rightarrow> nat" where
  "search_fuel idx = length (pg_edges (gi_graph idx)) + 2"

definition all_successors :: "graph_index \<Rightarrow> node_id \<Rightarrow> node_id list" where
  "all_successors idx i = map fst (neighbours idx i)"

definition reachable :: "graph_index \<Rightarrow> node_id \<Rightarrow> node list option" where
  "reachable idx from =
     map_option (\<lambda>(_, seen). List.map_filter (bmap_get (gi_nodes idx)) (bset seen))
       (search_loop (search_fuel idx) (all_successors idx) None [from] [from])"

definition control_successors :: "graph_index \<Rightarrow> node_id \<Rightarrow> node_id \<Rightarrow> node_id list" where
  "control_successors idx avoided i =
     map fst (filter (\<lambda>(next, kind). kind \<in> {EkControl, EkCall} \<and> next \<noteq> avoided) (neighbours idx i))"

definition path_avoiding :: "graph_index \<Rightarrow> node_id \<Rightarrow> node_id \<Rightarrow> node_id \<Rightarrow> bool option" where
  "path_avoiding idx from to avoided =
     (if from = avoided then Some False
      else map_option fst
        (search_loop (search_fuel idx) (control_successors idx avoided) (Some to) [from] [from]))"

definition entry_ids :: "graph_index \<Rightarrow> node_id list" where
  "entry_ids idx =
     (if pg_entrypoints (gi_graph idx) = []
      then filter (\<lambda>i. bmap_get (gi_incoming idx) i = None) (bmap_keys (gi_nodes idx))
      else bset (pg_entrypoints (gi_graph idx)))"

text \<open>\<open>Iterator::any\<close> stops at the first entry with a path around the dominator.\<close>

fun any_opt :: "('a \<Rightarrow> bool option) \<Rightarrow> 'a list \<Rightarrow> bool option" where
  "any_opt f [] = Some False"
| "any_opt f (x # xs) = (case f x of None \<Rightarrow> None | Some True \<Rightarrow> Some True | Some False \<Rightarrow> any_opt f xs)"

definition dominates :: "graph_index \<Rightarrow> node_id \<Rightarrow> node_id \<Rightarrow> bool option" where
  "dominates idx dominator i =
     (if dominator = i then Some True
      else if entry_ids idx = [] then Some False
      else map_option Not (any_opt (\<lambda>entry. path_avoiding idx entry i dominator) (entry_ids idx)))"

lemma fresh_spec: "set (fresh seen xs) = set xs - set seen \<and> distinct (fresh seen xs)"
  by (induction seen xs rule: fresh.induct) auto

text \<open>One lemma about the loop: it returns, and it decides reachability of the goal.\<close>

definition steps :: "(node_id \<Rightarrow> node_id list) \<Rightarrow> (node_id \<times> node_id) set" where
  "steps succ = {(a, b). b \<in> set (succ a)}"

definition search_inv :: "(node_id \<Rightarrow> node_id list) \<Rightarrow> node_id option \<Rightarrow> node_id set \<Rightarrow> node_id list \<Rightarrow> node_id list \<Rightarrow> bool" where
  "search_inv succ goal start queue seen \<longleftrightarrow>
     set seen \<subseteq> (steps succ)\<^sup>* `` start \<and> start \<subseteq> set seen \<and> set queue \<subseteq> set seen
     \<and> (\<forall>p \<in> set seen - set queue. set (succ p) \<subseteq> set seen \<and> goal \<noteq> Some p)"

lemma search_inv_step:
  assumes "search_inv succ goal start (c # queue) seen" "goal \<noteq> Some c"
  shows "search_inv succ goal start (queue @ fresh seen (succ c)) (seen @ fresh seen (succ c))"
proof -
  have "c \<in> (steps succ)\<^sup>* `` start" using assms(1) by (auto simp: search_inv_def)
  then have "set (succ c) \<subseteq> (steps succ)\<^sup>* `` start"
    by (auto simp: steps_def intro: rtrancl_into_rtrancl)
  with assms show ?thesis
    unfolding search_inv_def using fresh_spec [of seen "succ c"] by auto
qed

lemma closed_reach:
  assumes "start \<subseteq> A" "\<forall>p \<in> A. set (succ p) \<subseteq> A"
  shows "(steps succ)\<^sup>* `` start \<subseteq> A"
proof
  fix y assume "y \<in> (steps succ)\<^sup>* `` start"
  then obtain x where "(x, y) \<in> (steps succ)\<^sup>*" "x \<in> start" by auto
  then show "y \<in> A" by (induction rule: rtrancl_induct) (use assms in \<open>auto simp: steps_def\<close>)
qed

lemma search_correct:
  assumes "search_inv succ goal start queue seen" "finite U" "set seen \<subseteq> U" "\<And>p. p \<in> U \<Longrightarrow> set (succ p) \<subseteq> U"
    "length queue + card (U - set seen) < n"
  shows "\<exists>found seen'. search_loop n succ goal queue seen = Some (found, seen')
    \<and> (found \<longleftrightarrow> (\<exists>g. goal = Some g \<and> g \<in> (steps succ)\<^sup>* `` start))
    \<and> (\<not> found \<longrightarrow> set seen' = (steps succ)\<^sup>* `` start)"
  using assms
proof (induction n succ goal queue seen rule: search_loop.induct)
  case (2 n succ goal seen)
  then have "set seen = (steps succ)\<^sup>* `` start"
    using closed_reach [of start "set seen" succ] by (auto simp: search_inv_def)
  with 2 show ?case by (auto simp: search_inv_def)
next
  case (3 n succ goal c queue seen)
  show ?case
  proof (cases "goal = Some c")
    case True
    with "3.prems"(1) show ?thesis by (auto simp: search_inv_def)
  next
    case False
    let ?new = "fresh seen (succ c)"
    have c: "c \<in> U" using "3.prems"(1,3) by (auto simp: search_inv_def)
    have new: "set ?new \<subseteq> U - set seen" "distinct ?new"
      using fresh_spec [of seen "succ c"] "3.prems"(4) [OF c] by auto
    have sub: "U - set (seen @ ?new) = (U - set seen) - set ?new" by auto
    have "card (U - set (seen @ ?new)) = card (U - set seen) - length ?new"
      unfolding sub using new by (simp add: card_Diff_subset distinct_card)
    moreover have "length ?new \<le> card (U - set seen)"
      using new "3.prems"(2) by (metis card_mono distinct_card finite_Diff)
    ultimately have fuel: "length (queue @ ?new) + card (U - set (seen @ ?new)) < n"
      using "3.prems"(5) by simp
    have "set (seen @ ?new) \<subseteq> U" using new "3.prems"(3) by auto
    with False "3.IH" [OF False refl search_inv_step [OF "3.prems"(1) False] "3.prems"(2) _ "3.prems"(4) fuel]
    show ?thesis by (simp add: Let_def)
  qed
qed simp

section \<open>Reachability is exact\<close>

definition edge_relation :: "(edge_kind \<Rightarrow> bool) \<Rightarrow> program \<Rightarrow> (node_id \<times> node_id) set" where
  "edge_relation sel g = {(ed_from e, ed_to e) |e. e \<in> set (pg_edges g) \<and> sel (ed_kind e)}"

lemma neighbours_set:
  "set (neighbours (index_new g) i) = {(ed_to e, ed_kind e) |e. e \<in> set (pg_edges g) \<and> ed_from e = i}"
  by (auto simp: neighbours_index)

lemma steps_all: "steps (all_successors (index_new g)) = edge_relation (\<lambda>_. True) g"
  by (force simp: steps_def all_successors_def neighbours_set edge_relation_def)

definition targets :: "program \<Rightarrow> node_id set" where
  "targets g = ed_to ` set (pg_edges g)"

lemma card_targets: "card (targets g) \<le> length (pg_edges g)"
  unfolding targets_def by (metis card_image_le card_length finite_set le_trans)

lemma search_total:
  assumes "\<And>p. set (succ p) \<subseteq> targets g"
  shows "\<exists>found seen. search_loop (search_fuel (index_new g)) succ goal [origin] [origin] = Some (found, seen)
    \<and> (found \<longleftrightarrow> (\<exists>x. goal = Some x \<and> (origin, x) \<in> (steps succ)\<^sup>*))
    \<and> (\<not> found \<longrightarrow> set seen = (steps succ)\<^sup>* `` {origin})"
proof -
  let ?U = "insert origin (targets g)"
  have "finite ?U" by (simp add: targets_def)
  moreover have "card (?U - {origin}) \<le> card (targets g)"
    by (rule card_mono) (auto simp: targets_def)
  then have "length [origin] + card (?U - set [origin]) < search_fuel (index_new g)"
    using card_targets [of g] by (simp add: search_fuel_def index_new_def)
  moreover have "search_inv succ goal {origin} [origin] [origin]"
    by (auto simp: search_inv_def)
  ultimately show ?thesis
    using search_correct [of succ goal "{origin}" "[origin]" "[origin]" ?U "search_fuel (index_new g)"] assms
    by (simp add: subset_insertI2)
qed

lemma all_successors_targets: "set (all_successors (index_new g) p) \<subseteq> targets g"
  by (auto simp: all_successors_def neighbours_set targets_def)

lemma control_successors_targets: "set (control_successors (index_new g) d p) \<subseteq> targets g"
  by (auto simp: control_successors_def neighbours_set targets_def)

lemma index_nodes:
  assumes "distinct (map nd_id (pg_nodes g))"
  shows "bmap_get (gi_nodes (index_new g)) i = Some n \<longleftrightarrow> n \<in> set (pg_nodes g) \<and> nd_id n = i"
proof -
  have "distinct (map fst (rev (map (\<lambda>n. (nd_id n, n)) (pg_nodes g))))"
    using assms by (simp add: comp_def rev_map [symmetric])
  then show ?thesis
    by (auto simp: index_new_def bmap_get_from map_of_eq_Some_iff)
qed

lemma map_filter_set: "set (List.map_filter f xs) = {y. \<exists>x \<in> set xs. f x = Some y}"
  by (force simp: List.map_filter_def)

lemma sorted_map_filter:
  "canonical xs \<Longrightarrow> (\<And>x y. f x = Some y \<Longrightarrow> k y = x) \<Longrightarrow> canonical (map k (List.map_filter f xs))"
proof (induction xs)
  case (Cons x xs)
  then show ?case by (cases "f x") (auto simp: map_filter_simps map_filter_set)
qed (simp add: map_filter_simps)

lemma reachable_set:
  assumes "distinct (map nd_id (pg_nodes g))"
  shows "\<exists>ns. reachable (index_new g) origin = Some ns \<and> canonical (map nd_id ns)
    \<and> set ns = {n \<in> set (pg_nodes g). (origin, nd_id n) \<in> (edge_relation (\<lambda>_. True) g)\<^sup>*}"
proof -
  obtain found seen where s: "search_loop (search_fuel (index_new g)) (all_successors (index_new g)) None [origin] [origin] = Some (found, seen)"
      "set seen = (edge_relation (\<lambda>_. True) g)\<^sup>* `` {origin}"
    using search_total [where succ = "all_successors (index_new g)" and g = g and goal = None and origin = origin]
      all_successors_targets by (auto simp: steps_all)
  let ?ns = "List.map_filter (bmap_get (gi_nodes (index_new g))) (bset seen)"
  have "canonical (map nd_id ?ns)"
    by (rule sorted_map_filter) (simp_all add: index_nodes [OF assms])
  moreover have "set ?ns = {n \<in> set (pg_nodes g). (origin, nd_id n) \<in> (edge_relation (\<lambda>_. True) g)\<^sup>*}"
    by (auto simp: map_filter_set index_nodes [OF assms] s(2))
  ultimately show ?thesis by (simp add: reachable_def s(1))
qed

text \<open>
  Reachability is exact and total: for a program with unique node identifiers the search returns,
  in increasing order of identifier, exactly the nodes some path of edges leads to.
\<close>

theorem reachable_exact:
  assumes "distinct (map nd_id (pg_nodes g))"
  shows "\<exists>ns. reachable (index_new g) origin = Some ns \<and> canonical (map nd_id ns)
    \<and> set ns = {n \<in> set (pg_nodes g). (origin, nd_id n) \<in> (edge_relation (\<lambda>_. True) g)\<^sup>*}"
  using assms by (rule reachable_set)

section \<open>Dominance is exact\<close>

definition control_kind :: "edge_kind \<Rightarrow> bool" where
  "control_kind k \<longleftrightarrow> k = EkControl \<or> k = EkCall"

text \<open>A path of a relation, as the list of the nodes it visits.\<close>

definition path_from_to :: "(node_id \<times> node_id) set \<Rightarrow> node_id \<Rightarrow> node_id \<Rightarrow> node_id list \<Rightarrow> bool" where
  "path_from_to r a b p \<longleftrightarrow> p \<noteq> [] \<and> hd p = a \<and> last p = b \<and> successively (\<lambda>x y. (x, y) \<in> r) p"

lemma path_iff_rtrancl: "(\<exists>p. path_from_to r a b p) \<longleftrightarrow> (a, b) \<in> r\<^sup>*"
proof
  assume "\<exists>p. path_from_to r a b p"
  then obtain p where "path_from_to r a b p" ..
  then show "(a, b) \<in> r\<^sup>*"
  proof (induction p arbitrary: a)
    case (Cons x p)
    then show ?case
      by (cases p) (auto simp: path_from_to_def intro: converse_rtrancl_into_rtrancl)
  qed (simp add: path_from_to_def)
next
  assume "(a, b) \<in> r\<^sup>*"
  then show "\<exists>p. path_from_to r a b p"
  proof (induction rule: converse_rtrancl_induct)
    case base
    have "path_from_to r b b [b]" by (simp add: path_from_to_def)
    then show ?case ..
  next
    case (step a c)
    then obtain p where "path_from_to r c b p" by blast
    with step(1) have "path_from_to r a b (a # p)"
      by (cases p) (auto simp: path_from_to_def)
    then show ?case ..
  qed
qed

lemma avoiding_path:
  "(\<exists>p. path_from_to r a b p \<and> d \<notin> set p) \<longleftrightarrow> a \<noteq> d \<and> (a, b) \<in> {(x, y). (x, y) \<in> r \<and> y \<noteq> d}\<^sup>*"
proof -
  have "path_from_to r a b p \<and> d \<notin> set p \<longleftrightarrow> a \<noteq> d \<and> path_from_to {(x, y). (x, y) \<in> r \<and> y \<noteq> d} a b p" for p
  proof (induction p arbitrary: a)
    case (Cons x p)
    show ?case
    proof (cases p)
      case (Cons y q)
      with Cons.IH [of y] show ?thesis by (auto simp: path_from_to_def)
    qed (auto simp: path_from_to_def)
  qed (simp add: path_from_to_def)
  then show ?thesis unfolding path_iff_rtrancl [symmetric] by blast
qed

lemma steps_control:
  "steps (control_successors (index_new g) d) = {(x, y). (x, y) \<in> edge_relation control_kind g \<and> y \<noteq> d}"
  by (force simp: steps_def control_successors_def neighbours_set edge_relation_def control_kind_def)

lemma path_avoiding_exact:
  "path_avoiding (index_new g) a b d = Some (\<exists>p. path_from_to (edge_relation control_kind g) a b p \<and> d \<notin> set p)"
proof -
  obtain found seen where
      s: "search_loop (search_fuel (index_new g)) (control_successors (index_new g) d) (Some b) [a] [a] = Some (found, seen)"
      "found \<longleftrightarrow> (a, b) \<in> (steps (control_successors (index_new g) d))\<^sup>*"
    using search_total [where succ = "control_successors (index_new g) d" and g = g and goal = "Some b" and origin = a]
      control_successors_targets by auto
  then show ?thesis
    unfolding avoiding_path by (simp add: path_avoiding_def steps_control)
qed

lemma any_opt_total: "(\<And>x. f x = Some (P x)) \<Longrightarrow> any_opt f xs = Some (\<exists>x \<in> set xs. P x)"
  by (induction xs) (auto split: bool.splits)

definition entry_set :: "program \<Rightarrow> node_id set" where
  "entry_set g =
     (if pg_entrypoints g = [] then {i \<in> nd_id ` set (pg_nodes g). \<forall>e \<in> set (pg_edges g). ed_to e \<noteq> i}
      else set (pg_entrypoints g))"

lemma entry_ids_set: "set (entry_ids (index_new g)) = entry_set g"
proof -
  have "bmap_get (gi_incoming (index_new g)) i = None \<longleftrightarrow> (\<forall>e \<in> set (pg_edges g). ed_to e \<noteq> i)" for i
  proof -
    have "bmap_get (map (map_prod id sort) m) i = map_option sort (bmap_get m i)" for m :: adjacency
      by (induction m) auto
    with push_fold [of "[]" ed_to ed_from "pg_edges g" i] show ?thesis
      by (simp add: index_new_def adjacency_of_def)
  qed
  moreover have "fst ` set (gi_nodes (index_new g)) = nd_id ` set (pg_nodes g)"
  proof -
    have "fst ` set (gi_nodes (index_new g)) = dom (bmap_get (gi_nodes (index_new g)))"
      by (simp add: dom_map_of_conv_image_fst)
    also have "\<dots> = nd_id ` set (pg_nodes g)"
      by (simp add: index_new_def bmap_get_from dom_map_of_conv_image_fst image_image)
    finally show ?thesis .
  qed
  moreover have "gi_graph (index_new g) = g" by (simp add: index_new_def)
  ultimately show ?thesis by (auto simp: entry_ids_def entry_set_def)
qed

lemma dominates_iff:
  "dominates (index_new g) d i = Some (d = i \<or> (entry_set g \<noteq> {} \<and>
     (\<forall>entry p. \<not> (entry \<in> entry_set g \<and> path_from_to (edge_relation control_kind g) entry i p \<and> d \<notin> set p))))"
proof -
  have "entry_ids (index_new g) = [] \<longleftrightarrow> entry_set g = {}"
    unfolding entry_ids_set [symmetric] by simp
  moreover have "any_opt (\<lambda>entry. path_avoiding (index_new g) entry i d) (entry_ids (index_new g))
      = Some (\<exists>entry \<in> entry_set g. \<exists>p. path_from_to (edge_relation control_kind g) entry i p \<and> d \<notin> set p)"
    using any_opt_total [of "\<lambda>entry. path_avoiding (index_new g) entry i d"] path_avoiding_exact
    by (simp add: entry_ids_set)
  ultimately show ?thesis by (auto simp: dominates_def)
qed

text \<open>
  C11. Dominance is exact and total: a node dominates another exactly when they are the same, or there
  is an entry and every control path (over control and call edges) from every entry to the second
  node passes through the first. Entries are the declared entry points, or without any the nodes no
  edge leads to.
\<close>

theorem dominates_exact:
  "dominates (index_new g) d i = Some (d = i \<or> (entry_set g \<noteq> {} \<and>
     (\<forall>entry p. \<not> (entry \<in> entry_set g \<and> path_from_to (edge_relation control_kind g) entry i p \<and> d \<notin> set p))))"
  by (rule dominates_iff)

lemma reachable_exact_witness:
  "\<exists>ns. reachable (index_new (add_edge (edge_simple EkData 7 9)
      (add_node (node_simple 9 PrGithub NkStep ''b'' PhRun default_span)
        (add_node (node_simple 7 PrGithub NkJob ''a'' PhRun default_span) (program_empty PrGithub ''ci.yml''))))) 7 = Some ns
    \<and> nd_id ` set ns = {7, 9}"
proof -
  let ?g = "add_edge (edge_simple EkData 7 9)
      (add_node (node_simple 9 PrGithub NkStep ''b'' PhRun default_span)
        (add_node (node_simple 7 PrGithub NkJob ''a'' PhRun default_span) (program_empty PrGithub ''ci.yml'')))"
  note defs = node_simple_def node_new_def program_empty_def add_node_def add_edge_def edge_simple_def edge_new_def
  have d: "distinct (map nd_id (pg_nodes ?g))" by (simp add: defs)
  have r: "edge_relation (\<lambda>_. True) ?g = {(7, 9)}" by (auto simp: edge_relation_def defs)
  have "{n \<in> set (pg_nodes ?g). (7, nd_id n) \<in> {(7, 9)}\<^sup>*} = set (pg_nodes ?g)"
    by (auto simp: defs)
  with reachable_exact [OF d, of 7] r have "\<exists>ns. reachable (index_new ?g) 7 = Some ns \<and> set ns = set (pg_nodes ?g)"
    by auto
  moreover have "nd_id ` set (pg_nodes ?g) = {7, 9}" by (simp add: defs insert_commute)
  ultimately show ?thesis by metis
qed

end
