(* ===== verification/Graph_Paths.thy ===== *)
theory Graph_Paths
  imports Graph_Search
begin

text \<open>
  Shortest paths and cycles of a program graph (\<^verbatim>\<open>GraphIndex::shortest_path\<close>,
  \<^verbatim>\<open>GraphIndex::cycles\<close> and \<^verbatim>\<open>canonical_cycle\<close> in \<^verbatim>\<open>src/verifier/mod.rs\<close>). The searches take
  fuel; \<open>shortest_path_exact\<close> and \<open>cycles_exact\<close> show that what the operations pass is enough.
\<close>

section \<open>Shortest paths\<close>

type_synonym predecessor_map = "(node_id, node_id option) bmap"

text \<open>The inner loop: enqueue every neighbour of a chosen kind without a recorded predecessor.\<close>

fun push_neighbours ::
  "edge_kind list \<Rightarrow> node_id \<Rightarrow> (node_id \<times> edge_kind) list \<Rightarrow> node_id list \<times> predecessor_map \<Rightarrow>
   node_id list \<times> predecessor_map" where
  "push_neighbours kinds c [] st = st"
| "push_neighbours kinds c ((next_id, kind) # vs) (queue, prev) =
     push_neighbours kinds c vs
       (if kind \<in> set kinds \<and> bmap_get prev next_id = None
        then (queue @ [next_id], bmap_insert next_id (Some c) prev) else (queue, prev))"

text \<open>\<^verbatim>\<open>while let Some(id) = cursor\<close>: the chain of predecessors, last node first.\<close>

fun trace_back :: "nat \<Rightarrow> predecessor_map \<Rightarrow> node_id option \<Rightarrow> node_id list option" where
  "trace_back n prev None = Some []"
| "trace_back 0 prev (Some i) = None"
| "trace_back (Suc n) prev (Some i) =
     map_option ((#) i) (trace_back n prev (Option.bind (bmap_get prev i) id))"

fun bfs_loop ::
  "nat \<Rightarrow> graph_index \<Rightarrow> edge_kind list \<Rightarrow> node_id \<Rightarrow> node_id list \<Rightarrow> predecessor_map \<Rightarrow>
   node_id list option option" where
  "bfs_loop 0 idx kinds goal queue prev = None"
| "bfs_loop (Suc n) idx kinds goal [] prev = Some None"
| "bfs_loop (Suc n) idx kinds goal (c # queue) prev =
     (if c = goal then map_option (\<lambda>ids. Some (rev ids)) (trace_back (length prev + 1) prev (Some c))
      else (case push_neighbours kinds c (neighbours idx c) (queue, prev) of
              (queue', prev') \<Rightarrow> bfs_loop n idx kinds goal queue' prev'))"

definition shortest_ids :: "graph_index \<Rightarrow> node_id \<Rightarrow> node_id \<Rightarrow> edge_kind list \<Rightarrow> node_id list option option" where
  "shortest_ids idx origin goal kinds =
     bfs_loop (search_fuel idx) idx kinds goal [origin] [(origin, None)]"

definition shortest_path :: "graph_index \<Rightarrow> node_id \<Rightarrow> node_id \<Rightarrow> edge_kind list \<Rightarrow> node list option option" where
  "shortest_path idx origin goal kinds =
     map_option (map_option (List.map_filter (bmap_get (gi_nodes idx)))) (shortest_ids idx origin goal kinds)"

definition kind_neighbours :: "edge_kind list \<Rightarrow> (node_id \<times> edge_kind) list \<Rightarrow> node_id list" where
  "kind_neighbours kinds vs = map fst (filter (\<lambda>v. snd v \<in> set kinds) vs)"

lemma push_neighbours_spec:
  assumes "bmap_ok prev"
  shows "\<exists>new prev'. push_neighbours kinds c vs (queue, prev) = (queue @ new, prev') \<and> bmap_ok prev' \<and> distinct new
    \<and> set new = set (kind_neighbours kinds vs) - dom (bmap_get prev)
    \<and> bmap_get prev' = (\<lambda>y. if y \<in> set new then Some (Some c) else bmap_get prev y)"
  using assms
proof (induction kinds c vs "(queue, prev)" arbitrary: queue prev rule: push_neighbours.induct)
  case (2 kinds c x k vs queue prev)
  show ?case
  proof (cases "k \<in> set kinds \<and> bmap_get prev x = None")
    case True
    let ?prev = "bmap_insert x (Some c) prev"
    have "bmap_ok ?prev" by (rule bmap_ok_insert [OF "2.prems"])
    from "2.hyps" [of "queue @ [x]" ?prev] True this obtain new prev' where
      step: "push_neighbours kinds c vs (queue @ [x], ?prev) = ((queue @ [x]) @ new, prev')" "bmap_ok prev'" "distinct new"
        "set new = set (kind_neighbours kinds vs) - dom (bmap_get ?prev)"
        "bmap_get prev' = (\<lambda>y. if y \<in> set new then Some (Some c) else bmap_get ?prev y)"
      by auto
    have get: "bmap_get ?prev = (bmap_get prev)(x \<mapsto> Some c)"
      by (rule ext) (simp add: bmap_get_insert [OF "2.prems"])
    have "x \<notin> set new" using step(4) by (simp add: get)
    moreover have "set (x # new) = set (kind_neighbours kinds ((x, k) # vs)) - dom (bmap_get prev)"
      using True step(4) by (auto simp: get kind_neighbours_def)
    moreover have "bmap_get prev' = (\<lambda>y. if y \<in> set (x # new) then Some (Some c) else bmap_get prev y)"
      unfolding step(5) get by (rule ext) simp
    moreover have "push_neighbours kinds c ((x, k) # vs) (queue, prev) = (queue @ x # new, prev')"
      using True step(1) by simp
    ultimately show ?thesis
      using step(2,3) by (intro exI [of _ "x # new"] exI [of _ prev'] conjI) simp_all
  next
    case False
    then have "set (kind_neighbours kinds ((x, k) # vs)) - dom (bmap_get prev)
        = set (kind_neighbours kinds vs) - dom (bmap_get prev)"
      by (auto simp: kind_neighbours_def)
    moreover have "push_neighbours kinds c ((x, k) # vs) (queue, prev) = push_neighbours kinds c vs (queue, prev)"
      using False by auto
    moreover have "\<exists>new prev'. push_neighbours kinds c vs (queue, prev) = (queue @ new, prev') \<and> bmap_ok prev' \<and> distinct new
      \<and> set new = set (kind_neighbours kinds vs) - dom (bmap_get prev)
      \<and> bmap_get prev' = (\<lambda>y. if y \<in> set new then Some (Some c) else bmap_get prev y)"
      by (rule "2.hyps" [OF _ "2.prems"]) (use False in auto)
    ultimately show ?thesis by simp
  qed
qed (auto simp: kind_neighbours_def)

definition kind_relation :: "edge_kind list \<Rightarrow> program \<Rightarrow> (node_id \<times> node_id) set" where
  "kind_relation kinds = edge_relation (\<lambda>k. k \<in> set kinds)"

lemma kind_neighbours_index:
  "set (kind_neighbours kinds (neighbours (index_new g) c)) = kind_relation kinds g `` {c}"
  by (force simp: kind_neighbours_def neighbours_set kind_relation_def edge_relation_def)

text \<open>
  The invariant of the search, with a ghost distance \<open>d\<close>: recorded nodes form chains back to the
  origin, the queue is sorted by distance and spans at most two levels, and whatever has left the
  queue is not the goal and has all its successors recorded.
\<close>

definition bfs_inv ::
  "(node_id \<times> node_id) set \<Rightarrow> node_id \<Rightarrow> node_id \<Rightarrow> (node_id \<Rightarrow> nat) \<Rightarrow> node_id list \<Rightarrow>
   (node_id \<Rightarrow> node_id option option) \<Rightarrow> bool" where
  "bfs_inv r origin goal d queue prev \<longleftrightarrow>
     prev origin = Some None \<and> d origin = 0
     \<and> (\<forall>x. prev x = Some None \<longrightarrow> x = origin)
     \<and> (\<forall>x p. prev x = Some (Some p) \<longrightarrow> p \<in> dom prev \<and> (p, x) \<in> r \<and> d x = Suc (d p))
     \<and> set queue \<subseteq> dom prev \<and> sorted (map d queue)
     \<and> (\<forall>p \<in> dom prev. \<forall>q \<in> set queue. d p \<le> Suc (d q))
     \<and> (\<forall>p \<in> dom prev - set queue. p \<noteq> goal \<and> (\<forall>s. (p, s) \<in> r \<longrightarrow> s \<in> dom prev \<and> d s \<le> Suc (d p)))"

lemma bfs_inv_step:
  assumes inv: "bfs_inv r origin goal d (c # queue) prev" and c: "c \<noteq> goal"
    and new: "set new = r `` {c} - dom prev"
    and prev': "prev' = (\<lambda>y. if y \<in> set new then Some (Some c) else prev y)"
  shows "bfs_inv r origin goal (\<lambda>y. if y \<in> set new then Suc (d c) else d y) (queue @ new) prev'"
proof -
  let ?d = "\<lambda>y. if y \<in> set new then Suc (d c) else d y"
  have dom': "dom prev' = dom prev \<union> set new" by (auto simp: prev' dom_def)
  have fresh: "x \<notin> set new" if "x \<in> dom prev" for x using that new by blast
  have c_dom: "c \<in> dom prev" using inv by (auto simp: bfs_inv_def)
  have keep: "?d x = d x" if "x \<in> dom prev" for x using fresh [OF that] by simp
  have le: "d p \<le> Suc (d c)" if "p \<in> dom prev" for p using inv that by (auto simp: bfs_inv_def)
  have ge: "d c \<le> d q" if "q \<in> set queue" for q using inv that by (auto simp: bfs_inv_def)
  have q_dom: "set queue \<subseteq> dom prev" using inv by (auto simp: bfs_inv_def)
  have keep_queue: "map ?d queue = map d queue" using q_dom fresh by auto
  have "map ?d new = replicate (length new) (Suc (d c))" by (rule replicate_eqI) auto
  then have "sorted (map ?d (queue @ new))"
    using inv q_dom le unfolding map_append keep_queue
    by (auto simp: bfs_inv_def sorted_append simp del: map_map)
  moreover have "?d p \<le> Suc (?d q)" if "p \<in> dom prev'" "q \<in> set (queue @ new)" for p q
    using that le ge q_dom keep unfolding dom' by (fastforce split: if_splits)
  moreover have "p \<noteq> goal \<and> (\<forall>s. (p, s) \<in> r \<longrightarrow> s \<in> dom prev' \<and> ?d s \<le> Suc (?d p))"
    if "p \<in> dom prev' - set (queue @ new)" for p
  proof -
    from that have p: "p \<in> dom prev" "p \<notin> set queue" by (auto simp: dom')
    show ?thesis
    proof (cases "p = c")
      case True
      have "s \<in> dom prev' \<and> ?d s \<le> Suc (?d c)" if "(c, s) \<in> r" for s
        using that le [of s] keep [OF c_dom] new unfolding dom' by auto
      with True c show ?thesis by blast
    next
      case False
      with p have "p \<in> dom prev - set (c # queue)" by simp
      with inv have "p \<noteq> goal \<and> (\<forall>s. (p, s) \<in> r \<longrightarrow> s \<in> dom prev \<and> d s \<le> Suc (d p))"
        unfolding bfs_inv_def by blast
      with keep p(1) show ?thesis unfolding dom' by simp
    qed
  qed
  moreover have "prev' origin = Some None" "?d origin = 0" "\<forall>x. prev' x = Some None \<longrightarrow> x = origin"
    using inv fresh [of origin] by (auto simp: bfs_inv_def prev')
  moreover have "p \<in> dom prev' \<and> (p, x) \<in> r \<and> ?d x = Suc (?d p)" if "prev' x = Some (Some p)" for x p
  proof (cases "x \<in> set new")
    case True
    with that have "p = c" by (simp add: prev')
    with True c_dom keep [OF c_dom] new show ?thesis by (auto simp: dom')
  next
    case False
    with that have "prev x = Some (Some p)" by (simp add: prev')
    with inv have "p \<in> dom prev" "(p, x) \<in> r" "d x = Suc (d p)" by (auto simp: bfs_inv_def)
    with False keep [of p] show ?thesis by (simp add: dom')
  qed
  moreover have "set (queue @ new) \<subseteq> dom prev'" using q_dom by (auto simp: dom')
  ultimately show ?thesis unfolding bfs_inv_def by blast
qed

lemma bfs_chain_cases:
  assumes "bfs_inv r origin goal d queue prev" "x \<in> dom prev"
  obtains "x = origin" "prev x = Some None" "d x = 0"
  | q where "prev x = Some (Some q)" "q \<in> dom prev" "(q, x) \<in> r" "d x = Suc (d q)"
proof -
  from assms(2) obtain v where v: "prev x = Some v" by auto
  show thesis
  proof (cases v)
    case None
    with v assms(1) that(1) show thesis by (auto simp: bfs_inv_def)
  next
    case (Some q)
    with v assms(1) that(2) show thesis by (auto simp: bfs_inv_def)
  qed
qed

lemma bfs_level_bound:
  assumes "bfs_inv r origin goal d queue prev" "finite (dom prev)" "x \<in> dom prev"
  shows "d x < card (dom prev)"
proof -
  have "{..d y} \<subseteq> d ` dom prev" if "y \<in> dom prev" for y
    using that
  proof (induction "d y" arbitrary: y rule: less_induct)
    case less
    from assms(1) less.prems show ?case
    proof (cases rule: bfs_chain_cases)
      case 1
      with less.prems show ?thesis by force
    next
      case (2 q)
      then have "{..d q} \<subseteq> d ` dom prev" by (intro less.hyps) auto
      moreover have "d y \<in> d ` dom prev" using less.prems by (rule imageI)
      ultimately show ?thesis using 2 by (simp add: atMost_Suc)
    qed
  qed
  from card_mono [OF finite_imageI [OF assms(2)] this [OF assms(3)]] card_image_le [OF assms(2), of d]
  show ?thesis by simp
qed

lemma path_snoc: "path_from_to r a b q \<Longrightarrow> (b, c) \<in> r \<Longrightarrow> path_from_to r a c (q @ [c])"
  by (auto simp: path_from_to_def successively_append_iff)

lemma path_snoc_cases:
  assumes "path_from_to r a b (q @ [c])"
  shows "b = c \<and> (q = [] \<and> a = b \<or> q \<noteq> [] \<and> path_from_to r a (last q) q \<and> (last q, b) \<in> r)"
proof (cases q)
  case (Cons x q')
  have "successively (\<lambda>x y. (x, y) \<in> r) (q @ [c]) \<longleftrightarrow> successively (\<lambda>x y. (x, y) \<in> r) q \<and> (last q, c) \<in> r"
    unfolding successively_append_iff using Cons by auto
  moreover have "hd q = a" "c = b" "successively (\<lambda>x y. (x, y) \<in> r) (q @ [c])"
    using assms Cons by (auto simp: path_from_to_def simp del: successively.simps)
  ultimately show ?thesis using Cons by (auto simp: path_from_to_def simp del: successively.simps split: if_splits)
qed (use assms in \<open>simp add: path_from_to_def\<close>)

lemma trace_back_path:
  assumes "bfs_inv r origin goal d queue (bmap_get prev)" "x \<in> dom (bmap_get prev)" "d x < n"
  shows "\<exists>ids. trace_back n prev (Some x) = Some ids \<and> path_from_to r origin x (rev ids) \<and> length ids = Suc (d x)"
  using assms(2,3)
proof (induction n arbitrary: x)
  case (Suc n)
  from assms(1) Suc.prems(1) show ?case
  proof (cases rule: bfs_chain_cases)
    case 1
    then show ?thesis by (simp add: path_from_to_def)
  next
    case (2 q)
    with Suc.IH [of q] Suc.prems(2) obtain ids where
      "trace_back n prev (Some q) = Some ids" "path_from_to r origin q (rev ids)" "length ids = Suc (d q)"
      by auto
    with 2 show ?thesis by (auto intro: path_snoc)
  qed
qed simp

lemma bfs_minimal:
  assumes inv: "bfs_inv r origin goal d (goal # queue) prev" and path: "path_from_to r origin y q"
  shows "y \<in> dom prev \<and> d y < length q \<or> d goal < length q"
  using path
proof (induction q arbitrary: y rule: rev_induct)
  case (snoc c q)
  from path_snoc_cases [OF snoc.prems] consider "q = []" "y = origin"
    | "path_from_to r origin (last q) q" "(last q, y) \<in> r" by auto
  then show ?case
  proof cases
    case 1
    with inv show ?thesis by (auto simp: bfs_inv_def)
  next
    case 2
    from snoc.IH [OF 2(1)] show ?thesis
    proof
      assume l: "last q \<in> dom prev \<and> d (last q) < length q"
      show ?thesis
      proof (cases "last q \<in> set (goal # queue)")
        case True
        with inv have "d goal \<le> d (last q)" by (auto simp: bfs_inv_def)
        with l show ?thesis by simp
      next
        case False
        with l have "last q \<in> dom prev - set (goal # queue)" by simp
        with inv 2(2) have "y \<in> dom prev \<and> d y \<le> Suc (d (last q))" unfolding bfs_inv_def by blast
        with l show ?thesis by simp
      qed
    qed simp
  qed
qed (simp add: path_from_to_def)

lemma bfs_exhausted:
  assumes "bfs_inv r origin goal d [] prev"
  shows "(origin, goal) \<notin> r\<^sup>*"
proof
  assume "(origin, goal) \<in> r\<^sup>*"
  then have "goal \<in> dom prev"
  proof (induction rule: rtrancl_induct)
    case base
    from assms show ?case by (simp add: bfs_inv_def domI)
  next
    case (step y z)
    with assms show ?case unfolding bfs_inv_def by simp
  qed
  then have "goal \<in> dom prev - set []" by simp
  with assms show False unfolding bfs_inv_def by blast
qed

lemma diff_union: "A - (B \<union> C) = (A - B) - C"
  by blast

lemma bfs_correct:
  assumes "bfs_inv (kind_relation kinds g) origin goal d queue (bmap_get prev)" "bmap_ok prev"
    "finite U" "dom (bmap_get prev) \<subseteq> U" "kind_relation kinds g `` U \<subseteq> U"
    "length queue + card (U - dom (bmap_get prev)) < n"
  shows "\<exists>res. bfs_loop n (index_new g) kinds goal queue prev = Some res
    \<and> (res = None \<longleftrightarrow> (origin, goal) \<notin> (kind_relation kinds g)\<^sup>*)
    \<and> (\<forall>ids. res = Some ids \<longrightarrow> path_from_to (kind_relation kinds g) origin goal ids
         \<and> (\<forall>p. path_from_to (kind_relation kinds g) origin goal p \<longrightarrow> length ids \<le> length p))"
  using assms(1,2,4,5,6)
proof (induction n "index_new g" kinds goal queue prev arbitrary: d rule: bfs_loop.induct)
  case (2 n kinds goal prev)
  have "(origin, goal) \<notin> (kind_relation kinds g)\<^sup>*" by (rule bfs_exhausted [OF "2.prems"(1)])
  then show ?case by simp
next
  case (3 n kinds goal c queue prev)
  let ?r = "kind_relation kinds g"
  note inv = "3.prems"(1)
  have fin: "finite (dom (bmap_get prev))" by (rule finite_subset [OF "3.prems"(3) assms(3)])
  show ?case
  proof (cases "c = goal")
    case True
    have goal: "goal \<in> dom (bmap_get prev)" using inv True by (auto simp: bfs_inv_def)
    have "card (dom (bmap_get prev)) = length prev"
      using bmap_ok_distinct [OF "3.prems"(2)] distinct_card [of "map fst prev"]
      by (simp add: dom_map_of_conv_image_fst)
    then have "d goal < length prev + 1" using bfs_level_bound [OF inv fin goal] by simp
    then obtain ids where ids: "trace_back (length prev + 1) prev (Some goal) = Some ids"
        "path_from_to ?r origin goal (rev ids)" "length ids = Suc (d goal)"
      using trace_back_path [OF inv goal] by blast
    then have "(origin, goal) \<in> ?r\<^sup>*" using path_iff_rtrancl by metis
    moreover have "length ids \<le> length p" if "path_from_to ?r origin goal p" for p
      using bfs_minimal [OF inv [unfolded True] that] ids(3) by auto
    moreover have "bfs_loop (Suc n) (index_new g) kinds goal (c # queue) prev = Some (Some (rev ids))"
      using True ids(1) by (simp del: trace_back.simps)
    ultimately show ?thesis using ids(2) by simp
  next
    case False
    obtain new prev' where push: "push_neighbours kinds c (neighbours (index_new g) c) (queue, prev) = (queue @ new, prev')"
        "bmap_ok prev'" "distinct new" "set new = ?r `` {c} - dom (bmap_get prev)"
        "bmap_get prev' = (\<lambda>y. if y \<in> set new then Some (Some c) else bmap_get prev y)"
      using push_neighbours_spec [OF "3.prems"(2), of kinds c "neighbours (index_new g) c" queue]
      unfolding kind_neighbours_index by blast
    have dom': "dom (bmap_get prev') = dom (bmap_get prev) \<union> set new" unfolding push(5) by auto
    have "c \<in> dom (bmap_get prev)" using inv by (auto simp: bfs_inv_def)
    with "3.prems"(3) have "c \<in> U" by blast
    then have "?r `` {c} \<subseteq> ?r `` U" by (intro Image_mono) simp_all
    from this "3.prems"(4) have "?r `` {c} \<subseteq> U" by (rule subset_trans)
    then have new: "set new \<subseteq> U - dom (bmap_get prev)" unfolding push(4) by blast
    have "card (U - dom (bmap_get prev')) = card (U - dom (bmap_get prev)) - length new"
      unfolding dom' using new push(3)
      by (simp add: card_Diff_subset distinct_card diff_union)
    moreover have "length new \<le> card (U - dom (bmap_get prev))"
      using new push(3) assms(3) by (metis card_mono distinct_card finite_Diff)
    ultimately have "length (queue @ new) + card (U - dom (bmap_get prev')) < n" using "3.prems"(5) by simp
    moreover have "set new \<subseteq> U" using new by blast
    ultimately show ?thesis
      using "3.hyps" [OF False push(1) [symmetric] bfs_inv_step [OF inv False push(4,5)] push(2)] "3.prems"(3,4) push(1) False
      unfolding dom' by simp
  qed
qed simp

lemma shortest_path_spec:
  assumes "distinct (map nd_id (pg_nodes g))"
    and "edge_relation (\<lambda>_. True) g \<subseteq> nd_id ` set (pg_nodes g) \<times> nd_id ` set (pg_nodes g)"
    and "origin \<in> nd_id ` set (pg_nodes g)"
  shows "\<exists>res. shortest_path (index_new g) origin goal kinds = Some res
    \<and> (res = None \<longleftrightarrow> (\<nexists>p. path_from_to (kind_relation kinds g) origin goal p))
    \<and> (\<forall>ns. res = Some ns \<longrightarrow> set ns \<subseteq> set (pg_nodes g)
         \<and> path_from_to (kind_relation kinds g) origin goal (map nd_id ns)
         \<and> (\<forall>p. path_from_to (kind_relation kinds g) origin goal p \<longrightarrow> length ns \<le> length p))"
proof -
  let ?r = "kind_relation kinds g" and ?get = "bmap_get (gi_nodes (index_new g))" and ?U = "insert origin (targets g)"
  have "card (?U - {origin}) \<le> card (targets g)"
    by (rule card_mono) (auto simp: targets_def)
  then have fuel: "length [origin] + card (?U - dom (bmap_get [(origin, None :: node_id option)])) < search_fuel (index_new g)"
    using card_targets [of g] by (simp add: search_fuel_def index_new_def)
  have inv: "bfs_inv ?r origin goal (\<lambda>_. 0) [origin] (bmap_get [(origin, None)])"
    by (auto simp: bfs_inv_def)
  have closed: "?r `` ?U \<subseteq> ?U" by (auto simp: kind_relation_def edge_relation_def targets_def)
  obtain res where res: "shortest_ids (index_new g) origin goal kinds = Some res"
      "res = None \<longleftrightarrow> (origin, goal) \<notin> ?r\<^sup>*"
      "\<And>ids. res = Some ids \<Longrightarrow> path_from_to ?r origin goal ids
        \<and> (\<forall>p. path_from_to ?r origin goal p \<longrightarrow> length ids \<le> length p)"
    using bfs_correct [OF inv _ _ _ closed fuel]
    by (auto simp: shortest_ids_def bmap_ok_def targets_def)
  have nodes: "set (List.map_filter ?get ids) \<subseteq> set (pg_nodes g) \<and> map nd_id (List.map_filter ?get ids) = ids"
    if "set ids \<subseteq> nd_id ` set (pg_nodes g)" for ids
    using that
  proof (induction ids)
    case (Cons i ids)
    then obtain n where "n \<in> set (pg_nodes g)" "nd_id n = i" by auto
    then have "?get i = Some n" by (simp add: index_nodes [OF assms(1)])
    with Cons \<open>n \<in> set (pg_nodes g)\<close> \<open>nd_id n = i\<close> show ?case by (simp add: map_filter_simps)
  qed (simp add: map_filter_simps)
  have on_nodes: "set p \<subseteq> nd_id ` set (pg_nodes g)" if "path_from_to ?r origin x p" for x p
    using that
  proof (induction p arbitrary: x rule: rev_induct)
    case (snoc c p)
    from path_snoc_cases [OF snoc.prems] assms(3) snoc.IH assms(2) show ?case
      by (auto simp: kind_relation_def edge_relation_def)
  qed simp
  have len: "length (List.map_filter ?get ids) = length ids" if "path_from_to ?r origin goal ids" for ids
    using nodes [OF on_nodes [OF that]] by (metis length_map)
  show ?thesis
  proof (cases res)
    case None
    with res show ?thesis by (simp add: shortest_path_def path_iff_rtrancl)
  next
    case (Some ids)
    with res(3) have ids: "path_from_to ?r origin goal ids"
      "\<forall>p. path_from_to ?r origin goal p \<longrightarrow> length ids \<le> length p" by blast+
    with res(1,2) Some len [OF ids(1)] nodes [OF on_nodes [OF ids(1)]] show ?thesis
      by (auto simp: shortest_path_def path_iff_rtrancl)
  qed
qed

text \<open>
  C10. The path search is total and exact: it returns nothing exactly when no path over the chosen
  edge kinds exists, and otherwise the nodes of a path from the first to the second node, no longer
  than any other.
\<close>

theorem shortest_path_exact:
  assumes "distinct (map nd_id (pg_nodes g))"
    and "edge_relation (\<lambda>_. True) g \<subseteq> nd_id ` set (pg_nodes g) \<times> nd_id ` set (pg_nodes g)"
    and "origin \<in> nd_id ` set (pg_nodes g)"
  shows "\<exists>res. shortest_path (index_new g) origin goal kinds = Some res
    \<and> (res = None \<longleftrightarrow> (\<nexists>p. path_from_to (kind_relation kinds g) origin goal p))
    \<and> (\<forall>ns. res = Some ns \<longrightarrow> set ns \<subseteq> set (pg_nodes g)
         \<and> path_from_to (kind_relation kinds g) origin goal (map nd_id ns)
         \<and> (\<forall>p. path_from_to (kind_relation kinds g) origin goal p \<longrightarrow> length ns \<le> length p))"
  using assms by (rule shortest_path_spec)

section \<open>Cycles\<close>

text \<open>
  \<^verbatim>\<open>position\<close> returns the first index of an element. The stack \<^verbatim>\<open>visiting\<close> is an argument: every
  call leaves it as it found it.
\<close>

fun position_of :: "node_id \<Rightarrow> node_id list \<Rightarrow> nat option" where
  "position_of x [] = None"
| "position_of x (y # ys) = (if y = x then Some 0 else map_option Suc (position_of x ys))"

definition canonical_cycle :: "node_id list \<Rightarrow> node_id list" where
  "canonical_cycle walk =
     (let cycle = (if length walk > 1 \<and> hd walk = last walk then butlast walk else walk) in
      if cycle = [] then []
      else min_list (map (\<lambda>k. let v = drop k cycle @ take k cycle in v @ [hd v]) [0..<length cycle]))"

definition set_insert :: "'a::linorder \<Rightarrow> 'a list \<Rightarrow> 'a list" where
  "set_insert x s = bset (x # s)"

fun cycle_visit ::
    "nat \<Rightarrow> (node_id \<Rightarrow> node_id list) \<Rightarrow> node_id \<Rightarrow> node_id list \<Rightarrow> node_id list \<times> node_id list list \<Rightarrow>
     (node_id list \<times> node_id list list) option"
and cycle_visit_all ::
    "nat \<Rightarrow> (node_id \<Rightarrow> node_id list) \<Rightarrow> node_id list \<Rightarrow> node_id list \<Rightarrow> node_id list \<times> node_id list list \<Rightarrow>
     (node_id list \<times> node_id list list) option" where
  "cycle_visit 0 succ c visiting st = None"
| "cycle_visit (Suc n) succ c visiting st =
     (case position_of c visiting of
        Some p \<Rightarrow> Some (fst st, set_insert (canonical_cycle (drop p visiting @ [c])) (snd st))
      | None \<Rightarrow>
          if c \<in> set (fst st) then Some st
          else map_option (\<lambda>(visited, cycles). (set_insert c visited, cycles))
                 (cycle_visit_all n succ (succ c) (visiting @ [c]) st))"
| "cycle_visit_all n succ [] visiting st = Some st"
| "cycle_visit_all n succ (x # xs) visiting st =
     (case cycle_visit n succ x visiting st of None \<Rightarrow> None
      | Some st' \<Rightarrow> cycle_visit_all n succ xs visiting st')"

definition cycle_fuel :: "graph_index \<Rightarrow> nat" where
  "cycle_fuel idx = length (pg_nodes (gi_graph idx)) + length (pg_edges (gi_graph idx)) + 2"

definition kind_successors :: "graph_index \<Rightarrow> edge_kind list \<Rightarrow> node_id \<Rightarrow> node_id list" where
  "kind_successors idx kinds i = kind_neighbours kinds (neighbours idx i)"

definition cycles :: "graph_index \<Rightarrow> edge_kind list \<Rightarrow> node_id list list option" where
  "cycles idx kinds =
     map_option snd (cycle_visit_all (cycle_fuel idx) (kind_successors idx kinds) (bmap_keys (gi_nodes idx)) [] ([], []))"

text \<open>A closed walk of a relation: at least one step, back to its first node.\<close>

definition closed_walk :: "(node_id \<times> node_id) set \<Rightarrow> node_id list \<Rightarrow> bool" where
  "closed_walk r w \<longleftrightarrow> 2 \<le> length w \<and> hd w = last w \<and> successively (\<lambda>x y. (x, y) \<in> r) w"

lemma position_of_Some: "position_of x xs = Some p \<Longrightarrow> p < length xs \<and> xs ! p = x"
  by (induction xs arbitrary: p) (auto split: if_splits)

lemma position_of_None: "position_of x xs = None \<longleftrightarrow> x \<notin> set xs"
  by (induction xs) auto

lemma closed_walk_rotate1:
  "xs \<noteq> [] \<Longrightarrow> closed_walk r (xs @ [hd xs]) \<Longrightarrow> closed_walk r (rotate1 xs @ [hd (rotate1 xs)])"
proof (cases xs)
  case (Cons x ys)
  assume "closed_walk r (xs @ [hd xs])"
  with Cons show ?thesis
    using successively_append_iff [of "\<lambda>x y. (x, y) \<in> r" "ys @ [x]" "[hd ys]"]
    by (cases ys) (auto simp: closed_walk_def)
qed simp

lemma closed_walk_rotate:
  "xs \<noteq> [] \<Longrightarrow> closed_walk r (xs @ [hd xs]) \<Longrightarrow> closed_walk r (rotate k xs @ [hd (rotate k xs)])"
  by (induction k) (auto simp: closed_walk_rotate1)

lemma rotation_eq:
  assumes "k < length cycle"
  shows "drop k cycle @ take k cycle = rotate k cycle"
  using assms by (simp add: rotate_drop_take)

lemma canonical_cycle_rotations:
  assumes "xs \<noteq> []"
  shows "canonical_cycle (xs @ [hd xs]) = Min ((\<lambda>k. rotate k xs @ [hd (rotate k xs)]) ` {..<length xs})"
proof -
  have "map (\<lambda>k. let v = drop k xs @ take k xs in v @ [hd v]) [0..<length xs]
      = map (\<lambda>k. rotate k xs @ [hd (rotate k xs)]) [0..<length xs]"
    by (rule map_cong) (simp_all add: rotation_eq Let_def del: append_assoc)
  moreover have "canonical_cycle (xs @ [hd xs])
      = min_list (map (\<lambda>k. let v = drop k xs @ take k xs in v @ [hd v]) [0..<length xs])"
    using assms by (simp add: canonical_cycle_def)
  ultimately have "canonical_cycle (xs @ [hd xs]) = min_list (map (\<lambda>k. rotate k xs @ [hd (rotate k xs)]) [0..<length xs])"
    by (simp only:)
  then show ?thesis
    using assms by (simp add: min_list_Min atLeast0LessThan)
qed

lemma canonical_cycle_closed:
  assumes "closed_walk r w"
  shows "closed_walk r (canonical_cycle w) \<and> set (canonical_cycle w) = set w"
proof -
  have "w \<noteq> []" "butlast w \<noteq> []" "last w = hd (butlast w)"
    using assms by (cases w; cases "tl w"; auto simp: closed_walk_def)+
  then obtain xs where w: "w = xs @ [hd xs]" and xs: "xs \<noteq> []"
    using append_butlast_last_id by metis
  let ?f = "\<lambda>k. rotate k xs @ [hd (rotate k xs)]"
  have "canonical_cycle w \<in> ?f ` {..<length xs}"
    unfolding w canonical_cycle_rotations [OF xs] using xs by (intro Min_in) auto
  then obtain k where k: "canonical_cycle w = ?f k" by auto
  have "hd (rotate k xs) \<in> set xs" "hd xs \<in> set xs" using xs by (metis hd_in_set rotate_is_Nil_conv set_rotate)+
  then have "set (?f k) = set w" by (simp add: w insert_absorb)
  with k closed_walk_rotate [OF xs, of r k] assms show ?thesis unfolding w by simp
qed

text \<open>Enough fuel: the stack holds distinct identifiers.\<close>

lemma cycle_visit_total:
  assumes "finite U" "\<And>p. p \<in> U \<Longrightarrow> set (succ p) \<subseteq> U"
  shows "\<lbrakk>distinct visiting; set visiting \<subseteq> U; c \<in> U; card U - length visiting < n\<rbrakk> \<Longrightarrow>
      cycle_visit n succ c visiting st \<noteq> None"
    and "\<lbrakk>distinct visiting; set visiting \<subseteq> U; set xs \<subseteq> U; card U - length visiting < n\<rbrakk> \<Longrightarrow>
      cycle_visit_all n succ xs visiting st \<noteq> None"
  using assms
proof (induction n succ c visiting st and n succ xs visiting st rule: cycle_visit_cycle_visit_all.induct)
  case (2 n succ c visiting st)
  show ?case
  proof (cases "position_of c visiting = None \<and> c \<notin> set (fst st)")
    case True
    then have c: "c \<notin> set visiting" by (simp add: position_of_None)
    with "2.prems" have "length visiting < card U"
      by (metis distinct_card psubset_card_mono psubsetI)
    then have "cycle_visit_all n succ (succ c) (visiting @ [c]) st \<noteq> None"
      using True c "2.prems" by (intro "2.IH") auto
    with True show ?thesis by auto
  qed (auto split: option.split)
qed (auto split: option.splits)

lemma cycle_visit_sound:
  assumes "r = steps succ" "\<And>a b. a \<in> R \<Longrightarrow> (a, b) \<in> r \<Longrightarrow> b \<in> R"
  shows "\<lbrakk>cycle_visit n succ c visiting st = Some st'; successively (\<lambda>x y. (x, y) \<in> r) (visiting @ [c]);
      set (visiting @ [c]) \<subseteq> R; \<forall>w \<in> set (snd st). closed_walk r w \<and> set w \<subseteq> R\<rbrakk> \<Longrightarrow>
      \<forall>w \<in> set (snd st'). closed_walk r w \<and> set w \<subseteq> R"
    and "\<lbrakk>cycle_visit_all n succ xs visiting st = Some st'; \<forall>x \<in> set xs. successively (\<lambda>x y. (x, y) \<in> r) (visiting @ [x]);
      set (visiting @ xs) \<subseteq> R; \<forall>w \<in> set (snd st). closed_walk r w \<and> set w \<subseteq> R\<rbrakk> \<Longrightarrow>
      \<forall>w \<in> set (snd st'). closed_walk r w \<and> set w \<subseteq> R"
  using assms(1)
proof (induction n succ c visiting st and n succ xs visiting st arbitrary: st' and st' rule: cycle_visit_cycle_visit_all.induct)
  case (2 n succ c visiting st)
  show ?case
  proof (cases "position_of c visiting")
    case (Some p)
    let ?w = "drop p visiting @ [c]"
    have p: "p < length visiting" "visiting ! p = c" using position_of_Some [OF Some] by auto
    have "visiting @ [c] = take p visiting @ ?w" by simp
    then have "successively (\<lambda>x y. (x, y) \<in> r) ?w"
      using "2.prems"(2) by (metis successively_append_iff)
    with p have "closed_walk r ?w" by (auto simp: closed_walk_def hd_drop_conv_nth)
    moreover have "set ?w \<subseteq> R" using "2.prems"(3) set_drop_subset [of p visiting] by auto
    ultimately show ?thesis
      using "2.prems"(1,4) Some canonical_cycle_closed [of r ?w]
      by (simp add: set_insert_def eq_commute [of _ st'])
  next
    case None
    show ?thesis
    proof (cases "c \<in> set (fst st)")
      case True
      with None "2.prems"(1,4) show ?thesis by simp
    next
      case False
      with None "2.prems"(1) obtain st1 where st1: "cycle_visit_all n succ (succ c) (visiting @ [c]) st = Some st1"
          "snd st' = snd st1"
        by (auto simp: case_prod_unfold)
      have steps: "(c, x) \<in> r" if "x \<in> set (succ c)" for x
        using that "2.prems"(5) by (simp add: steps_def)
      have A: "\<forall>x \<in> set (succ c). successively (\<lambda>x y. (x, y) \<in> r) ((visiting @ [c]) @ [x])"
        using steps "2.prems"(2) by (subst successively_append_iff) simp
      have "c \<in> R" using "2.prems"(3) by simp
      then have B: "set ((visiting @ [c]) @ succ c) \<subseteq> R" using "2.prems"(3) assms(2) steps by auto
      show ?thesis
        unfolding st1(2) by (rule "2.IH" [OF None False st1(1) A B "2.prems"(4,5)])
    qed
  qed
next
  case (4 n succ x xs visiting st)
  then obtain st1 where st1: "cycle_visit n succ x visiting st = Some st1" "cycle_visit_all n succ xs visiting st1 = Some st'"
    by (auto split: option.splits)
  have x: "\<forall>y \<in> set xs. successively (\<lambda>x y. (x, y) \<in> r) (visiting @ [y])" "set (visiting @ xs) \<subseteq> R"
    and x': "successively (\<lambda>x y. (x, y) \<in> r) (visiting @ [x])" "set (visiting @ [x]) \<subseteq> R"
    using "4.prems"(2,3) by simp_all
  show ?case
    by (rule "4.IH"(2) [OF st1 x "4.IH"(1) [OF st1(1) x' "4.prems"(4,5)] "4.prems"(5)])
qed auto

text \<open>
  As long as no cycle is reported, the visited nodes are closed under successors and acyclic.
\<close>

definition explored :: "(node_id \<times> node_id) set \<Rightarrow> node_id set \<Rightarrow> bool" where
  "explored r V \<longleftrightarrow> r `` V \<subseteq> V \<and> (\<forall>x \<in> V. (x, x) \<notin> r\<^sup>+)"

lemma closed_trancl: "r `` V \<subseteq> V \<Longrightarrow> x \<in> V \<Longrightarrow> (x, y) \<in> r\<^sup>+ \<Longrightarrow> y \<in> V"
  by (erule trancl_induct) auto

lemma explored_insert:
  assumes "explored r V" "r `` {c} \<subseteq> V"
  shows "explored r (insert c V)"
proof -
  have "(c, c) \<notin> r\<^sup>+" if "c \<notin> V"
  proof
    assume "(c, c) \<in> r\<^sup>+"
    then obtain y where y: "(c, y) \<in> r" "(y, c) \<in> r\<^sup>*" by (auto dest: tranclD)
    with assms(2) have "y \<in> V" by auto
    with y(2) assms(1) have "c \<in> V"
      by (metis closed_trancl explored_def rtrancl_eq_or_trancl)
    with that show False ..
  qed
  with assms show ?thesis by (auto simp: explored_def)
qed

lemma set_set_insert [simp]: "set (set_insert x s) = insert x (set s)"
  by (simp add: set_insert_def)

lemma cycle_visit_mono:
  "cycle_visit n succ c visiting st = Some st' \<Longrightarrow> set (snd st) \<subseteq> set (snd st')"
  "cycle_visit_all n succ xs visiting st = Some st' \<Longrightarrow> set (snd st) \<subseteq> set (snd st')"
  by (induction n succ c visiting st and n succ xs visiting st arbitrary: st' and st'
      rule: cycle_visit_cycle_visit_all.induct)
    (fastforce split: option.splits if_splits)+

lemma closed_walk_trancl: "closed_walk r w \<Longrightarrow> (hd w, hd w) \<in> r\<^sup>+"
proof -
  assume w: "closed_walk r w"
  then obtain x y q where q: "w = x # y # q"
    unfolding closed_walk_def by (metis Suc_le_length_iff numeral_2_eq_2)
  with w have "(x, y) \<in> r" "path_from_to r y x (y # q)"
    by (auto simp: closed_walk_def path_from_to_def split: if_splits)
  then have "(x, x) \<in> r\<^sup>+" using path_iff_rtrancl by (metis rtrancl_into_trancl2)
  with q show ?thesis by simp
qed

lemma gi_nodes_keys: "fst ` set (gi_nodes (index_new g)) = nd_id ` set (pg_nodes g)"
proof -
  have "fst ` set (gi_nodes (index_new g)) = dom (bmap_get (gi_nodes (index_new g)))"
    by (simp add: dom_map_of_conv_image_fst)
  then show ?thesis
    by (simp add: index_new_def bmap_get_from dom_map_of_conv_image_fst image_image)
qed

lemma cycle_visit_complete:
  assumes "r = steps succ"
  shows "\<lbrakk>cycle_visit n succ c visiting st = Some st'; snd st' = []; explored r (set (fst st))\<rbrakk> \<Longrightarrow>
      snd st = [] \<and> explored r (set (fst st')) \<and> insert c (set (fst st)) \<subseteq> set (fst st')"
    and "\<lbrakk>cycle_visit_all n succ xs visiting st = Some st'; snd st' = []; explored r (set (fst st))\<rbrakk> \<Longrightarrow>
      snd st = [] \<and> explored r (set (fst st')) \<and> set xs \<union> set (fst st) \<subseteq> set (fst st')"
  using assms
proof (induction n succ c visiting st and n succ xs visiting st arbitrary: st' and st' rule: cycle_visit_cycle_visit_all.induct)
  case (2 n succ c visiting st)
  show ?case
  proof (cases "position_of c visiting")
    case (Some p)
    with "2.prems"(1) have "canonical_cycle (drop p visiting @ [c]) \<in> set (snd st')" by auto
    with "2.prems"(2) show ?thesis by simp
  next
    case None
    show ?thesis
    proof (cases "c \<in> set (fst st)")
      case True
      with None "2.prems" show ?thesis by auto
    next
      case False
      with None "2.prems"(1) obtain st1 where st1: "cycle_visit_all n succ (succ c) (visiting @ [c]) st = Some st1"
          "st' = (set_insert c (fst st1), snd st1)"
        by (auto simp: case_prod_unfold)
      have "snd st = [] \<and> explored r (set (fst st1)) \<and> set (succ c) \<union> set (fst st) \<subseteq> set (fst st1)"
        using "2.IH" [OF None False st1(1)] "2.prems"(2-4) st1(2) by simp
      moreover have "r `` {c} = set (succ c)" using "2.prems"(4) by (auto simp: steps_def)
      ultimately show ?thesis using explored_insert [of r "set (fst st1)" c] st1(2) by auto
    qed
  qed
next
  case (4 n succ x xs visiting st)
  then obtain st1 where st1: "cycle_visit n succ x visiting st = Some st1" "cycle_visit_all n succ xs visiting st1 = Some st'"
    by (auto split: option.splits)
  have "snd st1 = []" using cycle_visit_mono(2) [OF st1(2)] "4.prems"(2) by simp
  with "4.IH"(1) [OF st1(1) _ "4.prems"(3,4)]
  have "snd st = [] \<and> explored r (set (fst st1)) \<and> insert x (set (fst st)) \<subseteq> set (fst st1)" by simp
  with "4.IH"(2) [OF st1 "4.prems"(2) _ "4.prems"(4)] show ?case by auto
qed auto

lemma cycles_iff:
  "\<exists>cs. cycles (index_new g) kinds = Some cs
    \<and> (\<forall>w. w \<in> set cs \<longrightarrow> closed_walk (kind_relation kinds g) w
         \<and> set w \<subseteq> (kind_relation kinds g)\<^sup>* `` (nd_id ` set (pg_nodes g)))
    \<and> (cs = [] \<longleftrightarrow> (\<nexists>x. x \<in> (kind_relation kinds g)\<^sup>* `` (nd_id ` set (pg_nodes g)) \<and> (x, x) \<in> (kind_relation kinds g)\<^sup>+))"
proof -
  let ?r = "kind_relation kinds g" and ?N = "nd_id ` set (pg_nodes g)" and ?ids = "bmap_keys (gi_nodes (index_new g))"
  let ?succ = "kind_successors (index_new g) kinds" and ?n = "cycle_fuel (index_new g)"
  have r: "?r = steps ?succ"
    using kind_neighbours_index [of kinds g] by (auto simp: steps_def kind_successors_def)
  have ids: "set ?ids = ?N" by (simp add: gi_nodes_keys)
  let ?U = "?N \<union> targets g"
  have succ: "set (?succ p) \<subseteq> ?U" for p
    unfolding kind_successors_def kind_neighbours_index
    by (auto simp: kind_relation_def edge_relation_def targets_def)
  have "card ?U \<le> card ?N + card (targets g)" by (rule card_Un_le)
  also have "\<dots> \<le> length (pg_nodes g) + length (pg_edges g)"
    by (intro add_mono card_targets) (metis card_image_le card_length finite_set le_trans)
  finally have "card ?U - length [] < ?n" by (simp add: cycle_fuel_def index_new_def)
  then obtain st where st: "cycle_visit_all ?n ?succ ?ids [] ([], []) = Some st"
    using cycle_visit_total(2) [of ?U ?succ "[]" ?ids ?n "([], [])"] succ ids by (auto simp: targets_def)
  have sound: "\<forall>w \<in> set (snd st). closed_walk ?r w \<and> set w \<subseteq> ?r\<^sup>* `` ?N"
  proof (rule cycle_visit_sound(2) [OF r _ st])
    show "set ([] @ ?ids) \<subseteq> ?r\<^sup>* `` ?N" using ids by auto
  qed (auto intro: rtrancl_into_rtrancl)
  have "(\<exists>x \<in> ?r\<^sup>* `` ?N. (x, x) \<in> ?r\<^sup>+)" if "snd st \<noteq> []"
  proof -
    from that obtain w where "w \<in> set (snd st)" by (cases "snd st") auto
    with sound have w: "closed_walk ?r w" "set w \<subseteq> ?r\<^sup>* `` ?N" by auto
    have "hd w \<in> set w" using w(1) by (intro hd_in_set) (auto simp: closed_walk_def)
    with closed_walk_trancl [OF w(1)] w(2) show ?thesis by blast
  qed
  moreover have "(x, x) \<notin> ?r\<^sup>+" if "snd st = []" "x \<in> ?r\<^sup>* `` ?N" for x
  proof -
    have e: "explored ?r (set (fst st))" "?N \<subseteq> set (fst st)"
      using cycle_visit_complete(2) [OF r st that(1)] ids by (auto simp: explored_def)
    then have "?r\<^sup>* `` ?N \<subseteq> set (fst st)"
      using closed_reach [of ?N "set (fst st)" ?succ] unfolding r by (auto simp: explored_def steps_def)
    with that(2) e(1) show ?thesis by (auto simp: explored_def)
  qed
  ultimately have "snd st = [] \<longleftrightarrow> (\<nexists>x. x \<in> ?r\<^sup>* `` ?N \<and> (x, x) \<in> ?r\<^sup>+)" by blast
  with sound show ?thesis by (simp add: cycles_def st)
qed

text \<open>
  C12. Cycle search is total and sound, and misses no cyclic graph: every reported cycle is a closed walk
  over the chosen edge kinds through nodes reachable from the program's nodes, and nothing is
  reported exactly when no such node lies on a cycle.
\<close>

theorem cycles_exact:
  "\<exists>cs. cycles (index_new g) kinds = Some cs
    \<and> (\<forall>w. w \<in> set cs \<longrightarrow> closed_walk (kind_relation kinds g) w
         \<and> set w \<subseteq> (kind_relation kinds g)\<^sup>* `` (nd_id ` set (pg_nodes g)))
    \<and> (cs = [] \<longleftrightarrow> (\<nexists>x. x \<in> (kind_relation kinds g)\<^sup>* `` (nd_id ` set (pg_nodes g)) \<and> (x, x) \<in> (kind_relation kinds g)\<^sup>+))"
  by (rule cycles_iff)

text \<open>
  The canonical form of a cycle does not depend on where the walk around it starts.
\<close>

theorem canonical_cycle_rotation:
  assumes "xs \<noteq> []"
  shows "canonical_cycle (rotate k xs @ [hd (rotate k xs)]) = canonical_cycle (xs @ [hd xs])"
proof -
  let ?f = "\<lambda>k. rotate k xs @ [hd (rotate k xs)]"
  have all: "?f ` {..<length xs} = range ?f"
    using assms by (auto simp: image_iff) (metis lessThan_iff length_greater_0_conv mod_less_divisor rotate_conv_mod)
  have "range (\<lambda>j. ?f (j + k)) = range ?f"
  proof (rule antisym)
    show "range ?f \<subseteq> range (\<lambda>j. ?f (j + k))"
    proof
      fix y assume "y \<in> range ?f"
      then obtain j where y: "y = ?f j" by auto
      have "?f j = ?f (j + length xs * k)" by (metis mod_mult_self2 rotate_conv_mod)
      also have "j + length xs * k = (j + length xs * k - k) + k"
        using assms by (cases xs) auto
      finally show "y \<in> range (\<lambda>j. ?f (j + k))" unfolding y by blast
    qed
  qed auto
  moreover have full: "(\<lambda>j. rotate j ys @ [hd (rotate j ys)]) ` {..<length ys} = range (\<lambda>j. rotate j ys @ [hd (rotate j ys)])"
    if "ys \<noteq> []" for ys :: "node_id list"
    using that by (auto simp: image_iff) (metis lessThan_iff length_greater_0_conv mod_less_divisor rotate_conv_mod)
  ultimately have "(\<lambda>j. rotate j (rotate k xs) @ [hd (rotate j (rotate k xs))]) ` {..<length (rotate k xs)} = ?f ` {..<length xs}"
    using full [of "rotate k xs"] assms all by (simp add: rotate_rotate)
  then show ?thesis
    using assms by (simp add: canonical_cycle_rotations del: rotate_rotate)
qed

section \<open>A small program\<close>

definition loop_program :: program where
  "loop_program =
     add_edge (edge_simple EkControl 2 1) (add_edge (edge_simple EkControl 1 2)
       (add_node (node_simple 2 PrGithub NkStep ''b'' PhRun default_span)
         (add_node (node_simple 1 PrGithub NkJob ''a'' PhRun default_span) (program_empty PrGithub ''ci.yml''))))"

lemmas loop_program_simps = loop_program_def node_simple_def node_new_def program_empty_def add_node_def
  add_edge_def edge_simple_def edge_new_def

lemma edge_relation_image:
  "edge_relation sel g = (\<lambda>e. (ed_from e, ed_to e)) ` set (filter (\<lambda>e. sel (ed_kind e)) (pg_edges g))"
  by (auto simp: edge_relation_def)

lemma loop_program_edges: "kind_relation [EkControl] loop_program = {(1, 2), (2, 1)}"
  by (auto simp: kind_relation_def edge_relation_image loop_program_simps)

lemma loop_program_nodes: "nd_id ` set (pg_nodes loop_program) = {1, 2}"
  by (auto simp: loop_program_simps)

lemma shortest_path_exact_witness:
  "\<exists>ns. shortest_path (index_new loop_program) 1 2 [EkControl] = Some (Some ns) \<and> length ns \<le> 2"
proof -
  have p: "path_from_to (kind_relation [EkControl] loop_program) 1 2 [1, 2]"
    by (simp add: path_from_to_def loop_program_edges)
  have "distinct (map nd_id (pg_nodes loop_program))"
    and "edge_relation (\<lambda>_. True) loop_program \<subseteq> nd_id ` set (pg_nodes loop_program) \<times> nd_id ` set (pg_nodes loop_program)"
    and "1 \<in> nd_id ` set (pg_nodes loop_program)"
    by (auto simp: edge_relation_def loop_program_simps)
  from shortest_path_exact [OF this, of 2 "[EkControl]"] obtain res where
    res: "shortest_path (index_new loop_program) 1 2 [EkControl] = Some res"
      "res = None \<longleftrightarrow> (\<nexists>p. path_from_to (kind_relation [EkControl] loop_program) 1 2 p)"
      "\<And>ns p. res = Some ns \<Longrightarrow> path_from_to (kind_relation [EkControl] loop_program) 1 2 p \<Longrightarrow> length ns \<le> length p"
    by blast
  from res(2) p obtain ns where "res = Some ns" by blast
  with res(1) res(3) [OF this p] show ?thesis by simp
qed

lemma cycles_exact_witness: "\<exists>cs. cycles (index_new loop_program) [EkControl] = Some cs \<and> cs \<noteq> []"
proof -
  let ?r = "kind_relation [EkControl] loop_program"
  have "(1, 2) \<in> ?r" "(2, 1) \<in> ?r" by (auto simp: loop_program_edges)
  then have "(1, 1) \<in> ?r\<^sup>+" by (rule trancl_into_trancl [OF r_into_trancl])
  moreover have "1 \<in> ?r\<^sup>* `` (nd_id ` set (pg_nodes loop_program))"
    unfolding loop_program_nodes by auto
  ultimately show ?thesis using cycles_exact [of loop_program "[EkControl]"] by blast
qed

lemma canonical_cycle_rotation_witness: "canonical_cycle [2, 3, 1, 2] = canonical_cycle [1, 2, 3, 1]"
  using canonical_cycle_rotation [of "[1, 2, 3]" 1] by simp

end
