(* ===== verification/Digests.thy ===== *)
theory Digests
  imports Utf8
begin

text \<open>
  Content digests (\<^verbatim>\<open>src/foundation/digest.rs\<close>). The hash function of the \<^verbatim>\<open>sha2\<close> crate is an
  argument \<open>H\<close>, from the bytes fed to the hasher to the 32 bytes of the digest; feeding a hasher in
  pieces feeds it the concatenation. What is shown does not depend on \<open>H\<close>: the hexadecimal form of a
  digest reads back, the buffered writer hashes exactly what was written, and the framing of composite
  digests is unambiguous.
\<close>

section \<open>Hexadecimal\<close>

definition hex_digits :: string where "hex_digits = ''0123456789abcdef''"

definition lowercase_hex :: "string \<Rightarrow> string" where
  "lowercase_hex input = concat (map (\<lambda>b. [hex_digits ! (byte_of b div 16), hex_digits ! (byte_of b mod 16)]) input)"

definition digest_display :: "string \<Rightarrow> string" where
  "digest_display d = ''sha256:'' @ lowercase_hex d"

definition nibble :: "char \<Rightarrow> nat option" where
  "nibble c = (if in_range (CHR ''0'') (CHR ''9'') c then Some (byte_of c - byte_of (CHR ''0''))
     else if in_range (CHR ''a'') (CHR ''f'') c then Some (byte_of c - byte_of (CHR ''a'') + 10)
     else None)"

fun parse_pairs :: "string \<Rightarrow> string option" where
  "parse_pairs (h # l # rest) =
     (case nibble h of None \<Rightarrow> None
      | Some high \<Rightarrow> (case nibble l of None \<Rightarrow> None
         | Some low \<Rightarrow> map_option ((#) (char_of (high * 16 + low))) (parse_pairs rest)))"
| "parse_pairs _ = Some []"

definition digest_parse :: "string \<Rightarrow> string + string" where
  "digest_parse s =
     (case strip_prefix ''sha256:'' s of
        None \<Rightarrow> Inl ''digest must start with sha256:''
      | Some hex \<Rightarrow>
          if length hex \<noteq> 64 then Inl ''digest must contain exactly 64 hexadecimal digits''
          else (case parse_pairs hex of
                  None \<Rightarrow> Inl ''digest must use lowercase hexadecimal''
                | Some bytes \<Rightarrow> Inr bytes))"

lemma nibble_hex: "n < 16 \<Longrightarrow> nibble (hex_digits ! n) = Some n"
proof -
  have "\<forall>n \<in> {..<16}. nibble (hex_digits ! n) = Some n"
    by code_simp
  then show "n < 16 \<Longrightarrow> nibble (hex_digits ! n) = Some n" by simp
qed

lemma hex_digits_bytes:
  "list_all (\<lambda>k. hex_digits ! (k - 48) = char_of k) [48..<58]"
  "list_all (\<lambda>k. hex_digits ! (k - 87) = char_of k) [97..<103]"
  by code_simp+

lemma nibble_Some: "nibble c = Some n \<Longrightarrow> n < 16 \<and> hex_digits ! n = c"
proof -
  assume n: "nibble c = Some n"
  then consider "48 \<le> byte_of c" "byte_of c < 58" "n = byte_of c - 48" | "97 \<le> byte_of c" "byte_of c < 103" "n = byte_of c - 87"
    by (auto simp: nibble_def in_range_def split: if_splits)
  then show ?thesis
  proof cases
    case 1
    then have "byte_of c \<in> set [48..<58]" unfolding set_upt by simp
    with hex_digits_bytes(1) 1 show ?thesis unfolding list_all_iff by fastforce
  next
    case 2
    then have "byte_of c \<in> set [97..<103]" unfolding set_upt by simp
    with hex_digits_bytes(2) 2 show ?thesis unfolding list_all_iff by fastforce
  qed
qed

lemma length_lowercase_hex: "length (lowercase_hex d) = 2 * length d"
  by (induction d) (simp_all add: lowercase_hex_def)

lemma parse_pairs_hex: "parse_pairs (lowercase_hex d) = Some d"
  by (induction d) (simp_all add: lowercase_hex_def nibble_hex less_mult_imp_div_less)

lemma parse_pairs_Some: "even (length s) \<Longrightarrow> parse_pairs s = Some d \<Longrightarrow> s = lowercase_hex d"
proof (induction s arbitrary: d rule: parse_pairs.induct)
  case (1 h l rest)
  then obtain high low d' where d: "nibble h = Some high" "nibble l = Some low" "parse_pairs rest = Some d'"
      "d = char_of (high * 16 + low) # d'"
    by (auto split: option.splits)
  with nibble_Some [OF d(1)] nibble_Some [OF d(2)] have "byte_of (char_of (high * 16 + low)) = high * 16 + low"
    by simp
  with 1 d nibble_Some [OF d(1)] nibble_Some [OF d(2)] show ?case by (simp add: lowercase_hex_def)
qed (auto simp: lowercase_hex_def)

lemma digest_parse_iff:
  "digest_parse s = Inr d \<longleftrightarrow> length d = 32 \<and> s = digest_display d"
proof
  assume "digest_parse s = Inr d"
  then obtain hex where "s = ''sha256:'' @ hex" "length hex = 64" "parse_pairs hex = Some d"
    by (auto simp: digest_parse_def strip_prefix_Some split: option.splits if_splits)
  with parse_pairs_Some [of hex d] length_lowercase_hex [of d] show "length d = 32 \<and> s = digest_display d"
    by (auto simp: digest_display_def)
next
  assume "length d = 32 \<and> s = digest_display d"
  moreover have "strip_prefix ''sha256:'' (digest_display d) = Some (lowercase_hex d)"
    by (simp only: strip_prefix_Some digest_display_def)
  ultimately show "digest_parse s = Inr d"
    by (simp add: digest_parse_def parse_pairs_hex length_lowercase_hex)
qed

text \<open>
  Reading a digest is the exact inverse of writing it: a text is accepted exactly when it is the
  canonical form of the 32 bytes returned.
\<close>

theorem digest_parse_exact:
  "digest_parse s = Inr d \<longleftrightarrow> length d = 32 \<and> s = digest_display d"
  by (rule digest_parse_iff)

section \<open>Composite digests\<close>

text \<open>\<^verbatim>\<open>n.to_be_bytes()\<close> of an integer of \<open>w\<close> bytes.\<close>

fun be_bytes :: "nat \<Rightarrow> nat \<Rightarrow> string" where
  "be_bytes 0 n = []"
| "be_bytes (Suc w) n = be_bytes w (n div 256) @ [char_of (n mod 256)]"

lemma length_be_bytes [simp]: "length (be_bytes w n) = w"
  by (induction w arbitrary: n) simp_all

lemma be_bytes_inject:
  "be_bytes w m = be_bytes w n \<Longrightarrow> m < 256 ^ w \<Longrightarrow> n < 256 ^ w \<Longrightarrow> m = n"
proof (induction w arbitrary: m n)
  case (Suc w)
  then have "be_bytes w (m div 256) = be_bytes w (n div 256)" "(char_of (m mod 256) :: char) = char_of (n mod 256)"
    by simp_all
  then have "m div 256 = n div 256" "m mod 256 = n mod 256"
    using Suc.IH [of "m div 256" "n div 256"] Suc.prems(2,3)
    by (simp_all add: less_mult_imp_div_less mult.commute)
  then show ?case by (metis mult_div_mod_eq)
qed simp

text \<open>A builder is the sequence of bytes its hasher has been fed.\<close>

record digest_builder =
  db_fed :: string

definition builder_add :: "string \<Rightarrow> digest_builder \<Rightarrow> digest_builder" where
  "builder_add v b = b\<lparr>db_fed := db_fed b @ be_bytes 8 (min (length v) u64_max) @ v\<rparr>"

definition builder_new :: "string \<Rightarrow> digest_builder" where
  "builder_new domain = builder_add domain \<lparr>db_fed = []\<rparr>"

definition builder_finish :: "(string \<Rightarrow> string) \<Rightarrow> digest_builder \<Rightarrow> string" where
  "builder_finish H b = H (db_fed b)"

definition of_bytes :: "(string \<Rightarrow> string) \<Rightarrow> string \<Rightarrow> string" where
  "of_bytes H input = H input"

definition sha256_hex :: "(string \<Rightarrow> string) \<Rightarrow> string \<Rightarrow> string" where
  "sha256_hex H input = lowercase_hex (of_bytes H input)"

definition content_digest :: "(string \<Rightarrow> string) \<Rightarrow> string \<Rightarrow> string" where
  "content_digest H input = digest_display (of_bytes H input)"

text \<open>The builder after a domain and a list of fields.\<close>

definition built :: "string \<Rightarrow> string list \<Rightarrow> digest_builder" where
  "built domain items = fold builder_add items (builder_new domain)"

definition frame :: "string \<Rightarrow> string" where
  "frame v = be_bytes 8 (min (length v) u64_max) @ v"

lemma db_fed_inject: "db_fed a = db_fed b \<longleftrightarrow> (a :: digest_builder) = b"
  by (cases a; cases b) simp

lemma fold_builder_add: "db_fed (fold builder_add items b) = db_fed b @ concat (map frame items)"
  by (induction items arbitrary: b) (simp_all add: builder_add_def frame_def)

lemma frame_inject:
  assumes "frame v @ s = frame w @ t" "length v \<le> u64_max" "length w \<le> u64_max"
  shows "v = w \<and> s = t"
proof -
  have "be_bytes 8 (length v) = be_bytes 8 (length w)" "v @ s = w @ t"
    using assms by (auto simp: frame_def append_eq_append_conv)
  moreover from this(1) have "length v = length w"
    by (rule be_bytes_inject) (use assms in \<open>simp_all add: u64_max_def\<close>)
  ultimately show ?thesis by (simp add: append_eq_append_conv)
qed

lemma built_inject:
  assumes "\<forall>f \<in> set (domain # items) \<union> set (domain' # items'). length f \<le> u64_max"
  shows "built domain items = built domain' items' \<longleftrightarrow> domain = domain' \<and> items = items'"
proof -
  have "vs = ws" if "concat (map frame vs) = concat (map frame ws)"
      "\<forall>f \<in> set vs \<union> set ws. length f \<le> u64_max" for vs ws
    using that
  proof (induction vs arbitrary: ws)
    case Nil
    then show ?case by (cases ws) (auto simp: frame_def dest: arg_cong [where f = length])
  next
    case (Cons v vs)
    show ?case
    proof (cases ws)
      case Nil
      with Cons.prems show ?thesis by (auto simp: frame_def dest: arg_cong [where f = length])
    next
      case (Cons w ws')
      with Cons.prems frame_inject [of v "concat (map frame vs)" w "concat (map frame ws')"] Cons.IH [of ws']
      show ?thesis by auto
    qed
  qed
  from this [of "domain # items" "domain' # items'"] assms
  show ?thesis
    by (auto simp: built_def builder_new_def fold_builder_add builder_add_def frame_def
        dest!: arg_cong [where f = db_fed])
qed

text \<open>
  The framing of composite digests is unambiguous: two builders have been fed the same bytes only if
  they had the same domain and the same fields, so distinct identities collide only where the hash
  function does.
\<close>

theorem builder_unambiguous:
  assumes "\<forall>f \<in> set (domain # items) \<union> set (domain' # items'). length f \<le> u64_max"
  shows "built domain items = built domain' items' \<longleftrightarrow> domain = domain' \<and> items = items'"
  using assms by (rule built_inject)

lemma builder_unambiguous_witness:
  "built ''t'' [''ab'', ''c''] \<noteq> built ''t'' [''a'', ''bc'']"
  using builder_unambiguous [of "''t''" "[''ab'', ''c'']" "''t''" "[''a'', ''bc'']"] by (simp add: u64_max_def)

section \<open>The buffered writer\<close>

record digest_writer =
  dw_fed :: string
  dw_buffer :: string

definition writer_new :: digest_writer where
  "writer_new = \<lparr>dw_fed = [], dw_buffer = []\<rparr>"

definition write_buffer_bytes :: nat where "write_buffer_bytes = 8 * 1024"

definition writer_flush :: "digest_writer \<Rightarrow> digest_writer" where
  "writer_flush w = (if dw_buffer w \<noteq> [] then w\<lparr>dw_fed := dw_fed w @ dw_buffer w, dw_buffer := []\<rparr> else w)"

definition write_str :: "string \<Rightarrow> digest_writer \<Rightarrow> digest_writer" where
  "write_str s w =
     (if length s \<ge> write_buffer_bytes
      then (let w = writer_flush w in w\<lparr>dw_fed := dw_fed w @ s\<rparr>)
      else (let w = (if length (dw_buffer w) + length s > write_buffer_bytes then writer_flush w else w)
            in w\<lparr>dw_buffer := dw_buffer w @ s\<rparr>))"

definition writer_finish :: "(string \<Rightarrow> string) \<Rightarrow> digest_writer \<Rightarrow> string" where
  "writer_finish H w = digest_display (H (dw_fed (writer_flush w)))"

text \<open>
  Writing a text in any pieces through the buffered writer gives the content digest of the whole
  text, and the buffer never outgrows its capacity.
\<close>

theorem writer_content_digest:
  "writer_finish H (fold write_str parts writer_new) = content_digest H (concat parts)
   \<and> length (dw_buffer (fold write_str parts writer_new)) \<le> write_buffer_bytes"
proof -
  have "dw_fed (fold write_str ps w) @ dw_buffer (fold write_str ps w) = dw_fed w @ dw_buffer w @ concat ps
      \<and> length (dw_buffer (fold write_str ps w)) \<le> write_buffer_bytes"
    if "length (dw_buffer w) \<le> write_buffer_bytes" for ps w
    using that
  proof (induction ps arbitrary: w)
    case (Cons p ps)
    have "dw_fed (write_str p w) @ dw_buffer (write_str p w) = dw_fed w @ dw_buffer w @ p"
      "length (dw_buffer (write_str p w)) \<le> write_buffer_bytes"
      using Cons.prems by (auto simp: write_str_def writer_flush_def Let_def)
    with Cons.IH [of "write_str p w"] show ?case by simp
  qed simp
  from this [of writer_new parts] show ?thesis
    by (auto simp: writer_finish_def writer_flush_def content_digest_def of_bytes_def writer_new_def)
qed

end
