(* ===== verification/Sha256.thy ===== *)
theory Sha256
  imports Digests
begin

unbundle bit_operations_syntax

text \<open>
  The SHA-256 of the runner protocol (\<^verbatim>\<open>src/runner_protocol/sha256.rs\<close>): the compression
  function, the incremental state and its finalization, and the proof that feeding a message in any
  pieces yields the digest FIPS 180-4 defines for the whole message. The reference
  (\<open>fips_\<dots>\<close>) is written from the standard: choice and majority as exclusive ors, the
  message schedule as a recurrence, padding of the whole message.
\<close>

section \<open>Compression\<close>

text \<open>The round constants and the initial state of the source, in decimal.\<close>

definition sha_K :: "u32 list" where
  "sha_K =
   [1116352408, 1899447441, 3049323471, 3921009573, 961987163, 1508970993, 2453635748, 2870763221,
    3624381080, 310598401, 607225278, 1426881987, 1925078388, 2162078206, 2614888103, 3248222580,
    3835390401, 4022224774, 264347078, 604807628, 770255983, 1249150122, 1555081692, 1996064986,
    2554220882, 2821834349, 2952996808, 3210313671, 3336571891, 3584528711, 113926993, 338241895,
    666307205, 773529912, 1294757372, 1396182291, 1695183700, 1986661051, 2177026350, 2456956037,
    2730485921, 2820302411, 3259730800, 3345764771, 3516065817, 3600352804, 4094571909, 275423344,
    430227734, 506948616, 659060556, 883997877, 958139571, 1322822218, 1537002063, 1747873779,
    1955562222, 2024104815, 2227730452, 2361852424, 2428436474, 2756734187, 3204031479, 3329325298]"

definition sha_initial :: "u32 list" where
  "sha_initial =
   [1779033703, 3144134277, 1013904242, 2773480762, 1359893119, 2600822924, 528734635, 1541459225]"

text \<open>\<^verbatim>\<open>u32::from_be_bytes\<close>.\<close>

definition be_word :: "string \<Rightarrow> u32" where
  "be_word bs = foldl (\<lambda>w b. w * 256 + of_nat (byte_of b)) 0 bs"

text \<open>\<^verbatim>\<open>as_chunks\<close>: the complete pieces of \<open>n\<close> elements.\<close>

function chunks :: "nat \<Rightarrow> 'a list \<Rightarrow> 'a list list" where
  "chunks n xs = (if 0 < n \<and> n \<le> length xs then take n xs # chunks n (drop n xs) else [])"
  by pat_completeness auto
termination by (relation "measure (\<lambda>(n, xs). length xs)") auto

declare chunks.simps [simp del]

definition schedule_step :: "nat \<Rightarrow> u32 list \<Rightarrow> u32 list" where
  "schedule_step i s =
     (let x = s ! (i - 15); y = s ! (i - 2);
          s0 = word_rotr 7 x XOR word_rotr 18 x XOR drop_bit 3 x;
          s1 = word_rotr 17 y XOR word_rotr 19 y XOR drop_bit 10 y
      in s[i := s ! (i - 16) + s0 + s ! (i - 7) + s1])"

definition schedule_init :: "string \<Rightarrow> u32 list" where
  "schedule_init block =
     fold (\<lambda>(i, w) s. s[i := be_word w]) (enumerate 0 (take 16 (chunks 4 block))) (replicate 64 0)"

definition schedule_words :: "string \<Rightarrow> u32 list" where
  "schedule_words block = fold schedule_step [16..<64] (schedule_init block)"

type_synonym working = "u32 \<times> u32 \<times> u32 \<times> u32 \<times> u32 \<times> u32 \<times> u32 \<times> u32"

definition round_step :: "u32 list \<Rightarrow> nat \<Rightarrow> working \<Rightarrow> working" where
  "round_step schedule i = (\<lambda>(a, b, c, d, e, f, g, h).
     let sum1 = word_rotr 6 e XOR word_rotr 11 e XOR word_rotr 25 e;
         choice = (e AND f) + (NOT e AND g);
         temp1 = h + sum1 + choice + sha_K ! i + schedule ! i;
         sum0 = word_rotr 2 a XOR word_rotr 13 a XOR word_rotr 22 a;
         majority = (a AND b) + (c AND (a XOR b));
         temp2 = sum0 + majority
     in (temp1 + temp2, a, b, c, d + temp1, e, f, g))"

definition working_of :: "u32 list \<Rightarrow> working" where
  "working_of s = (s ! 0, s ! 1, s ! 2, s ! 3, s ! 4, s ! 5, s ! 6, s ! 7)"

definition compress :: "u32 list \<Rightarrow> string \<Rightarrow> u32 list" where
  "compress state block =
     (case fold (round_step (schedule_words block)) [0..<64] (working_of state) of
        (a, b, c, d, e, f, g, h) \<Rightarrow> map2 (+) state [a, b, c, d, e, f, g, h])"

section \<open>The incremental state\<close>

record sha256 =
  sh_state :: "u32 list"
  sh_buffer :: string
  sh_buffered :: nat
  sh_byte_length :: u64

definition zero_byte :: char where "zero_byte = char_of (0 :: nat)"

definition sha_new :: sha256 where
  "sha_new = \<lparr>sh_state = sha_initial, sh_buffer = replicate 64 zero_byte, sh_buffered = 0, sh_byte_length = 0\<rparr>"

text \<open>\<^verbatim>\<open>target[at..at + source.len()].copy_from_slice(source)\<close>.\<close>

definition copy_at :: "nat \<Rightarrow> string \<Rightarrow> string \<Rightarrow> string" where
  "copy_at at source target = take at target @ source @ drop (at + length source) target"

function sha_blocks :: "u32 list \<Rightarrow> string \<Rightarrow> u32 list \<times> string" where
  "sha_blocks state input =
     (if 64 \<le> length input then sha_blocks (compress state (take 64 input)) (drop 64 input)
      else (state, input))"
  by pat_completeness auto
termination by (relation "measure (\<lambda>(_, input). length input)") auto

declare sha_blocks.simps [simp del]

definition sha_absorb :: "string \<Rightarrow> sha256 \<Rightarrow> sha256" where
  "sha_absorb input s =
     (case sha_blocks (sh_state s) input of
        (state, rest) \<Rightarrow>
          s\<lparr>sh_state := state, sh_buffer := copy_at 0 rest (sh_buffer s), sh_buffered := length rest\<rparr>)"

definition sha_update :: "string \<Rightarrow> sha256 \<Rightarrow> sha256" where
  "sha_update input s =
     (let s = s\<lparr>sh_byte_length := sh_byte_length s + of_nat (min (length input) u64_max)\<rparr> in
      if sh_buffered s \<noteq> 0 then
        (let count = min (length input) (64 - sh_buffered s);
             s = s\<lparr>sh_buffer := copy_at (sh_buffered s) (take count input) (sh_buffer s),
                    sh_buffered := sh_buffered s + count\<rparr>;
             input = drop count input
         in if sh_buffered s = 64
            then sha_absorb input (s\<lparr>sh_state := compress (sh_state s) (sh_buffer s), sh_buffered := 0\<rparr>)
            else s)
      else sha_absorb input s)"

definition sha_tail :: "sha256 \<Rightarrow> string" where
  "sha_tail s =
     (let bit_length = sh_byte_length s * 8;
          tail = copy_at 0 (take (sh_buffered s) (sh_buffer s)) (replicate 128 zero_byte);
          tail = tail[sh_buffered s := char_of (128 :: nat)];
          padded_length = (if sh_buffered s < 64 - 8 then 64 else 128);
          tail = copy_at (padded_length - 8) (be_bytes 8 (unat bit_length)) tail
      in take padded_length tail)"

text \<open>\<^verbatim>\<open>{value:0width$x}\<close> with width 8.\<close>

definition hex_word :: "u32 \<Rightarrow> string" where
  "hex_word w = lowercase_hex (be_bytes 4 (unat w))"

definition sha_finalize_hex :: "sha256 \<Rightarrow> string" where
  "sha_finalize_hex s = concat (map hex_word (fold (\<lambda>block state. compress state block) (chunks 64 (sha_tail s)) (sh_state s)))"

definition sha_digest :: "string \<Rightarrow> string" where
  "sha_digest input = sha_finalize_hex (sha_update input sha_new)"

section \<open>The standard\<close>

definition fips_ch :: "u32 \<Rightarrow> u32 \<Rightarrow> u32 \<Rightarrow> u32" where
  "fips_ch x y z = (x AND y) XOR (NOT x AND z)"

definition fips_maj :: "u32 \<Rightarrow> u32 \<Rightarrow> u32 \<Rightarrow> u32" where
  "fips_maj x y z = (x AND y) XOR (x AND z) XOR (y AND z)"

definition fips_Sigma0 :: "u32 \<Rightarrow> u32" where "fips_Sigma0 x = word_rotr 2 x XOR word_rotr 13 x XOR word_rotr 22 x"
definition fips_Sigma1 :: "u32 \<Rightarrow> u32" where "fips_Sigma1 x = word_rotr 6 x XOR word_rotr 11 x XOR word_rotr 25 x"
definition fips_sigma0 :: "u32 \<Rightarrow> u32" where "fips_sigma0 x = word_rotr 7 x XOR word_rotr 18 x XOR drop_bit 3 x"
definition fips_sigma1 :: "u32 \<Rightarrow> u32" where "fips_sigma1 x = word_rotr 17 x XOR word_rotr 19 x XOR drop_bit 10 x"

fun fips_W :: "string \<Rightarrow> nat \<Rightarrow> u32" where
  "fips_W block t =
     (if t < 16 then be_word (take 4 (drop (4 * t) block))
      else fips_sigma1 (fips_W block (t - 2)) + fips_W block (t - 7)
           + fips_sigma0 (fips_W block (t - 15)) + fips_W block (t - 16))"

declare fips_W.simps [simp del]

fun fips_round :: "string \<Rightarrow> nat \<Rightarrow> working \<Rightarrow> working" where
  "fips_round block t (a, b, c, d, e, f, g, h) =
     (let t1 = h + fips_Sigma1 e + fips_ch e f g + sha_K ! t + fips_W block t;
          t2 = fips_Sigma0 a + fips_maj a b c
      in (t1 + t2, a, b, c, d + t1, e, f, g))"

definition fips_compress :: "u32 list \<Rightarrow> string \<Rightarrow> u32 list" where
  "fips_compress H block =
     (case fold (fips_round block) [0..<64] (working_of H) of
        (a, b, c, d, e, f, g, h) \<Rightarrow>
          [a + H ! 0, b + H ! 1, c + H ! 2, d + H ! 3, e + H ! 4, f + H ! 5, g + H ! 6, h + H ! 7])"

definition fips_pad :: "string \<Rightarrow> string" where
  "fips_pad m = m @ [char_of (128 :: nat)] @ replicate ((119 - length m mod 64) mod 64) zero_byte
     @ be_bytes 8 (8 * length m)"

definition fips_sha256 :: "string \<Rightarrow> u32 list" where
  "fips_sha256 m = fold (\<lambda>block H. fips_compress H block) (chunks 64 (fips_pad m)) sha_initial"

section \<open>The compression function is the standard's\<close>

lemma choice_ch: "(x AND y) + (NOT x AND z) = fips_ch x y z"
  unfolding fips_ch_def by (rule disjunctive_add_eq_xor) (simp add: bit_eq_iff bit_simps)

lemma majority_maj: "(x AND y) + (z AND (x XOR y)) = fips_maj x y z"
proof -
  have "(x AND y) + (z AND (x XOR y)) = (x AND y) XOR (z AND (x XOR y))"
    by (rule disjunctive_add_eq_xor) (auto simp: bit_eq_iff bit_simps)
  also have "\<dots> = fips_maj x y z"
    by (rule bit_eqI) (auto simp: fips_maj_def bit_simps)
  finally show ?thesis .
qed

lemma chunks_nth:
  "0 < n \<Longrightarrow> length xs = n * k \<Longrightarrow> length (chunks n xs) = k \<and> (\<forall>i < k. chunks n xs ! i = take n (drop (n * i) xs))"
proof (induction k arbitrary: xs)
  case (Suc k)
  then have "chunks n xs = take n xs # chunks n (drop n xs)" by (subst chunks.simps) simp
  with Suc.IH [of "drop n xs"] Suc.prems show ?case
    by (auto simp: nth_Cons drop_drop algebra_simps split: nat.splits)
qed (subst chunks.simps, simp)

lemma fold_enumerate_update:
  "k + length ws \<le> length s \<Longrightarrow>
   fold (\<lambda>(i, w) s. s[i := f w]) (enumerate k ws) s = take k s @ map f ws @ drop (k + length ws) s"
proof (induction ws arbitrary: k s)
  case (Cons w ws)
  then show ?case
    by (simp add: take_Suc_conv_app_nth upd_conv_take_nth_drop add.commute)
qed simp

lemma schedule_init_words:
  assumes "length block = 64"
  shows "length (schedule_init block) = 64 \<and> (\<forall>i < 16. schedule_init block ! i = fips_W block i)"
proof -
  have c: "length (chunks 4 block) = 16" "\<And>i. i < 16 \<Longrightarrow> chunks 4 block ! i = take 4 (drop (4 * i) block)"
    using chunks_nth [of 4 block 16] assms by auto
  then show ?thesis
    using fold_enumerate_update [of 0 "take 16 (chunks 4 block)" "replicate 64 0" be_word]
    by (simp add: schedule_init_def nth_append fips_W.simps)
qed

lemma schedule_words_fips:
  assumes "length block = 64" "i < 64"
  shows "schedule_words block ! i = fips_W block i"
proof -
  have "length (fold schedule_step [16..<16 + n] (schedule_init block)) = 64
      \<and> (\<forall>i < 16 + n. fold schedule_step [16..<16 + n] (schedule_init block) ! i = fips_W block i)"
    if "16 + n \<le> 64" for n
    using that
  proof (induction n)
    case 0
    then show ?case using schedule_init_words [OF assms(1)] by simp
  next
    case (Suc n)
    let ?s = "fold schedule_step [16..<16 + n] (schedule_init block)"
    have s: "length ?s = 64" "\<And>i. i < 16 + n \<Longrightarrow> ?s ! i = fips_W block i" using Suc by auto
    have fold: "fold schedule_step [16..<16 + Suc n] (schedule_init block) = schedule_step (16 + n) ?s"
      by (simp add: upt_Suc_append [of 16 "16 + n", simplified])
    have "schedule_step (16 + n) ?s = ?s[16 + n := fips_W block (16 + n)]"
      using s(2) [of "16 + n - 15"] s(2) [of "16 + n - 2"] s(2) [of "16 + n - 16"] s(2) [of "16 + n - 7"]
      by (subst fips_W.simps) (simp add: schedule_step_def Let_def fips_sigma0_def fips_sigma1_def ac_simps)
    with s Suc.prems show ?case unfolding fold by (auto simp: less_Suc_eq nth_list_update)
  qed
  from this [of 48] assms(2) show ?thesis by (simp add: schedule_words_def)
qed

lemma round_fips:
  assumes "length block = 64" "i < 64"
  shows "round_step (schedule_words block) i = fips_round block i"
  by (rule ext) (auto simp: round_step_def Let_def choice_ch majority_maj schedule_words_fips [OF assms]
    fips_Sigma0_def fips_Sigma1_def split: prod.splits)

text \<open>
  The compression function is the one of the standard.
\<close>

theorem compress_fips:
  assumes "length state = 8" "length block = 64"
  shows "compress state block = fips_compress state block"
proof -
  have "fold (round_step (schedule_words block)) [0..<64] (working_of state)
      = fold (fips_round block) [0..<64] (working_of state)"
    by (rule fold_cong) (use round_fips [OF assms(2)] in auto)
  moreover obtain s0 s1 s2 s3 s4 s5 s6 s7 where "state = [s0, s1, s2, s3, s4, s5, s6, s7]"
    using assms(1) by (auto simp: eval_nat_numeral length_Suc_conv)
  ultimately show ?thesis
    by (simp add: compress_def fips_compress_def add.commute split: prod.split)
qed

lemma length_compress [simp]: "length state = 8 \<Longrightarrow> length (compress state block) = 8"
  by (simp add: compress_def split: prod.split)

section \<open>Incremental hashing\<close>

lemma sha_blocks_append:
  "sha_blocks state (xs @ ys) = (case sha_blocks state xs of (state', rest) \<Rightarrow> sha_blocks state' (rest @ ys))"
proof (induction state xs rule: sha_blocks.induct)
  case (1 state input)
  show ?case
  proof (cases "64 \<le> length input")
    case True
    then show ?thesis
      using 1 by (subst sha_blocks.simps, subst (2) sha_blocks.simps) simp
  next
    case False
    then show ?thesis by (subst (2) sha_blocks.simps) simp
  qed
qed

lemma sha_blocks_fold:
  "sha_blocks state xs = (fold (\<lambda>block state. compress state block) (chunks 64 xs) state, drop (64 * (length xs div 64)) xs)"
proof (induction state xs rule: sha_blocks.induct)
  case (1 state input)
  show ?case
  proof (cases "64 \<le> length input")
    case True
    then have "length input div 64 = Suc ((length input - 64) div 64)" by (simp add: le_div_geq)
    with True 1 show ?thesis by (subst sha_blocks.simps, subst chunks.simps) (simp add: add.commute)
  qed (subst sha_blocks.simps, subst chunks.simps, simp)
qed

lemma sha_blocks_rest: "sha_blocks state xs = (state', rest) \<Longrightarrow> length rest < 64 \<and> length rest = length xs mod 64"
  unfolding sha_blocks_fold by (auto simp: minus_mult_div_eq_mod)

text \<open>The state after a message: the blocks compressed so far and the rest of the message in the buffer.\<close>

definition absorbed :: "string \<Rightarrow> sha256 \<Rightarrow> bool" where
  "absorbed m s \<longleftrightarrow> length (sh_buffer s) = 64 \<and> sh_byte_length s = of_nat (length m)
     \<and> sha_blocks sha_initial m = (sh_state s, take (sh_buffered s) (sh_buffer s)) \<and> sh_buffered s < 64"

lemma copy_at_append:
  "at + length src \<le> length target \<Longrightarrow> length (copy_at at src target) = length target"
  "at + length src \<le> length target \<Longrightarrow> take (at + length src) (copy_at at src target) = take at target @ src"
  by (simp_all add: copy_at_def)

lemma absorb_step:
  assumes "length (sh_buffer s) = 64"
  shows "length (sh_buffer (sha_absorb input s)) = 64 \<and> sh_byte_length (sha_absorb input s) = sh_byte_length s
    \<and> sha_blocks (sh_state s) input = (sh_state (sha_absorb input s), take (sh_buffered (sha_absorb input s)) (sh_buffer (sha_absorb input s)))
    \<and> sh_buffered (sha_absorb input s) < 64"
proof -
  obtain state rest where b: "sha_blocks (sh_state s) input = (state, rest)" by force
  from sha_blocks_rest [OF b] have "length rest < 64" by simp
  with assms b copy_at_append [of 0 rest "sh_buffer s"] show ?thesis by (simp add: sha_absorb_def)
qed

lemma absorbed_new: "absorbed [] sha_new"
  by (simp add: absorbed_def sha_new_def sha_blocks.simps)

lemma absorbed_update:
  assumes "absorbed m s" "length input \<le> u64_max"
  shows "absorbed (m @ input) (sha_update input s)"
proof -
  let ?r = "take (sh_buffered s) (sh_buffer s)" and ?n = "64 - sh_buffered s"
  let ?s = "s\<lparr>sh_byte_length := sh_byte_length s + of_nat (min (length input) u64_max)\<rparr>"
  have s: "length (sh_buffer s) = 64" "sh_buffered s < 64" "length ?r = sh_buffered s"
      "sh_byte_length s = of_nat (length m)"
    using assms(1) by (auto simp: absorbed_def)
  have blocks: "sha_blocks sha_initial (m @ input) = sha_blocks (sh_state s) (?r @ input)"
    using assms(1) by (subst sha_blocks_append) (simp add: absorbed_def)
  have len: "sh_byte_length ?s = of_nat (length (m @ input))"
    using s(4) assms(2) by (simp add: min_absorb1)
  show ?thesis
  proof (cases "sh_buffered s = 0")
    case True
    then have "sha_update input s = sha_absorb input ?s" by (simp add: sha_update_def Let_def)
    with absorb_step [of ?s input] blocks len s True show ?thesis by (simp add: absorbed_def)
  next
    case False
    show ?thesis
    proof (cases "length input < ?n")
      case True
      let ?b = "copy_at (sh_buffered s) input (sh_buffer s)"
      have u: "sha_update input s = ?s\<lparr>sh_buffer := ?b, sh_buffered := sh_buffered s + length input\<rparr>"
        using False True by (simp add: sha_update_def Let_def)
      have "sha_blocks (sh_state s) (?r @ input) = (sh_state s, ?r @ input)"
        using True s by (subst sha_blocks.simps) auto
      with True s len blocks copy_at_append [of "sh_buffered s" input "sh_buffer s"] show ?thesis
        by (simp add: absorbed_def u)
    next
      case ge: False
      let ?block = "?r @ take ?n input"
      let ?t = "?s\<lparr>sh_buffer := ?block, sh_state := compress (sh_state s) ?block, sh_buffered := 0\<rparr>"
      have "copy_at (sh_buffered s) (take ?n input) (sh_buffer s) = ?block"
        using s ge by (simp add: copy_at_def)
      then have u: "sha_update input s = sha_absorb (drop ?n input) ?t"
        using False ge s by (simp add: sha_update_def Let_def min_absorb2)
      have "sha_blocks (sh_state s) (?r @ input) = sha_blocks (compress (sh_state s) ?block) (drop ?n input)"
        using ge s by (subst sha_blocks.simps) auto
      moreover have "length ?block = 64" using s ge by simp
      ultimately show ?thesis
        using absorb_step [of ?t "drop ?n input"] blocks len unfolding u by (simp add: absorbed_def)
    qed
  qed
qed

lemma absorbed_fold:
  assumes "absorbed m s" "\<forall>p \<in> set parts. length p \<le> u64_max"
  shows "absorbed (m @ concat parts) (fold sha_update parts s)"
  using assms
proof (induction parts arbitrary: m s)
  case (Cons p parts)
  with Cons.IH [of "m @ p" "sha_update p s"] absorbed_update [of m s p] show ?case by simp
qed simp

section \<open>Padding\<close>

lemma pad_zeros:
  assumes "r < (64 :: nat)"
  shows "(119 - r) mod 64 = (if r < 56 then 55 - r else 119 - r)"
  using assms by (auto simp: mod_if)

lemma sha_tail_pad:
  assumes "absorbed m s" "8 * length m < 2 ^ 64"
  shows "sha_tail s = take (sh_buffered s) (sh_buffer s) @ [char_of (128 :: nat)]
      @ replicate ((119 - length m mod 64) mod 64) zero_byte @ be_bytes 8 (8 * length m)"
proof -
  let ?k = "sh_buffered s" and ?r = "take (sh_buffered s) (sh_buffer s)"
  have s: "length (sh_buffer s) = 64" "?k < 64" "sh_byte_length s = of_nat (length m)" "length ?r = ?k"
    using assms(1) by (auto simp: absorbed_def)
  have k: "?k = length m mod 64"
    using sha_blocks_rest [of sha_initial m] assms(1) s(4) by (auto simp: absorbed_def)
  have bits: "unat (sh_byte_length s * 8) = 8 * length m"
    using assms(2) s(3) by (simp add: unat_word_ariths unat_of_nat mult.commute)
  have t: "(copy_at 0 ?r (replicate 128 zero_byte))[?k := char_of (128 :: nat)] = ?r @ [char_of (128 :: nat)] @ replicate (127 - ?k) zero_byte"
    using s by (simp add: copy_at_def list_update_append upd_conv_take_nth_drop)
  show ?thesis
    using s(2,4) unfolding sha_tail_def Let_def t bits k [symmetric] pad_zeros [OF s(2)]
    by (cases "?k < 56") (simp_all add: copy_at_def take_Cons')
qed

lemma chunks_all: "length xs mod 64 = 0 \<Longrightarrow> sha_blocks state xs = (fold (\<lambda>block state. compress state block) (chunks 64 xs) state, [])"
  unfolding sha_blocks_fold by (simp add: mod_eq_0_iff_dvd)

lemma chunks_length: "block \<in> set (chunks 64 xs) \<Longrightarrow> length block = 64"
  by (induction "64 :: nat" xs rule: chunks.induct) (subst (asm) (2) chunks.simps, auto split: if_splits)

lemma fold_compress_fips:
  "length state = 8 \<Longrightarrow> \<forall>b \<in> set bs. length b = 64 \<Longrightarrow>
   fold (\<lambda>block state. compress state block) bs state = fold (\<lambda>block H. fips_compress H block) bs state"
  by (induction bs arbitrary: state) (simp_all add: compress_fips [symmetric])

text \<open>
  C3. Incremental hashing is SHA-256: a message fed in any pieces, shorter than $2^{61}$ bytes, yields the
  hexadecimal form of the digest the standard defines for the whole message.
\<close>

theorem sha_update_fips:
  assumes "8 * length (concat parts) < 2 ^ 64"
  shows "sha_finalize_hex (fold sha_update parts sha_new) = concat (map hex_word (fips_sha256 (concat parts)))"
proof -
  let ?m = "concat parts" and ?s = "fold sha_update parts sha_new"
  have "length p \<le> length ?m" if "p \<in> set parts" for p
    using that by (induction parts) auto
  with assms have "\<forall>p \<in> set parts. length p \<le> u64_max" by (fastforce simp: u64_max_def)
  then have a: "absorbed ?m ?s" using absorbed_fold [OF absorbed_new] by simp
  note tail = sha_tail_pad [OF a assms]
  let ?z = "[char_of (128 :: nat)] @ replicate ((119 - length ?m mod 64) mod 64) zero_byte @ be_bytes 8 (8 * length ?m)"
  have r: "length (take (sh_buffered ?s) (sh_buffer ?s)) = length ?m mod 64"
    and b: "sha_blocks sha_initial ?m = (sh_state ?s, take (sh_buffered ?s) (sh_buffer ?s))"
    using sha_blocks_rest [of sha_initial ?m] a by (auto simp: absorbed_def)
  let ?l = "length ?m"
  have pad': "(?l mod 64 + (1 + ((119 - ?l mod 64) mod 64 + 8))) mod 64 = 0"
    by (simp add: pad_zeros)
  then have pad: "length (fips_pad ?m) mod 64 = 0" "length (sha_tail ?s) mod 64 = 0"
    unfolding tail fips_pad_def length_append length_replicate length_be_bytes r by (simp_all add: mod_simps)
  have "sha_blocks sha_initial (fips_pad ?m) = sha_blocks (sh_state ?s) (sha_tail ?s)"
    unfolding fips_pad_def tail by (subst sha_blocks_append) (simp add: b)
  then have "fold (\<lambda>block state. compress state block) (chunks 64 (fips_pad ?m)) sha_initial
      = fold (\<lambda>block state. compress state block) (chunks 64 (sha_tail ?s)) (sh_state ?s)"
    unfolding chunks_all [OF pad(1)] chunks_all [OF pad(2)] by simp
  moreover have "length sha_initial = 8" by (simp add: sha_initial_def)
  ultimately show ?thesis
    using fold_compress_fips [of sha_initial "chunks 64 (fips_pad ?m)"] chunks_length [of _ "fips_pad ?m"]
    by (simp add: sha_finalize_hex_def fips_sha256_def)
qed

lemma compress_fips_witness:
  "compress sha_initial (replicate 64 zero_byte) = fips_compress sha_initial (replicate 64 zero_byte)"
  by (rule compress_fips) (simp_all add: sha_initial_def)

lemma sha_update_fips_witness:
  "sha_finalize_hex (sha_update ''c'' (sha_update ''ab'' sha_new)) = concat (map hex_word (fips_sha256 ''abc''))"
  using sha_update_fips [of "[''ab'', ''c'']"] by simp

end
