(* ===== verification/Worklist.thy ===== *)
theory Worklist
  imports Prelude
begin

text \<open>
  The worklist of \<^verbatim>\<open>Dataflow::solve\<close> (\<^verbatim>\<open>src/verifier/mod.rs\<close>) over any in-place join. Under the
  \<open>flagged_join\<close> contract it stops, and a property of values that the join accumulates spreads to
  exactly the indices its initial holders reach.
\<close>

section \<open>The loop\<close>

type_synonym 'v work = "nat list \<times> bool list \<times> 'v list"

text \<open>
  \<^verbatim>\<open>join_indexed_value\<close>: the three branches of the code split the borrow of the vector and
  update the same entry.
\<close>

definition join_indexed :: "('v \<Rightarrow> 'v \<Rightarrow> 'v \<times> bool) \<Rightarrow> 'v list \<Rightarrow> nat \<Rightarrow> nat \<Rightarrow> 'v list \<times> bool" where
  "join_indexed join vals tgt src =
     (let (v, changed) = join (vals ! tgt) (vals ! src) in (vals[tgt := v], changed))"

fun flow_targets :: "('v \<Rightarrow> 'v \<Rightarrow> 'v \<times> bool) \<Rightarrow> nat \<Rightarrow> nat list \<Rightarrow> 'v work \<Rightarrow> 'v work" where
  "flow_targets join src [] st = st"
| "flow_targets join src (t # ts) (queue, queued, vals) =
     (let (vals', changed) = join_indexed join vals t src in
      flow_targets join src ts
        (if changed \<and> \<not> queued ! t then (queue @ [t], queued[t := True], vals')
         else (queue, queued, vals')))"

fun flow_loop :: "nat \<Rightarrow> ('v \<Rightarrow> 'v \<Rightarrow> 'v \<times> bool) \<Rightarrow> nat list list \<Rightarrow> 'v work \<Rightarrow> 'v list option" where
  "flow_loop 0 join outgoing st = None"
| "flow_loop (Suc n) join outgoing ([], queued, vals) = Some vals"
| "flow_loop (Suc n) join outgoing (src # queue, queued, vals) =
     flow_loop n join outgoing
       (flow_targets join src (outgoing ! src) (queue, queued[src := False], vals))"

definition index_edges :: "nat list list \<Rightarrow> (nat \<times> nat) set" where
  "index_edges outgoing = {(s, t). s < length outgoing \<and> t \<in> set (outgoing ! s)}"

definition work_ok :: "('v \<Rightarrow> bool) \<Rightarrow> nat \<Rightarrow> 'v work \<Rightarrow> bool" where
  "work_ok ok n st \<longleftrightarrow> (case st of (queue, queued, vals) \<Rightarrow>
     length queued = n \<and> length vals = n \<and> set queue \<subseteq> {..<n} \<and> (\<forall>v \<in> set vals. ok v)
     \<and> (\<forall>i < n. queued ! i \<longrightarrow> i \<in> set queue))"

text \<open>
  The queued indices hide what is still to be propagated: whatever \<open>h\<close> holds of an index outside
  the queue holds of its targets (\<open>settled\<close>), except that of \<open>src\<close> only the targets before
  \<open>rest\<close> have been served.
\<close>

definition settled :: "('v \<Rightarrow> bool) \<Rightarrow> (nat \<times> nat) set \<Rightarrow> 'v work \<Rightarrow> bool" where
  "settled h edges st \<longleftrightarrow> (case st of (queue, queued, vals) \<Rightarrow>
     \<forall>(s, t) \<in> edges. s \<notin> set queue \<longrightarrow> h (vals ! s) \<longrightarrow> h (vals ! t))"

definition work_measure :: "('v \<Rightarrow> nat) \<Rightarrow> 'v work \<Rightarrow> nat" where
  "work_measure rank st = (case st of (queue, queued, vals) \<Rightarrow> length queue + sum_list (map rank vals))"

context flagged_join
begin

lemma rank_update:
  assumes "i < length vals" "ok (vals ! i)" "ok y"
  shows "sum_list (map rank (vals[i := fst (join (vals ! i) y)])) + (if snd (join (vals ! i) y) then 1 else 0)
    \<le> sum_list (map rank vals)"
proof -
  let ?z = "fst (join (vals ! i) y)"
  have "sum_list (map rank (vals[i := ?z])) + rank (vals ! i) = sum_list (map rank vals) + rank ?z"
    using assms(1) by (induction vals arbitrary: i) (auto simp: nth_Cons split: nat.splits)
  moreover have "rank ?z + (if snd (join (vals ! i) y) then 1 else 0) \<le> rank (vals ! i)"
    using rank_le [OF assms(2,3)] rank_less [OF assms(2,3)] by auto
  ultimately show ?thesis by linarith
qed

lemma flow_step:
  assumes "work_ok ok n (queue, queued, vals)" "t < n" "src < n"
    "join_indexed join vals t src = (vals', changed)"
    "st = (if changed \<and> \<not> queued ! t then (queue @ [t], queued[t := True], vals') else (queue, queued, vals'))"
  shows "work_ok ok n st \<and> work_measure rank st \<le> work_measure rank (queue, queued, vals)
    \<and> (\<exists>queue' queued'. st = (queue', queued', vals') \<and> set queue \<subseteq> set queue' \<and> (changed \<longrightarrow> t \<in> set queue'))"
proof -
  have ok: "ok (vals ! t)" "ok (vals ! src)" using assms(1-3) by (auto simp: work_ok_def)
  have v: "vals' = vals[t := fst (join (vals ! t) (vals ! src))]" "changed = snd (join (vals ! t) (vals ! src))"
    using assms(4) by (auto simp: join_indexed_def case_prod_unfold Let_def)
  have "ok v" if "v \<in> set vals'" for v
    using that assms(1) join_ok [OF ok] set_update_subset_insert [of vals t] by (auto simp: v work_ok_def)
  then have "work_ok ok n st"
    using assms(1,2,5) by (auto simp: work_ok_def v(1) nth_list_update)
  moreover have "work_measure rank st \<le> work_measure rank (queue, queued, vals)"
    using rank_update [of t vals "vals ! src", OF _ ok] assms(1,2,5) v
    by (auto simp: work_measure_def work_ok_def split: if_splits)
  ultimately show ?thesis using assms(1,2,5) by (auto simp: work_ok_def)
qed

lemma flow_targets_ok:
  assumes "work_ok ok n st" "set ts \<subseteq> {..<n}" "src < n"
  shows "work_ok ok n (flow_targets join src ts st) \<and> work_measure rank (flow_targets join src ts st) \<le> work_measure rank st"
  using assms(1,2)
proof (induction ts arbitrary: st)
  case (Cons t ts)
  obtain queue queued vals vals' changed where st: "st = (queue, queued, vals)"
      "join_indexed join vals t src = (vals', changed)"
    by (metis prod.exhaust)
  let ?st = "if changed \<and> \<not> queued ! t then (queue @ [t], queued[t := True], vals') else (queue, queued, vals')"
  have step: "work_ok ok n ?st" "work_measure rank ?st \<le> work_measure rank st"
    using flow_step [OF _ _ assms(3) st(2) refl] Cons.prems unfolding st(1) by auto
  from Cons.IH [OF step(1)] Cons.prems(2) step(2) show ?case by (simp add: st)
qed simp

lemma flow_loop_total:
  assumes "work_ok ok n st" "work_measure rank st < fuel" "\<And>s. s < n \<Longrightarrow> set (outgoing ! s) \<subseteq> {..<n}"
  shows "\<exists>vals. flow_loop fuel join outgoing st = Some vals \<and> length vals = n \<and> (\<forall>v \<in> set vals. ok v)"
  using assms(1,2)
proof (induction fuel arbitrary: st)
  case (Suc fuel)
  obtain queue queued vals where st: "st = (queue, queued, vals)" by (metis prod.exhaust)
  show ?case
  proof (cases queue)
    case Nil
    with Suc.prems(1) st show ?thesis by (auto simp: work_ok_def)
  next
    case (Cons src rest)
    let ?st = "(rest, queued[src := False], vals)"
    have src: "src < n" and ok: "work_ok ok n ?st"
      using Suc.prems(1) Cons st by (auto simp: work_ok_def nth_list_update)
    have "work_measure rank ?st < work_measure rank st" using Cons st by (simp add: work_measure_def)
    with flow_targets_ok [OF ok assms(3) [OF src] src] Suc.prems(2)
    show ?thesis using Suc.IH st Cons by simp
  qed
qed simp

end

text \<open>
  A predicate that a join holds of the result exactly when it held of one of the arguments.
\<close>

locale accumulating_join = flagged_join +
  fixes h :: "'a \<Rightarrow> bool"
  assumes accumulate: "ok x \<Longrightarrow> ok y \<Longrightarrow> h (fst (join x y)) \<longleftrightarrow> h x \<or> h y"
begin

text \<open>What the values hold stays within what the initial values reach.\<close>

definition traced :: "(nat \<times> nat) set \<Rightarrow> 'a list \<Rightarrow> 'a list \<Rightarrow> bool" where
  "traced edges start vals \<longleftrightarrow>
     (\<forall>i < length vals. (h (start ! i) \<longrightarrow> h (vals ! i))
        \<and> (h (vals ! i) \<longrightarrow> (\<exists>j < length vals. h (start ! j) \<and> (j, i) \<in> edges\<^sup>*)))"

definition served :: "(nat \<times> nat) set \<Rightarrow> nat \<Rightarrow> nat list \<Rightarrow> 'a work \<Rightarrow> bool" where
  "served edges src rest st \<longleftrightarrow> (case st of (queue, queued, vals) \<Rightarrow>
     \<forall>s t. (s, t) \<in> edges \<longrightarrow> s \<notin> set queue \<longrightarrow> \<not> (s = src \<and> t \<in> set rest) \<longrightarrow> h (vals ! s) \<longrightarrow> h (vals ! t))"

lemma flow_targets_traces:
  assumes "work_ok ok n st" "set ts \<subseteq> {..<n}" "src < n" "traced edges start (snd (snd st))"
    "\<And>t. t \<in> set ts \<Longrightarrow> (src, t) \<in> edges" "edges \<subseteq> {..<n} \<times> {..<n}" "served edges src ts st"
  shows "traced edges start (snd (snd (flow_targets join src ts st)))
    \<and> settled h edges (flow_targets join src ts st)"
  using assms(1,2,4,5,7)
proof (induction ts arbitrary: st)
  case Nil
  then show ?case by (cases st) (auto simp: served_def settled_def)
next
  case (Cons t ts)
  obtain queue queued vals vals' changed where st: "st = (queue, queued, vals)"
      "join_indexed join vals t src = (vals', changed)"
    by (metis prod.exhaust)
  let ?st = "if changed \<and> \<not> queued ! t then (queue @ [t], queued[t := True], vals') else (queue, queued, vals')"
  have t: "t < n" "(src, t) \<in> edges" using Cons.prems(2,4) by auto
  have okv: "ok (vals ! t)" "ok (vals ! src)" "length vals = n"
    using Cons.prems(1) t(1) assms(3) unfolding st(1) by (auto simp: work_ok_def)
  obtain queue' queued' where st': "?st = (queue', queued', vals')" "work_ok ok n ?st" "set queue \<subseteq> set queue'"
      "changed \<longrightarrow> t \<in> set queue'"
    using flow_step [OF _ t(1) assms(3) st(2) refl] Cons.prems(1) unfolding st(1) by blast
  have v: "vals' = vals[t := fst (join (vals ! t) (vals ! src))]" "changed = snd (join (vals ! t) (vals ! src))"
    using st(2) by (auto simp: join_indexed_def case_prod_unfold Let_def)
  have h: "h (vals' ! i) \<longleftrightarrow> h (vals ! i) \<or> i = t \<and> h (vals ! src)" if "i < n" for i
    using that okv accumulate [OF okv(1,2)] by (cases "i = t") (simp_all add: v(1))
  have same: "h (vals ! src) \<longrightarrow> h (vals ! t)" if "\<not> changed"
    using that unchanged [OF okv(1,2)] accumulate [OF okv(1,2)] unfolding v(2) by auto
  have "traced edges start vals'"
    unfolding traced_def
  proof (intro allI impI conjI)
    fix i assume i: "i < length vals'"
    then have i: "i < n" using okv(3) by (simp add: v(1))
    have old: "(h (start ! i) \<longrightarrow> h (vals ! i)) \<and> (h (vals ! i) \<longrightarrow> (\<exists>j < n. h (start ! j) \<and> (j, i) \<in> edges\<^sup>*))" if "i < n" for i
      using Cons.prems(3) that okv(3) unfolding st(1) traced_def by simp
    show "h (start ! i) \<Longrightarrow> h (vals' ! i)" using h [OF i] old [OF i] by simp
    show "\<exists>j < length vals'. h (start ! j) \<and> (j, i) \<in> edges\<^sup>*" if "h (vals' ! i)"
    proof (cases "h (vals ! i)")
      case True
      with old [OF i] okv(3) show ?thesis by (simp add: v(1))
    next
      case False
      with that h [OF i] have "i = t" "h (vals ! src)" by auto
      with old [OF assms(3)] t(2) okv(3) show ?thesis
        by (auto simp: v(1) intro: rtrancl_into_rtrancl)
    qed
  qed
  moreover have "served edges src ts ?st"
    unfolding served_def st'(1) prod.case
  proof (intro allI impI)
    fix s x assume e: "(s, x) \<in> edges" "s \<notin> set queue'" "\<not> (s = src \<and> x \<in> set ts)" "h (vals' ! s)"
    have n: "s < n" "x < n" using e(1) assms(6) by auto
    have s: "h (vals ! s)"
    proof (cases "s = t")
      case True
      with e(2) st'(4) have "\<not> changed" by blast
      with same True e(4) h [OF n(1)] show ?thesis by auto
    qed (use h [OF n(1)] e(4) in simp)
    show "h (vals' ! x)"
    proof (cases "s = src \<and> x = t")
      case True
      with s h [OF n(2)] show ?thesis by simp
    next
      case False
      with e st'(3) Cons.prems(5) s have "h (vals ! x)"
        unfolding st(1) served_def by auto
      with h [OF n(2)] show ?thesis by simp
    qed
  qed
  ultimately show ?case
    using Cons.IH [OF st'(2)] Cons.prems(2,4) st'(1) by (simp add: st)
qed

lemma flow_loop_traces:
  assumes "work_ok ok n st" "traced (index_edges outgoing) start (snd (snd st))"
    "settled h (index_edges outgoing) st" "length outgoing = n" "\<And>s. s < n \<Longrightarrow> set (outgoing ! s) \<subseteq> {..<n}"
    "flow_loop fuel join outgoing st = Some vals" "i < n"
  shows "h (vals ! i) \<longleftrightarrow> (\<exists>j < n. h (start ! j) \<and> (j, i) \<in> (index_edges outgoing)\<^sup>*)"
  using assms(1-3,6)
proof (induction fuel arbitrary: st)
  case (Suc fuel)
  let ?E = "index_edges outgoing"
  have E: "?E \<subseteq> {..<n} \<times> {..<n}" using assms(4,5) by (auto simp: index_edges_def)
  obtain queue queued vs where st: "st = (queue, queued, vs)" by (metis prod.exhaust)
  show ?case
  proof (cases queue)
    case Nil
    with Suc.prems st have vs: "vs = vals" "length vals = n" by (auto simp: work_ok_def)
    have "h (vals ! y)" if "(j, y) \<in> ?E\<^sup>*" "h (vals ! j)" for j y
      using that by (induction rule: rtrancl_induct) (use Suc.prems(3) st Nil vs in \<open>auto simp: settled_def\<close>)
    then show ?thesis using Suc.prems(2) st vs assms(7) by (auto simp: traced_def)
  next
    case (Cons src rest)
    let ?st = "(rest, queued[src := False], vs)"
    have src: "src < n" and ok: "work_ok ok n ?st"
      using Suc.prems(1) Cons st by (auto simp: work_ok_def nth_list_update)
    have "served ?E src (outgoing ! src) ?st"
      using Suc.prems(3) st Cons by (auto simp: served_def settled_def index_edges_def)
    moreover have "\<And>t. t \<in> set (outgoing ! src) \<Longrightarrow> (src, t) \<in> ?E"
      using src assms(4) by (simp add: index_edges_def)
    ultimately have "traced ?E start (snd (snd (flow_targets join src (outgoing ! src) ?st)))
        \<and> settled h ?E (flow_targets join src (outgoing ! src) ?st)"
      using Suc.prems(2) st by (intro flow_targets_traces [OF ok assms(5) [OF src] src _ _ E]) auto
    with flow_targets_ok [OF ok assms(5) [OF src] src] Suc.IH [of "flow_targets join src (outgoing ! src) ?st"]
    show ?thesis using Suc.prems(4) st Cons by simp
  qed
qed simp

end

end
