(* ===== verification/Dataflow.thy ===== *)
theory Dataflow
  imports Worklist Value_Rank Graph_Paths
begin

text \<open>
  Propagation of abstract values over a program (\<^verbatim>\<open>Dataflow\<close> in \<^verbatim>\<open>src/verifier/mod.rs\<close>): every node
  starts with the join of its attributes, and values flow along data, read, write and persist edges
  until nothing changes. The worklist takes fuel: \<open>dataflow_fuel\<close> is enough for the values the front
  ends produce, and \<open>solve_diverges\<close> shows that no fuel is enough in general.
\<close>

record dataflow =
  df_node_indices :: "(node_id, nat) bmap"
  df_values :: "abstract_value list"
  df_complete :: bool

definition ensure_value_index ::
  "node_id \<Rightarrow> (node_id, nat) bmap \<times> abstract_value list \<Rightarrow> (node_id, nat) bmap \<times> abstract_value list" where
  "ensure_value_index i = (\<lambda>(indices, vals).
     (case bmap_get indices i of
        Some k \<Rightarrow> (indices, vals)
      | None \<Rightarrow> (bmap_insert i (length vals) indices, vals @ [default_value])))"

definition ensure_edge ::
  "edge \<Rightarrow> (node_id, nat) bmap \<times> abstract_value list \<Rightarrow> (node_id, nat) bmap \<times> abstract_value list" where
  "ensure_edge e st = ensure_value_index (ed_to e) (ensure_value_index (ed_from e) st)"

definition join_indexed_value :: "abstract_value list \<Rightarrow> nat \<Rightarrow> nat \<Rightarrow> abstract_value list \<times> bool" where
  "join_indexed_value = join_indexed join_assign"

definition node_value :: "node \<Rightarrow> abstract_value" where
  "node_value n = fold (\<lambda>v joined. fst (join_assign joined v)) (map snd (nd_attributes n)) default_value"

definition propagating_kinds :: "edge_kind list" where
  "propagating_kinds = [EkData, EkRead, EkWrite, EkPersist]"

definition propagating_edges :: "program \<Rightarrow> edge list" where
  "propagating_edges g =
     sort_key (\<lambda>e. (ed_from e, ed_to e, ed_kind e)) (filter (\<lambda>e. ed_kind e \<in> set propagating_kinds) (pg_edges g))"

definition node_indices :: "program \<Rightarrow> (node_id, nat) bmap" where
  "node_indices g = bmap_from (map (\<lambda>(k, n). (nd_id n, k)) (enumerate 0 (pg_nodes g)))"

definition value_table :: "program \<Rightarrow> (node_id, nat) bmap \<times> abstract_value list" where
  "value_table g =
     fold ensure_edge (propagating_edges g)
       (node_indices g, map node_value (pg_nodes g))"

definition index_at :: "(node_id, nat) bmap \<Rightarrow> node_id \<Rightarrow> nat" where
  "index_at indices i = the (bmap_get indices i)"

definition outgoing_indices :: "(node_id, nat) bmap \<Rightarrow> nat \<Rightarrow> edge list \<Rightarrow> nat list list" where
  "outgoing_indices indices n es =
     fold (\<lambda>e out. let s = index_at indices (ed_from e) in out[s := out ! s @ [index_at indices (ed_to e)]])
       es (replicate n [])"

definition initial_work :: "(node_id, nat) bmap \<Rightarrow> abstract_value list \<Rightarrow> node list \<Rightarrow> abstract_value work" where
  "initial_work indices vals ns =
     (let queue = map (\<lambda>n. index_at indices (nd_id n)) ns in
      (queue, fold (\<lambda>i queued. queued[i := True]) queue (replicate (length vals) False), vals))"

definition solve :: "nat \<Rightarrow> program \<Rightarrow> dataflow option" where
  "solve fuel g =
     (case value_table g of (indices, vals) \<Rightarrow>
        map_option (\<lambda>vs. \<lparr>df_node_indices = indices, df_values = vs, df_complete = True\<rparr>)
          (flow_loop fuel join_assign (outgoing_indices indices (length vals) (propagating_edges g))
             (initial_work indices vals (pg_nodes g))))"

text \<open>\<^verbatim>\<open>Dataflow::at\<close>; the \<^verbatim>\<open>expect\<close> cannot fail for a node of the graph (\<open>value_table_nodes\<close>).\<close>

definition dataflow_at :: "dataflow \<Rightarrow> node \<Rightarrow> abstract_value" where
  "dataflow_at df n = df_values df ! index_at (df_node_indices df) (nd_id n)"

section \<open>Trust and secrecy accumulate\<close>

lemma join_assign_bottom:
  "av_value x = VBottom \<Longrightarrow> fst (join_assign x y) = y"
  "av_value x \<noteq> VBottom \<Longrightarrow> av_value y = VBottom \<Longrightarrow> fst (join_assign x y) = x"
  by (subst join_assign.simps; simp)+

lemma abstract_in_bottom: "abstract_in u x \<Longrightarrow> av_value x = VBottom \<Longrightarrow> x = default_value"
  by (auto simp: abstract_in_def)

lemma default_flags [simp]: "\<not> is_untrusted default_value" "\<not> is_secret default_value"
  by (simp_all add: default_value_def is_untrusted_def is_secret_def)

interpretation untrusted_flow: accumulating_join join_assign "abstract_in u" "abstract_rank u" is_untrusted for u
proof
  fix x y
  assume ok: "abstract_in u x" "abstract_in u y"
  have "is_untrusted (fst (join_assign x y)) \<longleftrightarrow> is_untrusted x \<or> is_untrusted y"
    if "av_value x \<noteq> VBottom" "av_value y \<noteq> VBottom"
    using that by (cases "av_trust x"; cases "av_trust y")
      (simp_all add: join_assign_step Let_def is_untrusted_def join_trust_assign_def case_prod_unfold)
  with ok abstract_in_bottom show "is_untrusted (fst (join_assign x y)) \<longleftrightarrow> is_untrusted x \<or> is_untrusted y"
    by (metis join_assign_bottom default_flags(1))
qed

interpretation secret_flow: accumulating_join join_assign "abstract_in u" "abstract_rank u" is_secret for u
proof
  fix x y
  assume ok: "abstract_in u x" "abstract_in u y"
  have "is_secret (fst (join_assign x y)) \<longleftrightarrow> is_secret x \<or> is_secret y"
    if "av_value x \<noteq> VBottom" "av_value y \<noteq> VBottom"
    using that by (cases "av_secrecy x"; cases "av_secrecy y")
      (simp_all add: join_assign_step Let_def is_secret_def join_secrecy_assign_def case_prod_unfold)
  with ok abstract_in_bottom show "is_secret (fst (join_assign x y)) \<longleftrightarrow> is_secret x \<or> is_secret y"
    by (metis join_assign_bottom default_flags(2))
qed

section \<open>The table of values\<close>

definition indices_ok :: "(node_id, nat) bmap \<times> abstract_value list \<Rightarrow> bool" where
  "indices_ok st \<longleftrightarrow> bmap_ok (fst st) \<and> ran (bmap_get (fst st)) \<subseteq> {..<length (snd st)}
     \<and> inj_on (bmap_get (fst st)) (dom (bmap_get (fst st)))"

definition extends ::
  "(node_id, nat) bmap \<times> abstract_value list \<Rightarrow> (node_id, nat) bmap \<times> abstract_value list \<Rightarrow> nat \<Rightarrow> bool" where
  "extends st st' k \<longleftrightarrow> indices_ok st' \<and> bmap_get (fst st) \<subseteq>\<^sub>m bmap_get (fst st')
     \<and> (\<exists>j \<le> k. snd st' = snd st @ replicate j default_value)"

lemma extends_trans: "extends a b j \<Longrightarrow> extends b c k \<Longrightarrow> extends a c (j + k)"
  unfolding extends_def by (auto intro: map_le_trans add_mono simp flip: replicate_add)

lemma ensure_extends:
  assumes "indices_ok st"
  shows "extends st (ensure_value_index i st) 1 \<and> i \<in> dom (bmap_get (fst (ensure_value_index i st)))"
proof (cases "bmap_get (fst st) i")
  case None
  obtain m vs where st: "st = (m, vs)" by (cases st)
  have m: "bmap_ok m" "ran (bmap_get m) \<subseteq> {..<length vs}" "inj_on (bmap_get m) (dom (bmap_get m))"
    using assms by (auto simp: indices_ok_def st)
  have get: "bmap_get (bmap_insert i (length vs) m) = (bmap_get m)(i \<mapsto> length vs)"
    by (rule ext) (simp add: bmap_get_insert [OF m(1)])
  have "bmap_get m x \<noteq> Some (length vs)" for x
    using m(2) by (auto dest: ranI)
  then have "inj_on ((bmap_get m)(i \<mapsto> length vs)) (insert i (dom (bmap_get m)))"
    using m(3) None st by (auto simp: inj_on_def)
  moreover have "ran ((bmap_get m)(i \<mapsto> length vs)) \<subseteq> {..<Suc (length vs)}"
    using m(2) None st by (auto simp: less_Suc_eq)
  ultimately show ?thesis
    using None m(1) unfolding extends_def indices_ok_def st ensure_value_index_def
    by (auto simp: get bmap_ok_insert map_le_def intro!: exI [of _ 1])
qed (use assms in \<open>cases st; auto simp: extends_def ensure_value_index_def\<close>)

lemma extends_dom: "extends a b k \<Longrightarrow> dom (bmap_get (fst a)) \<subseteq> dom (bmap_get (fst b))"
  by (auto simp: extends_def map_le_implies_dom_le dest: map_le_implies_dom_le)

lemma ensure_all:
  assumes "indices_ok st"
  shows "extends st (fold ensure_edge es st) (2 * length es)
    \<and> (\<forall>e \<in> set es. {ed_from e, ed_to e} \<subseteq> dom (bmap_get (fst (fold ensure_edge es st))))"
  using assms
proof (induction es arbitrary: st)
  case Nil
  then show ?case by (auto simp: extends_def)
next
  case (Cons e es)
  let ?a = "ensure_value_index (ed_from e) st" let ?b = "ensure_value_index (ed_to e) ?a"
  have a: "extends st ?a 1" "ed_from e \<in> dom (bmap_get (fst ?a))" using ensure_extends [OF Cons.prems] by auto
  then have "indices_ok ?a" by (simp add: extends_def)
  then have b: "extends ?a ?b 1" "ed_to e \<in> dom (bmap_get (fst ?b))" using ensure_extends [of ?a "ed_to e"] by auto
  then have "indices_ok ?b" by (simp add: extends_def)
  note rest = Cons.IH [OF this]
  have step: "fold ensure_edge (e # es) st = fold ensure_edge es ?b" "2 * length (e # es) = 1 + 1 + 2 * length es" by (simp_all add: ensure_edge_def)
  have "extends st (fold ensure_edge (e # es) st) (2 * length (e # es))"
    unfolding step using rest by (intro extends_trans [OF extends_trans [OF a(1) b(1)]]) blast
  moreover have "{ed_from e, ed_to e} \<subseteq> dom (bmap_get (fst (fold ensure_edge (e # es) st)))"
    unfolding step using a(2) b(2) extends_dom [OF b(1)] extends_dom [OF conjunct1 [OF rest]] by blast
  ultimately show ?case using rest unfolding step by simp
qed

lemma node_index_list:
  assumes "distinct (map nd_id ns)"
  shows "bmap_get (bmap_from (map (\<lambda>(k, n). (nd_id n, k)) (enumerate 0 ns))) i = Some k
    \<longleftrightarrow> k < length ns \<and> nd_id (ns ! k) = i"
proof -
  let ?xs = "map (\<lambda>(k, n). (nd_id n, k)) (enumerate 0 ns)"
  have "map fst ?xs = map nd_id ns"
    by (rule nth_equalityI) (simp_all add: nth_enumerate_eq)
  then have "distinct (map fst (rev ?xs))" using assms by (simp flip: rev_map)
  then have "map_of (rev ?xs) i = Some k \<longleftrightarrow> (i, k) \<in> set ?xs"
    by (simp add: map_of_eq_Some_iff)
  also have "\<dots> \<longleftrightarrow> k < length ns \<and> nd_id (ns ! k) = i"
    by (auto simp: in_set_enumerate_eq image_iff split_beta intro!: bexI [of _ "(k, ns ! k)"])
  finally show ?thesis by (simp add: bmap_get_from)
qed

lemma value_table_ok:
  assumes "distinct (map nd_id (pg_nodes g))" "value_table g = (indices, vals)"
  shows "indices_ok (indices, vals)"
    and "\<exists>j \<le> 2 * length (pg_edges g). vals = map node_value (pg_nodes g) @ replicate j default_value"
    and "k < length (pg_nodes g) \<Longrightarrow> bmap_get indices (nd_id (pg_nodes g ! k)) = Some k"
    and "e \<in> set (propagating_edges g) \<Longrightarrow> {ed_from e, ed_to e} \<subseteq> dom (bmap_get indices)"
proof -
  let ?st = "(node_indices g, map node_value (pg_nodes g))"
  note idx = node_index_list [OF assms(1), folded node_indices_def]
  have ok: "indices_ok ?st"
    by (auto simp: indices_ok_def node_indices_def inj_on_def ran_def idx [unfolded node_indices_def])
      (metis idx node_indices_def)
  have len: "length (propagating_edges g) \<le> length (pg_edges g)" by (simp add: propagating_edges_def)
  have ext: "extends ?st (indices, vals) (2 * length (propagating_edges g))"
    "\<forall>e \<in> set (propagating_edges g). {ed_from e, ed_to e} \<subseteq> dom (bmap_get indices)"
    using ensure_all [OF ok, of "propagating_edges g"] assms(2) by (simp_all add: value_table_def)
  show "indices_ok (indices, vals)" using ext(1) by (simp add: extends_def)
  show "\<exists>j \<le> 2 * length (pg_edges g). vals = map node_value (pg_nodes g) @ replicate j default_value"
    using ext(1) len by (auto simp: extends_def)
  show "bmap_get indices (nd_id (pg_nodes g ! k)) = Some k" if "k < length (pg_nodes g)"
    using ext(1) that idx [of "nd_id (pg_nodes g ! k)" k] by (auto simp: extends_def map_le_def dom_def)
  show "e \<in> set (propagating_edges g) \<Longrightarrow> {ed_from e, ed_to e} \<subseteq> dom (bmap_get indices)"
    using ext(2) by blast
qed

lemma outgoing_fold:
  assumes "\<And>e. e \<in> set es \<Longrightarrow> index_at m (ed_from e) < length out"
  defines "f \<equiv> \<lambda>e out. let s = index_at m (ed_from e) in out[s := out ! s @ [index_at m (ed_to e)]]"
  shows "length (fold f es out) = length out \<and>
    (\<forall>s < length out. set (fold f es out ! s) = set (out ! s) \<union> {index_at m (ed_to e) |e. e \<in> set es \<and> index_at m (ed_from e) = s})"
  using assms(1)
proof (induction es arbitrary: out)
  case (Cons e es)
  have "length (f e out) = length out" by (simp add: f_def Let_def)
  moreover have "set (f e out ! s) = set (out ! s) \<union> (if index_at m (ed_from e) = s then {index_at m (ed_to e)} else {})"
    if "s < length out" for s
    using that by (auto simp: f_def Let_def nth_list_update)
  ultimately show ?case using Cons.IH [of "f e out"] Cons.prems by auto
qed simp

lemma queued_fold:
  "length (fold (\<lambda>i queued. queued[i := True]) qs bs) = length bs
   \<and> (i < length bs \<longrightarrow> fold (\<lambda>i queued. queued[i := True]) qs bs ! i \<longrightarrow> bs ! i \<or> i \<in> set qs)"
proof (induction qs arbitrary: bs)
  case (Cons a qs)
  from Cons [of "bs[a := True]"] show ?case by (cases "i = a") auto
qed simp

section \<open>The dataflow is exact\<close>

definition dataflow_ok :: "value_universe \<Rightarrow> program \<Rightarrow> bool" where
  "dataflow_ok u g \<longleftrightarrow> distinct (map nd_id (pg_nodes g))
     \<and> (\<forall>n \<in> set (pg_nodes g). \<forall>v \<in> snd ` set (nd_attributes n). abstract_in u v)"

definition dataflow_fuel :: "value_universe \<Rightarrow> program \<Rightarrow> nat" where
  "dataflow_fuel u g =
     (length (pg_nodes g) + 2 * length (pg_edges g)) * Suc (abstract_bound u) + length (pg_nodes g) + 1"

text \<open>The nodes a property of initial values spreads from.\<close>

definition flows_from :: "(abstract_value \<Rightarrow> bool) \<Rightarrow> program \<Rightarrow> node \<Rightarrow> bool" where
  "flows_from h g n \<longleftrightarrow> (\<exists>m \<in> set (pg_nodes g). (\<exists>v \<in> snd ` set (nd_attributes m). h v)
     \<and> (nd_id m, nd_id n) \<in> (kind_relation propagating_kinds g)\<^sup>*)"

lemma rank_bound: "abstract_in u v \<Longrightarrow> abstract_rank u v \<le> Suc (abstract_bound u)"
  using parts_rank_bound [of u v] by (auto simp: abstract_rank_def abstract_in_def default_value_def)

lemma sum_list_bounded: "\<forall>v \<in> set vs. f v \<le> (b :: nat) \<Longrightarrow> sum_list (map f vs) \<le> length vs * b"
  by (induction vs) auto

lemma default_in [simp]: "abstract_in u default_value"
  by (simp add: abstract_in_def)

lemma rtrancl_inj_image:
  assumes "inj_on f D" "r \<subseteq> D \<times> D" "a \<in> D" "b \<in> D"
  shows "(f a, f b) \<in> (map_prod f f ` r)\<^sup>* \<longleftrightarrow> (a, b) \<in> r\<^sup>*"
proof
  have "\<exists>y \<in> D. z = f y \<and> (a, y) \<in> r\<^sup>*" if "(f a, z) \<in> (map_prod f f ` r)\<^sup>*" for z
    using that
  proof (induction rule: rtrancl_induct)
    case (step y z)
    from step.IH obtain x where "x \<in> D" "y = f x" "(a, x) \<in> r\<^sup>*" by blast
    moreover from step.hyps(2) obtain c d where "(c, d) \<in> r" "y = f c" "z = f d" by auto
    moreover from calculation have "x = c" using assms(1,2) by (auto dest: inj_onD)
    ultimately show ?case using assms(2) by (auto intro: rtrancl_into_rtrancl)
  qed (use assms(3) in auto)
  then show "(f a, f b) \<in> (map_prod f f ` r)\<^sup>* \<Longrightarrow> (a, b) \<in> r\<^sup>*"
    using assms(1,4) by (metis inj_onD)
  show "(f a, f b) \<in> (map_prod f f ` r)\<^sup>*" if "(a, b) \<in> r\<^sup>*"
    using that by (induction rule: rtrancl_induct) (auto intro: rtrancl_into_rtrancl rev_image_eqI)
qed

context accumulating_join
begin

lemma fold_join:
  "ok x \<Longrightarrow> \<forall>v \<in> set vs. ok v \<Longrightarrow> ok (fold (\<lambda>v joined. fst (join joined v)) vs x)
     \<and> (h (fold (\<lambda>v joined. fst (join joined v)) vs x) \<longleftrightarrow> h x \<or> (\<exists>v \<in> set vs. h v))"
  by (induction vs arbitrary: x) (auto simp: join_ok accumulate)

end

lemma solve_flows:
  assumes acc: "accumulating_join join_assign (abstract_in u) (abstract_rank u) h" and h: "\<not> h default_value"
    and ok: "dataflow_ok u g" and fuel: "dataflow_fuel u g \<le> fuel"
  shows "\<exists>df. solve fuel g = Some df \<and> (\<forall>n \<in> set (pg_nodes g). h (dataflow_at df n) \<longleftrightarrow> flows_from h g n)"
proof -
  let ?ns = "pg_nodes g" and ?es = "propagating_edges g" and ?r = "kind_relation propagating_kinds g"
  obtain indices vals where t: "value_table g = (indices, vals)" by force
  have d: "distinct (map nd_id ?ns)" using ok by (simp add: dataflow_ok_def)
  note table = value_table_ok [OF d t]
  let ?n = "length vals" and ?D = "dom (bmap_get indices)" and ?f = "index_at indices"
  obtain j where j: "j \<le> 2 * length (pg_edges g)" "vals = map node_value ?ns @ replicate j default_value"
    using table(2) by blast
  have node: "?f (nd_id (?ns ! k)) = k" "nd_id (?ns ! k) \<in> ?D" if "k < length ?ns" for k
    using table(3) [OF that] by (auto simp: index_at_def)
  have inj: "inj_on ?f ?D"
    using table(1) unfolding indices_ok_def index_at_def inj_on_def by (auto, metis domIff option.expand option.discI)
  have "?f i < ?n" if "i \<in> ?D" for i
    using table(1) that unfolding indices_ok_def index_at_def by (auto simp: ran_def)
  note f = inj this
  have val: "abstract_in u (node_value n) \<and> (h (node_value n) \<longleftrightarrow> (\<exists>v \<in> snd ` set (nd_attributes n). h v))"
    if "n \<in> set ?ns" for n
    using accumulating_join.fold_join [OF acc, of default_value "map snd (nd_attributes n)"] ok that h
    by (simp add: node_value_def dataflow_ok_def)
  let ?out = "outgoing_indices indices ?n ?es" and ?st = "initial_work indices vals ?ns"
  have ends: "ed_from e \<in> ?D" "ed_to e \<in> ?D" if "e \<in> set ?es" for e using table(4) [OF that] by auto
  have out: "length ?out = ?n"
    "\<And>s. s < ?n \<Longrightarrow> set (?out ! s) = {?f (ed_to e) |e. e \<in> set ?es \<and> ?f (ed_from e) = s}"
    using outgoing_fold [of ?es indices "replicate ?n []"] ends f(2) by (simp_all add: outgoing_indices_def)
  have r: "?r = {(ed_from e, ed_to e) |e. e \<in> set ?es}"
    by (auto simp: kind_relation_def edge_relation_def propagating_edges_def)
  have edges: "index_edges ?out = map_prod ?f ?f ` ?r"
  proof -
    have "index_edges ?out = (\<lambda>e. (?f (ed_from e), ?f (ed_to e))) ` set ?es"
      using ends f(2) out by (auto simp: index_edges_def)
    then show ?thesis unfolding r Setcompr_eq_image by (simp add: image_image)
  qed
  have rD: "?r \<subseteq> ?D \<times> ?D" unfolding r using ends by auto
  have targets: "set (?out ! s) \<subseteq> {..<?n}" if "s < ?n" for s
    using out(2) [OF that] ends f(2) by auto
  let ?queue = "map (\<lambda>n. ?f (nd_id n)) ?ns" 
  obtain queued where st: "?st = (?queue, queued, vals)"
      "queued = fold (\<lambda>i queued. queued[i := True]) ?queue (replicate ?n False)"
    by (simp add: initial_work_def Let_def)
  have queue: "set ?queue = {..<length ?ns}"
    using node(1) by (force simp: in_set_conv_nth image_iff)
  have "length queued = ?n" "\<And>i. i < ?n \<Longrightarrow> queued ! i \<Longrightarrow> i \<in> set ?queue"
    using queued_fold [where qs = ?queue and bs = "replicate ?n False"] unfolding st(2) by auto
  then have work: "work_ok (abstract_in u) ?n ?st"
    unfolding work_ok_def st(1) prod.case queue using val j(2) by (auto simp: work_ok_def)
  have "sum_list (map (abstract_rank u) vals) \<le> ?n * Suc (abstract_bound u)"
    using work unfolding work_ok_def st(1)
    by (intro sum_list_bounded) (auto intro: rank_bound)
  also have "\<dots> \<le> (length ?ns + 2 * length (pg_edges g)) * Suc (abstract_bound u)"
    by (rule mult_le_mono1) (use j in simp)
  finally have "work_measure (abstract_rank u) ?st < fuel"
    unfolding work_measure_def st(1) using fuel by (simp add: dataflow_fuel_def)
  then obtain vs where vs: "flow_loop fuel join_assign ?out ?st = Some vs" "length vs = ?n"
    using flagged_join.flow_loop_total [OF abstract_join.flagged_join_axioms work _ targets] by blast
  have "settled h (index_edges ?out) ?st"
    unfolding settled_def st(1) prod.case queue using h j(2) out(1) by (auto simp: index_edges_def nth_append)
  moreover have "accumulating_join.traced h (index_edges ?out) vals vals"
    unfolding accumulating_join.traced_def [OF acc] by auto
  ultimately have flow: "h (vs ! i) \<longleftrightarrow> (\<exists>k < ?n. h (vals ! k) \<and> (k, i) \<in> (index_edges ?out)\<^sup>*)" if "i < ?n" for i
    using accumulating_join.flow_loop_traces [OF acc work _ _ out(1) targets vs(1) that] st(1) by simp
  let ?df = "\<lparr>df_node_indices = indices, df_values = vs, df_complete = True\<rparr>"
  have "h (dataflow_at ?df n) \<longleftrightarrow> flows_from h g n" if n: "n \<in> set ?ns" for n
  proof -
    obtain i where i: "i < length ?ns" "?ns ! i = n" using n by (auto simp: in_set_conv_nth)
    have "h (vals ! k) \<longleftrightarrow> k < length ?ns \<and> (\<exists>v \<in> snd ` set (nd_attributes (?ns ! k)). h v)" if "k < ?n" for k
      using that j(2) h val [of "?ns ! k"] by (auto simp: nth_append)
    moreover have "length ?ns \<le> ?n" using j(2) by simp
    ultimately have "h (vs ! i) \<longleftrightarrow> (\<exists>k < length ?ns. (\<exists>v \<in> snd ` set (nd_attributes (?ns ! k)). h v)
        \<and> (k, i) \<in> (index_edges ?out)\<^sup>*)"
      using flow [of i] i(1) by (meson less_le_trans)
    moreover have "(k, i) \<in> (index_edges ?out)\<^sup>* \<longleftrightarrow> (nd_id (?ns ! k), nd_id n) \<in> ?r\<^sup>*" if "k < length ?ns" for k
      using rtrancl_inj_image [OF f(1) rD node(2) [OF that] node(2) [OF i(1)]] node(1) [OF that] node(1) [OF i(1)] i(2)
      unfolding edges by simp
    moreover have "dataflow_at ?df n = vs ! i" using node [OF i(1)] i(2) by (simp add: dataflow_at_def)
    ultimately have "h (dataflow_at ?df n) \<longleftrightarrow> (\<exists>k < length ?ns. (\<exists>v \<in> snd ` set (nd_attributes (?ns ! k)). h v)
        \<and> (nd_id (?ns ! k), nd_id n) \<in> ?r\<^sup>*)"
      by auto
    then show ?thesis unfolding flows_from_def set_conv_nth [of ?ns] by blast
  qed
  moreover have "solve fuel g = Some ?df" by (simp add: solve_def t vs(1))
  ultimately show ?thesis by blast
qed

text \<open>
  C1. The taint analysis is exact and stops: with the fuel passed, a node is untrusted in the solution
  exactly when some node with an untrusted attribute leads to it over data, read, write and persist
  edges.
\<close>

theorem untrusted_dataflow_exact:
  assumes "dataflow_ok u g" "dataflow_fuel u g \<le> fuel"
  shows "\<exists>df. solve fuel g = Some df
    \<and> (\<forall>n \<in> set (pg_nodes g). is_untrusted (dataflow_at df n) \<longleftrightarrow> flows_from is_untrusted g n)"
  using assms untrusted_flow.accumulating_join_axioms by (intro solve_flows) simp_all

text \<open>
  The same for secrecy: a node carries a secret exactly when a node with a secret attribute leads
  to it.
\<close>

theorem secret_dataflow_exact:
  assumes "dataflow_ok u g" "dataflow_fuel u g \<le> fuel"
  shows "\<exists>df. solve fuel g = Some df
    \<and> (\<forall>n \<in> set (pg_nodes g). is_secret (dataflow_at df n) \<longleftrightarrow> flows_from is_secret g n)"
  using assms secret_flow.accumulating_join_axioms by (intro solve_flows) simp_all

section \<open>Two small programs\<close>

definition taint_universe :: value_universe where
  "taint_universe = \<lparr>vu_reasons = [], vu_provenance = [], vu_length = 8\<rparr>"

definition taint_program :: program where
  "taint_program =
     add_edge (edge_simple EkData 1 2)
       (add_node (node_simple 2 PrGithub NkCommand ''run'' PhRun default_span)
         (add_node (node_simple 1 PrGithub NkResource ''title'' PhRun default_span
             \<lparr>nd_attributes := [(''value'', string_constant ''x'' Untrusted Secret [])]\<rparr>)
           (program_empty PrGithub ''ci.yml'')))"

lemma taint_program_ok: "dataflow_ok taint_universe taint_program"
  by (simp add: dataflow_ok_def taint_program_def add_node_def add_edge_def program_empty_def edge_simple_def
      edge_new_def node_simple_def node_new_def taint_universe_def abstract_in_def string_constant_def value_in_def
      string_in_def trust_in_def secrecy_in_def subset_ok_def)

lemma taint_program_flows: "n \<in> set (pg_nodes taint_program) \<Longrightarrow>
  (\<And>t s p. h (string_constant ''x'' Untrusted Secret [])) \<Longrightarrow> flows_from h taint_program n"
proof -
  have "(1, 2) \<in> kind_relation propagating_kinds taint_program"
    by (auto simp: kind_relation_def edge_relation_image propagating_kinds_def taint_program_def add_node_def add_edge_def
        program_empty_def edge_simple_def edge_new_def)
  then have "(1, 2) \<in> (kind_relation propagating_kinds taint_program)\<^sup>*" by auto
  then show "n \<in> set (pg_nodes taint_program) \<Longrightarrow>
      (\<And>t s p. h (string_constant ''x'' Untrusted Secret [])) \<Longrightarrow> flows_from h taint_program n"
    by (auto simp: flows_from_def taint_program_def add_node_def add_edge_def program_empty_def node_simple_def node_new_def)
qed

lemma untrusted_dataflow_exact_witness:
  "\<exists>df. solve (dataflow_fuel taint_universe taint_program) taint_program = Some df
    \<and> (\<forall>n \<in> set (pg_nodes taint_program). is_untrusted (dataflow_at df n))"
  using untrusted_dataflow_exact [OF taint_program_ok order_refl] taint_program_flows [of _ is_untrusted]
  by (auto simp: is_untrusted_def string_constant_def)

lemma secret_dataflow_exact_witness:
  "\<exists>df. solve (dataflow_fuel taint_universe taint_program) taint_program = Some df
    \<and> (\<forall>n \<in> set (pg_nodes taint_program). is_secret (dataflow_at df n))"
  using secret_dataflow_exact [OF taint_program_ok order_refl] taint_program_flows [of _ is_secret]
  by (auto simp: is_secret_def string_constant_def)

text \<open>
  A join with a target whose value is bottom replaces the target whole, so two bottom values that
  differ in trust and secrecy chase each other around a cycle of edges.
\<close>

definition chasing_node :: "node_id \<Rightarrow> abstract_value option \<Rightarrow> node" where
  "chasing_node i v = node_simple i PrGithub NkResource ''r'' PhRun default_span
     \<lparr>nd_attributes := (case v of None \<Rightarrow> [] | Some x \<Rightarrow> [(''value'', x)])\<rparr>"

definition chasing_program :: program where
  "chasing_program =
     fold add_edge [edge_simple EkData 0 2, edge_simple EkData 2 1, edge_simple EkData 1 3, edge_simple EkData 3 0]
       (fold add_node
         [chasing_node 0 (Some (AV TyNever VBottom Untrusted Public [])),
          chasing_node 1 (Some (AV TyNever VBottom Trusted Secret [])),
          chasing_node 2 None, chasing_node 3 None] (program_empty PrGithub ''ci.yml''))"

abbreviation "chased \<equiv> AV TyNever VBottom Untrusted Public []"
abbreviation "chaser \<equiv> AV TyNever VBottom Trusted Secret []"

lemma join_bottoms: "join_assign (AV a VBottom t s p) y = (y, y \<noteq> AV a VBottom t s p)"
  by (subst join_assign.simps) auto

definition chasing_edges :: "nat list list" where "chasing_edges = [[2], [3], [1], [0]]"

lemma flow_loop_Suc:
  "flow_loop (Suc n) join outgoing (src # queue, queued, vals) =
     flow_loop n join outgoing (flow_targets join src (outgoing ! src) (queue, queued[src := False], vals))"
  by simp

lemmas chase_simps = flow_loop_Suc chasing_edges_def join_indexed_def join_bottoms

lemma four_or_more: "n < 4 \<or> (\<exists>m. n = Suc (Suc (Suc (Suc m))))"
  by presburger

lemma chase_round:
  "flow_loop (Suc (Suc (Suc (Suc n)))) join_assign chasing_edges ([1, 0], [True, True, False, False], [chaser, chased, chased, chaser])
   = flow_loop n join_assign chasing_edges ([0, 1], [True, True, False, False], [chased, chaser, chaser, chased])"
  "flow_loop (Suc (Suc (Suc (Suc n)))) join_assign chasing_edges ([0, 1], [True, True, False, False], [chased, chaser, chaser, chased])
   = flow_loop n join_assign chasing_edges ([1, 0], [True, True, False, False], [chaser, chased, chased, chaser])"
  by (simp_all add: chase_simps del: flow_loop.simps)

lemma chase_forever:
  "flow_loop n join_assign chasing_edges ([1, 0], [True, True, False, False], [chaser, chased, chased, chaser]) = None
   \<and> flow_loop n join_assign chasing_edges ([0, 1], [True, True, False, False], [chased, chaser, chaser, chased]) = None"
proof (induction n rule: less_induct)
  case (less n)
  show ?case
  proof (cases "n < 4")
    case True
    then have "n = 0 \<or> n = 1 \<or> n = 2 \<or> n = 3" by auto
    then show ?thesis by (auto simp: chase_simps numeral_2_eq_2 numeral_3_eq_3)
  next
    case False
    then obtain m where "n = Suc (Suc (Suc (Suc m)))" using four_or_more by metis
    with less [of m] chase_round show ?thesis by simp
  qed
qed

text \<open>
  C37. In general the worklist need not stop: on four nodes in a ring of data edges, two of them with
  bottom values that differ in trust and secrecy, it runs forever.
\<close>

theorem solve_diverges: "solve fuel chasing_program = None"
proof -
  note prog = chasing_program_def chasing_node_def node_simple_def node_new_def program_empty_def add_node_def
    add_edge_def edge_simple_def edge_new_def
  have idx: "node_indices chasing_program = [(0, 0), (1, 1), (2, 2), (3, 3)]"
    by (simp add: node_indices_def prog bmap_from_def)
  have es: "propagating_edges chasing_program
      = [edge_simple EkData 0 2, edge_simple EkData 1 3, edge_simple EkData 2 1, edge_simple EkData 3 0]"
    by (simp add: propagating_edges_def prog propagating_kinds_def)
  have vals: "map node_value (pg_nodes chasing_program) = [chased, chaser, default_value, default_value]"
    by (simp add: prog node_value_def default_value_def join_bottoms)
  have table: "value_table chasing_program = ([(0, 0), (1, 1), (2, 2), (3, 3)], [chased, chaser, default_value, default_value])"
    by (simp add: value_table_def idx es vals ensure_edge_def ensure_value_index_def edge_simple_def edge_new_def)
  have out: "outgoing_indices [(0, 0), (1, 1), (2, 2), (3, 3)] 4 (propagating_edges chasing_program) = chasing_edges"
    by (simp add: outgoing_indices_def es index_at_def edge_simple_def edge_new_def chasing_edges_def eval_nat_numeral)
  have init: "initial_work [(0, 0), (1, 1), (2, 2), (3, 3)] [chased, chaser, default_value, default_value] (pg_nodes chasing_program)
      = ([0, 1, 2, 3], [True, True, True, True], [chased, chaser, default_value, default_value])"
    by (simp add: initial_work_def prog index_at_def eval_nat_numeral)
  have "flow_loop (Suc (Suc (Suc (Suc n)))) join_assign chasing_edges
      ([0, 1, 2, 3], [True, True, True, True], [chased, chaser, default_value, default_value]) = None" for n
    using chase_forever [of n] by (simp add: chase_simps default_value_def del: flow_loop.simps)
  moreover have "flow_loop n join_assign chasing_edges
      ([0, 1, 2, 3], [True, True, True, True], [chased, chaser, default_value, default_value]) = None" if "n < 4" for n
  proof -
    from that have "n = 0 \<or> n = 1 \<or> n = 2 \<or> n = 3" by auto
    then show ?thesis by (auto simp: chase_simps default_value_def numeral_2_eq_2 numeral_3_eq_3)
  qed
  ultimately have "flow_loop fuel join_assign chasing_edges
      ([0, 1, 2, 3], [True, True, True, True], [chased, chaser, default_value, default_value]) = None"
    using four_or_more [of fuel] by metis
  moreover have "length [chased, chaser, default_value, default_value] = 4" by simp
  ultimately show ?thesis by (simp only: solve_def table prod.case out init option.map)
qed

end
