(* ===== verification/Views.thy ===== *)
theory Views
  imports Ir
begin

text \<open>
  JSON views of spans, sources and abstract values (\<^verbatim>\<open>Span::to_json\<close> in \<^verbatim>\<open>src/foundation/span.rs\<close>,
  \<^verbatim>\<open>AbstractValue::to_json\<close> in \<^verbatim>\<open>src/domain/abstract_value.rs\<close>). An object built from a literal list of
  members is well-formed as soon as its members are, so its canonical text reads back.
\<close>

section \<open>Objects from literal members\<close>

definition json_object :: "(string \<times> json) list \<Rightarrow> json" where
  "json_object members = JObject (bmap_from members)"

text \<open>\<^verbatim>\<open>i64::try_from(n).unwrap_or(i64::MAX)\<close>.\<close>

definition json_count_int :: "nat \<Rightarrow> json" where
  "json_count_int n = JInteger (word_of_nat (min n 9223372036854775807))"

definition json_texts :: "string list \<Rightarrow> json" where
  "json_texts xs = JArray (map JString xs)"

definition json_option :: "('a \<Rightarrow> json) \<Rightarrow> 'a option \<Rightarrow> json" where
  "json_option f x = (case x of None \<Rightarrow> JNull | Some y \<Rightarrow> f y)"

named_theorems view_defs \<open>definitions of the JSON views\<close>

lemma set_bmap_insert: "set (bmap_insert k v m) \<subseteq> insert (k, v) (set m)"
  by (induction k v m rule: bmap_insert.induct) auto

lemma set_bmap_from: "set (bmap_from xs) \<subseteq> set xs"
proof -
  have "set (fold (\<lambda>(k, v). bmap_insert k v) xs m) \<subseteq> set m \<union> set xs" for m
  proof (induction xs arbitrary: m)
    case (Cons x xs)
    have "set (bmap_insert (fst x) (snd x) m) \<subseteq> insert x (set m)"
      using set_bmap_insert [of "fst x" "snd x" m] by simp
    moreover have "set (fold (\<lambda>(k, v). bmap_insert k v) xs (bmap_insert (fst x) (snd x) m))
        \<subseteq> set (bmap_insert (fst x) (snd x) m) \<union> set xs" by (rule Cons.IH)
    ultimately show ?case by (auto simp: case_prod_unfold)
  qed simp
  from this [of "[]"] show ?thesis by (simp add: bmap_from_def)
qed

lemma json_object_ok [simp]:
  "\<forall>(k, v) \<in> set members. utf8_valid k \<and> json_ok v \<Longrightarrow> json_ok (json_object members)"
  using set_bmap_from [of members] by (auto simp: json_object_def list_all_iff)

lemma json_simple_ok [simp]:
  "json_ok (json_count_int n)" "json_ok (json_texts xs) \<longleftrightarrow> list_all utf8_valid xs"
  "json_ok (json_option f x) \<longleftrightarrow> (case x of None \<Rightarrow> True | Some y \<Rightarrow> json_ok (f y))"
  by (simp_all add: json_count_int_def json_texts_def list_all_iff json_option_def split: option.split)

section \<open>Spans and sources\<close>

definition position_to_json :: "position \<Rightarrow> json" where
  "position_to_json p = json_object
     [(''byte'', json_count_int (pos_byte p)), (''column'', json_count_int (pos_column p)),
      (''line'', json_count_int (pos_line p))]"

definition span_to_json :: "span \<Rightarrow> json" where
  "span_to_json s = json_object
     [(''source'', json_count_int (sp_source s)), (''start'', position_to_json (sp_start s)),
      (''stop'', position_to_json (sp_stop s))]"

lemma span_json_ok [simp]: "json_ok (span_to_json s)"
  by (simp add: span_to_json_def position_to_json_def)

section \<open>Abstract values\<close>

definition reasons_to_json :: "unknown_reason list \<Rightarrow> json" where
  "reasons_to_json rs = JArray (map unknown_to_json rs)"

definition unknown_state_json :: "unknown_reason list \<Rightarrow> json" where
  "unknown_state_json rs = json_object [(''reasons'', reasons_to_json rs), (''state'', JString ''unknown'')]"

fun trust_to_json :: "trust \<Rightarrow> json" where
  "trust_to_json Trusted = JString ''trusted''"
| "trust_to_json TMixed = JString ''mixed''"
| "trust_to_json Untrusted = JString ''untrusted''"
| "trust_to_json (TUnknown rs) = unknown_state_json rs"

fun secrecy_to_json :: "secrecy \<Rightarrow> json" where
  "secrecy_to_json Public = JString ''public''"
| "secrecy_to_json Sensitive = JString ''sensitive''"
| "secrecy_to_json Secret = JString ''secret''"
| "secrecy_to_json (SUnknown rs) = unknown_state_json rs"

fun string_to_json :: "string_value \<Rightarrow> json" where
  "string_to_json SBottom = JString ''bottom''"
| "string_to_json (SConstants vs) = json_object [(''constants'', json_texts vs)]"
| "string_to_json (SAffix p s) = json_object [(''prefix'', json_option JString p), (''suffix'', json_option JString s)]"
| "string_to_json (SPattern v) = json_object [(''pattern'', JString v)]"
| "string_to_json STop = JString ''top''"

definition provenance_to_json :: "provenance \<Rightarrow> json" where
  "provenance_to_json p = json_object
     [(''operation'', JString (pv_operation p)), (''origin'', JString (pv_origin p)), (''span'', span_to_json (pv_span p))]"

primrec av_to_json :: "abstract_value \<Rightarrow> json"
and avalue_to_json :: "avalue \<Rightarrow> json" where
  "av_to_json (AV ty v t s p) = json_object
     [(''provenance'', JArray (map provenance_to_json p)), (''secrecy'', secrecy_to_json s), (''trust'', trust_to_json t),
      (''type'', JString (value_type_name ty)), (''value'', avalue_to_json v)]"
| "avalue_to_json VBottom = JString ''bottom''"
| "avalue_to_json VNull = JNull"
| "avalue_to_json (VBoolean b) = (case b of AFalse \<Rightarrow> JBoolean False | ATrue \<Rightarrow> JBoolean True | AMaybe \<Rightarrow> JString ''maybe'')"
| "avalue_to_json (VNumber lo hi) = json_object [(''maximum'', json_option JInteger hi), (''minimum'', json_option JInteger lo)]"
| "avalue_to_json (VString s) = string_to_json s"
| "avalue_to_json (VList vs) = (case map_option (map av_to_json) vs of None \<Rightarrow> JString ''list-top'' | Some xs \<Rightarrow> JArray xs)"
| "avalue_to_json (VObject fs) =
     (case map_option (map (map_prod id av_to_json)) fs of None \<Rightarrow> JString ''object-top'' | Some xs \<Rightarrow> json_object xs)"
| "avalue_to_json (VUnknown rs) = json_object [(''unknown'', reasons_to_json rs)]"

section \<open>Views are well-formed\<close>

text \<open>The texts in a value are valid UTF-8, as those of a Rust \<^verbatim>\<open>String\<close> always are.\<close>

definition reasons_text :: "unknown_reason list \<Rightarrow> bool" where
  "reasons_text rs \<longleftrightarrow> (\<forall>r \<in> set rs. utf8_valid (snd (kind_and_detail r)))"

definition string_text :: "string_value \<Rightarrow> bool" where
  "string_text s = (case s of
     SConstants vs \<Rightarrow> list_all utf8_valid vs
   | SAffix p q \<Rightarrow> pred_option utf8_valid p \<and> pred_option utf8_valid q
   | SPattern v \<Rightarrow> utf8_valid v | _ \<Rightarrow> True)"

primrec av_text :: "abstract_value \<Rightarrow> bool"
and avalue_text :: "avalue \<Rightarrow> bool" where
  "av_text (AV ty v t s p) \<longleftrightarrow> avalue_text v \<and> (case t of TUnknown rs \<Rightarrow> reasons_text rs | _ \<Rightarrow> True)
     \<and> (case s of SUnknown rs \<Rightarrow> reasons_text rs | _ \<Rightarrow> True)
     \<and> list_all (\<lambda>x. utf8_valid (pv_operation x) \<and> utf8_valid (pv_origin x)) p"
| "avalue_text VBottom \<longleftrightarrow> True"
| "avalue_text VNull \<longleftrightarrow> True"
| "avalue_text (VBoolean b) \<longleftrightarrow> True"
| "avalue_text (VNumber lo hi) \<longleftrightarrow> True"
| "avalue_text (VString s) \<longleftrightarrow> string_text s"
| "avalue_text (VList vs) \<longleftrightarrow> pred_option (list_all id) (map_option (map av_text) vs)"
| "avalue_text (VObject fs) \<longleftrightarrow>
     pred_option (list_all (\<lambda>(k, ok). utf8_valid k \<and> ok)) (map_option (map (map_prod id av_text)) fs)"
| "avalue_text (VUnknown rs) \<longleftrightarrow> reasons_text rs"

lemma unknown_json_ok: "json_ok (unknown_to_json r) \<longleftrightarrow> utf8_valid (snd (kind_and_detail r))"
proof -
  have "bmap_from [(''detail'', JString d), (''kind'', JString k)] = [(''detail'', JString d), (''kind'', JString k)]" for d k
    by (simp add: bmap_from_def less_char_def)
  moreover have "utf8_valid (fst (kind_and_detail r))" by (cases r) simp_all
  ultimately show ?thesis
    by (auto simp: unknown_to_json_def bmap_ok_def less_char_def split: prod.split)
qed

lemma reasons_json_ok: "reasons_text rs \<Longrightarrow> json_ok (reasons_to_json rs)"
  by (simp add: reasons_to_json_def reasons_text_def list_all_iff unknown_json_ok)

lemma unknown_state_ok: "reasons_text rs \<Longrightarrow> json_ok (unknown_state_json rs)"
  by (simp add: unknown_state_json_def reasons_json_ok)

lemma trust_json_ok: "(case t of TUnknown rs \<Rightarrow> reasons_text rs | _ \<Rightarrow> True) \<Longrightarrow> json_ok (trust_to_json t)"
  by (cases t) (simp_all add: unknown_state_ok)

lemma secrecy_json_ok: "(case t of SUnknown rs \<Rightarrow> reasons_text rs | _ \<Rightarrow> True) \<Longrightarrow> json_ok (secrecy_to_json t)"
  by (cases t) (simp_all add: unknown_state_ok)

lemma string_json_ok: "string_text s \<Longrightarrow> json_ok (string_to_json s)"
  by (cases s) (auto simp: string_text_def list_all_iff pred_option_def split: option.splits)

lemma value_type_name_ok [simp]: "utf8_valid (value_type_name ty)"
  by (cases ty) simp_all

lemma value_views_ok:
  "av_text x \<Longrightarrow> json_ok (av_to_json x)" "avalue_text v \<Longrightarrow> json_ok (avalue_to_json v)"
proof (induction x and v rule: abstract_value.induct avalue.induct)
  case (AV ty v t s p)
  then show ?case
    by (auto simp: list_all_iff trust_json_ok secrecy_json_ok provenance_to_json_def)
next
  case (VList vs)
  then show ?case by (auto simp: list_all_iff pred_option_def split: option.splits)
next
  case (VObject fs)
  then show ?case by (fastforce simp: list_all_iff pred_option_def split: option.splits intro!: json_object_ok)
qed (auto simp: string_json_ok reasons_json_ok json_option_def split: abstract_truth.split option.split)

text \<open>
  The JSON view of every abstract value is a well-formed document: texts are valid and the members of
  every object have unique, sorted keys, however deeply values are nested; so its canonical text
  within the parser's limits reads back as the same document.
\<close>

theorem av_to_json_reads_back:
  assumes "av_text x" "json_depth (av_to_json x) \<le> jl_max_depth lim" "json_count (av_to_json x) \<le> jl_max_values lim"
    "length (canonical_json (av_to_json x)) \<le> jl_max_bytes lim"
  shows "json_ok (av_to_json x) \<and> parse_with_limits (canonical_json (av_to_json x)) lim = Some (Inr (av_to_json x))"
  using value_views_ok(1) [OF assms(1)] json_reads_back [OF _ assms(2-4)] by blast

lemma av_to_json_reads_back_witness:
  "let x = AV TyList (VList (Some [AV TyNull VNull Trusted Public []])) Untrusted Secret [] in
   json_ok (av_to_json x) \<and> parse_with_limits (canonical_json (av_to_json x)) default_json_limits = Some (Inr (av_to_json x))"
proof -
  let ?x = "AV TyList (VList (Some [AV TyNull VNull Trusted Public []])) Untrusted Secret []"
  have "av_text ?x" by (simp add: list_all_iff pred_option_def)
  moreover have "json_depth (av_to_json ?x) \<le> 10" "json_count (av_to_json ?x) \<le> 20"
      "length (canonical_json (av_to_json ?x)) \<le> 1000"
    by (simp_all add: json_object_def bmap_from_def less_char_def write_string_def escape_byte_def short_escapes_def)
  ultimately show ?thesis
    unfolding Let_def by (intro av_to_json_reads_back) (simp_all add: default_json_limits_def)
qed

end
