(* ===== verification/Diagnostics.thy ===== *)
theory Diagnostics
  imports Views Digests
begin

text \<open>
  Diagnostics, properties and the result of a verification run (\<^verbatim>\<open>src/verifier/mod.rs\<close>, first
  part). The identifier of a diagnostic is a composite digest over its fields; \<open>H\<close> is the hash
  function. \<open>diagnostic_identity\<close> shows that it identifies the diagnostic up to collisions of \<open>H\<close> and
  the node identifiers of its trace; \<open>combine\<close> computes the join of property states.
\<close>

datatype severity = Critical | SevError | Warning | Note

fun severity_name :: "severity \<Rightarrow> string" where
  "severity_name Critical = ''critical''"
| "severity_name SevError = ''error''"
| "severity_name Warning = ''warning''"
| "severity_name Note = ''note''"

datatype confidence = High | Medium | Low

fun confidence_name :: "confidence \<Rightarrow> string" where
  "confidence_name High = ''high''"
| "confidence_name Medium = ''medium''"
| "confidence_name Low = ''low''"

record trace_hop =
  th_node_id :: node_id
  th_label :: string
  th_span :: span

record fix_proposal =
  fx_kind :: string
  fx_description :: string
  fx_replacement :: "string option"
  fx_span :: "span option"

record diagnostic =
  dg_id :: string
  dg_rule_id :: string
  dg_severity :: severity
  dg_confidence :: confidence
  dg_message :: string
  dg_span :: span
  dg_trace :: "trace_hop list"
  dg_capabilities :: "capability list"
  dg_evidence :: "string list"
  dg_fix :: "fix_proposal option"

section \<open>Identity\<close>

text \<open>The fields a span, a hop and a fix contribute, in order.\<close>

definition span_identity :: "span \<Rightarrow> string list" where
  "span_identity s =
     [be_bytes 4 (sp_source s),
      be_bytes 8 (pos_byte (sp_start s)), be_bytes 4 (pos_line (sp_start s)), be_bytes 4 (pos_column (sp_start s)),
      be_bytes 8 (pos_byte (sp_stop s)), be_bytes 4 (pos_line (sp_stop s)), be_bytes 4 (pos_column (sp_stop s))]"

definition hop_identity :: "trace_hop \<Rightarrow> string list" where
  "hop_identity hop = th_label hop # span_identity (th_span hop)"

definition fix_identity :: "fix_proposal option \<Rightarrow> string list" where
  "fix_identity fx =
     (case fx of
        None \<Rightarrow> [''fix:absent'']
      | Some fx \<Rightarrow>
          [''fix:present'', fx_kind fx, fx_description fx]
          @ (case fx_replacement fx of Some r \<Rightarrow> [''replacement:present'', r] | None \<Rightarrow> [''replacement:absent''])
          @ (case fx_span fx of Some s \<Rightarrow> ''span:present'' # span_identity s | None \<Rightarrow> [''span:absent'']))"

definition count_field :: "'a list \<Rightarrow> string" where
  "count_field xs = be_bytes 8 (min (length xs) u64_max)"

definition diagnostic_domain :: string where
  "diagnostic_domain = ''workflow-verifier/diagnostic/1''"

definition identity_fields ::
  "string \<Rightarrow> severity \<Rightarrow> confidence \<Rightarrow> string \<Rightarrow> span \<Rightarrow> trace_hop list \<Rightarrow> capability list \<Rightarrow> string list \<Rightarrow>
   fix_proposal option \<Rightarrow> string list" where
  "identity_fields rule sev conf msg sp hops caps evidence fx =
     [rule, severity_name sev, confidence_name conf, msg] @ span_identity sp
     @ [''trace'', count_field hops] @ concat (map hop_identity hops)
     @ [''capabilities'', count_field caps] @ map capability_name caps
     @ [''evidence'', count_field evidence] @ evidence @ fix_identity fx"

definition diagnostic_new ::
  "(string \<Rightarrow> string) \<Rightarrow> string \<Rightarrow> severity \<Rightarrow> confidence \<Rightarrow> string \<Rightarrow> span \<Rightarrow> trace_hop list \<Rightarrow>
   capability list \<Rightarrow> string list \<Rightarrow> fix_proposal option \<Rightarrow> diagnostic" where
  "diagnostic_new H rule sev conf msg sp hops caps evidence fx =
     (let caps = bset caps; evidence = bset evidence;
          identity = built diagnostic_domain (identity_fields rule sev conf msg sp hops caps evidence fx)
      in \<lparr>dg_id = ''diag_'' @ lowercase_hex (builder_finish H identity), dg_rule_id = rule, dg_severity = sev,
          dg_confidence = conf, dg_message = msg, dg_span = sp, dg_trace = hops, dg_capabilities = caps,
          dg_evidence = evidence, dg_fix = fx\<rparr>)"

text \<open>\<^verbatim>\<open>Ord for Diagnostic\<close>: by span, then rule, then identifier.\<close>

definition diagnostic_key :: "diagnostic \<Rightarrow> span \<times> string \<times> string" where
  "diagnostic_key d = (dg_span d, dg_rule_id d, dg_id d)"

section \<open>Views\<close>

definition hop_to_json :: "trace_hop \<Rightarrow> json" where
  "hop_to_json hop = json_object
     [(''label'', JString (th_label hop)), (''node_id'', json_count_int (th_node_id hop)), (''span'', span_to_json (th_span hop))]"

definition fix_to_json :: "fix_proposal \<Rightarrow> json" where
  "fix_to_json fx = json_object
     [(''description'', JString (fx_description fx)), (''kind'', JString (fx_kind fx)),
      (''replacement'', json_option JString (fx_replacement fx)), (''span'', json_option span_to_json (fx_span fx))]"

definition diagnostic_to_json :: "diagnostic \<Rightarrow> json" where
  "diagnostic_to_json d = json_object
     [(''capabilities'', json_texts (map capability_name (dg_capabilities d))),
      (''confidence'', JString (confidence_name (dg_confidence d))), (''evidence'', json_texts (dg_evidence d)),
      (''fix'', json_option fix_to_json (dg_fix d)), (''id'', JString (dg_id d)), (''message'', JString (dg_message d)),
      (''rule_id'', JString (dg_rule_id d)), (''severity'', JString (severity_name (dg_severity d))),
      (''span'', span_to_json (dg_span d)), (''trace'', JArray (map hop_to_json (dg_trace d)))]"

section \<open>Property states\<close>

datatype property_state = Proved | Violated | StUnknown "unknown_reason list" | NotApplicable

fun state_name :: "property_state \<Rightarrow> string" where
  "state_name Proved = ''Proved''"
| "state_name Violated = ''Violated''"
| "state_name (StUnknown _) = ''Unknown''"
| "state_name NotApplicable = ''NotApplicable''"

fun state_reasons :: "property_state \<Rightarrow> unknown_reason list" where
  "state_reasons (StUnknown rs) = rs"
| "state_reasons _ = []"

definition combine :: "property_state list \<Rightarrow> property_state" where
  "combine states =
     (if Violated \<in> set states then Violated
      else let unknowns = bset (concat (map state_reasons states)) in
        if unknowns \<noteq> [] then StUnknown unknowns
        else if Proved \<in> set states then Proved
        else NotApplicable)"

record property =
  pr_id :: string
  pr_state :: property_state
  pr_subject :: "string option"
  pr_explanation :: string

definition property_to_json :: "property \<Rightarrow> json" where
  "property_to_json p = json_object
     [(''explanation'', JString (pr_explanation p)), (''id'', JString (pr_id p)),
      (''reasons'', reasons_to_json (state_reasons (pr_state p))), (''state'', JString (state_name (pr_state p))),
      (''subject'', json_option JString (pr_subject p))]"

datatype persona = Gate | Audit | Paranoid

fun persona_name :: "persona \<Rightarrow> string" where
  "persona_name Gate = ''gate''"
| "persona_name Audit = ''audit''"
| "persona_name Paranoid = ''paranoid''"

record verification_result =
  vr_properties :: "property list"
  vr_diagnostics :: "diagnostic list"
  vr_complete :: bool
  vr_analyzed_nodes :: nat
  vr_analyzed_edges :: nat

definition result_to_json :: "verification_result \<Rightarrow> json" where
  "result_to_json r = json_object
     [(''analyzed_edges'', json_count_int (vr_analyzed_edges r)), (''analyzed_nodes'', json_count_int (vr_analyzed_nodes r)),
      (''complete'', JBoolean (vr_complete r)), (''diagnostics'', JArray (map diagnostic_to_json (vr_diagnostics r))),
      (''properties'', JArray (map property_to_json (vr_properties r)))]"

section \<open>States form a join semilattice\<close>

lemma combine_Violated: "combine states = Violated \<longleftrightarrow> Violated \<in> set states"
  by (simp add: combine_def Let_def)

lemma state_reasons_combine:
  "Violated \<notin> set states \<Longrightarrow> set (state_reasons (combine states)) = (\<Union>s \<in> set states. set (state_reasons s))"
  by (auto simp: combine_def Let_def simp flip: set_empty)

lemma combine_Proved:
  "combine states = Proved \<longleftrightarrow> Violated \<notin> set states \<and> (\<forall>s \<in> set states. state_reasons s = []) \<and> Proved \<in> set states"
  by (auto simp: combine_def Let_def)

lemma combine_eqI:
  assumes "Violated \<in> set xs \<longleftrightarrow> Violated \<in> set ys"
    "Violated \<notin> set xs \<Longrightarrow> (\<Union>s \<in> set xs. set (state_reasons s)) = (\<Union>s \<in> set ys. set (state_reasons s))"
    "Violated \<notin> set xs \<Longrightarrow> (\<forall>s \<in> set xs. state_reasons s = []) \<Longrightarrow> Proved \<in> set xs \<longleftrightarrow> Proved \<in> set ys"
  shows "combine xs = combine ys"
proof (cases "Violated \<in> set xs")
  case True
  with assms(1) show ?thesis by (simp add: combine_def)
next
  case False
  with assms(2) have u: "bset (concat (map state_reasons xs)) = bset (concat (map state_reasons ys))"
    by (simp add: bset_eq_iff)
  moreover have "bset (concat (map state_reasons xs)) = [] \<longleftrightarrow> (\<forall>s \<in> set xs. state_reasons s = [])" by auto
  ultimately show ?thesis using False assms(1,3) by (auto simp: combine_def Let_def)
qed

text \<open>
  Combining states is combining in any grouping and order, with repetitions allowed: a group may be
  replaced by its combination, and only the set of states matters.
\<close>

theorem combine_join:
  "combine (xs @ combine ys # zs) = combine (xs @ ys @ zs) \<and> (set xs = set ys \<longrightarrow> combine xs = combine ys)"
proof
  show "combine (xs @ combine ys # zs) = combine (xs @ ys @ zs)"
  proof (rule combine_eqI)
    show "Violated \<in> set (xs @ combine ys # zs) \<longleftrightarrow> Violated \<in> set (xs @ ys @ zs)"
      using combine_Violated [of ys] by auto
    assume v: "Violated \<notin> set (xs @ combine ys # zs)"
    then have ys: "Violated \<notin> set ys" using combine_Violated [of ys] by auto
    show "(\<Union>s \<in> set (xs @ combine ys # zs). set (state_reasons s)) = (\<Union>s \<in> set (xs @ ys @ zs). set (state_reasons s))"
      using state_reasons_combine [OF ys] by auto
    assume "\<forall>s \<in> set (xs @ combine ys # zs). state_reasons s = []"
    then have "state_reasons (combine ys) = []" by simp
    then have "\<forall>s \<in> set ys. state_reasons s = []" using state_reasons_combine [OF ys] by auto
    then show "Proved \<in> set (xs @ combine ys # zs) \<longleftrightarrow> Proved \<in> set (xs @ ys @ zs)"
      using combine_Proved [of ys] ys by auto
  qed
  show "set xs = set ys \<longrightarrow> combine xs = combine ys" by (auto intro: combine_eqI)
qed

lemma combine_join_witness:
  "combine [Proved, combine [Proved, NotApplicable]] = combine [Proved, Proved, NotApplicable]
   \<and> combine [Proved, NotApplicable, Proved] = combine [NotApplicable, Proved]"
  using combine_join [of "[Proved]" "[Proved, NotApplicable]" "[]"]
    combine_join [of "[Proved, NotApplicable, Proved]" "[NotApplicable, Proved]" "[]"] by auto

section \<open>The identity determines the finding\<close>

definition span_bounded :: "span \<Rightarrow> bool" where
  "span_bounded s \<longleftrightarrow> sp_source s < 2 ^ 32
     \<and> pos_byte (sp_start s) < 2 ^ 64 \<and> pos_line (sp_start s) < 2 ^ 32 \<and> pos_column (sp_start s) < 2 ^ 32
     \<and> pos_byte (sp_stop s) < 2 ^ 64 \<and> pos_line (sp_stop s) < 2 ^ 32 \<and> pos_column (sp_stop s) < 2 ^ 32"

definition diagnostic_fields :: "diagnostic \<Rightarrow> string list" where
  "diagnostic_fields d = identity_fields (dg_rule_id d) (dg_severity d) (dg_confidence d) (dg_message d) (dg_span d)
     (dg_trace d) (dg_capabilities d) (dg_evidence d) (dg_fix d)"

text \<open>What fits a 64-bit machine: positions, lengths of texts and of lists.\<close>

definition diagnostic_bounded :: "diagnostic \<Rightarrow> bool" where
  "diagnostic_bounded d \<longleftrightarrow> span_bounded (dg_span d) \<and> (\<forall>h \<in> set (dg_trace d). span_bounded (th_span h))
     \<and> (case dg_fix d of None \<Rightarrow> True | Some fx \<Rightarrow> pred_option span_bounded (fx_span fx))
     \<and> length (dg_trace d) \<le> u64_max \<and> length (dg_capabilities d) \<le> u64_max \<and> length (dg_evidence d) \<le> u64_max
     \<and> (\<forall>f \<in> set (diagnostic_fields d). length f \<le> u64_max)"

definition same_finding :: "diagnostic \<Rightarrow> diagnostic \<Rightarrow> bool" where
  "same_finding d d' \<longleftrightarrow> dg_rule_id d = dg_rule_id d' \<and> dg_severity d = dg_severity d' \<and> dg_confidence d = dg_confidence d'
     \<and> dg_message d = dg_message d' \<and> dg_span d = dg_span d'
     \<and> map (\<lambda>h. (th_label h, th_span h)) (dg_trace d) = map (\<lambda>h. (th_label h, th_span h)) (dg_trace d')
     \<and> dg_capabilities d = dg_capabilities d' \<and> dg_evidence d = dg_evidence d' \<and> dg_fix d = dg_fix d'"

definition capabilities :: "capability list" where
  "capabilities =
    [CapRepositoryRead, CapRepositoryWrite, CapTokenRead, CapTokenWrite, CapOidc, CapCloudCredential,
     CapSecretAccess, CapNetwork, CapFilesystemRead, CapFilesystemWrite, CapShell, CapArtifactRead,
     CapArtifactWrite, CapCacheRead, CapCacheWrite, CapDeployment, CapSelfHostedPersistence, CapAiTool]"

lemma capability_of_name: "map_of (map (\<lambda>c. (capability_name c, c)) capabilities) (capability_name e) = Some e"
  by (cases e) (simp_all add: capabilities_def)

lemma names_inject [simp]:
  "severity_name a = severity_name b \<longleftrightarrow> a = b" "confidence_name c = confidence_name d \<longleftrightarrow> c = d"
  "capability_name e = capability_name f \<longleftrightarrow> e = f"
  subgoal by (cases a; cases b) simp_all
  subgoal by (cases c; cases d) simp_all
  subgoal by (metis capability_of_name option.inject)
  done

lemma length_span_identity [simp]: "length (span_identity s) = 7"
  by (simp add: span_identity_def)

lemma span_identity_inject:
  assumes "span_bounded s" "span_bounded t"
  shows "span_identity s = span_identity t \<longleftrightarrow> s = t"
proof
  have four: "a = b" if "be_bytes 4 a = be_bytes 4 b" "a < 2 ^ 32" "b < 2 ^ 32" for a b
    by (rule be_bytes_inject [OF that(1)]) (use that in simp_all)
  have eight: "a = b" if "be_bytes 8 a = be_bytes 8 b" "a < 2 ^ 64" "b < 2 ^ 64" for a b
    by (rule be_bytes_inject [OF that(1)]) (use that in simp_all)
  assume "span_identity s = span_identity t"
  then have "sp_source s = sp_source t" "pos_byte (sp_start s) = pos_byte (sp_start t)"
      "pos_line (sp_start s) = pos_line (sp_start t)" "pos_column (sp_start s) = pos_column (sp_start t)"
      "pos_byte (sp_stop s) = pos_byte (sp_stop t)"
      "pos_line (sp_stop s) = pos_line (sp_stop t)" "pos_column (sp_stop s) = pos_column (sp_stop t)"
    using assms unfolding span_identity_def span_bounded_def by (auto intro: four eight simp del: be_bytes.simps)
  then show "s = t" by simp
qed simp

lemma count_field_inject:
  assumes "count_field xs = count_field ys" "length xs \<le> u64_max" "length ys \<le> u64_max"
  shows "length xs = length ys"
  by (rule be_bytes_inject [of 8]) (use assms in \<open>simp_all add: count_field_def u64_max_def min_absorb1\<close>)

lemma hops_identity_inject:
  assumes "length hs = length hs'" "concat (map hop_identity hs) @ rest = concat (map hop_identity hs') @ rest'"
    "\<forall>h \<in> set hs \<union> set hs'. span_bounded (th_span h)"
  shows "map (\<lambda>h. (th_label h, th_span h)) hs = map (\<lambda>h. (th_label h, th_span h)) hs' \<and> rest = rest'"
  using assms
proof (induction hs hs' rule: list_induct2)
  case (Cons h hs h' hs')
  have "length (hop_identity h) = length (hop_identity h')" by (simp add: hop_identity_def)
  with Cons.prems(1) have "hop_identity h = hop_identity h'" and rest: "concat (map hop_identity hs) @ rest = concat (map hop_identity hs') @ rest'"
    by (simp_all add: append_eq_append_conv)
  moreover from this(1) have "th_label h = th_label h'" "span_identity (th_span h) = span_identity (th_span h')"
    by (simp_all add: hop_identity_def)
  ultimately show ?case using Cons.IH [OF rest] Cons.prems(2) by (simp add: span_identity_inject)
qed simp

lemma fix_identity_inject:
  assumes "case f of None \<Rightarrow> True | Some fx \<Rightarrow> pred_option span_bounded (fx_span fx)"
    "case g of None \<Rightarrow> True | Some fx \<Rightarrow> pred_option span_bounded (fx_span fx)"
  shows "fix_identity f = fix_identity g \<longleftrightarrow> f = g"
proof
  assume e: "fix_identity f = fix_identity g"
  show "f = g"
  proof (cases f; cases g)
    fix x y assume fg: "f = Some x" "g = Some y"
    with e assms have "fx_kind x = fx_kind y" "fx_description x = fx_description y"
        "fx_replacement x = fx_replacement y" "fx_span x = fx_span y"
      by (auto simp: fix_identity_def span_identity_inject split: option.splits)
    with fg show ?thesis by simp
  qed (use e in \<open>auto simp: fix_identity_def\<close>)
qed simp

lemma diagnostic_fields_inject:
  assumes "diagnostic_bounded d" "diagnostic_bounded d'"
  shows "diagnostic_fields d = diagnostic_fields d' \<longleftrightarrow> same_finding d d'"
proof
  assume "diagnostic_fields d = diagnostic_fields d'"
  then have f: "dg_rule_id d = dg_rule_id d'" "dg_severity d = dg_severity d'" "dg_confidence d = dg_confidence d'"
      "dg_message d = dg_message d'" "span_identity (dg_span d) = span_identity (dg_span d')"
      "count_field (dg_trace d) = count_field (dg_trace d')"
    and r: "concat (map hop_identity (dg_trace d)) @ [''capabilities'', count_field (dg_capabilities d)]
        @ map capability_name (dg_capabilities d) @ [''evidence'', count_field (dg_evidence d)] @ dg_evidence d @ fix_identity (dg_fix d)
      = concat (map hop_identity (dg_trace d')) @ [''capabilities'', count_field (dg_capabilities d')]
        @ map capability_name (dg_capabilities d') @ [''evidence'', count_field (dg_evidence d')] @ dg_evidence d' @ fix_identity (dg_fix d')"
    by (auto simp: diagnostic_fields_def identity_fields_def)
  have hops: "length (dg_trace d) = length (dg_trace d')" "\<forall>h \<in> set (dg_trace d) \<union> set (dg_trace d'). span_bounded (th_span h)"
    using count_field_inject [OF f(6)] assms by (auto simp: diagnostic_bounded_def)
  from hops_identity_inject [OF hops(1) r hops(2)]
  have t: "map (\<lambda>h. (th_label h, th_span h)) (dg_trace d) = map (\<lambda>h. (th_label h, th_span h)) (dg_trace d')"
    and r: "count_field (dg_capabilities d) = count_field (dg_capabilities d')"
      "map capability_name (dg_capabilities d) @ [''evidence'', count_field (dg_evidence d)] @ dg_evidence d @ fix_identity (dg_fix d)
       = map capability_name (dg_capabilities d') @ [''evidence'', count_field (dg_evidence d')] @ dg_evidence d' @ fix_identity (dg_fix d')"
    by simp_all
  have c: "length (dg_capabilities d) = length (dg_capabilities d')"
    using count_field_inject [OF r(1)] assms by (simp add: diagnostic_bounded_def)
  with r(2) have "map capability_name (dg_capabilities d) = map capability_name (dg_capabilities d')"
      "count_field (dg_evidence d) = count_field (dg_evidence d')"
      "dg_evidence d @ fix_identity (dg_fix d) = dg_evidence d' @ fix_identity (dg_fix d')"
    by (simp_all add: append_eq_append_conv)
  moreover from this(1) have "dg_capabilities d = dg_capabilities d'"
    by (rule map_injective) (auto intro: injI)
  moreover from calculation(2) have "length (dg_evidence d) = length (dg_evidence d')"
    using count_field_inject [of "dg_evidence d" "dg_evidence d'"] assms by (simp add: diagnostic_bounded_def)
  ultimately have "dg_evidence d = dg_evidence d'" "fix_identity (dg_fix d) = fix_identity (dg_fix d')"
    "dg_capabilities d = dg_capabilities d'" by (simp_all add: append_eq_append_conv)
  with f t assms show "same_finding d d'"
    using span_identity_inject fix_identity_inject [of "dg_fix d" "dg_fix d'"]
    by (auto simp: same_finding_def diagnostic_bounded_def)
next
  assume s: "same_finding d d'"
  then have "map (\<lambda>h. (th_label h, th_span h)) (dg_trace d) = map (\<lambda>h. (th_label h, th_span h)) (dg_trace d')"
    by (simp add: same_finding_def)
  moreover have "map hop_identity hs = map (\<lambda>(l, s). l # span_identity s) (map (\<lambda>h. (th_label h, th_span h)) hs)" for hs
    by (simp add: hop_identity_def)
  ultimately have "map hop_identity (dg_trace d) = map hop_identity (dg_trace d')" "count_field (dg_trace d) = count_field (dg_trace d')"
    by (simp_all only:) (metis count_field_def length_map)
  with s show "diagnostic_fields d = diagnostic_fields d'"
    by (simp add: same_finding_def diagnostic_fields_def identity_fields_def)
qed

definition identity_bytes :: "diagnostic \<Rightarrow> string" where
  "identity_bytes d = db_fed (built diagnostic_domain (diagnostic_fields d))"

lemma identity_bytes_inject:
  assumes "diagnostic_bounded d" "diagnostic_bounded d'"
  shows "identity_bytes d = identity_bytes d' \<longleftrightarrow> same_finding d d'"
proof -
  have "identity_bytes d = identity_bytes d' \<longleftrightarrow> built diagnostic_domain (diagnostic_fields d) = built diagnostic_domain (diagnostic_fields d')"
    unfolding identity_bytes_def by (rule db_fed_inject)
  also have "\<dots> \<longleftrightarrow> diagnostic_fields d = diagnostic_fields d'"
    using assms by (subst built_inject) (auto simp: diagnostic_bounded_def diagnostic_domain_def u64_max_def)
  finally show ?thesis by (simp only: diagnostic_fields_inject [OF assms])
qed

lemma diagnostic_new_id:
  "d = diagnostic_new H r s c m sp t cs ev fx \<Longrightarrow> dg_id d = ''diag_'' @ lowercase_hex (H (identity_bytes d))"
  by (simp add: diagnostic_new_def Let_def diagnostic_fields_def builder_finish_def identity_bytes_def)

text \<open>
  C34. The identifier of a diagnostic identifies the finding: unless the hash function collides on the two,
  equal identifiers mean the same rule, severity, confidence, message, place, trace (labels and
  places), capabilities, evidence and fix, and the same finding has the same identifier.
\<close>

theorem diagnostic_identity:
  assumes "d = diagnostic_new H r s c m sp t cs ev fx" "d' = diagnostic_new H r' s' c' m' sp' t' cs' ev' fx'"
    and "diagnostic_bounded d" "diagnostic_bounded d'"
    and "H (identity_bytes d) = H (identity_bytes d') \<Longrightarrow> identity_bytes d = identity_bytes d'"
  shows "dg_id d = dg_id d' \<longleftrightarrow> same_finding d d'"
proof -
  have "dg_id d = dg_id d' \<longleftrightarrow> H (identity_bytes d) = H (identity_bytes d')"
    unfolding diagnostic_new_id [OF assms(1)] diagnostic_new_id [OF assms(2)]
    by (metis append_eq_append_conv option.inject parse_pairs_hex)
  with assms(5) identity_bytes_inject [OF assms(3,4)] show ?thesis by metis
qed

lemma diagnostic_identity_witness:
  "\<exists>d d'. d = diagnostic_new id ''WV-1'' Note Low ''a'' default_span [] [] [] None
    \<and> d' = diagnostic_new id ''WV-1'' Note Low ''b'' default_span [] [] [] None \<and> dg_id d \<noteq> dg_id d'"
proof -
  let ?d = "\<lambda>m. diagnostic_new id ''WV-1'' Note Low m default_span [] [] [] None"
  have b: "diagnostic_bounded (?d m)" if "length m = 1" for m
    using that by (auto simp: diagnostic_bounded_def diagnostic_new_def span_bounded_def default_span_def default_position_def
      diagnostic_fields_def identity_fields_def span_identity_def fix_identity_def count_field_def u64_max_def
      simp del: be_bytes.simps)
  have "\<not> same_finding (?d ''a'') (?d ''b'')" by (simp add: same_finding_def diagnostic_new_def)
  then have "dg_id (?d ''a'') \<noteq> dg_id (?d ''b'')"
    using diagnostic_identity [OF refl refl b b, of "''a''" "''b''"] by simp
  then show ?thesis by blast
qed

end
