(* ===== verification/Scripts.thy ===== *)
theory Scripts
  imports Views
begin

text \<open>
  What a command node's script does (\<^verbatim>\<open>src/verifier/mod.rs\<close>, script section): its effects by marker,
  its shell, tokens and expansions, and whether a secret in it reaches the network or the output. The
  scanners run over bytes: every character they tell apart is ASCII, whose byte occurs inside no other
  character. A slice that starts at a byte offset is kept as the slice itself.
\<close>

section \<open>Text operations of the standard library\<close>

text \<open>\<^verbatim>\<open>str::trim\<close> removes the characters with the Unicode property \<^verbatim>\<open>White_Space\<close>.\<close>

definition white_space_points :: "nat list" where
  "white_space_points = [9, 10, 11, 12, 13, 32, 133, 160, 5760] @ [8192..<8203] @ [8232, 8233, 8239, 8287, 12288]"

definition white_space_char :: "string \<Rightarrow> bool" where
  "white_space_char c \<longleftrightarrow> c \<in> set (map utf8_encode white_space_points)"

definition str_trim :: "string \<Rightarrow> string" where
  "str_trim s = concat (rev (dropWhile white_space_char (rev (dropWhile white_space_char (utf8_chars s)))))"

text \<open>\<^verbatim>\<open>str::lines\<close>: a line ends at a line feed, with a carriage return before it; a last line need not end.\<close>

definition strip_cr :: "string \<Rightarrow> string" where
  "strip_cr s = (if s \<noteq> [] \<and> last s = CHR 0x0D then butlast s else s)"

definition str_lines :: "string \<Rightarrow> string list" where
  "str_lines s = (let pieces = split_on (CHR 0x0A) s in
     map strip_cr (butlast pieces) @ (if last pieces = [] then [] else [last pieces]))"

definition contains_any :: "string list \<Rightarrow> string \<Rightarrow> bool" where
  "contains_any markers s \<longleftrightarrow> (\<exists>m \<in> set markers. str_contains s m)"

fun str_find :: "string \<Rightarrow> string \<Rightarrow> nat option" where
  "str_find needle [] = (if needle = [] then Some 0 else None)"
| "str_find needle (c # s) = (if prefix needle (c # s) then Some 0 else map_option Suc (str_find needle s))"

section \<open>Effects\<close>

text \<open>\<^verbatim>\<open>max_by_key(|value| value.len())\<close> returns the last of the longest.\<close>

fun longest :: "string list \<Rightarrow> string option" where
  "longest [] = None"
| "longest (x # xs) = (case longest xs of None \<Rightarrow> Some x | Some y \<Rightarrow> Some (if length y < length x then x else y))"

definition command_source :: "node \<Rightarrow> string" where
  "command_source n =
     (case Option.bind (Option.bind (bmap_get (nd_attributes n) ''command'') constants) longest of
        None \<Rightarrow> nd_name n | Some s \<Rightarrow> s)"

definition network_markers :: "string list" where
  "network_markers = [''curl '', ''curl.exe'', ''docker login'', ''helm registry login'', ''wget '', ''invoke-webrequest'',
     ''invoke-restmethod'', ''podman login'', ''requests.'', ''urllib.'', ''httpclient'', ''fetch('']"

definition script_effects :: "node \<Rightarrow> observable_effect list" where
  "script_effects n =
     (let lower = ascii_lowercase (command_source n) in
      bset ([EffCommandExecution]
        @ (if contains_any network_markers lower then [EffNetworkRequest] else [])
        @ (if contains_any ['' > '', ''>>'', ''set-content'', ''out-file'', ''writealltext'', ''open(''] lower
           then [EffFileWrite] else [])
        @ (if str_contains lower ''git push'' \<or> str_contains lower ''gh pr merge'' \<or> str_contains lower ''gh release''
           then [EffRepositoryChange] else [])
        @ (if contains_any [''kubectl apply'', ''terraform apply'', ''az deployment'', ''aws cloudformation deploy''] lower
           then [EffDeploymentChange] else [])
        @ (if contains_any [''.github/workflows'', ''.gitlab-ci.yml'', ''azure-pipelines'', ''.circleci/config''] lower
              \<and> contains_any ['' > '', ''>>'', ''set-content'', ''writealltext''] lower
           then [EffWorkflowChange] else [])))"

definition inferred_effects :: "node \<Rightarrow> observable_effect list" where
  "inferred_effects n =
     bset (nd_effects n @ (if nd_kind n = NkCommand then script_effects n else []))"

definition observable_effects :: "program list \<Rightarrow> observable_effect list" where
  "observable_effects gs = bset (concat (map inferred_effects (concat (map pg_nodes gs))))"

section \<open>Shells, tokens and expansions\<close>

datatype script_shell = Posix | Bash | PowerShell | Cmd | Python | ShellUnknown string

record script_token =
  tk_text :: string
  tk_quoted :: bool

type_synonym script_expansion = script_token

record script_summary =
  ss_unknowns :: "unknown_reason list"
  ss_expansions :: "script_expansion list"
  ss_unsafe_interpolation :: bool
  ss_secret_to_network :: bool
  ss_secret_to_output :: bool

definition shell_of_name :: "string \<Rightarrow> script_shell" where
  "shell_of_name lower =
     (if lower = ''sh'' \<or> lower = ''posix'' then Posix
      else if lower = ''bash'' then Bash
      else if lower = ''pwsh'' \<or> lower = ''powershell'' then PowerShell
      else if lower = ''cmd'' \<or> lower = ''cmd.exe'' then Cmd
      else if lower = ''python'' \<or> lower = ''python3'' then Python
      else ShellUnknown lower)"

definition script_shell_of :: "node \<Rightarrow> script_shell" where
  "script_shell_of n =
     (case Option.bind (bmap_get (nd_attributes n) ''shell'') constants of
        Some (name # _) \<Rightarrow> shell_of_name (ascii_lowercase name)
      | _ \<Rightarrow> Bash)"

abbreviation backslash :: char where "backslash \<equiv> CHR 0x5C"
abbreviation double_quote :: char where "double_quote \<equiv> CHR 0x22"
abbreviation single_quote :: char where "single_quote \<equiv> CHR 0x27"

record lexer =
  lx_tokens :: "script_token list"
  lx_buffer :: string
  lx_quote :: "char option"
  lx_token_quoted :: bool
  lx_escaped :: bool

definition lexer_flush :: "lexer \<Rightarrow> lexer" where
  "lexer_flush l =
     (if lx_buffer l \<noteq> []
      then l\<lparr>lx_tokens := lx_tokens l @ [\<lparr>tk_text = lx_buffer l, tk_quoted = lx_token_quoted l\<rparr>], lx_buffer := []\<rparr>
      else l)\<lparr>lx_token_quoted := False\<rparr>"

definition lexer_push :: "char \<Rightarrow> lexer \<Rightarrow> lexer" where
  "lexer_push c l = l\<lparr>lx_buffer := lx_buffer l @ [c]\<rparr>"

definition script_blank :: "char \<Rightarrow> bool" where
  "script_blank c \<longleftrightarrow> c = CHR '' '' \<or> c = CHR 0x09 \<or> c = CHR 0x0D \<or> c = CHR 0x0A"

definition lexer_step :: "char \<Rightarrow> lexer \<Rightarrow> lexer" where
  "lexer_step c l =
     (case lx_quote l of
        Some delimiter \<Rightarrow>
          (let l = l\<lparr>lx_token_quoted := True\<rparr> in
           if lx_escaped l then (lexer_push c l)\<lparr>lx_escaped := False\<rparr>
           else if c = backslash \<and> delimiter = double_quote then l\<lparr>lx_escaped := True\<rparr>
           else if c = delimiter then l\<lparr>lx_quote := None\<rparr>
           else lexer_push c l)
      | None \<Rightarrow>
          if c = single_quote \<or> c = double_quote then l\<lparr>lx_token_quoted := True, lx_quote := Some c\<rparr>
          else if script_blank c then lexer_flush l
          else lexer_push c l)"

definition lexer_start :: lexer where
  "lexer_start = \<lparr>lx_tokens = [], lx_buffer = [], lx_quote = None, lx_token_quoted = False, lx_escaped = False\<rparr>"

definition script_tokens :: "string \<Rightarrow> script_token list" where
  "script_tokens source = lx_tokens (lexer_flush (fold lexer_step source lexer_start))"

definition expands :: "script_shell \<Rightarrow> string \<Rightarrow> bool" where
  "expands shell text =
     (case shell of
        Cmd \<Rightarrow> length text > 1 \<and> (str_contains text ''%'' \<or> str_contains text ''!'')
      | Python \<Rightarrow> False
      | _ \<Rightarrow> str_contains text ''$'' \<or> str_contains text [CHR 0x60])"

definition script_expansions :: "script_shell \<Rightarrow> script_token list \<Rightarrow> script_expansion list" where
  "script_expansions shell = filter (\<lambda>t. expands shell (tk_text t))"

definition shell_identifier_byte :: "char \<Rightarrow> bool" where
  "shell_identifier_byte c \<longleftrightarrow> is_ascii_lower c \<or> is_ascii_digit c \<or> c = CHR ''_''"

lemma str_find_Some: "str_find needle s = Some k \<Longrightarrow> k + length needle \<le> length s \<and> prefix needle (drop k s)"
  by (induction needle s arbitrary: k rule: str_find.induct)
    (auto split: if_splits dest: prefix_length_le)

function bounded_variable :: "string \<Rightarrow> string \<Rightarrow> bool" where
  "bounded_variable s needle =
     (case str_find needle s of
        None \<Rightarrow> False
      | Some start \<Rightarrow>
          (let after = drop (start + length needle) s in
           if after = [] \<or> \<not> shell_identifier_byte (hd after) then True
           else bounded_variable (drop (start + 1) s) needle))"
  by pat_completeness auto
termination by (relation "measure (\<lambda>(s, needle). length s)") (auto dest!: str_find_Some)

declare bounded_variable.simps [simp del]

definition expansion_mentions :: "string \<Rightarrow> string \<Rightarrow> bool" where
  "expansion_mentions environment expansion =
     (let environment = ascii_lowercase environment; expansion = ascii_lowercase expansion in
      bounded_variable expansion (''$'' @ environment) \<or> bounded_variable expansion (''$env:'' @ environment)
      \<or> contains_any [''${'' @ environment @ ''}'', ''${env:'' @ environment @ ''}'', ''%'' @ environment @ ''%'',
          ''!'' @ environment @ ''!''] expansion)"

section \<open>Secrets in scripts\<close>

definition secret_reference :: "string \<Rightarrow> bool" where
  "secret_reference source =
     list_ex (\<lambda>t. let text = ascii_lowercase (tk_text t) in
       contains_any [''secret'', ''token'', ''password'', ''passwd'', ''private_key'', ''private-key'', ''access_key'',
         ''access-key'', ''credential''] text
       \<and> (str_contains text ''$'' \<or> str_contains text ''%'' \<or> str_contains text ''!'' \<or> str_contains text ''secrets.''
          \<or> str_contains text ''environ'' \<or> str_contains text ''getenv'' \<or> str_contains text ''process.env''))
     (script_tokens source)"

definition output_command :: "string \<Rightarrow> bool" where
  "output_command = contains_any [''echo '', ''printf '', ''write-output'', ''console.log'', ''print('']"

definition network_command :: "string \<Rightarrow> bool" where
  "network_command = contains_any network_markers"

datatype separator = Sequence | Pipeline

fun separator_width :: "separator \<Rightarrow> string \<Rightarrow> nat option" where
  "separator_width Sequence (c # s) =
     (if c = CHR '';'' then Some 1
      else if c = CHR ''&'' \<and> prefix ''&'' s then Some 2
      else if c = CHR ''|'' \<and> prefix ''|'' s then Some 2
      else None)"
| "separator_width Pipeline (c # s) = (if c = CHR ''|'' then Some 1 else None)"
| "separator_width sep [] = None"

definition push_part :: "string \<Rightarrow> string list \<Rightarrow> string list" where
  "push_part part parts = (let p = str_trim part in if p \<noteq> [] then parts @ [p] else parts)"

text \<open>\<open>part\<close> is the source from \<^verbatim>\<open>start\<close> to the current character.\<close>

function split_loop ::
  "separator \<Rightarrow> string \<Rightarrow> string \<Rightarrow> string list \<Rightarrow> char option \<Rightarrow> bool \<Rightarrow> nat \<Rightarrow> string list" where
  "split_loop sep [] part parts quote escaped depth = push_part part parts"
| "split_loop sep (c # s) part parts quote escaped depth =
     (case quote of
        Some delimiter \<Rightarrow>
          (if escaped then split_loop sep s (part @ [c]) parts quote False depth
           else if c = backslash \<and> delimiter = double_quote then split_loop sep s (part @ [c]) parts quote True depth
           else if c = delimiter then split_loop sep s (part @ [c]) parts None escaped depth
           else split_loop sep s (part @ [c]) parts quote escaped depth)
      | None \<Rightarrow>
          if escaped then split_loop sep s (part @ [c]) parts None False depth
          else if c = backslash then split_loop sep s (part @ [c]) parts None True depth
          else if c = single_quote \<or> c = double_quote then split_loop sep s (part @ [c]) parts (Some c) escaped depth
          else if c = CHR ''('' then split_loop sep s (part @ [c]) parts None escaped (depth + 1)
          else if c = CHR '')'' then split_loop sep s (part @ [c]) parts None escaped (depth - 1)
          else (case (if depth = 0 then separator_width sep (c # s) else None) of
                  Some width \<Rightarrow> split_loop sep (drop (width - 1) s) [] (push_part part parts) None escaped depth
                | None \<Rightarrow> split_loop sep s (part @ [c]) parts None escaped depth))"
  by pat_completeness auto
termination by (relation "measure (\<lambda>(sep, s, _). length s)") auto

definition split_top_level :: "separator \<Rightarrow> string \<Rightarrow> string list" where
  "split_top_level sep source = split_loop sep source [] [] None False 0"

datatype output_destination = StandardOutput | PrivateFile | DestUnknown unknown_reason

text \<open>
  \<open>previous\<close> is the byte before the current one; a redirection is recorded as the source after it.
\<close>

definition descriptor_byte :: "char option \<Rightarrow> bool" where
  "descriptor_byte previous =
     (case previous of None \<Rightarrow> False | Some c \<Rightarrow> is_ascii_digit c \<or> c = CHR ''&'' \<or> c = CHR ''>'')"

fun redirect_loop :: "string \<Rightarrow> char option \<Rightarrow> char option \<Rightarrow> bool \<Rightarrow> nat \<Rightarrow> string list \<Rightarrow> string list" where
  "redirect_loop [] previous quote escaped depth redirects = redirects"
| "redirect_loop (c # s) previous quote escaped depth redirects =
     (case quote of
        Some delimiter \<Rightarrow>
          (if escaped then redirect_loop s (Some c) quote False depth redirects
           else if c = backslash \<and> delimiter = double_quote then redirect_loop s (Some c) quote True depth redirects
           else if c = delimiter then redirect_loop s (Some c) None escaped depth redirects
           else redirect_loop s (Some c) quote escaped depth redirects)
      | None \<Rightarrow>
          if c = single_quote \<or> c = double_quote then redirect_loop s (Some c) (Some c) escaped depth redirects
          else if c = CHR ''('' then redirect_loop s (Some c) None escaped (depth + 1) redirects
          else if c = CHR '')'' then redirect_loop s (Some c) None escaped (depth - 1) redirects
          else if c = CHR ''>'' \<and> depth = 0 then
            (if descriptor_byte previous then redirect_loop s (Some c) None escaped depth redirects
             else (case s of
                [] \<Rightarrow> redirect_loop s (Some c) None escaped depth (redirects @ [s])
              | f # s' \<Rightarrow>
                  if f = CHR ''='' then redirect_loop s (Some c) None escaped depth redirects
                  else if f = CHR ''>'' then redirect_loop s' (Some f) None escaped depth (redirects @ [s'])
                  else redirect_loop s (Some c) None escaped depth (redirects @ [s])))
          else redirect_loop s (Some c) None escaped depth redirects)"

definition unquote_target :: "string \<Rightarrow> string" where
  "unquote_target t =
     (if 2 \<le> length t \<and> (hd t = single_quote \<or> hd t = double_quote) \<and> last t = hd t then butlast (tl t) else t)"

definition is_ascii_whitespace :: "char \<Rightarrow> bool" where
  "is_ascii_whitespace c \<longleftrightarrow> c = CHR '' '' \<or> c = CHR 0x09 \<or> c = CHR 0x0A \<or> c = CHR 0x0C \<or> c = CHR 0x0D"

definition target_destination :: "string \<Rightarrow> output_destination" where
  "target_destination after =
     (let target = unquote_target (str_trim after); lower = ascii_lowercase target in
      if target = [] \<or> lower \<in> set [''/dev/stdout'', ''/dev/stderr'', ''con'', ''conout$'', ''prn'']
         \<or> str_starts_with lower ''/proc/self/fd/''
      then StandardOutput
      else if list_ex (\<lambda>c. is_ascii_whitespace c \<or> c = CHR ''&'') target
      then DestUnknown (UnsupportedSyntax ''compound shell output redirection'')
      else if str_contains target ''$'' \<or> str_contains target ''%'' \<or> str_contains target ''!''
      then DestUnknown (DynamicString ''dynamic shell output redirection'')
      else PrivateFile)"

definition output_destination_of :: "script_shell \<Rightarrow> string \<Rightarrow> output_destination" where
  "output_destination_of shell source =
     (case shell of
        Python \<Rightarrow> StandardOutput
      | ShellUnknown name \<Rightarrow>
          if str_contains source ''>'' then DestUnknown (UnsupportedSyntax (''shell '' @ name)) else StandardOutput
      | _ \<Rightarrow>
          (case redirect_loop source None None False 0 [] of
             [] \<Rightarrow> StandardOutput
           | [after] \<Rightarrow> target_destination after
           | _ \<Rightarrow> DestUnknown (UnsupportedSyntax ''multiple shell output redirections'')))"

definition passthrough_markers :: "string list" where
  "passthrough_markers = [''base64'', ''cat'', ''jq'', ''openssl enc'', ''sed '', ''tee'', ''tr '', ''xxd'']"

text \<open>The accumulators of \<^verbatim>\<open>secret_observability\<close>: network, output, reasons.\<close>

type_synonym observability = "bool \<times> bool \<times> unknown_reason list"

definition observe_output :: "script_shell \<Rightarrow> string list \<Rightarrow> observability \<Rightarrow> observability" where
  "observe_output shell stages = (\<lambda>(network, output, unknowns).
     (case output_destination_of shell (last stages) of
        PrivateFile \<Rightarrow> (network, output, unknowns)
      | DestUnknown reason \<Rightarrow> (network, output, bset (reason # unknowns))
      | StandardOutput \<Rightarrow>
          (let output = (output \<or> length stages = 1 \<or> contains_any passthrough_markers (last stages)) in
           (network, output,
            if output then unknowns else bset (UnsupportedSyntax ''unresolved pipeline stdout behavior'' # unknowns)))))"

definition observe_group :: "script_shell \<Rightarrow> string \<Rightarrow> observability \<Rightarrow> observability" where
  "observe_group shell commands = (\<lambda>(network, output, unknowns).
     (let stages = split_top_level Pipeline commands in
      if \<not> list_ex secret_reference stages then (network, output, unknowns)
      else
        (let group_network = list_ex network_command stages;
             producer = list_ex (\<lambda>stage. secret_reference stage \<and> output_command stage) stages;
             network = (network \<or> group_network)
         in if producer \<and> \<not> group_network \<and> stages \<noteq> []
            then observe_output shell stages (network, output, unknowns)
            else (network, output, unknowns))))"

definition secret_observability :: "script_shell \<Rightarrow> string \<Rightarrow> observability" where
  "secret_observability shell source =
     fold (observe_group shell) (concat (map (split_top_level Sequence) (str_lines (ascii_lowercase source)))) (False, False, [])"

definition script_summary_of :: "node \<Rightarrow> script_summary" where
  "script_summary_of n =
     (let source = command_source n; shell = script_shell_of n;
          expansions = script_expansions shell (script_tokens source);
          provider_substitution = (str_contains source ''${{'' \<or> str_contains source ''<<'' \<or> str_contains source ''$[''
            \<or> ((shell = PowerShell \<or> shell = Cmd) \<and> str_contains source ''$(''));
          lower = ascii_lowercase source;
          dynamic_python = (shell = Python \<and> contains_any [''eval('', ''exec('', ''subprocess'', ''os.system(''] lower);
          unsafe = (provider_substitution \<or> dynamic_python \<or> list_ex (\<lambda>e. \<not> tk_quoted e) expansions);
          (network, output, unknowns) = secret_observability shell source;
          unknowns = (case shell of ShellUnknown name \<Rightarrow> unknowns @ [UnsupportedSyntax (''shell '' @ name)] | _ \<Rightarrow> unknowns)
      in \<lparr>ss_unknowns = dedup_sorted (sort unknowns), ss_expansions = expansions, ss_unsafe_interpolation = unsafe,
          ss_secret_to_network = network, ss_secret_to_output = output\<rparr>)"

section \<open>Variables are found exactly\<close>

lemma str_find_None: "str_find needle s = None \<Longrightarrow> \<not> sublist needle s"
  by (induction needle s rule: str_find.induct) (auto split: if_splits simp: sublist_Cons_right)

lemma str_find_first: "str_find needle s = Some k \<Longrightarrow> s = pre @ needle @ post \<Longrightarrow> k \<le> length pre"
proof (induction needle s arbitrary: k pre rule: str_find.induct)
  case (2 needle c s)
  show ?case
  proof (cases pre)
    case (Cons p pre')
    with 2 show ?thesis by (auto split: if_splits)
  next
    case Nil
    with "2.prems"(2) have "prefix needle (c # s)" by (simp add: prefix_def)
    with "2.prems"(1) show ?thesis by simp
  qed
qed simp

text \<open>
  The scan for a variable misses no occurrence: it answers yes exactly when the text contains the
  variable somewhere with no identifier character after it, overlapping occurrences included.
\<close>

theorem bounded_variable_exact:
  "bounded_variable s needle \<longleftrightarrow> (\<exists>pre post. s = pre @ needle @ post \<and> (post = [] \<or> \<not> shell_identifier_byte (hd post)))"
proof (induction s needle rule: bounded_variable.induct)
  case (1 s needle)
  show ?case
  proof (cases "str_find needle s")
    case None
    with str_find_None [OF None] show ?thesis by (subst bounded_variable.simps) (auto simp: sublist_def)
  next
    case (Some k)
    let ?after = "drop (k + length needle) s"
    have split: "s = take k s @ needle @ ?after"
      using str_find_Some [OF Some] by (metis append_take_drop_id drop_drop prefix_def append_eq_conv_conj add.commute)
    show ?thesis
    proof (cases "?after = [] \<or> \<not> shell_identifier_byte (hd ?after)")
      case True
      with Some have "bounded_variable s needle" by (subst bounded_variable.simps) simp
      with split True show ?thesis by blast
    next
      case False
      have later: "length pre > k" if "s = pre @ needle @ post" "post = [] \<or> \<not> shell_identifier_byte (hd post)" for pre post
      proof -
        have "k \<le> length pre" by (rule str_find_first [OF Some that(1)])
        moreover have "length pre \<noteq> k"
        proof
          assume "length pre = k"
          with that(1) have "post = ?after" by simp
          with that(2) False show False by simp
        qed
        ultimately show ?thesis by simp
      qed
      have "(\<exists>pre post. s = pre @ needle @ post \<and> (post = [] \<or> \<not> shell_identifier_byte (hd post)))
          \<longleftrightarrow> (\<exists>pre post. drop (k + 1) s = pre @ needle @ post \<and> (post = [] \<or> \<not> shell_identifier_byte (hd post)))" (is "?L \<longleftrightarrow> ?R")
      proof
        assume ?L
        then obtain pre post where o: "s = pre @ needle @ post" "post = [] \<or> \<not> shell_identifier_byte (hd post)" by blast
        with later [OF o] have "drop (k + 1) s = drop (k + 1) pre @ needle @ post" by simp
        with o(2) show ?R by blast
      next
        assume ?R
        then obtain pre post where o: "drop (k + 1) s = pre @ needle @ post" "post = [] \<or> \<not> shell_identifier_byte (hd post)" by blast
        then have "s = (take (k + 1) s @ pre) @ needle @ post" by (metis append.assoc append_take_drop_id)
        with o(2) show ?L by blast
      qed
      moreover have "bounded_variable s needle = bounded_variable (drop (k + 1) s) needle"
        using Some False by (subst bounded_variable.simps) simp
      ultimately show ?thesis using 1 [OF Some refl] False by simp
    qed
  qed
qed

lemma bounded_variable_exact_witness:
  "bounded_variable ''$tokens $token'' ''$token'' \<and> \<not> shell_identifier_byte CHR '' ''"
proof -
  have "bounded_variable ''$tokens $token'' ''$token''"
    by (rule bounded_variable_exact [THEN iffD2], rule exI [of _ "''$tokens ''"], rule exI [of _ "[]"]) simp
  then show ?thesis by (simp add: shell_identifier_byte_def is_ascii_lower_def is_ascii_digit_def in_range_def)
qed

section \<open>Plain text is split as expected\<close>

text \<open>The pieces of a text, the first one continuing what has been read before.\<close>

definition continue_piece :: "string \<Rightarrow> string list \<Rightarrow> string list" where
  "continue_piece read pieces = (read @ hd pieces) # tl pieces"

lemma continue_split [simp]:
  "continue_piece read [[]] = [read]"
  "continue_piece read ([] # pieces) = read # pieces"
  "continue_piece read (case split_on d s of [] \<Rightarrow> [[c]] | x # xs \<Rightarrow> (c # x) # xs) = continue_piece (read @ [c]) (split_on d s)"
  by (auto simp: continue_piece_def split: list.splits)

lemma continue_Nil [simp]: "continue_piece [] (split_on d s) = split_on d s"
  using split_on_not_Nil [of d s] by (cases "split_on d s") (simp_all add: continue_piece_def del: split_on_not_Nil)

definition plain_token :: "string \<Rightarrow> script_token" where
  "plain_token w = \<lparr>tk_text = w, tk_quoted = False\<rparr>"

text \<open>
  A script without quotes is cut at blanks into its words, none of them marked as quoted.
\<close>

theorem script_tokens_plain:
  assumes "single_quote \<notin> set s" "double_quote \<notin> set s"
  shows "script_tokens s =
    map plain_token (filter (\<lambda>w. w \<noteq> []) (split_on (CHR '' '') (map (\<lambda>c. if script_blank c then CHR '' '' else c) s)))"
proof -
  let ?f = "\<lambda>c. if script_blank c then CHR '' '' else c"
  have "lx_tokens (lexer_flush (fold lexer_step s l)) =
      lx_tokens l @ map plain_token (filter (\<lambda>w. w \<noteq> []) (continue_piece (lx_buffer l) (split_on (CHR '' '') (map ?f s))))"
    if "lx_quote l = None" "\<not> lx_token_quoted l" "single_quote \<notin> set s" "double_quote \<notin> set s" for l s
    using that
  proof (induction s arbitrary: l)
    case Nil
    then show ?case by (simp add: lexer_flush_def plain_token_def)
  next
    case (Cons c s)
    show ?case
    proof (cases "script_blank c")
      case True
      then have "lexer_step c l = lexer_flush l" using Cons.prems by (auto simp: lexer_step_def)
      with True Cons.IH [of "lexer_flush l"] Cons.prems show ?thesis
        by (auto simp: lexer_flush_def plain_token_def)
    next
      case False
      then have "lexer_step c l = lexer_push c l" "c \<noteq> CHR '' ''" using Cons.prems by (auto simp: lexer_step_def script_blank_def)
      with False Cons.IH [of "lexer_push c l"] Cons.prems show ?thesis
        by (auto simp: lexer_push_def)
    qed
  qed
  from this [of lexer_start s] assms show ?thesis by (simp add: script_tokens_def lexer_start_def)
qed

lemma script_tokens_plain_witness:
  "script_tokens ''echo  $TOKEN'' = [plain_token ''echo'', plain_token ''$TOKEN'']"
  by (subst script_tokens_plain) (simp_all add: script_blank_def)

text \<open>
  A pipeline without quotes, parentheses and backslashes is cut at its bars into its trimmed, nonempty
  stages.
\<close>

theorem split_pipeline_plain:
  assumes "set s \<inter> {single_quote, double_quote, backslash, CHR ''('', CHR '')''} = {}"
  shows "split_top_level Pipeline s = filter (\<lambda>p. p \<noteq> []) (map str_trim (split_on (CHR ''|'') s))"
proof -
  have "split_loop Pipeline s part parts None False 0
      = parts @ filter (\<lambda>p. p \<noteq> []) (map str_trim (continue_piece part (split_on (CHR ''|'') s)))"
    if "set s \<inter> {single_quote, double_quote, backslash, CHR ''('', CHR '')''} = {}" for part parts s
    using that
  proof (induction s arbitrary: part parts)
    case Nil
    then show ?case by (simp add: push_part_def Let_def)
  next
    case (Cons c s)
    then show ?case by (cases "c = CHR ''|''") (auto simp: push_part_def Let_def)
  qed
  from this [of s "[]" "[]"] assms show ?thesis by (simp add: split_top_level_def)
qed

lemma split_pipeline_plain_witness:
  "split_top_level Pipeline ''a|b'' = filter (\<lambda>p. p \<noteq> []) (map str_trim [''a'', ''b''])"
  by (subst split_pipeline_plain) simp_all

section \<open>Secrets are reported exactly\<close>

text \<open>
  A command group leaks to the network when one of its stages mentions a secret and one talks to the
  network; it leaks to the output when a stage prints a secret, none talks to the network, and the last
  stage writes to the standard output, alone or through a filter that passes text on.
\<close>

definition leaks_network :: "string \<Rightarrow> bool" where
  "leaks_network commands \<longleftrightarrow> (let stages = split_top_level Pipeline commands in
     (\<exists>x \<in> set stages. secret_reference x) \<and> (\<exists>x \<in> set stages. network_command x))"

definition leaks_output :: "script_shell \<Rightarrow> string \<Rightarrow> bool" where
  "leaks_output shell commands \<longleftrightarrow> (let stages = split_top_level Pipeline commands in
     (\<exists>x \<in> set stages. secret_reference x \<and> output_command x) \<and> (\<forall>x \<in> set stages. \<not> network_command x)
     \<and> output_destination_of shell (last stages) = StandardOutput
     \<and> (length stages = 1 \<or> contains_any passthrough_markers (last stages)))"

definition script_groups :: "string \<Rightarrow> string list" where
  "script_groups source = concat (map (split_top_level Sequence) (str_lines (ascii_lowercase source)))"

lemma observe_group_flags:
  "fst (observe_group shell commands (n, out, u)) \<longleftrightarrow> n \<or> leaks_network commands"
  "fst (snd (observe_group shell commands (n, out, u))) \<longleftrightarrow> out \<or> leaks_output shell commands"
proof -
  have "stages \<noteq> []" if "x \<in> set stages" for x :: string and stages using that by auto
  then show "fst (observe_group shell commands (n, out, u)) \<longleftrightarrow> n \<or> leaks_network commands"
    and "fst (snd (observe_group shell commands (n, out, u))) \<longleftrightarrow> out \<or> leaks_output shell commands"
    by (auto simp: observe_group_def observe_output_def leaks_network_def leaks_output_def Let_def list_ex_iff
        split: output_destination.split)
qed

text \<open>
  The network and output flags of a script are exact: each is set precisely when some command group on
  some line leaks a secret that way, independently of the other groups.
\<close>

theorem secret_flags_exact:
  "(fst (secret_observability shell source) \<longleftrightarrow> (\<exists>c. c \<in> set (script_groups source) \<and> leaks_network c))
   \<and> (fst (snd (secret_observability shell source)) \<longleftrightarrow> (\<exists>c. c \<in> set (script_groups source) \<and> leaks_output shell c))"
proof -
  have "(fst (fold (observe_group shell) cs acc) \<longleftrightarrow> fst acc \<or> (\<exists>c \<in> set cs. leaks_network c))
      \<and> (fst (snd (fold (observe_group shell) cs acc)) \<longleftrightarrow> fst (snd acc) \<or> (\<exists>c \<in> set cs. leaks_output shell c))" for cs acc
  proof (induction cs arbitrary: acc)
    case (Cons c cs)
    from Cons [of "observe_group shell c acc"] show ?case
      using observe_group_flags [of shell c "fst acc" "fst (snd acc)" "snd (snd acc)"] by auto
  qed simp
  from this [of "script_groups source" "(False, False, [])"]
  show ?thesis by (auto simp: secret_observability_def script_groups_def)
qed

end
