(* ===== verification/Rules.thy ===== *)
theory Rules
  imports Dataflow Diagnostics Scripts
begin

text \<open>
  The verification rules and the verdict (\<^verbatim>\<open>src/verifier/mod.rs\<close>, from \<^verbatim>\<open>RuleResult\<close> to
  \<^verbatim>\<open>should_fail\<close>). A rule looks at some subjects of the program in turn; each contributes a state and
  possibly a diagnostic. \<open>H\<close> is the hash function of the diagnostic identifiers. The searches of the
  graph index are total on every program (\<open>search_total\<close>, \<open>bfs_correct\<close>, \<open>cycles_exact\<close>), so the views \<open>path_between\<close>,
  \<open>reached\<close>, \<open>dominated\<close> and \<open>cycles_of\<close> drop the fuel.
\<close>

section \<open>Common parts\<close>

record rule_result =
  rr_property :: "property option"
  rr_diagnostics :: "diagnostic list"

type_synonym finding = "property_state \<times> diagnostic list"

definition make_property :: "string \<Rightarrow> property_state \<Rightarrow> string \<Rightarrow> property" where
  "make_property i state explanation =
     \<lparr>pr_id = i, pr_state = state, pr_subject = None, pr_explanation = explanation\<rparr>"

definition make_trace :: "string \<Rightarrow> node \<Rightarrow> trace_hop" where
  "make_trace label n = \<lparr>th_node_id = nd_id n, th_label = label, th_span = nd_span n\<rparr>"

definition make_fix :: "string \<Rightarrow> string \<Rightarrow> span \<Rightarrow> fix_proposal" where
  "make_fix kind description sp = \<lparr>fx_kind = kind, fx_description = description, fx_replacement = None, fx_span = Some sp\<rparr>"

definition path_between :: "graph_index \<Rightarrow> node_id \<Rightarrow> node_id \<Rightarrow> edge_kind list \<Rightarrow> node list option" where
  "path_between idx a b kinds = Option.bind (shortest_path idx a b kinds) id"

definition reached :: "graph_index \<Rightarrow> node_id \<Rightarrow> node list" where
  "reached idx a = (case reachable idx a of None \<Rightarrow> [] | Some ns \<Rightarrow> ns)"

definition dominated :: "graph_index \<Rightarrow> node_id \<Rightarrow> node_id \<Rightarrow> bool" where
  "dominated idx d i \<longleftrightarrow> dominates idx d i = Some True"

definition cycles_of :: "graph_index \<Rightarrow> edge_kind list \<Rightarrow> node_id list list" where
  "cycles_of idx kinds = (case cycles idx kinds of None \<Rightarrow> [] | Some cs \<Rightarrow> cs)"

definition rule_of :: "string \<Rightarrow> string \<Rightarrow> finding list \<Rightarrow> rule_result" where
  "rule_of i explanation findings =
     \<lparr>rr_property = Some (make_property i (combine (map fst findings)) explanation),
      rr_diagnostics = concat (map snd findings)\<rparr>"

text \<open>Rules that do not apply when they have no subject.\<close>

definition rule_or_na :: "string \<Rightarrow> string \<Rightarrow> 'a list \<Rightarrow> finding list \<Rightarrow> rule_result" where
  "rule_or_na i explanation subjects findings =
     (if subjects = []
      then \<lparr>rr_property = Some (make_property i NotApplicable explanation), rr_diagnostics = concat (map snd findings)\<rparr>
      else rule_of i explanation findings)"

definition reasons :: "abstract_value \<Rightarrow> unknown_reason list" where
  "reasons v = bset
     ((case av_value v of VUnknown rs \<Rightarrow> rs | _ \<Rightarrow> [])
      @ (case av_trust v of trust.TUnknown rs \<Rightarrow> rs | _ \<Rightarrow> [])
      @ (case av_secrecy v of SUnknown rs \<Rightarrow> rs | _ \<Rightarrow> []))"

definition state_of_reasons :: "unknown_reason list \<Rightarrow> property_state" where
  "state_of_reasons unknowns = (if unknowns = [] then Proved else StUnknown unknowns)"

definition any_attribute_untrusted :: "node \<Rightarrow> bool" where
  "any_attribute_untrusted n = list_ex (\<lambda>(k, v). is_untrusted v) (nd_attributes n)"

definition data_trace :: "program \<Rightarrow> graph_index \<Rightarrow> dataflow \<Rightarrow> node \<Rightarrow> trace_hop list" where
  "data_trace g idx df target =
     (let candidates = filter (\<lambda>n. nd_kind n = NkResource \<and> is_untrusted (dataflow_at df n)) (pg_nodes g) in
      case find_map (\<lambda>source. path_between idx (nd_id source) (nd_id target) propagating_kinds)
             (filter any_attribute_untrusted candidates @ candidates) of
        Some path \<Rightarrow>
          map (\<lambda>(position, n). make_trace
              (if position = 0 then ''untrusted source'' else if position + 1 = length path then ''command sink'' else ''data flow'') n)
            (enumerate 0 path)
      | None \<Rightarrow> [make_trace ''command sink contains untrusted data'' target])"

section \<open>Injection\<close>

definition path_environment :: "node list \<Rightarrow> string option" where
  "path_environment path = find_map (\<lambda>n. if nd_kind n = NkResource then strip_prefix ''env:'' (nd_name n) else None) path"

definition untrusted_paths :: "program \<Rightarrow> graph_index \<Rightarrow> dataflow \<Rightarrow> node \<Rightarrow> node list list" where
  "untrusted_paths g idx df command =
     List.map_filter (\<lambda>source. path_between idx (nd_id source) (nd_id command) propagating_kinds)
       (filter (\<lambda>source. (nd_kind source = NkResource \<or> nd_kind source = NkParameter) \<and> is_untrusted (dataflow_at df source)) (pg_nodes g))"

definition unsafe_untrusted_flow :: "program \<Rightarrow> graph_index \<Rightarrow> dataflow \<Rightarrow> node \<Rightarrow> script_summary \<Rightarrow> bool" where
  "unsafe_untrusted_flow g idx df command summary =
     (let paths = untrusted_paths g idx df command in
      if paths = [] then ss_unsafe_interpolation summary
      else list_ex (\<lambda>path. case path_environment path of
             None \<Rightarrow> ss_unsafe_interpolation summary
           | Some environment \<Rightarrow>
               list_ex (\<lambda>e. expansion_mentions environment (tk_text e) \<and> \<not> tk_quoted e) (ss_expansions summary)) paths)"

definition injection_finding :: "(string \<Rightarrow> string) \<Rightarrow> program \<Rightarrow> graph_index \<Rightarrow> dataflow \<Rightarrow> node \<Rightarrow> finding" where
  "injection_finding H g idx df command =
     (let v = dataflow_at df command in
      if is_untrusted v \<and> unsafe_untrusted_flow g idx df command (script_summary_of command)
      then (Violated, [diagnostic_new H ''WV-SEC-001'' SevError High ''untrusted workflow data reaches a shell command boundary''
             (nd_span command) (data_trace g idx df command) [CapShell]
             [''abstract trust = untrusted'', ''script boundary = unquoted or provider-substituted'']
             (Some (make_fix ''environment-boundary''
                ''pass the value through an environment variable and quote it in the target shell'' (nd_span command)))])
      else (state_of_reasons (reasons v), []))"

definition injection_rule :: "(string \<Rightarrow> string) \<Rightarrow> program \<Rightarrow> graph_index \<Rightarrow> dataflow \<Rightarrow> rule_result" where
  "injection_rule H g idx df =
     rule_of ''WV-SEC-001'' ''untrusted values do not cross an unquoted command boundary''
       (map (injection_finding H g idx df) (filter (\<lambda>n. nd_kind n = NkCommand) (pg_nodes g)))"

section \<open>Secrets\<close>

definition secret_sink :: "node \<Rightarrow> bool" where
  "secret_sink n \<longleftrightarrow> nd_kind n = NkCommand \<or> EffNetworkRequest \<in> set (nd_effects n)
     \<or> (nd_kind n = NkCall \<and> CapNetwork \<in> set (nd_capabilities n))"

definition secret_sink_uncertainty :: "node \<Rightarrow> script_summary option \<Rightarrow> unknown_reason list" where
  "secret_sink_uncertainty sink summary =
     bset ((case nd_unknown sink of None \<Rightarrow> [] | Some r \<Rightarrow> [r])
       @ (case summary of None \<Rightarrow> [] | Some s \<Rightarrow> ss_unknowns s))"

definition network_attached :: "node \<Rightarrow> bool" where
  "network_attached n \<longleftrightarrow> EffNetworkRequest \<in> set (nd_effects n) \<or> CapNetwork \<in> set (nd_capabilities n)"

definition secret_finding :: "(string \<Rightarrow> string) \<Rightarrow> program \<Rightarrow> graph_index \<Rightarrow> dataflow \<Rightarrow> node \<Rightarrow> finding" where
  "secret_finding H g idx df sink =
     (let v = dataflow_at df sink;
          summary = (if nd_kind sink = NkCommand then Some (script_summary_of sink) else None);
          explicit_transport = (nd_kind sink = NkCall \<and> EffCredentialUse \<in> set (nd_effects sink));
          (network, output) = (case summary of
             None \<Rightarrow> (\<not> explicit_transport \<and> network_attached sink, False)
           | Some s \<Rightarrow> (ss_secret_to_network s \<or> network_attached sink, ss_secret_to_output s));
          uncertainty = secret_sink_uncertainty sink summary;
          observable = (network \<or> output)
      in
      if is_secret v \<and> observable
      then (Violated, [diagnostic_new H ''WV-SEC-002'' Critical High
             (if network then ''a secret reaches a network-capable command'' else ''a secret reaches workflow output or logs'')
             (nd_span sink) (data_trace g idx df sink)
             ([CapSecretAccess] @ (if nd_kind sink = NkCommand then [CapShell] else []) @ (if network then [CapNetwork] else []))
             [''abstract secrecy = secret'',
              if network then ''script effect = network_request'' else ''script effect = process output''] None])
      else if is_secret v \<and> uncertainty \<noteq> [] then (StUnknown uncertainty, [])
      else (case av_secrecy v of
          SUnknown rs \<Rightarrow>
            if observable then (StUnknown rs, [])
            else if uncertainty \<noteq> [] \<and> CapNetwork \<in> set (nd_capabilities sink) then (StUnknown uncertainty, [])
            else (Proved, [])
        | _ \<Rightarrow>
            if uncertainty \<noteq> [] \<and> CapNetwork \<in> set (nd_capabilities sink) then (StUnknown uncertainty, [])
            else (Proved, [])))"

definition secret_rule :: "(string \<Rightarrow> string) \<Rightarrow> program \<Rightarrow> graph_index \<Rightarrow> dataflow \<Rightarrow> rule_result" where
  "secret_rule H g idx df =
     rule_of ''WV-SEC-002'' ''secret values do not reach network, output, or logging effects''
       (map (secret_finding H g idx df) (filter secret_sink (pg_nodes g)))"

section \<open>Supply chain\<close>

definition locked_dependency :: "node \<Rightarrow> bool" where
  "locked_dependency call =
     (case Option.bind (bmap_get (nd_attributes call) ''dependency.digest'') constants of
        None \<Rightarrow> False | Some digests \<Rightarrow> digests \<noteq> [] \<and> list_all valid_content_digest digests)"

definition supply_finding :: "(string \<Rightarrow> string) \<Rightarrow> node \<Rightarrow> finding" where
  "supply_finding H call =
     (case (if locked_dependency call then DepImmutable else classify_reference (nd_name call)) of
        DepLocal \<Rightarrow> (Proved, [])
      | DepImmutable \<Rightarrow> (Proved, [])
      | DepMutable \<Rightarrow>
          (Violated, [diagnostic_new H ''WV-SUPPLY-001'' Warning High
             (''dependency is not pinned to immutable content: '' @ nd_name call) (nd_span call)
             [make_trace ''mutable dependency'' call] [] [''reference = '' @ nd_name call]
             (Some (make_fix ''pin-dependency'' ''resolve and replace the reference with an immutable revision'' (nd_span call)))])
      | DepUnknown \<Rightarrow> (StUnknown [UnresolvedDependency (nd_name call)], []))"

definition supply_rule :: "(string \<Rightarrow> string) \<Rightarrow> program \<Rightarrow> rule_result" where
  "supply_rule H g =
     rule_of ''WV-SUPPLY-001'' ''remote executable dependencies are content-addressed''
       (map (supply_finding H) (filter (\<lambda>n. nd_kind n = NkCall) (pg_nodes g)))"

section \<open>Correctness\<close>

definition span_of_ids :: "graph_index \<Rightarrow> node_id list \<Rightarrow> span" where
  "span_of_ids idx ids =
     (case find_map (\<lambda>i. map_option nd_span (bmap_get (gi_nodes idx) i)) ids of None \<Rightarrow> default_span | Some s \<Rightarrow> s)"

definition issue_diagnostic :: "(string \<Rightarrow> string) \<Rightarrow> graph_index \<Rightarrow> ir_issue \<Rightarrow> diagnostic" where
  "issue_diagnostic H idx issue =
     diagnostic_new H ''WV-CORRECT-001'' SevError High (is_message issue) (span_of_ids idx (is_node_ids issue)) [] []
       [is_code issue] None"

definition cycle_diagnostic :: "(string \<Rightarrow> string) \<Rightarrow> graph_index \<Rightarrow> string \<Rightarrow> node_id list \<Rightarrow> diagnostic" where
  "cycle_diagnostic H idx message cycle =
     diagnostic_new H ''WV-CORRECT-001'' SevError High message (span_of_ids idx cycle) [] []
       [join_with '' -> '' (map dec_nat cycle)] None"

definition correctness_rule :: "(string \<Rightarrow> string) \<Rightarrow> program \<Rightarrow> graph_index \<Rightarrow> rule_result" where
  "correctness_rule H g idx =
     (let diagnostics = map (issue_diagnostic H idx) (validate g)
            @ map (cycle_diagnostic H idx ''control dependency cycle'') (cycles_of idx [EkControl])
            @ map (cycle_diagnostic H idx ''recursive call graph'') (cycles_of idx [EkCall])
      in \<lparr>rr_property = Some (make_property ''WV-CORRECT-001''
            (if diagnostics \<noteq> [] then Violated else if pg_nodes g = [] then NotApplicable else Proved)
            ''the lowered graph is well-formed, phase-valid, and acyclic''),
          rr_diagnostics = diagnostics\<rparr>)"

section \<open>Permissions\<close>

definition privileged_capability :: "capability \<Rightarrow> bool" where
  "privileged_capability c \<longleftrightarrow> c \<in> {CapRepositoryWrite, CapTokenWrite, CapOidc, CapCloudCredential, CapSecretAccess,
     CapNetwork, CapFilesystemWrite, CapArtifactRead, CapArtifactWrite, CapCacheRead, CapCacheWrite, CapDeployment,
     CapSelfHostedPersistence, CapAiTool}"

definition permission_capability_matches :: "capability \<Rightarrow> observable_effect set \<Rightarrow> bool" where
  "permission_capability_matches c effects =
     (if \<not> privileged_capability c then True
      else (case c of
          CapOidc \<Rightarrow> EffDeploymentChange \<in> effects \<or> EffCredentialUse \<in> effects
        | CapCloudCredential \<Rightarrow> EffDeploymentChange \<in> effects \<or> EffCredentialUse \<in> effects
        | CapSelfHostedPersistence \<Rightarrow> EffFileWrite \<in> effects \<or> EffWorkflowChange \<in> effects
        | CapFilesystemWrite \<Rightarrow> EffFileWrite \<in> effects \<or> EffWorkflowChange \<in> effects
        | CapArtifactRead \<Rightarrow> EffArtifactPublish \<in> effects
        | CapArtifactWrite \<Rightarrow> EffArtifactPublish \<in> effects
        | CapCacheRead \<Rightarrow> EffCachePublish \<in> effects
        | CapCacheWrite \<Rightarrow> EffCachePublish \<in> effects
        | CapRepositoryWrite \<Rightarrow> EffRepositoryChange \<in> effects \<or> EffWorkflowChange \<in> effects
        | CapTokenWrite \<Rightarrow> EffRepositoryChange \<in> effects
        | CapNetwork \<Rightarrow> EffNetworkRequest \<in> effects
        | CapDeployment \<Rightarrow> EffDeploymentChange \<in> effects
        | CapSecretAccess \<Rightarrow> EffCredentialUse \<in> effects
        | CapAiTool \<Rightarrow> EffAiAgentExecution \<in> effects
        | _ \<Rightarrow> True))"

definition grants_of :: "program \<Rightarrow> (node \<times> capability) list" where
  "grants_of g = concat (map (\<lambda>n. map (\<lambda>c. (n, c)) (nd_capabilities n))
     (filter (\<lambda>n. nd_kind n = NkWorkflow \<or> nd_kind n = NkJob) (pg_nodes g)))"

definition permission_finding :: "(string \<Rightarrow> string) \<Rightarrow> graph_index \<Rightarrow> node \<times> capability \<Rightarrow> finding" where
  "permission_finding H idx = (\<lambda>(owner, c).
     (let ns = reached idx (nd_id owner);
          effects = set (concat (map (\<lambda>n. nd_effects n @ (if nd_kind n = NkCommand then script_effects n else [])) ns));
          unknowns = bset (List.map_filter nd_unknown ns)
      in if permission_capability_matches c effects then (Proved, [])
         else if unknowns \<noteq> [] then (StUnknown unknowns, [])
         else (Violated, [diagnostic_new H ''WV-PERM-001'' Warning High
             (''granted capability is not required: '' @ capability_name c) (nd_span owner)
             [make_trace ''capability grant'' owner] [c] [''no reachable effect requires this capability'']
             (Some (make_fix ''reduce-permissions'' ''remove the unused grant'' (nd_span owner)))])))"

definition permission_rule :: "(string \<Rightarrow> string) \<Rightarrow> program \<Rightarrow> graph_index \<Rightarrow> rule_result" where
  "permission_rule H g idx =
     rule_or_na ''WV-PERM-001'' ''granted capabilities are required by a reachable effect''
       (grants_of g) (map (permission_finding H idx) (grants_of g))"

section \<open>Authorization\<close>

definition privileged_node :: "node \<Rightarrow> bool" where
  "privileged_node n =
     list_ex (\<lambda>e. e = EffRepositoryChange \<or> e = EffDeploymentChange \<or> e = EffWorkflowChange)
       (nd_effects n @ (if nd_kind n = NkCommand then script_effects n else []))"

definition protected_atoms :: "string list" where
  "protected_atoms =
     [''(github.ref_protected==true)'', ''(true==github.ref_protected)'',
      ''(ci_commit_ref_protected=='' @ [double_quote] @ ''true'' @ [double_quote] @ '')'',
      ''('' @ [double_quote] @ ''true'' @ [double_quote] @ ''==ci_commit_ref_protected)'',
      ''github.ref_protected'']"

definition trusted_authorization_gate :: "node \<Rightarrow> dataflow \<Rightarrow> bool" where
  "trusted_authorization_gate n df =
     (let mechanism = (case Option.bind (bmap_get (nd_attributes n) ''mechanism'') constants of
            None \<Rightarrow> False
          | Some vs \<Rightarrow> list_ex (\<lambda>v. ascii_lowercase v = ''approval'' \<or> ascii_lowercase v = ''manual'') vs);
          protected_reference = list_ex (\<lambda>atom. ascii_lowercase atom \<in> set protected_atoms
            \<and> cond_implies (nd_condition n) (cond_atom atom)) (cond_atoms (nd_condition n));
          lower_name = ascii_lowercase (nd_name n);
          explicit_approval = (lower_name = ''environment approval''
            \<or> (nd_provider n = PrCircleci \<and> str_starts_with lower_name ''approval:''));
          v = dataflow_at df n
      in (mechanism \<or> protected_reference \<or> explicit_approval) \<and> \<not> is_untrusted v \<and> reasons v = [])"

definition environment_authorization_reasons :: "program \<Rightarrow> graph_index \<Rightarrow> node \<Rightarrow> unknown_reason list" where
  "environment_authorization_reasons g idx sink =
     bset (map (\<lambda>r. case nd_unknown r of None \<Rightarrow> ExternalState (''protection rules for '' @ nd_name r) | Some u \<Rightarrow> u)
       (filter (\<lambda>r. nd_kind r = NkResource \<and> str_starts_with (ascii_lowercase (nd_name r)) ''environment:''
          \<and> path_between idx (nd_id r) (nd_id sink) [EkGrant, EkControl, EkCall] \<noteq> None) (pg_nodes g)))"

definition authorization_gates :: "program \<Rightarrow> dataflow \<Rightarrow> node list" where
  "authorization_gates g df = filter (\<lambda>n. nd_kind n = NkGate \<and> trusted_authorization_gate n df) (pg_nodes g)"

definition authorization_finding :: "(string \<Rightarrow> string) \<Rightarrow> program \<Rightarrow> graph_index \<Rightarrow> dataflow \<Rightarrow> node \<Rightarrow> finding" where
  "authorization_finding H g idx df sink =
     (if list_ex (\<lambda>gate. dominated idx (nd_id gate) (nd_id sink)) (authorization_gates g df) then (Proved, [])
      else (let environment_reasons = environment_authorization_reasons g idx sink in
        if environment_reasons \<noteq> [] then (StUnknown environment_reasons, [])
        else (Violated, [diagnostic_new H ''WV-AUTH-001'' SevError High
          ''a privileged effect is reachable without a dominating authorization gate'' (nd_span sink)
          (case find_map (\<lambda>entry. path_between idx entry (nd_id sink) [EkControl]) (pg_entrypoints g) of
             None \<Rightarrow> [make_trace ''privileged sink without dominating gate'' sink]
           | Some path \<Rightarrow> map (make_trace ''authorization bypass'') path)
          (nd_capabilities sink) [''dominator set contains no Gate node''] None])))"

definition authorization_rule :: "(string \<Rightarrow> string) \<Rightarrow> program \<Rightarrow> graph_index \<Rightarrow> dataflow \<Rightarrow> rule_result" where
  "authorization_rule H g idx df =
     rule_of ''WV-AUTH-001'' ''every privileged effect is dominated by an authorization gate''
       (map (authorization_finding H g idx df) (filter privileged_node (pg_nodes g)))"

section \<open>Integrity of artifacts and caches\<close>

definition label_capability :: "string \<Rightarrow> capability \<Rightarrow> bool" where
  "label_capability label c =
     (if label = ''artifact'' then c = CapArtifactRead \<or> c = CapArtifactWrite
      else if label = ''cache'' then c = CapCacheRead \<or> c = CapCacheWrite
      else False)"

definition integrity_resources :: "program \<Rightarrow> string \<Rightarrow> node list" where
  "integrity_resources g label =
     filter (\<lambda>n. nd_kind n = NkResource \<and> (str_starts_with (ascii_lowercase (nd_name n)) (label @ '':'')
        \<or> list_ex (label_capability label) (nd_capabilities n))) (pg_nodes g)"

definition integrity_attack :: "program \<Rightarrow> graph_index \<Rightarrow> dataflow \<Rightarrow> node \<Rightarrow> (node \<times> node list) option" where
  "integrity_attack g idx df resource =
     (if is_untrusted (dataflow_at df resource)
      then find_map (\<lambda>sink. map_option (\<lambda>path. (sink, path))
             (path_between idx (nd_id resource) (nd_id sink) [EkControl, EkData, EkRead, EkWrite, EkPersist, EkCall]))
             (filter privileged_node (pg_nodes g))
      else None)"

definition integrity_finding ::
  "(string \<Rightarrow> string) \<Rightarrow> program \<Rightarrow> graph_index \<Rightarrow> dataflow \<Rightarrow> string \<Rightarrow> string \<Rightarrow> node \<Rightarrow> finding" where
  "integrity_finding H g idx df rule_id label resource =
     (case integrity_attack g idx df resource of
        Some (sink, path) \<Rightarrow>
          (Violated, [diagnostic_new H rule_id Critical High
             (''untrusted data can poison '' @ label @ '' consumed by a privileged effect'') (nd_span sink)
             (map (make_trace (label @ '' propagation'')) path) []
             [''resource = '' @ nd_name resource, ''abstract trust = untrusted''] None])
      | None \<Rightarrow> (state_of_reasons (reasons (dataflow_at df resource)), []))"

definition integrity_rule ::
  "(string \<Rightarrow> string) \<Rightarrow> program \<Rightarrow> graph_index \<Rightarrow> dataflow \<Rightarrow> string \<Rightarrow> string \<Rightarrow> rule_result" where
  "integrity_rule H g idx df rule_id label =
     rule_or_na rule_id (label @ '' integrity is preserved across producers and consumers'')
       (integrity_resources g label) (map (integrity_finding H g idx df rule_id label) (integrity_resources g label))"

section \<open>Mutable checkouts\<close>

definition checkout_nodes :: "program \<Rightarrow> node list" where
  "checkout_nodes g = filter (\<lambda>n. nd_kind n = NkCall
     \<and> (str_contains (ascii_lowercase (nd_name n)) ''checkout'' \<or> str_contains (ascii_lowercase (nd_name n)) ''clone'')) (pg_nodes g)"

definition toctou_finding :: "(string \<Rightarrow> string) \<Rightarrow> program \<Rightarrow> graph_index \<Rightarrow> dataflow \<Rightarrow> node \<Rightarrow> finding" where
  "toctou_finding H g idx df checkout =
     (case (if classify_reference (nd_name checkout) \<noteq> DepImmutable \<and> is_untrusted (dataflow_at df checkout)
            then find_map (\<lambda>sink. path_between idx (nd_id checkout) (nd_id sink) [EkControl, EkData, EkCall])
                   (filter privileged_node (pg_nodes g))
            else None) of
        Some path \<Rightarrow>
          (Violated, [diagnostic_new H ''WV-TOCTOU-001'' Critical High
             ''an untrusted mutable checkout reaches a privileged effect'' (nd_span checkout)
             (map (make_trace ''mutable workspace'') path) []
             [''checkout reference is mutable'', ''checkout selector is untrusted''] None])
      | None \<Rightarrow> (Proved, []))"

definition toctou_rule :: "(string \<Rightarrow> string) \<Rightarrow> program \<Rightarrow> graph_index \<Rightarrow> dataflow \<Rightarrow> rule_result" where
  "toctou_rule H g idx df =
     rule_or_na ''WV-TOCTOU-001'' ''untrusted checkout selection cannot race a privileged consumer''
       (checkout_nodes g) (map (toctou_finding H g idx df) (checkout_nodes g))"

section \<open>Credentials, agents and self-modification\<close>

definition credential_candidates :: "program \<Rightarrow> node list" where
  "credential_candidates g = filter (\<lambda>n. nd_kind n = NkCall \<and> CapSelfHostedPersistence \<in> set (nd_capabilities n)) (pg_nodes g)"

definition credential_finding :: "(string \<Rightarrow> string) \<Rightarrow> dataflow \<Rightarrow> node \<Rightarrow> finding" where
  "credential_finding H df candidate =
     (if is_secret (dataflow_at df candidate)
      then (Violated, [diagnostic_new H ''WV-CRED-001'' Critical High
             ''a credential can persist beyond its intended step or job'' (nd_span candidate)
             [make_trace ''persistent consumer'' candidate] [CapSecretAccess, CapSelfHostedPersistence]
             [''abstract secrecy = secret''] None])
      else (state_of_reasons (reasons (dataflow_at df candidate)), []))"

definition credential_rule :: "(string \<Rightarrow> string) \<Rightarrow> program \<Rightarrow> dataflow \<Rightarrow> rule_result" where
  "credential_rule H g df =
     rule_or_na ''WV-CRED-001'' ''credentials do not persist into reusable runner state''
       (credential_candidates g) (map (credential_finding H df) (credential_candidates g))"

definition ai_agents :: "program \<Rightarrow> node list" where
  "ai_agents g = filter (\<lambda>n. (nd_kind n = NkCall \<or> nd_kind n = NkCommand)
     \<and> (EffAiAgentExecution \<in> set (nd_effects n) \<or> CapAiTool \<in> set (nd_capabilities n)
        \<or> contains_any [''copilot'', ''openai'', ''claude'', ''gemini'', ''ai-agent'', ''agent-action''] (ascii_lowercase (nd_name n))))
     (pg_nodes g)"

definition ai_rule :: "(string \<Rightarrow> string) \<Rightarrow> program \<Rightarrow> dataflow \<Rightarrow> rule_result" where
  "ai_rule H g df =
     (let agents = ai_agents g;
          vulnerable = filter (\<lambda>n. is_untrusted (dataflow_at df n)
            \<and> (CapNetwork \<in> set (nd_capabilities n) \<or> CapAiTool \<in> set (nd_capabilities n))) agents
      in \<lparr>rr_property = Some (make_property ''WV-AI-001''
            (if agents = [] then NotApplicable else if vulnerable = [] then Proved else Violated)
            ''AI agent input is trusted or isolated from tools and network''),
          rr_diagnostics = map (\<lambda>n. diagnostic_new H ''WV-AI-001'' Critical High
            ''untrusted prompt data reaches an AI agent with tool or network authority'' (nd_span n)
            [make_trace ''AI agent sink'' n] [CapAiTool, CapNetwork] [] None) vulnerable\<rparr>)"

definition self_rule :: "(string \<Rightarrow> string) \<Rightarrow> program \<Rightarrow> rule_result" where
  "self_rule H g =
     (let write_granted = list_ex (\<lambda>n. CapRepositoryWrite \<in> set (nd_capabilities n)) (pg_nodes g);
          offenders = (if write_granted
            then filter (\<lambda>n. nd_kind n = NkCommand \<and> EffWorkflowChange \<in> set (script_effects n)) (pg_nodes g) else [])
      in \<lparr>rr_property = Some (make_property ''WV-SELF-001''
            (if \<not> write_granted then NotApplicable else if offenders = [] then Proved else Violated)
            ''workflow execution cannot rewrite trusted CI definitions''),
          rr_diagnostics = map (\<lambda>n. diagnostic_new H ''WV-SELF-001'' Critical High
            ''workflow code can modify CI configuration with repository write authority'' (nd_span n)
            [make_trace ''self-modifying command'' n] [CapRepositoryWrite, CapFilesystemWrite, CapShell] [] None) offenders\<rparr>)"

section \<open>The run and the verdict\<close>

text \<open>The derived order of properties: identifier, state, subject, explanation.\<close>

fun state_rank :: "property_state \<Rightarrow> nat" where
  "state_rank Proved = 0"
| "state_rank Violated = 1"
| "state_rank (StUnknown _) = 2"
| "state_rank NotApplicable = 3"

definition property_key :: "property \<Rightarrow> string \<times> (nat \<times> unknown_reason list) \<times> string option \<times> string" where
  "property_key p = (pr_id p, (state_rank (pr_state p), state_reasons (pr_state p)), pr_subject p, pr_explanation p)"

definition verification_rules :: "(string \<Rightarrow> string) \<Rightarrow> program \<Rightarrow> dataflow \<Rightarrow> rule_result list" where
  "verification_rules H g df =
     (let idx = index_new g in
      [correctness_rule H g idx, injection_rule H g idx df, secret_rule H g idx df, supply_rule H g, permission_rule H g idx,
       authorization_rule H g idx df, integrity_rule H g idx df ''WV-ARTIFACT-001'' ''artifact'',
       integrity_rule H g idx df ''WV-CACHE-001'' ''cache'', toctou_rule H g idx df, credential_rule H g df,
       ai_rule H g df, self_rule H g])"

definition verify :: "(string \<Rightarrow> string) \<Rightarrow> nat \<Rightarrow> program \<Rightarrow> verification_result option" where
  "verify H fuel g =
     map_option (\<lambda>df.
       (let rules = verification_rules H g df in
        \<lparr>vr_properties = sort_key property_key (List.map_filter rr_property rules),
         vr_diagnostics = sort_key diagnostic_key (concat (map rr_diagnostics rules)),
         vr_complete = (df_complete df \<and> list_all (\<lambda>n. nd_unknown n = None) (pg_nodes g)),
         vr_analyzed_nodes = length (pg_nodes g),
         vr_analyzed_edges = length (pg_edges g)\<rparr>))
       (solve fuel g)"

definition should_fail :: "persona \<Rightarrow> verification_result \<Rightarrow> bool" where
  "should_fail p r =
     (case p of
        Audit \<Rightarrow> False
      | Gate \<Rightarrow> list_ex (\<lambda>d. dg_confidence d = High \<and> (dg_severity d = Critical \<or> dg_severity d = SevError)) (vr_diagnostics r)
      | Paranoid \<Rightarrow> vr_diagnostics r \<noteq> [] \<or> list_ex (\<lambda>p. case pr_state p of StUnknown _ \<Rightarrow> True | _ \<Rightarrow> False) (vr_properties r))"

end
