(* ===== verification/Verdict.thy ===== *)
theory Verdict
  imports Rules Finalize
begin

text \<open>
  What the rules establish. Every rule reports a violation exactly when it has a diagnostic, which gives
  the verdict of the gate; the rules about injection, permissions, authorization and correctness are exact with
  respect to the paths of the program, through the exactness of the searches and the dataflow.
\<close>

section \<open>Violations and diagnostics\<close>

definition finding_ok :: "string \<Rightarrow> confidence \<Rightarrow> severity set \<Rightarrow> finding \<Rightarrow> bool" where
  "finding_ok i c ss f \<longleftrightarrow> (fst f = Violated \<longleftrightarrow> snd f \<noteq> [])
     \<and> (\<forall>d \<in> set (snd f). dg_rule_id d = i \<and> dg_confidence d = c \<and> dg_severity d \<in> ss)"

definition rule_ok :: "string \<Rightarrow> severity set \<Rightarrow> rule_result \<Rightarrow> bool" where
  "rule_ok i ss r \<longleftrightarrow> (\<exists>p. rr_property r = Some p \<and> pr_id p = i \<and> (pr_state p = Violated \<longleftrightarrow> rr_diagnostics r \<noteq> []))
     \<and> (\<forall>d \<in> set (rr_diagnostics r). dg_rule_id d = i \<and> dg_confidence d = High \<and> dg_severity d \<in> ss)"

lemma diagnostic_new_fields [simp]:
  "dg_rule_id (diagnostic_new H r s c m sp t cs ev fx) = r" "dg_severity (diagnostic_new H r s c m sp t cs ev fx) = s"
  "dg_confidence (diagnostic_new H r s c m sp t cs ev fx) = c"
  by (simp_all add: diagnostic_new_def Let_def)

lemma state_of_reasons_not_violated [simp]: "state_of_reasons rs \<noteq> Violated"
  by (simp add: state_of_reasons_def)

lemma rule_of_ok:
  assumes "\<And>f. f \<in> set fs \<Longrightarrow> finding_ok i High ss f"
  shows "rule_ok i ss (rule_of i e fs)"
proof -
  have "combine (map fst fs) = Violated \<longleftrightarrow> (\<exists>f \<in> set fs. fst f = Violated)"
    unfolding combine_Violated by force
  also have "\<dots> \<longleftrightarrow> (\<exists>f \<in> set fs. snd f \<noteq> [])" using assms by (auto simp: finding_ok_def)
  finally show ?thesis using assms by (auto simp: rule_ok_def rule_of_def make_property_def finding_ok_def)
qed

lemma rule_or_na_ok:
  assumes "\<And>f. f \<in> set fs \<Longrightarrow> finding_ok i High ss f" "subjects = [] \<Longrightarrow> fs = []"
  shows "rule_ok i ss (rule_or_na i e subjects fs)"
  using assms rule_of_ok [of fs i ss e] by (auto simp: rule_or_na_def rule_ok_def make_property_def)

lemma finding_ok_simple [simp]:
  "finding_ok i c ss (Violated, [d]) \<longleftrightarrow> dg_rule_id d = i \<and> dg_confidence d = c \<and> dg_severity d \<in> ss"
  "finding_ok i c ss (st, []) \<longleftrightarrow> st \<noteq> Violated"
  by (auto simp: finding_ok_def)

lemma findings_ok:
  "finding_ok ''WV-SEC-001'' High {SevError} (injection_finding H g idx df n)"
  "finding_ok ''WV-SEC-002'' High {Critical} (secret_finding H g idx df n)"
  "finding_ok ''WV-SUPPLY-001'' High {Warning} (supply_finding H n)"
  "finding_ok ''WV-PERM-001'' High {Warning} (permission_finding H idx oc)"
  "finding_ok ''WV-AUTH-001'' High {SevError} (authorization_finding H g idx df n)"
  "finding_ok i High {Critical} (integrity_finding H g idx df i label n)"
  "finding_ok ''WV-TOCTOU-001'' High {Critical} (toctou_finding H g idx df n)"
  "finding_ok ''WV-CRED-001'' High {Critical} (credential_finding H df n)"
  by (simp_all add: injection_finding_def secret_finding_def supply_finding_def permission_finding_def Let_def
      authorization_finding_def integrity_finding_def toctou_finding_def credential_finding_def
      split: prod.split option.split dependency_class.split secrecy.split)

lemma rules_ok:
  "rule_ok ''WV-CORRECT-001'' {SevError} (correctness_rule H g idx)"
  "rule_ok ''WV-SEC-001'' {SevError} (injection_rule H g idx df)"
  "rule_ok ''WV-SEC-002'' {Critical} (secret_rule H g idx df)"
  "rule_ok ''WV-SUPPLY-001'' {Warning} (supply_rule H g)"
  "rule_ok ''WV-PERM-001'' {Warning} (permission_rule H g idx)"
  "rule_ok ''WV-AUTH-001'' {SevError} (authorization_rule H g idx df)"
  "rule_ok i {Critical} (integrity_rule H g idx df i label)"
  "rule_ok ''WV-TOCTOU-001'' {Critical} (toctou_rule H g idx df)"
  "rule_ok ''WV-CRED-001'' {Critical} (credential_rule H g df)"
  "rule_ok ''WV-AI-001'' {Critical} (ai_rule H g df)"
  "rule_ok ''WV-SELF-001'' {Critical} (self_rule H g)"
  subgoal by (auto simp: rule_ok_def correctness_rule_def Let_def make_property_def issue_diagnostic_def cycle_diagnostic_def)
  subgoal unfolding injection_rule_def by (rule rule_of_ok) (auto simp: findings_ok)
  subgoal unfolding secret_rule_def by (rule rule_of_ok) (auto simp: findings_ok)
  subgoal unfolding supply_rule_def by (rule rule_of_ok) (auto simp: findings_ok)
  subgoal unfolding permission_rule_def by (rule rule_or_na_ok) (auto simp: findings_ok)
  subgoal unfolding authorization_rule_def by (rule rule_of_ok) (auto simp: findings_ok)
  subgoal unfolding integrity_rule_def by (rule rule_or_na_ok) (auto simp: findings_ok)
  subgoal unfolding toctou_rule_def by (rule rule_or_na_ok) (auto simp: findings_ok)
  subgoal unfolding credential_rule_def by (rule rule_or_na_ok) (auto simp: findings_ok)
  subgoal by (auto simp: rule_ok_def ai_rule_def Let_def make_property_def)
  subgoal by (auto simp: rule_ok_def self_rule_def Let_def make_property_def)
  done

text \<open>The rules with the severity their diagnostics carry.\<close>

definition rule_table :: "(string \<times> severity) list" where
  "rule_table =
     [(''WV-CORRECT-001'', SevError), (''WV-SEC-001'', SevError), (''WV-SEC-002'', Critical), (''WV-SUPPLY-001'', Warning),
      (''WV-PERM-001'', Warning), (''WV-AUTH-001'', SevError), (''WV-ARTIFACT-001'', Critical), (''WV-CACHE-001'', Critical),
      (''WV-TOCTOU-001'', Critical), (''WV-CRED-001'', Critical), (''WV-AI-001'', Critical), (''WV-SELF-001'', Critical)]"

lemma rules_table: "list_all2 (\<lambda>(i, s) r. rule_ok i {s} r) rule_table (verification_rules H g df)"
  by (simp add: rule_table_def verification_rules_def Let_def rules_ok)

lemma table_distinct: "distinct (map fst rule_table)"
  by (simp add: rule_table_def)

lemma table_properties:
  assumes "list_all2 (\<lambda>(i, s) r. rule_ok i {s} r) tab rules"
  shows "map pr_id (List.map_filter rr_property rules) = map fst tab"
    and "(\<exists>d \<in> set (concat (map rr_diagnostics rules)). dg_rule_id d = i)
      \<longleftrightarrow> (\<exists>p \<in> set (List.map_filter rr_property rules). pr_id p = i \<and> pr_state p = Violated)"
    and "d \<in> set (concat (map rr_diagnostics rules)) \<Longrightarrow> (dg_rule_id d, dg_severity d) \<in> set tab \<and> dg_confidence d = High"
proof -
  show "map pr_id (List.map_filter rr_property rules) = map fst tab"
    using assms by (induction rule: list_all2_induct) (auto simp: map_filter_simps rule_ok_def)
  show "d \<in> set (concat (map rr_diagnostics rules)) \<Longrightarrow> (dg_rule_id d, dg_severity d) \<in> set tab \<and> dg_confidence d = High"
    using assms by (induction rule: list_all2_induct) (auto simp: rule_ok_def)
  show "(\<exists>d \<in> set (concat (map rr_diagnostics rules)). dg_rule_id d = i)
      \<longleftrightarrow> (\<exists>p \<in> set (List.map_filter rr_property rules). pr_id p = i \<and> pr_state p = Violated)"
    using assms
  proof (induction rule: list_all2_induct)
    case (Cons x xs r rs)
    obtain j s where x: "x = (j, s)" by force
    with Cons obtain p where p: "rr_property r = Some p" "pr_id p = j" "pr_state p = Violated \<longleftrightarrow> rr_diagnostics r \<noteq> []"
        "\<forall>d \<in> set (rr_diagnostics r). dg_rule_id d = j"
      by (auto simp: rule_ok_def)
    then have "(\<exists>d \<in> set (rr_diagnostics r). dg_rule_id d = i) \<longleftrightarrow> pr_id p = i \<and> pr_state p = Violated"
      by (cases "rr_diagnostics r") auto
    with Cons.IH p(1) show ?case by (simp add: map_filter_simps bex_Un)
  qed simp
qed

lemma verify_parts:
  assumes "verify H fuel g = Some r"
  obtains df where "solve fuel g = Some df"
    "set (vr_properties r) = set (List.map_filter rr_property (verification_rules H g df))"
    "set (vr_diagnostics r) = set (concat (map rr_diagnostics (verification_rules H g df)))"
    "sorted (map property_key (vr_properties r))" "sorted (map diagnostic_key (vr_diagnostics r))"
    "mset (map pr_id (vr_properties r)) = mset (map fst rule_table)"
  using assms
proof -
  from assms obtain df where df: "solve fuel g = Some df"
    "vr_properties r = sort_key property_key (List.map_filter rr_property (verification_rules H g df))"
    "vr_diagnostics r = sort_key diagnostic_key (concat (map rr_diagnostics (verification_rules H g df)))"
    by (auto simp: verify_def Let_def)
  have "mset (map pr_id (vr_properties r)) = mset (map pr_id (List.map_filter rr_property (verification_rules H g df)))"
    using df(2) by simp
  also have "\<dots> = mset (map fst rule_table)"
    unfolding table_properties(1) [OF rules_table] ..
  finally show thesis using that df by simp
qed

text \<open>
  A completed run reports the twelve properties, each once, in order; a property is violated exactly when
  some diagnostic carries its identifier, and every diagnostic belongs to a reported property.
\<close>

theorem verify_reports:
  assumes "verify H fuel g = Some r"
  shows "distinct (map pr_id (vr_properties r)) \<and> pr_id ` set (vr_properties r) = fst ` set rule_table
    \<and> sorted (map property_key (vr_properties r)) \<and> sorted (map diagnostic_key (vr_diagnostics r))
    \<and> (\<forall>p \<in> set (vr_properties r). pr_state p = Violated \<longleftrightarrow> (\<exists>d \<in> set (vr_diagnostics r). dg_rule_id d = pr_id p))
    \<and> (\<forall>d \<in> set (vr_diagnostics r). dg_rule_id d \<in> pr_id ` set (vr_properties r))"
proof -
  from assms obtain df where df: "solve fuel g = Some df"
    "set (vr_properties r) = set (List.map_filter rr_property (verification_rules H g df))"
    "set (vr_diagnostics r) = set (concat (map rr_diagnostics (verification_rules H g df)))"
    "sorted (map property_key (vr_properties r))" "sorted (map diagnostic_key (vr_diagnostics r))"
    "mset (map pr_id (vr_properties r)) = mset (map fst rule_table)" by (rule verify_parts)
  have d: "distinct (map pr_id (vr_properties r))"
    using table_distinct mset_eq_imp_distinct_iff [OF df(6)] by simp
  have ids: "pr_id ` set (vr_properties r) = fst ` set rule_table"
    using mset_eq_setD [OF df(6)] by simp
  note t = table_properties(2,3) [OF rules_table [of H g df], folded df(2,3)]
  have "pr_state p = Violated \<longleftrightarrow> (\<exists>d \<in> set (vr_diagnostics r). dg_rule_id d = pr_id p)" if "p \<in> set (vr_properties r)" for p
    unfolding t(1) using that d by (auto simp: distinct_map dest: inj_onD)
  moreover have "dg_rule_id d \<in> pr_id ` set (vr_properties r)" if "d \<in> set (vr_diagnostics r)" for d
    unfolding ids using t(2) [OF that] by (force simp: image_iff)
  ultimately show ?thesis using d ids df(4,5) by blast
qed


section \<open>The run completes\<close>

lemma verify_some:
  assumes "dataflow_ok u g" "dataflow_fuel u g \<le> fuel"
  shows "\<exists>r. verify H fuel g = Some r \<and> vr_analyzed_nodes r = length (pg_nodes g)
    \<and> (vr_complete r \<longleftrightarrow> (\<forall>n \<in> set (pg_nodes g). nd_unknown n = None))"
proof -
  obtain df where "solve fuel g = Some df"
    using solve_flows [OF untrusted_flow.accumulating_join_axioms _ assms] by auto
  moreover from this have "df_complete df" by (auto simp: solve_def split: prod.splits)
  ultimately show ?thesis by (auto simp: verify_def Let_def list_all_iff)
qed

text \<open>
  On the values the front ends produce the run completes with the stated fuel, and calls itself complete
  exactly when no node is unknown.
\<close>

theorem verify_completes:
  assumes "dataflow_ok u g" "dataflow_fuel u g \<le> fuel"
  shows "\<exists>r. verify H fuel g = Some r \<and> vr_analyzed_nodes r = length (pg_nodes g)
    \<and> (vr_complete r \<longleftrightarrow> (\<forall>n \<in> set (pg_nodes g). nd_unknown n = None))"
  using assms by (rule verify_some)

section \<open>Rules and paths\<close>


lemma combine_all_proved:
  assumes "\<And>x. h x \<noteq> Proved \<Longrightarrow> h x = Violated \<or> state_reasons (h x) \<noteq> []"
  shows "combine (map h xs) = Proved \<longleftrightarrow> xs \<noteq> [] \<and> (\<forall>x \<in> set xs. h x = Proved)"
proof
  assume "combine (map h xs) = Proved"
  then have c: "Violated \<notin> h ` set xs" "\<And>x. x \<in> set xs \<Longrightarrow> state_reasons (h x) = []" "Proved \<in> h ` set xs"
    by (auto simp: combine_Proved)
  have "h x = Proved" if x: "x \<in> set xs" for x
  proof (rule ccontr)
    assume "h x \<noteq> Proved"
    from assms [OF this] c(2) [OF x] have "h x = Violated" by simp
    with c(1) x show False by (metis imageI)
  qed
  with c(3) show "xs \<noteq> [] \<and> (\<forall>x \<in> set xs. h x = Proved)" by auto
next
  assume "xs \<noteq> [] \<and> (\<forall>x \<in> set xs. h x = Proved)"
  then show "combine (map h xs) = Proved" by (cases xs) (auto simp: combine_Proved)
qed


definition reachable_nodes :: "program \<Rightarrow> node_id \<Rightarrow> node set" where
  "reachable_nodes g i = {n \<in> set (pg_nodes g). (i, nd_id n) \<in> (edge_relation (\<lambda>_. True) g)\<^sup>*}"

definition effects_of :: "node \<Rightarrow> observable_effect set" where
  "effects_of n = set (inferred_effects n)"

lemma map_filter_Nil: "List.map_filter f xs = [] \<longleftrightarrow> (\<forall>x \<in> set xs. f x = None)"
  by (induction xs) (auto simp: map_filter_simps split: option.splits)

text \<open>
  The permission rule is exact: it reports a grant exactly when nothing reachable from the node that
  holds it is unknown and no reachable effect needs the capability.
\<close>

theorem permission_exact:
  assumes "distinct (map nd_id (pg_nodes g))"
  shows "rr_diagnostics (permission_rule H g (index_new g)) \<noteq> [] \<longleftrightarrow>
    (\<exists>(owner, c) \<in> set (grants_of g). \<not> permission_capability_matches c (\<Union>n \<in> reachable_nodes g (nd_id owner). effects_of n)
       \<and> (\<forall>n \<in> reachable_nodes g (nd_id owner). nd_unknown n = None))"
proof -
  have r: "set (reached (index_new g) i) = reachable_nodes g i" for i
  proof -
    obtain ns where "reachable (index_new g) i = Some ns" "set ns = reachable_nodes g i"
      using reachable_set [OF assms, of i] unfolding reachable_nodes_def by blast
    then show ?thesis by (simp add: reached_def)
  qed
  have key: "snd (permission_finding H (index_new g) (owner, c)) \<noteq> [] \<longleftrightarrow>
      \<not> permission_capability_matches c (\<Union>n \<in> reachable_nodes g (nd_id owner). effects_of n)
      \<and> (\<forall>n \<in> reachable_nodes g (nd_id owner). nd_unknown n = None)" for owner c
  proof -
    have "set (concat (map (\<lambda>n. nd_effects n @ (if nd_kind n = NkCommand then script_effects n else [])) (reached (index_new g) (nd_id owner))))
        = (\<Union>n \<in> reachable_nodes g (nd_id owner). effects_of n)"
      by (simp add: r effects_of_def inferred_effects_def)
    moreover have "bset (List.map_filter nd_unknown (reached (index_new g) (nd_id owner))) = []
        \<longleftrightarrow> (\<forall>n \<in> reachable_nodes g (nd_id owner). nd_unknown n = None)"
      by (simp add: map_filter_Nil r)
    ultimately show ?thesis by (simp add: permission_finding_def Let_def)
  qed
  have "rr_diagnostics (permission_rule H g (index_new g)) \<noteq> [] \<longleftrightarrow> (\<exists>x \<in> set (grants_of g). snd (permission_finding H (index_new g) x) \<noteq> [])"
    by (auto simp: permission_rule_def rule_or_na_def rule_of_def)
  also have "\<dots> \<longleftrightarrow> (\<exists>(owner, c) \<in> set (grants_of g). \<not> permission_capability_matches c (\<Union>n \<in> reachable_nodes g (nd_id owner). effects_of n)
       \<and> (\<forall>n \<in> reachable_nodes g (nd_id owner). nd_unknown n = None))"
    by (rule bex_cong [OF refl]) (simp only: split_paired_all prod.case key)
  finally show ?thesis .
qed

lemma found_node: "find_node g x = Some s \<Longrightarrow> s \<in> set (pg_nodes g) \<and> nd_id s = x"
  by (auto simp: find_node_def split: if_splits dest: find_member intro: nth_mem) (metis nth_mem)

text \<open>
  C6. The correctness rule is exact: it is silent exactly on programs with unique node identifiers, resolved
  edges, data that never flows to an earlier phase, and acyclic control and call graphs.
\<close>

theorem correctness_exact:
  "rr_diagnostics (correctness_rule H g (index_new g)) = [] \<longleftrightarrow>
     distinct (map nd_id (pg_nodes g))
     \<and> (\<forall>e \<in> set (pg_edges g). \<exists>s t. find_node g (ed_from e) = Some s \<and> find_node g (ed_to e) = Some t
          \<and> (ed_kind e \<noteq> EkData \<or> nd_phase s \<le> nd_phase t))
     \<and> acyclic (kind_relation [EkControl] g) \<and> acyclic (kind_relation [EkCall] g)"
proof -
  have cyc: "cycles_of (index_new g) kinds = [] \<longleftrightarrow> acyclic (kind_relation kinds g)" if v: "validate g = []" for kinds
  proof -
    have e: "\<forall>e \<in> set (pg_edges g). \<exists>s. find_node g (ed_from e) = Some s"
      using v unfolding validate_silent by blast
    have "(x, x) \<in> (kind_relation kinds g)\<^sup>+ \<Longrightarrow> x \<in> nd_id ` set (pg_nodes g)" for x
    proof -
      assume "(x, x) \<in> (kind_relation kinds g)\<^sup>+"
      then obtain y where "(x, y) \<in> kind_relation kinds g" by (auto dest: tranclD)
      then obtain s where "find_node g x = Some s" using e by (auto simp: kind_relation_def edge_relation_def)
      from found_node [OF this] show ?thesis by auto
    qed
    moreover have "x \<in> nd_id ` set (pg_nodes g) \<Longrightarrow> x \<in> (kind_relation kinds g)\<^sup>* `` (nd_id ` set (pg_nodes g))" for x by blast
    ultimately show ?thesis using cycles_iff [of g kinds] by (fastforce simp: cycles_of_def acyclic_def)
  qed
  have "rr_diagnostics (correctness_rule H g (index_new g)) = [] \<longleftrightarrow>
      validate g = [] \<and> cycles_of (index_new g) [EkControl] = [] \<and> cycles_of (index_new g) [EkCall] = []"
    by (auto simp: correctness_rule_def Let_def)
  with cyc validate_silent [of g] show ?thesis by blast
qed

section \<open>Concrete runs\<close>

lemma taint_run: "\<exists>r. verify H (dataflow_fuel taint_universe taint_program) taint_program = Some r"
  using verify_some [OF taint_program_ok order_refl] by blast

lemma verify_reports_witness:
  "\<exists>r. verify id (dataflow_fuel taint_universe taint_program) taint_program = Some r
    \<and> ''WV-SEC-001'' \<in> pr_id ` set (vr_properties r)"
proof -
  obtain r where r: "verify id (dataflow_fuel taint_universe taint_program) taint_program = Some r"
    using taint_run by blast
  have "''WV-SEC-001'' \<in> fst ` set rule_table" by (simp add: rule_table_def)
  with verify_reports [OF r] r show ?thesis by simp
qed


lemma verify_completes_witness:
  "\<exists>r. verify id (dataflow_fuel taint_universe taint_program) taint_program = Some r \<and> vr_complete r"
proof -
  have "\<forall>n \<in> set (pg_nodes taint_program). nd_unknown n = None"
    by (simp add: taint_program_def add_node_def add_edge_def program_empty_def node_simple_def node_new_def)
  with verify_completes [OF taint_program_ok order_refl, of id] show ?thesis by blast
qed


definition grant_program :: program where
  "grant_program =
     add_node (node_new 1 PrGithub NkJob ''deploy'' PhRun default_span CTrue [] [CapDeployment] [] None)
       (program_empty PrGithub ''ci.yml'')"

lemma permission_exact_witness: "rr_diagnostics (permission_rule id grant_program (index_new grant_program)) \<noteq> []"
proof -
  let ?n = "node_new 1 PrGithub NkJob ''deploy'' PhRun default_span CTrue [] [CapDeployment] [] None"
  have n: "pg_nodes grant_program = [?n]" by (simp add: grant_program_def add_node_def program_empty_def)
  then have d: "distinct (map nd_id (pg_nodes grant_program))" by simp
  have "reachable_nodes grant_program i \<subseteq> {?n}" for i using n by (auto simp: reachable_nodes_def)
  moreover have "effects_of ?n = {}" "nd_unknown ?n = None" by (simp_all add: effects_of_def inferred_effects_def node_new_def)
  ultimately have "(\<Union>n \<in> reachable_nodes grant_program i. effects_of n) = {}"
      "\<forall>n \<in> reachable_nodes grant_program i. nd_unknown n = None" for i by blast+
  moreover have "(?n, CapDeployment) \<in> set (grants_of grant_program)" by (simp add: grants_of_def n) (simp add: node_new_def)
  ultimately show ?thesis
    unfolding permission_exact [OF d] by (intro bexI [of _ "(?n, CapDeployment)"])
      (simp_all add: permission_capability_matches_def privileged_capability_def)
qed

lemma correctness_exact_witness: "rr_diagnostics (correctness_rule id loop_program (index_new loop_program)) \<noteq> []"
proof -
  have "(1, 2) \<in> kind_relation [EkControl] loop_program" "(2, 1) \<in> kind_relation [EkControl] loop_program"
    by (auto simp: loop_program_edges)
  then have "(1, 1) \<in> (kind_relation [EkControl] loop_program)\<^sup>+" by (rule trancl_into_trancl [OF r_into_trancl])
  then show ?thesis unfolding correctness_exact by (auto simp: acyclic_def)
qed

end
