(* ===== verification/Compose.thy ===== *)
theory Compose
  imports Finalize
begin

text \<open>
  Composition of provider graphs into one program (\<^verbatim>\<open>compose_program\<close> in
  \<^verbatim>\<open>src/verifier/mod.rs\<close>): fragments are merged under fresh node and source identifiers, local
  calls are connected to the entry points of the unit they name, resources written in one file and
  read in another are connected, and the result is finalized.
\<close>

section \<open>Sources and identifiers\<close>

type_synonym source_key = "string \<times> provider"
type_synonym node_map = "(node_id \<times> node_id) list"

definition source_key_of :: "source \<Rightarrow> source_key" where
  "source_key_of s = (normalize_slashes (src_path s), src_provider s)"

definition collect_program_sources :: "program list \<Rightarrow> source list \<times> (source_key, source_id) bmap" where
  "collect_program_sources gs =
     (let keys = bset (concat (map (\<lambda>g. map source_key_of (pg_sources g)) gs));
          sources = map (\<lambda>(i, path, pr). \<lparr>src_id = u32_of_nat i, src_path = path, src_provider = pr\<rparr>) (enumerate 0 keys)
      in (sources, bmap_from (map (\<lambda>s. ((src_path s, src_provider s), src_id s)) sources)))"

fun build_node_maps :: "nat \<Rightarrow> program list \<Rightarrow> node_map list" where
  "build_node_maps next_node [] = []"
| "build_node_maps next_node (g # gs) =
     map (\<lambda>(i, n). (nd_id n, u32_of_nat i)) (enumerate next_node (pg_nodes g))
       # build_node_maps (next_node + length (pg_nodes g)) gs"

section \<open>Local calls\<close>

text \<open>\<^verbatim>\<open>str::trim_start_matches("./")\<close>.\<close>

fun trim_dot_slash :: "string \<Rightarrow> string" where
  "trim_dot_slash (a # b # s) = (if a = CHR ''.'' \<and> b = CHR ''/'' then trim_dot_slash s else a # b # s)"
| "trim_dot_slash s = s"

text \<open>
  \<^verbatim>\<open>std::path::Path::extension\<close> on a Unix path: empty and \<^verbatim>\<open>.\<close> components do not count, a
  leading dot of the file name starts no extension.
\<close>

definition path_extension :: "string \<Rightarrow> string option" where
  "path_extension path =
     (case rev (filter (\<lambda>c. c \<noteq> [] \<and> c \<noteq> ''.'') (split_on CHR ''/'' path)) of
        [] \<Rightarrow> None
      | file # _ \<Rightarrow>
          if file = ''..'' then None
          else (case rsplit_once CHR ''.'' file of
                  None \<Rightarrow> None
                | Some (before, after) \<Rightarrow> if before = [] then None else Some after))"

definition yaml_reference :: "string \<Rightarrow> bool" where
  "yaml_reference value =
     (case path_extension value of
        None \<Rightarrow> False
      | Some e \<Rightarrow> ascii_lowercase e = ''yml'' \<or> ascii_lowercase e = ''yaml'')"

definition local_reference :: "string \<Rightarrow> string option" where
  "local_reference name =
     (let name = (case strip_prefix ''child:'' name of Some rest \<Rightarrow> rest | None \<Rightarrow> name);
          name = (if str_starts_with name ''@'' then name
                  else (case split_once CHR ''@'' name of None \<Rightarrow> name | Some (reference, _) \<Rightarrow> reference));
          normalized = normalize_slashes name
      in if str_starts_with normalized ''./'' \<or> str_starts_with normalized ''../''
           \<or> str_starts_with normalized ''.github/'' \<or> yaml_reference normalized
         then Some normalized else None)"

definition normalized_source :: "program \<Rightarrow> string" where
  "normalized_source g = trim_dot_slash (normalize_slashes (source_path g))"

text \<open>The position of the only graph that satisfies the predicate.\<close>

definition unique_graph :: "program list \<Rightarrow> (program \<Rightarrow> bool) \<Rightarrow> nat option" where
  "unique_graph gs P = (case filter (\<lambda>(i, g). P g) (enumerate 0 gs) of [(i, g)] \<Rightarrow> Some i | _ \<Rightarrow> None)"

definition revision_target :: "node \<Rightarrow> string option" where
  "revision_target call =
     Option.bind (bmap_get (nd_attributes call) ''dependency.revision'')
       (\<lambda>v. Option.bind (constants v) (find_map (strip_prefix ''local:'')))"

definition reference_candidates :: "program \<Rightarrow> string \<Rightarrow> string list" where
  "reference_candidates caller reference =
     (let stripped = trim_dot_slash reference;
          parent = (case rsplit_once CHR ''/'' (normalize_slashes (source_path caller)) of
                      None \<Rightarrow> [] | Some (parent, _) \<Rightarrow> parent)
      in stripped
         # (if yaml_reference stripped then [] else [stripped @ ''/action.yml'', stripped @ ''/action.yaml''])
         @ (if parent \<noteq> [] \<and> \<not> str_starts_with reference ''/''
            then (case normalize_relative (parent @ ''/'' @ reference) of None \<Rightarrow> [] | Some relative \<Rightarrow> [relative])
            else []))"

definition local_call_target :: "program list \<Rightarrow> program \<Rightarrow> node \<Rightarrow> nat option" where
  "local_call_target gs caller call =
     (case revision_target call of
        Some target \<Rightarrow> unique_graph gs (\<lambda>g. normalized_source g = trim_dot_slash (normalize_slashes target))
      | None \<Rightarrow>
          (case local_reference (nd_name call) of
             None \<Rightarrow> None
           | Some reference \<Rightarrow>
               unique_graph gs (\<lambda>g. normalized_source g \<in> set (reference_candidates caller reference))))"

definition unit_edges :: "node_id \<Rightarrow> node_map \<Rightarrow> node_id list \<Rightarrow> edge list" where
  "unit_edges call target_map entrypoints =
     concat (map (\<lambda>entry. map (\<lambda>kind. edge_new kind call entry CTrue (Some ''local-unit'')) [EkCall, EkControl])
       (List.map_filter (table target_map) entrypoints))"

definition resolve_call :: "program list \<Rightarrow> node_map list \<Rightarrow> nat \<Rightarrow> node \<Rightarrow> (node_id \<times> edge list) option" where
  "resolve_call gs maps k call =
     (case local_call_target gs (gs ! k) call of
        None \<Rightarrow> None
      | Some t \<Rightarrow>
          (case table (maps ! k) (nd_id call) of
             None \<Rightarrow> None
           | Some c \<Rightarrow>
               if source_path (gs ! k) = source_path (gs ! t) then None
               else Some (c, unit_edges c (maps ! t) (pg_entrypoints (gs ! t)))))"

definition resolve_local_call_edges :: "program list \<Rightarrow> node_map list \<Rightarrow> node_id list \<times> edge list" where
  "resolve_local_call_edges gs maps =
     (let resolved = concat (map (\<lambda>(k, caller).
            List.map_filter (resolve_call gs maps k) (filter (\<lambda>n. nd_kind n = NkCall) (pg_nodes caller))) (enumerate 0 gs))
      in (bset (map fst resolved), concat (map snd resolved)))"

section \<open>Merging\<close>

definition source_remap :: "(source_key, source_id) bmap \<Rightarrow> program \<Rightarrow> source_id \<Rightarrow> source_id option" where
  "source_remap ids g =
     table (List.map_filter (\<lambda>s. map_option (Pair (src_id s)) (bmap_get ids (source_key_of s))) (pg_sources g))"

definition merge_node :: "(source_id \<Rightarrow> source_id option) \<Rightarrow> node_map \<Rightarrow> node_id list \<Rightarrow> node \<Rightarrow> node" where
  "merge_node remap nm resolved n =
     (let n = node_remap_sources remap n;
          n = n\<lparr>nd_id := (case table nm (nd_id n) of None \<Rightarrow> 0 | Some i \<Rightarrow> i)\<rparr>
      in if nd_id n \<in> set resolved then n\<lparr>nd_unknown := None\<rparr> else n)"

definition merge_edge :: "node_map \<Rightarrow> edge \<Rightarrow> edge option" where
  "merge_edge nm e =
     (case table nm (ed_from e) of
        None \<Rightarrow> None
      | Some a \<Rightarrow>
          (case table nm (ed_to e) of
             None \<Rightarrow> None
           | Some b \<Rightarrow> if a \<noteq> b then Some (e\<lparr>ed_from := a, ed_to := b\<rparr>) else None))"

definition merge_program_fragments ::
  "program list \<Rightarrow> node_map list \<Rightarrow> (source_key, source_id) bmap \<Rightarrow> node_id list \<Rightarrow> node list \<times> edge list \<times> node_id list" where
  "merge_program_fragments gs maps ids resolved =
     (concat (map (\<lambda>(g, nm). map (merge_node (source_remap ids g) nm resolved) (pg_nodes g)) (zip gs maps)),
      concat (map (\<lambda>(g, nm). List.map_filter (merge_edge nm) (pg_edges g)) (zip gs maps)),
      concat (map (\<lambda>(g, nm). List.map_filter (table nm) (pg_entrypoints g)) (zip gs maps)))"

definition cross_source_edges :: "node list \<Rightarrow> edge list \<Rightarrow> edge list" where
  "cross_source_edges nodes es =
     (let written = map ed_to (filter (\<lambda>e. ed_kind e = EkWrite \<or> ed_kind e = EkPersist) es);
          read = map ed_from (filter (\<lambda>e. ed_kind e = EkRead \<or> ed_kind e = EkData) es);
          writers = filter (\<lambda>n. nd_kind n = NkResource \<and> nd_id n \<in> set written) nodes;
          readers = filter (\<lambda>n. nd_kind n = NkResource \<and> nd_id n \<in> set read) nodes
      in concat (map (\<lambda>w. map (\<lambda>r. edge_new EkPersist (nd_id w) (nd_id r) CTrue (Some ''cross-file resource''))
           (filter (\<lambda>r. nd_name r = nd_name w \<and> nd_id r \<noteq> nd_id w
              \<and> sp_source (nd_span r) \<noteq> sp_source (nd_span w)) readers)) writers))"

definition merged_program :: "program list \<Rightarrow> program" where
  "merged_program gs =
     (let (sources, ids) = collect_program_sources gs;
          maps = build_node_maps 0 gs;
          (resolved, local_edges) = resolve_local_call_edges gs maps;
          (nodes, edges, entrypoints) = merge_program_fragments gs maps ids resolved
      in \<lparr>pg_sources = sources, pg_nodes = nodes,
          pg_edges = edges @ local_edges @ cross_source_edges nodes (edges @ local_edges),
          pg_entrypoints = entrypoints\<rparr>)"

definition compose_program :: "program list \<Rightarrow> program" where
  "compose_program gs = finalize (merged_program gs)"

section \<open>Fresh identifiers\<close>

definition fragment_ok :: "program \<Rightarrow> bool" where
  "fragment_ok g \<longleftrightarrow> distinct (map nd_id (pg_nodes g))
     \<and> (\<forall>e \<in> set (pg_edges g). ed_from e \<in> nd_id ` set (pg_nodes g) \<and> ed_to e \<in> nd_id ` set (pg_nodes g))
     \<and> set (pg_entrypoints g) \<subseteq> nd_id ` set (pg_nodes g)"

definition total_nodes :: "program list \<Rightarrow> nat" where
  "total_nodes gs = sum_list (map (\<lambda>g. length (pg_nodes g)) gs)"

definition fragments_ok :: "program list \<Rightarrow> bool" where
  "fragments_ok gs \<longleftrightarrow> (\<forall>g \<in> set gs. fragment_ok g) \<and> total_nodes gs \<le> Suc u32_max
     \<and> length (fst (collect_program_sources gs)) \<le> Suc u32_max"

definition fragment_ids :: "program list \<Rightarrow> (nat \<times> node_id) set" where
  "fragment_ids gs = (SIGMA k:{..<length gs}. nd_id ` set (pg_nodes (gs ! k)))"

text \<open>The identifier a node of fragment \<open>k\<close> has before finalization.\<close>

definition first_id :: "program list \<Rightarrow> nat \<Rightarrow> node_id \<Rightarrow> node_id" where
  "first_id gs k i = the (table (build_node_maps 0 gs ! k) i)"

lemma length_node_maps [simp]: "length (build_node_maps s gs) = length gs"
  by (induction s gs rule: build_node_maps.induct) simp_all

lemma node_map_ids:
  assumes "distinct (map nd_id ns)" "s + length ns \<le> Suc u32_max"
  shows "map (\<lambda>n. table (map (\<lambda>(i, n). (nd_id n, u32_of_nat i)) (enumerate s ns)) (nd_id n)) ns
    = map Some [s..<s + length ns]"
proof (rule nth_equalityI)
  fix i assume "i < length (map (\<lambda>n. table (map (\<lambda>(i, n). (nd_id n, u32_of_nat i)) (enumerate s ns)) (nd_id n)) ns)"
  then have i: "i < length ns" by simp
  with assms(2) have "s + i \<le> u32_max" by simp
  with table_enumerate [OF assms(1) i, of u32_of_nat s] i
  show "map (\<lambda>n. table (map (\<lambda>(i, n). (nd_id n, u32_of_nat i)) (enumerate s ns)) (nd_id n)) ns ! i
      = map Some [s..<s + length ns] ! i" by simp
qed simp

lemma node_map_Some:
  assumes "distinct (map nd_id ns)" "s + length ns \<le> Suc u32_max" "n \<in> set ns"
  shows "\<exists>j. table (map (\<lambda>(i, n). (nd_id n, u32_of_nat i)) (enumerate s ns)) (nd_id n) = Some j"
proof -
  have "table (map (\<lambda>(i, n). (nd_id n, u32_of_nat i)) (enumerate s ns)) (nd_id n)
      \<in> set (map (\<lambda>n. table (map (\<lambda>(i, n). (nd_id n, u32_of_nat i)) (enumerate s ns)) (nd_id n)) ns)"
    using assms(3) by simp
  then show ?thesis unfolding node_map_ids [OF assms(1,2)] by auto
qed

lemma node_maps_nth:
  "k < length gs \<Longrightarrow> build_node_maps s gs ! k
     = map (\<lambda>(i, n). (nd_id n, u32_of_nat i)) (enumerate (s + total_nodes (take k gs)) (pg_nodes (gs ! k)))"
proof (induction s gs arbitrary: k rule: build_node_maps.induct)
  case (2 s g gs)
  then show ?case by (cases k) (simp_all add: total_nodes_def add.assoc)
qed simp

lemma total_nodes_take: "k < length gs \<Longrightarrow> total_nodes (take k gs) + length (pg_nodes (gs ! k)) \<le> total_nodes gs"
proof (induction gs arbitrary: k)
  case (Cons g gs)
  then show ?case by (cases k) (fastforce simp: total_nodes_def)+
qed simp

lemma fragment_nth: "fragments_ok gs \<Longrightarrow> k < length gs \<Longrightarrow> fragment_ok (gs ! k)"
  by (simp add: fragments_ok_def)

lemma node_map_first:
  assumes "fragments_ok gs" "k < length gs" "i \<in> nd_id ` set (pg_nodes (gs ! k))"
  shows "table (build_node_maps 0 gs ! k) i = Some (first_id gs k i)"
proof -
  from assms(3) obtain n where "n \<in> set (pg_nodes (gs ! k))" "i = nd_id n" by auto
  moreover have "total_nodes (take k gs) + length (pg_nodes (gs ! k)) \<le> Suc u32_max"
    using total_nodes_take [OF assms(2)] assms(1) by (simp add: fragments_ok_def)
  ultimately show ?thesis
    using node_map_Some [of "pg_nodes (gs ! k)"] fragment_nth [OF assms(1,2)]
    by (auto simp: first_id_def fragment_ok_def node_maps_nth [OF assms(2)])
qed

lemma first_ids_upt:
  assumes "fragments_ok gs" "k < length gs"
  shows "map (\<lambda>n. first_id gs k (nd_id n)) (pg_nodes (gs ! k))
    = [total_nodes (take k gs)..<total_nodes (take k gs) + length (pg_nodes (gs ! k))]"
proof -
  have "total_nodes (take k gs) + length (pg_nodes (gs ! k)) \<le> Suc u32_max"
    using total_nodes_take [OF assms(2)] assms(1) by (simp add: fragments_ok_def)
  with node_map_ids [of "pg_nodes (gs ! k)"] fragment_nth [OF assms]
  have "map (\<lambda>n. table (build_node_maps 0 gs ! k) (nd_id n)) (pg_nodes (gs ! k))
      = map Some [total_nodes (take k gs)..<total_nodes (take k gs) + length (pg_nodes (gs ! k))]"
    by (simp add: fragment_ok_def node_maps_nth [OF assms(2)])
  then have "map the (map (\<lambda>n. table (build_node_maps 0 gs ! k) (nd_id n)) (pg_nodes (gs ! k)))
      = map the (map Some [total_nodes (take k gs)..<total_nodes (take k gs) + length (pg_nodes (gs ! k))])"
    by (rule arg_cong)
  then show ?thesis by (simp add: first_id_def comp_def)
qed

lemma first_ids_all:
  assumes "fragments_ok gs" "m \<le> length gs"
  shows "concat (map (\<lambda>k. map (\<lambda>n. first_id gs k (nd_id n)) (pg_nodes (gs ! k))) [0..<m]) = [0..<total_nodes (take m gs)]"
  using assms(2)
proof (induction m)
  case (Suc m)
  then have "total_nodes (take (Suc m) gs) = total_nodes (take m gs) + length (pg_nodes (gs ! m))"
    by (simp add: total_nodes_def take_Suc_conv_app_nth)
  then show ?case using Suc first_ids_upt [OF assms(1), of m] upt_add_eq_append [of 0 "total_nodes (take m gs)"]
    by simp
qed (simp add: total_nodes_def)

lemma first_id_bij:
  assumes "fragments_ok gs"
  shows "bij_betw (\<lambda>(k, i). first_id gs k i) (fragment_ids gs) {..<total_nodes gs}"
proof -
  have image: "(\<lambda>(k, i). first_id gs k i) ` fragment_ids gs = {..<total_nodes gs}"
  proof -
    have "(\<lambda>(k, i). first_id gs k i) ` fragment_ids gs
        = set (concat (map (\<lambda>k. map (\<lambda>n. first_id gs k (nd_id n)) (pg_nodes (gs ! k))) [0..<length gs]))"
      by (fastforce simp: fragment_ids_def)
    also have "\<dots> = {..<total_nodes gs}" using first_ids_all [OF assms, of "length gs"] by (simp add: atLeast0LessThan)
    finally show ?thesis .
  qed
  have "card (fragment_ids gs) = (\<Sum>k<length gs. card (nd_id ` set (pg_nodes (gs ! k))))"
    by (simp add: fragment_ids_def)
  also have "\<dots> = (\<Sum>k<length gs. length (pg_nodes (gs ! k)))"
    using fragment_nth [OF assms] by (intro sum.cong) (auto simp: fragment_ok_def card_image distinct_map distinct_card)
  also have "\<dots> = total_nodes gs"
    by (simp add: total_nodes_def sum_list_sum_nth atLeast0LessThan)
  finally have "card (fragment_ids gs) = card ((\<lambda>(k, i). first_id gs k i) ` fragment_ids gs)" by (simp add: image)
  then have "inj_on (\<lambda>(k, i). first_id gs k i) (fragment_ids gs)"
    by (intro eq_card_imp_inj_on) (simp_all add: fragment_ids_def)
  with image show ?thesis by (simp add: bij_betw_def)
qed

lemma first_id_eq:
  assumes "fragments_ok gs" "(k, i) \<in> fragment_ids gs" "(l, j) \<in> fragment_ids gs"
  shows "first_id gs k i = first_id gs l j \<longleftrightarrow> k = l \<and> i = j"
  using inj_onD [OF bij_betw_imp_inj_on [OF first_id_bij [OF assms(1)]] _ assms(2,3)] by auto

section \<open>The merged program\<close>

text \<open>The call \<open>n\<close> of fragment \<open>k\<close> is connected to the unit at position \<open>t\<close>.\<close>

definition calls_unit :: "program list \<Rightarrow> nat \<Rightarrow> node \<Rightarrow> nat \<Rightarrow> bool" where
  "calls_unit gs k n t \<longleftrightarrow> nd_kind n = NkCall \<and> local_call_target gs (gs ! k) n = Some t
     \<and> source_path (gs ! k) \<noteq> source_path (gs ! t)"

definition fragment_remap :: "program list \<Rightarrow> nat \<Rightarrow> source_id \<Rightarrow> source_id option" where
  "fragment_remap gs k = source_remap (snd (collect_program_sources gs)) (gs ! k)"

text \<open>The node \<open>n\<close> of fragment \<open>k\<close> under the identifier \<open>i\<close>.\<close>

definition placed_node :: "program list \<Rightarrow> nat \<Rightarrow> node_id \<Rightarrow> node \<Rightarrow> node" where
  "placed_node gs k i n = (node_remap_sources (fragment_remap gs k) n)
     \<lparr>nd_id := i, nd_unknown := (if \<exists>t < length gs. calls_unit gs k n t then None else nd_unknown n)\<rparr>"

lemma zip_nth: "length xs = length ys \<Longrightarrow> zip xs ys = map (\<lambda>k. (xs ! k, ys ! k)) [0..<length xs]"
  by (rule nth_equalityI) simp_all

lemma enumerate_nth: "enumerate 0 xs = map (\<lambda>k. (k, xs ! k)) [0..<length xs]"
  by (rule nth_equalityI) (simp_all add: nth_enumerate_eq)

lemma unique_graph_less: "unique_graph gs P = Some t \<Longrightarrow> t < length gs"
proof -
  assume "unique_graph gs P = Some t"
  then obtain g where "filter (\<lambda>(i, g). P g) (enumerate 0 gs) = [(t, g)]"
    by (auto simp: unique_graph_def split: list.splits)
  then have "(t, g) \<in> set (enumerate 0 gs)" by (metis filter_is_subset list.set_intros(1) subsetD)
  then show ?thesis by (simp add: in_set_enumerate_eq)
qed

lemma calls_unit_less: "calls_unit gs k n t \<Longrightarrow> t < length gs"
  by (auto simp: calls_unit_def local_call_target_def unique_graph_less split: option.splits)

lemma map_filter_total: "(\<And>x. x \<in> set xs \<Longrightarrow> f x = Some (g x)) \<Longrightarrow> List.map_filter f xs = map g xs"
  by (induction xs) (simp_all add: List.map_filter_simps)

lemma set_map_filter: "set (List.map_filter f xs) = {y. \<exists>x \<in> set xs. f x = Some y}"
  by (force simp: List.map_filter_def)

lemma resolve_call_exact:
  assumes "fragments_ok gs" "k < length gs" "n \<in> set (pg_nodes (gs ! k))" "nd_kind n = NkCall"
  shows "resolve_call gs (build_node_maps 0 gs) k n = Some r \<longleftrightarrow>
    (\<exists>t < length gs. calls_unit gs k n t \<and> r = (first_id gs k (nd_id n),
       unit_edges (first_id gs k (nd_id n)) (build_node_maps 0 gs ! t) (pg_entrypoints (gs ! t))))"
  using node_map_first [OF assms(1,2), of "nd_id n"] assms(3,4) calls_unit_less
  by (auto simp: resolve_call_def calls_unit_def split: option.splits)

definition resolved_calls :: "program list \<Rightarrow> (node_id \<times> edge list) list" where
  "resolved_calls gs = concat (map (\<lambda>(k, caller).
     List.map_filter (resolve_call gs (build_node_maps 0 gs) k) (filter (\<lambda>n. nd_kind n = NkCall) (pg_nodes caller)))
       (enumerate 0 gs))"

lemma resolved_calls_set:
  assumes "fragments_ok gs"
  shows "r \<in> set (resolved_calls gs) \<longleftrightarrow> (\<exists>k < length gs. \<exists>n \<in> set (pg_nodes (gs ! k)). \<exists>t < length gs.
    calls_unit gs k n t \<and> r = (first_id gs k (nd_id n),
       unit_edges (first_id gs k (nd_id n)) (build_node_maps 0 gs ! t) (pg_entrypoints (gs ! t))))"
proof -
  have "r \<in> set (resolved_calls gs) \<longleftrightarrow> (\<exists>k < length gs. \<exists>n \<in> set (pg_nodes (gs ! k)). nd_kind n = NkCall
      \<and> resolve_call gs (build_node_maps 0 gs) k n = Some r)"
    by (auto simp: resolved_calls_def enumerate_nth set_map_filter)
  moreover have "nd_kind n = NkCall \<and> resolve_call gs (build_node_maps 0 gs) k n = Some r
      \<longleftrightarrow> (\<exists>t < length gs. calls_unit gs k n t \<and> r = (first_id gs k (nd_id n),
       unit_edges (first_id gs k (nd_id n)) (build_node_maps 0 gs ! t) (pg_entrypoints (gs ! t))))"
    if "k < length gs" "n \<in> set (pg_nodes (gs ! k))" for k n
    using resolve_call_exact [OF assms that] by (cases "nd_kind n = NkCall") (auto simp: calls_unit_def)
  ultimately show ?thesis by metis
qed

lemma resolved_ids:
  assumes "fragments_ok gs"
  shows "set (fst (resolve_local_call_edges gs (build_node_maps 0 gs)))
    = {first_id gs k (nd_id n) |k n. k < length gs \<and> n \<in> set (pg_nodes (gs ! k)) \<and> (\<exists>t < length gs. calls_unit gs k n t)}"
proof -
  have "set (fst (resolve_local_call_edges gs (build_node_maps 0 gs))) = fst ` set (resolved_calls gs)"
    by (simp add: resolve_local_call_edges_def resolved_calls_def Let_def)
  also have "\<dots> = {c. \<exists>es. (c, es) \<in> set (resolved_calls gs)}" by force
  finally show ?thesis unfolding resolved_calls_set [OF assms] by blast
qed

lemma resolved_call_iff:
  assumes "fragments_ok gs" "k < length gs" "n \<in> set (pg_nodes (gs ! k))"
  shows "first_id gs k (nd_id n) \<in> set (fst (resolve_local_call_edges gs (build_node_maps 0 gs)))
    \<longleftrightarrow> (\<exists>t < length gs. calls_unit gs k n t)"
proof
  assume "first_id gs k (nd_id n) \<in> set (fst (resolve_local_call_edges gs (build_node_maps 0 gs)))"
  then obtain l m where m: "first_id gs k (nd_id n) = first_id gs l (nd_id m)" "l < length gs"
      "m \<in> set (pg_nodes (gs ! l))" "\<exists>t < length gs. calls_unit gs l m t"
    unfolding resolved_ids [OF assms(1)] by blast
  have "k = l \<and> nd_id n = nd_id m"
    using m(1-3) assms(2,3) first_id_eq [OF assms(1), of k "nd_id n" l "nd_id m"] by (auto simp: fragment_ids_def)
  moreover have "n = m" if "k = l" "nd_id n = nd_id m"
    using that m(3) assms(3) fragment_nth [OF assms(1,2)] by (auto simp: fragment_ok_def distinct_map dest: inj_onD)
  ultimately show "\<exists>t < length gs. calls_unit gs k n t" using m(4) by blast
next
  assume "\<exists>t < length gs. calls_unit gs k n t"
  with assms(2,3) show "first_id gs k (nd_id n) \<in> set (fst (resolve_local_call_edges gs (build_node_maps 0 gs)))"
    unfolding resolved_ids [OF assms(1)] by blast
qed

lemma unit_edges_set:
  assumes "fragments_ok gs" "t < length gs"
  shows "set (unit_edges c (build_node_maps 0 gs ! t) (pg_entrypoints (gs ! t)))
    = {edge_new kind c (first_id gs t i) CTrue (Some ''local-unit'') |kind i.
         kind \<in> {EkCall, EkControl} \<and> i \<in> set (pg_entrypoints (gs ! t))}"
proof -
  have "table (build_node_maps 0 gs ! t) i = Some (first_id gs t i)" if "i \<in> set (pg_entrypoints (gs ! t))" for i
    using node_map_first [OF assms] fragment_nth [OF assms] that by (auto simp: fragment_ok_def)
  then show ?thesis by (auto simp: unit_edges_def map_filter_total)
qed

definition unit_call_edges :: "program list \<Rightarrow> (nat \<Rightarrow> node_id \<Rightarrow> node_id) \<Rightarrow> edge set" where
  "unit_call_edges gs f = {edge_new kind (f k (nd_id n)) (f t i) CTrue (Some ''local-unit'') |kind k n t i.
     kind \<in> {EkCall, EkControl} \<and> k < length gs \<and> n \<in> set (pg_nodes (gs ! k)) \<and> t < length gs
     \<and> calls_unit gs k n t \<and> i \<in> set (pg_entrypoints (gs ! t))}"

lemma local_edges_set:
  assumes "fragments_ok gs"
  shows "set (snd (resolve_local_call_edges gs (build_node_maps 0 gs))) = unit_call_edges gs (first_id gs)"
proof -
  have "set (snd (resolve_local_call_edges gs (build_node_maps 0 gs))) = {e. \<exists>c es. (c, es) \<in> set (resolved_calls gs) \<and> e \<in> set es}"
    by (fastforce simp: resolve_local_call_edges_def resolved_calls_def Let_def)
  also have "\<dots> = {e. \<exists>k < length gs. \<exists>n \<in> set (pg_nodes (gs ! k)). \<exists>t < length gs. calls_unit gs k n t
           \<and> e \<in> set (unit_edges (first_id gs k (nd_id n)) (build_node_maps 0 gs ! t) (pg_entrypoints (gs ! t)))}"
    unfolding resolved_calls_set [OF assms] by blast
  also have "\<dots> = {e. \<exists>k < length gs. \<exists>n \<in> set (pg_nodes (gs ! k)). \<exists>t < length gs. calls_unit gs k n t
           \<and> e \<in> {edge_new kind (first_id gs k (nd_id n)) (first_id gs t i) CTrue (Some ''local-unit'') |kind i.
               kind \<in> {EkCall, EkControl} \<and> i \<in> set (pg_entrypoints (gs ! t))}}"
    by (simp only: unit_edges_set [OF assms] cong: conj_cong)
  also have "\<dots> = unit_call_edges gs (first_id gs)" unfolding unit_call_edges_def by blast
  finally show ?thesis .
qed

lemma merge_node_placed:
  assumes "fragments_ok gs" "k < length gs" "n \<in> set (pg_nodes (gs ! k))"
  shows "merge_node (fragment_remap gs k) (build_node_maps 0 gs ! k)
      (fst (resolve_local_call_edges gs (build_node_maps 0 gs))) n = placed_node gs k (first_id gs k (nd_id n)) n"
  using node_map_first [OF assms(1,2), of "nd_id n"] assms(3) resolved_call_iff [OF assms]
  by (auto simp: merge_node_def placed_node_def node_remap_sources_def Let_def intro!: node.equality)

lemma merged_nodes:
  assumes "fragments_ok gs"
  shows "pg_nodes (merged_program gs) = concat (map (\<lambda>k. map (\<lambda>n. placed_node gs k (first_id gs k (nd_id n)) n)
    (pg_nodes (gs ! k))) [0..<length gs])"
proof -
  have "pg_nodes (merged_program gs) = concat (map (\<lambda>k. map (merge_node (fragment_remap gs k) (build_node_maps 0 gs ! k)
      (fst (resolve_local_call_edges gs (build_node_maps 0 gs)))) (pg_nodes (gs ! k))) [0..<length gs])"
    by (simp add: merged_program_def Let_def case_prod_unfold merge_program_fragments_def zip_nth fragment_remap_def comp_def)
  also have "\<dots> = concat (map (\<lambda>k. map (\<lambda>n. placed_node gs k (first_id gs k (nd_id n)) n) (pg_nodes (gs ! k))) [0..<length gs])"
    using merge_node_placed [OF assms] by (intro arg_cong [of _ _ concat] map_cong) simp_all
  finally show ?thesis .
qed

lemma merged_ids: "fragments_ok gs \<Longrightarrow> map nd_id (pg_nodes (merged_program gs)) = [0..<total_nodes gs]"
  using first_ids_all [of gs "length gs"]
  by (simp add: merged_nodes map_concat comp_def placed_node_def)

lemma in_merged_nodes:
  "fragments_ok gs \<Longrightarrow> m \<in> set (pg_nodes (merged_program gs)) \<longleftrightarrow>
     (\<exists>k < length gs. \<exists>n \<in> set (pg_nodes (gs ! k)). m = placed_node gs k (first_id gs k (nd_id n)) n)"
  by (auto simp: merged_nodes)

definition fragment_edges :: "program list \<Rightarrow> (nat \<Rightarrow> node_id \<Rightarrow> node_id) \<Rightarrow> edge set" where
  "fragment_edges gs f = {e\<lparr>ed_from := f k (ed_from e), ed_to := f k (ed_to e)\<rparr> |k e.
     k < length gs \<and> e \<in> set (pg_edges (gs ! k)) \<and> ed_from e \<noteq> ed_to e}"

lemma edge_ids:
  "fragments_ok gs \<Longrightarrow> k < length gs \<Longrightarrow> e \<in> set (pg_edges (gs ! k)) \<Longrightarrow>
     (k, ed_from e) \<in> fragment_ids gs \<and> (k, ed_to e) \<in> fragment_ids gs"
  using fragment_nth [of gs k] by (auto simp: fragment_ok_def fragment_ids_def)

lemma entry_in_fragment:
  "fragments_ok gs \<Longrightarrow> k < length gs \<Longrightarrow> i \<in> set (pg_entrypoints (gs ! k)) \<Longrightarrow> (k, i) \<in> fragment_ids gs"
  using fragment_nth [of gs k] by (auto simp: fragment_ok_def fragment_ids_def)

lemma merge_edge_first:
  assumes "fragments_ok gs" "k < length gs" "e \<in> set (pg_edges (gs ! k))"
  shows "merge_edge (build_node_maps 0 gs ! k) e =
    (if ed_from e \<noteq> ed_to e then Some (e\<lparr>ed_from := first_id gs k (ed_from e), ed_to := first_id gs k (ed_to e)\<rparr>) else None)"
proof -
  have ids: "(k, ed_from e) \<in> fragment_ids gs" "(k, ed_to e) \<in> fragment_ids gs" using edge_ids [OF assms] by simp_all
  then have "table (build_node_maps 0 gs ! k) (ed_from e) = Some (first_id gs k (ed_from e))"
      "table (build_node_maps 0 gs ! k) (ed_to e) = Some (first_id gs k (ed_to e))"
    using node_map_first [OF assms(1,2)] by (simp_all add: fragment_ids_def)
  then show ?thesis using first_id_eq [OF assms(1) ids] by (simp add: merge_edge_def)
qed

lemma merged_fragment_edges:
  assumes "fragments_ok gs"
  shows "set (fst (snd (merge_program_fragments gs (build_node_maps 0 gs) ids resolved))) = fragment_edges gs (first_id gs)"
proof -
  have "set (fst (snd (merge_program_fragments gs (build_node_maps 0 gs) ids resolved)))
      = {e'. \<exists>k < length gs. \<exists>e \<in> set (pg_edges (gs ! k)). merge_edge (build_node_maps 0 gs ! k) e = Some e'}"
    by (auto simp: merge_program_fragments_def zip_nth set_map_filter)
  also have "\<dots> = {e'. \<exists>k < length gs. \<exists>e \<in> set (pg_edges (gs ! k)). ed_from e \<noteq> ed_to e
      \<and> e' = e\<lparr>ed_from := first_id gs k (ed_from e), ed_to := first_id gs k (ed_to e)\<rparr>}"
    by (intro Collect_cong ex_cong1 conj_cong bex_cong refl) (auto simp: merge_edge_first [OF assms])
  also have "\<dots> = fragment_edges gs (first_id gs)" unfolding fragment_edges_def by blast
  finally show ?thesis .
qed

text \<open>A resource some edge of the fragment writes, and one some edge reads.\<close>

definition written_in :: "program \<Rightarrow> node \<Rightarrow> bool" where
  "written_in g n \<longleftrightarrow> n \<in> set (pg_nodes g) \<and> nd_kind n = NkResource
     \<and> (\<exists>e \<in> set (pg_edges g). ed_kind e \<in> {EkWrite, EkPersist} \<and> ed_from e \<noteq> ed_to e \<and> ed_to e = nd_id n)"

definition read_in :: "program \<Rightarrow> node \<Rightarrow> bool" where
  "read_in g n \<longleftrightarrow> n \<in> set (pg_nodes g) \<and> nd_kind n = NkResource
     \<and> (\<exists>e \<in> set (pg_edges g). ed_kind e \<in> {EkRead, EkData} \<and> ed_from e \<noteq> ed_to e \<and> ed_from e = nd_id n)"

definition unified_source :: "program list \<Rightarrow> nat \<Rightarrow> node \<Rightarrow> source_id" where
  "unified_source gs k n = remap_id (fragment_remap gs k) (sp_source (nd_span n))"

definition resource_edges :: "program list \<Rightarrow> (nat \<Rightarrow> node_id \<Rightarrow> node_id) \<Rightarrow> edge set" where
  "resource_edges gs f = {edge_new EkPersist (f k (nd_id w)) (f l (nd_id r)) CTrue (Some ''cross-file resource'') |k w l r.
     k < length gs \<and> l < length gs \<and> written_in (gs ! k) w \<and> read_in (gs ! l) r
     \<and> nd_name r = nd_name w \<and> unified_source gs l r \<noteq> unified_source gs k w}"

lemma first_id_touched:
  assumes "fragments_ok gs" "k < length gs" "n \<in> set (pg_nodes (gs ! k))"
  shows "(\<exists>e \<in> fragment_edges gs (first_id gs). ed_kind e \<in> K \<and> ed_to e = first_id gs k (nd_id n))
      \<longleftrightarrow> (\<exists>e \<in> set (pg_edges (gs ! k)). ed_kind e \<in> K \<and> ed_from e \<noteq> ed_to e \<and> ed_to e = nd_id n)"
    "(\<exists>e \<in> fragment_edges gs (first_id gs). ed_kind e \<in> K \<and> ed_from e = first_id gs k (nd_id n))
      \<longleftrightarrow> (\<exists>e \<in> set (pg_edges (gs ! k)). ed_kind e \<in> K \<and> ed_from e \<noteq> ed_to e \<and> ed_from e = nd_id n)"
proof -
  have n: "(k, nd_id n) \<in> fragment_ids gs" using assms(2,3) by (simp add: fragment_ids_def)
  have to: "first_id gs l (ed_to e) = first_id gs k (nd_id n) \<longleftrightarrow> l = k \<and> ed_to e = nd_id n"
    and from_: "first_id gs l (ed_from e) = first_id gs k (nd_id n) \<longleftrightarrow> l = k \<and> ed_from e = nd_id n"
    if "l < length gs" "e \<in> set (pg_edges (gs ! l))" for l e
    using first_id_eq [OF assms(1) _ n] edge_ids [OF assms(1) that] by blast+
  show "(\<exists>e \<in> fragment_edges gs (first_id gs). ed_kind e \<in> K \<and> ed_to e = first_id gs k (nd_id n))
      \<longleftrightarrow> (\<exists>e \<in> set (pg_edges (gs ! k)). ed_kind e \<in> K \<and> ed_from e \<noteq> ed_to e \<and> ed_to e = nd_id n)"
    using to assms(2) by (fastforce simp: fragment_edges_def)
  show "(\<exists>e \<in> fragment_edges gs (first_id gs). ed_kind e \<in> K \<and> ed_from e = first_id gs k (nd_id n))
      \<longleftrightarrow> (\<exists>e \<in> set (pg_edges (gs ! k)). ed_kind e \<in> K \<and> ed_from e \<noteq> ed_to e \<and> ed_from e = nd_id n)"
    using from_ assms(2) by (fastforce simp: fragment_edges_def)
qed

definition writes_resource :: "edge set \<Rightarrow> node \<Rightarrow> bool" where
  "writes_resource es n \<longleftrightarrow> nd_kind n = NkResource \<and> (\<exists>e \<in> es. ed_kind e \<in> {EkWrite, EkPersist} \<and> ed_to e = nd_id n)"

definition reads_resource :: "edge set \<Rightarrow> node \<Rightarrow> bool" where
  "reads_resource es n \<longleftrightarrow> nd_kind n = NkResource \<and> (\<exists>e \<in> es. ed_kind e \<in> {EkRead, EkData} \<and> ed_from e = nd_id n)"

lemma cross_source_edges_iff:
  "e \<in> set (cross_source_edges nodes es) \<longleftrightarrow> (\<exists>w \<in> set nodes. \<exists>r \<in> set nodes. writes_resource (set es) w \<and> reads_resource (set es) r
     \<and> nd_name r = nd_name w \<and> nd_id r \<noteq> nd_id w \<and> sp_source (nd_span r) \<noteq> sp_source (nd_span w)
     \<and> e = edge_new EkPersist (nd_id w) (nd_id r) CTrue (Some ''cross-file resource''))"
proof -
  have w: "nd_kind w = NkResource \<and> nd_id w \<in> set (map ed_to (filter (\<lambda>e. ed_kind e = EkWrite \<or> ed_kind e = EkPersist) es))
      \<longleftrightarrow> writes_resource (set es) w" for w
    by (auto simp: writes_resource_def image_iff)
  have r: "nd_kind r = NkResource \<and> nd_id r \<in> set (map ed_from (filter (\<lambda>e. ed_kind e = EkRead \<or> ed_kind e = EkData) es))
      \<longleftrightarrow> reads_resource (set es) r" for r
    by (auto simp: reads_resource_def image_iff)
  show ?thesis unfolding cross_source_edges_def Let_def w r
    by (simp add: set_concat image_iff) blast
qed

lemma placed_fields [simp]:
  "nd_id (placed_node gs k i n) = i" "nd_kind (placed_node gs k i n) = nd_kind n"
  "nd_name (placed_node gs k i n) = nd_name n" "sp_source (nd_span (placed_node gs k i n)) = unified_source gs k n"
  by (simp_all add: placed_node_def node_remap_sources_def remap_span_def unified_source_def)

lemma placed_resource:
  assumes "fragments_ok gs" "es = fragment_edges gs (first_id gs) \<union> unit_call_edges gs (first_id gs)"
    "k < length gs" "n \<in> set (pg_nodes (gs ! k))"
  shows "writes_resource es (placed_node gs k (first_id gs k (nd_id n)) n) \<longleftrightarrow> written_in (gs ! k) n"
    "reads_resource es (placed_node gs k (first_id gs k (nd_id n)) n) \<longleftrightarrow> read_in (gs ! k) n"
proof -
  have unit: "ed_kind e \<in> {EkCall, EkControl}" if "e \<in> unit_call_edges gs (first_id gs)" for e
    using that by (auto simp: unit_call_edges_def edge_new_def)
  have only: "(\<exists>e \<in> es. ed_kind e \<in> K \<and> P e) \<longleftrightarrow> (\<exists>e \<in> fragment_edges gs (first_id gs). ed_kind e \<in> K \<and> P e)"
    if "EkCall \<notin> K" "EkControl \<notin> K" for K P
  proof -
    have "\<not> (\<exists>e \<in> unit_call_edges gs (first_id gs). ed_kind e \<in> K \<and> P e)" using that unit by fastforce
    then show ?thesis by (simp only: assms(2) bex_Un simp_thms)
  qed
  show "writes_resource es (placed_node gs k (first_id gs k (nd_id n)) n) \<longleftrightarrow> written_in (gs ! k) n"
    unfolding writes_resource_def written_in_def placed_fields
    by (subst only) (simp_all only: first_id_touched [OF assms(1,3,4)] assms(4), simp_all)
  show "reads_resource es (placed_node gs k (first_id gs k (nd_id n)) n) \<longleftrightarrow> read_in (gs ! k) n"
    unfolding reads_resource_def read_in_def placed_fields
    by (subst only) (simp_all only: first_id_touched [OF assms(1,3,4)] assms(4), simp_all)
qed

lemma resource_ids_differ:
  assumes "fragments_ok gs" "k < length gs" "l < length gs" "w \<in> set (pg_nodes (gs ! k))" "r \<in> set (pg_nodes (gs ! l))"
    "unified_source gs l r \<noteq> unified_source gs k w"
  shows "first_id gs l (nd_id r) \<noteq> first_id gs k (nd_id w)"
proof
  assume "first_id gs l (nd_id r) = first_id gs k (nd_id w)"
  then have *: "l = k" "nd_id r = nd_id w"
    using first_id_eq [OF assms(1), of l "nd_id r" k "nd_id w"] assms by (auto simp: fragment_ids_def)
  then have "r = w"
    using assms(4,5) fragment_nth [OF assms(1,2)] by (auto simp: fragment_ok_def distinct_map dest: inj_onD)
  with * assms(6) show False by simp
qed

lemma cross_edges_set:
  assumes "fragments_ok gs" "nodes = pg_nodes (merged_program gs)"
    "set es = fragment_edges gs (first_id gs) \<union> unit_call_edges gs (first_id gs)"
  shows "set (cross_source_edges nodes es) = resource_edges gs (first_id gs)"
proof
  let ?at = "\<lambda>k n. placed_node gs k (first_id gs k (nd_id n)) n"
  let ?e = "\<lambda>w r. edge_new EkPersist (nd_id w) (nd_id r) CTrue (Some ''cross-file resource'')"
  note placed = placed_resource [OF assms(1,3)]
  note in_nodes = in_merged_nodes [OF assms(1)]
  show "set (cross_source_edges nodes es) \<subseteq> resource_edges gs (first_id gs)"
  proof
    fix e assume "e \<in> set (cross_source_edges nodes es)"
    then obtain w' r' where c: "w' \<in> set nodes" "r' \<in> set nodes" "writes_resource (set es) w'" "reads_resource (set es) r'"
        "nd_name r' = nd_name w'" "sp_source (nd_span r') \<noteq> sp_source (nd_span w')" "e = ?e w' r'"
      unfolding cross_source_edges_iff by blast
    then obtain k w l r where p: "k < length gs" "w \<in> set (pg_nodes (gs ! k))" "w' = ?at k w"
        "l < length gs" "r \<in> set (pg_nodes (gs ! l))" "r' = ?at l r"
      unfolding assms(2) in_nodes by blast
    then have "written_in (gs ! k) w" "read_in (gs ! l) r" using c(3,4) placed by simp_all
    with p c(5-7) show "e \<in> resource_edges gs (first_id gs)" unfolding resource_edges_def by auto
  qed
  show "resource_edges gs (first_id gs) \<subseteq> set (cross_source_edges nodes es)"
  proof
    fix e assume "e \<in> resource_edges gs (first_id gs)"
    then obtain k w l r where p: "k < length gs" "l < length gs" "written_in (gs ! k) w" "read_in (gs ! l) r"
        "nd_name r = nd_name w" "unified_source gs l r \<noteq> unified_source gs k w"
        "e = ?e (?at k w) (?at l r)"
      unfolding resource_edges_def placed_fields by blast
    then have n: "w \<in> set (pg_nodes (gs ! k))" "r \<in> set (pg_nodes (gs ! l))" by (simp_all add: written_in_def read_in_def)
    have "?at k w \<in> set nodes" "?at l r \<in> set nodes" using p(1,2) n unfolding assms(2) in_nodes by blast+
    moreover have "writes_resource (set es) (?at k w)" "reads_resource (set es) (?at l r)" using p(1-4) n placed by simp_all
    moreover have "first_id gs l (nd_id r) \<noteq> first_id gs k (nd_id w)" by (rule resource_ids_differ [OF assms(1) p(1,2) n p(6)])
    ultimately show "e \<in> set (cross_source_edges nodes es)" unfolding cross_source_edges_iff
      by (intro bexI [of _ "?at k w"] bexI [of _ "?at l r"]) (simp_all add: p(5-7))
  qed
qed

lemma merged_edges:
  assumes "fragments_ok gs"
  shows "set (pg_edges (merged_program gs)) = fragment_edges gs (first_id gs) \<union> unit_call_edges gs (first_id gs)
    \<union> resource_edges gs (first_id gs)"
proof -
  obtain sources ids where s: "collect_program_sources gs = (sources, ids)" by fastforce
  obtain resolved local where l: "resolve_local_call_edges gs (build_node_maps 0 gs) = (resolved, local)" by fastforce
  obtain nodes es entries where m: "merge_program_fragments gs (build_node_maps 0 gs) ids resolved = (nodes, es, entries)"
    by (metis prod_cases3)
  have p: "merged_program gs = \<lparr>pg_sources = sources, pg_nodes = nodes,
      pg_edges = es @ local @ cross_source_edges nodes (es @ local), pg_entrypoints = entries\<rparr>"
    by (simp add: merged_program_def s l m)
  have "set (es @ local) = fragment_edges gs (first_id gs) \<union> unit_call_edges gs (first_id gs)"
    using merged_fragment_edges [OF assms, of ids resolved] local_edges_set [OF assms] by (simp add: l m)
  with cross_edges_set [OF assms, of nodes "es @ local"] show ?thesis by (auto simp: p)
qed

lemma merged_entrypoints:
  assumes "fragments_ok gs"
  shows "set (pg_entrypoints (merged_program gs)) = {first_id gs k i |k i. k < length gs \<and> i \<in> set (pg_entrypoints (gs ! k))}"
proof -
  have "set (pg_entrypoints (merged_program gs))
      = {j. \<exists>k < length gs. \<exists>i \<in> set (pg_entrypoints (gs ! k)). table (build_node_maps 0 gs ! k) i = Some j}"
    by (auto simp: merged_program_def Let_def case_prod_unfold merge_program_fragments_def zip_nth set_map_filter)
  moreover have "table (build_node_maps 0 gs ! k) i = Some (first_id gs k i)"
    if "k < length gs" "i \<in> set (pg_entrypoints (gs ! k))" for k i
    using node_map_first [OF assms that(1)] entry_in_fragment [OF assms that] by (simp add: fragment_ids_def)
  ultimately show ?thesis by force
qed

lemma merged_sources:
  assumes "fragments_ok gs"
  shows "dense src_id (pg_sources (merged_program gs))"
    "map (\<lambda>s. (src_path s, src_provider s)) (pg_sources (merged_program gs))
       = bset (concat (map (\<lambda>g. map source_key_of (pg_sources g)) gs))"
    "length (pg_sources (merged_program gs)) \<le> Suc u32_max"
proof -
  let ?keys = "bset (concat (map (\<lambda>g. map source_key_of (pg_sources g)) gs))"
  have src: "pg_sources (merged_program gs)
      = map (\<lambda>(i, path, pr). \<lparr>src_id = u32_of_nat i, src_path = path, src_provider = pr\<rparr>) (enumerate 0 ?keys)"
    by (simp add: merged_program_def Let_def collect_program_sources_def case_prod_unfold)
  have len: "length ?keys \<le> Suc u32_max"
    using assms by (simp add: fragments_ok_def collect_program_sources_def Let_def)
  show "length (pg_sources (merged_program gs)) \<le> Suc u32_max" using len by (simp add: src)
  show "dense src_id (pg_sources (merged_program gs))"
    unfolding dense_def src
    by (rule nth_equalityI) (use len in \<open>simp_all add: nth_enumerate_eq case_prod_unfold\<close>)
  show "map (\<lambda>s. (src_path s, src_provider s)) (pg_sources (merged_program gs)) = ?keys"
    unfolding src by (rule nth_equalityI) (simp_all add: nth_enumerate_eq case_prod_unfold)
qed

lemma merged_remap:
  assumes "fragments_ok gs"
  shows "node_remap_sources (renumbering src_id (final_sources (merged_program gs))) n = n"
proof -
  have "sorted (map (\<lambda>s. (src_path s, src_provider s)) (pg_sources (merged_program gs)))"
    unfolding merged_sources(2) [OF assms] by (rule strict_sorted_imp_sorted) (rule canonical_bset)
  then have "final_sources (merged_program gs) = pg_sources (merged_program gs)"
    unfolding final_sources_def by (rule sort_key_id_if_sorted)
  with remap_dense [OF merged_sources(1) [OF assms] merged_sources(3) [OF assms]] show ?thesis by (simp add: node_remap_identity)
qed

lemma edge_ends:
  assumes "fragments_ok gs" "e \<in> fragment_edges gs f \<union> unit_call_edges gs f \<union> resource_edges gs f"
  shows "\<exists>(k, i) \<in> fragment_ids gs. \<exists>(l, j) \<in> fragment_ids gs. ed_from e = f k i \<and> ed_to e = f l j"
proof -
  have node: "(k, nd_id n) \<in> fragment_ids gs" if "k < length gs" "n \<in> set (pg_nodes (gs ! k))" for k n
    using that by (simp add: fragment_ids_def)
  from assms(2) consider "e \<in> fragment_edges gs f" | "e \<in> unit_call_edges gs f" | "e \<in> resource_edges gs f" by blast
  then show ?thesis
  proof cases
    case 1
    then obtain k e0 where "k < length gs" "e0 \<in> set (pg_edges (gs ! k))" "ed_from e = f k (ed_from e0)" "ed_to e = f k (ed_to e0)"
      by (auto simp: fragment_edges_def)
    with edge_ids [OF assms(1)] show ?thesis by blast
  next
    case 2
    then obtain k n t i where "k < length gs" "n \<in> set (pg_nodes (gs ! k))" "t < length gs" "i \<in> set (pg_entrypoints (gs ! t))"
        "ed_from e = f k (nd_id n)" "ed_to e = f t i"
      by (auto simp: unit_call_edges_def edge_new_def)
    with node entry_in_fragment [OF assms(1)] show ?thesis by blast
  next
    case 3
    then obtain k w l r where "k < length gs" "w \<in> set (pg_nodes (gs ! k))" "l < length gs" "r \<in> set (pg_nodes (gs ! l))"
        "ed_from e = f k (nd_id w)" "ed_to e = f l (nd_id r)"
      by (auto simp: resource_edges_def edge_new_def written_in_def read_in_def)
    with node show ?thesis by blast
  qed
qed

lemma merged_ok:
  assumes "fragments_ok gs"
  shows "program_ok (merged_program gs)"
proof -
  have ids: "nd_id ` set (pg_nodes (merged_program gs)) = {..<total_nodes gs}"
    using arg_cong [OF merged_ids [OF assms], of set] by (simp add: atLeast0LessThan)
  have first: "first_id gs k i < total_nodes gs" if "(k, i) \<in> fragment_ids gs" for k i
    using bij_betwE [OF first_id_bij [OF assms]] that by fastforce
  have "ed_from e < total_nodes gs \<and> ed_to e < total_nodes gs" if "e \<in> set (pg_edges (merged_program gs))" for e
    using edge_ends [OF assms that [unfolded merged_edges [OF assms]]] first by fastforce
  moreover have "set (pg_entrypoints (merged_program gs)) \<subseteq> {..<total_nodes gs}"
    unfolding merged_entrypoints [OF assms] by (auto intro!: first entry_in_fragment [OF assms])
  moreover have "distinct (map nd_id (pg_nodes (merged_program gs)))" by (simp add: merged_ids [OF assms])
  moreover have "length (pg_nodes (merged_program gs)) = total_nodes gs"
    using arg_cong [OF merged_ids [OF assms], of length] by simp
  moreover have "distinct (map src_id (pg_sources (merged_program gs)))"
    using merged_sources(1) [OF assms] by (simp add: dense_def)
  ultimately show ?thesis
    using merged_sources(3) [OF assms] assms by (auto simp: program_ok_def ids fragments_ok_def)
qed

section \<open>The composed program\<close>

text \<open>The identifier of node \<open>i\<close> of fragment \<open>k\<close> in the composed program.\<close>

definition composed_id :: "program list \<Rightarrow> nat \<Rightarrow> node_id \<Rightarrow> node_id" where
  "composed_id gs k i = final_id (merged_program gs) (first_id gs k i)"

lemma composed_id_bij:
  assumes "fragments_ok gs"
  shows "bij_betw (\<lambda>(k, i). composed_id gs k i) (fragment_ids gs) {..<total_nodes gs}"
proof -
  have "nd_id ` set (pg_nodes (merged_program gs)) = {..<total_nodes gs}" "length (pg_nodes (merged_program gs)) = total_nodes gs"
    using arg_cong [OF merged_ids [OF assms], of set] arg_cong [OF merged_ids [OF assms], of length]
    by (simp_all add: atLeast0LessThan)
  with final_id_bij [OF merged_ok [OF assms]]
  have "bij_betw (final_id (merged_program gs)) {..<total_nodes gs} {..<total_nodes gs}" by simp
  from bij_betw_trans [OF first_id_bij [OF assms] this] show ?thesis
    by (simp add: comp_def case_prod_unfold composed_id_def)
qed

lemma image_edges:
  "{e\<lparr>ed_from := h (ed_from e), ed_to := h (ed_to e)\<rparr> |e. e \<in> fragment_edges gs f \<union> unit_call_edges gs f \<union> resource_edges gs f}
   = fragment_edges gs (\<lambda>k i. h (f k i)) \<union> unit_call_edges gs (\<lambda>k i. h (f k i)) \<union> resource_edges gs (\<lambda>k i. h (f k i))"
proof -
  let ?f = "\<lambda>e :: edge. e\<lparr>ed_from := h (ed_from e), ed_to := h (ed_to e)\<rparr>"
  have "{?f e |e. e \<in> A} = ?f ` A" for A by blast
  moreover have "?f ` fragment_edges gs f = fragment_edges gs (\<lambda>k i. h (f k i))"
    by (force simp: fragment_edges_def image_iff)
  moreover have "?f ` unit_call_edges gs f = unit_call_edges gs (\<lambda>k i. h (f k i))"
    unfolding unit_call_edges_def edge_new_def by (force simp: image_iff)
  moreover have "?f ` resource_edges gs f = resource_edges gs (\<lambda>k i. h (f k i))"
    unfolding resource_edges_def edge_new_def by (force simp: image_iff)
  ultimately show ?thesis by (simp only: image_Un)
qed

lemma merged_no_loops:
  assumes "fragments_ok gs" "e \<in> set (pg_edges (merged_program gs))"
  shows "ed_from e \<noteq> ed_to e"
proof -
  from assms(2) consider "e \<in> fragment_edges gs (first_id gs)" | "e \<in> unit_call_edges gs (first_id gs)"
    | "e \<in> resource_edges gs (first_id gs)" unfolding merged_edges [OF assms(1)] by blast
  then show ?thesis
  proof cases
    case 1
    then show ?thesis using first_id_eq [OF assms(1)] edge_ids [OF assms(1)] by (auto simp: fragment_edges_def)
  next
    case 2
    then obtain k n t i where *: "k < length gs" "n \<in> set (pg_nodes (gs ! k))" "t < length gs" "calls_unit gs k n t"
        "i \<in> set (pg_entrypoints (gs ! t))" "ed_from e = first_id gs k (nd_id n)" "ed_to e = first_id gs t i"
      by (auto simp: unit_call_edges_def edge_new_def)
    then have "k \<noteq> t" by (auto simp: calls_unit_def)
    with * show ?thesis
      using first_id_eq [OF assms(1) _ entry_in_fragment [OF assms(1) *(3,5)], of k "nd_id n"] by (auto simp: fragment_ids_def)
  next
    case 3
    then obtain k w l r where "k < length gs" "w \<in> set (pg_nodes (gs ! k))" "l < length gs" "r \<in> set (pg_nodes (gs ! l))"
        "unified_source gs l r \<noteq> unified_source gs k w" "ed_from e = first_id gs k (nd_id w)" "ed_to e = first_id gs l (nd_id r)"
      by (auto simp: resource_edges_def edge_new_def written_in_def read_in_def)
    with resource_ids_differ [OF assms(1)] show ?thesis by metis
  qed
qed

lemma composed_edges:
  assumes "fragments_ok gs"
  shows "set (pg_edges (compose_program gs)) = fragment_edges gs (composed_id gs)
     \<union> unit_call_edges gs (composed_id gs) \<union> resource_edges gs (composed_id gs)"
proof -
  have "set (pg_edges (compose_program gs)) = {e\<lparr>ed_from := final_id (merged_program gs) (ed_from e),
      ed_to := final_id (merged_program gs) (ed_to e)\<rparr> |e. e \<in> set (pg_edges (merged_program gs))}"
    using finalize_isomorphic [OF merged_ok [OF assms]] merged_no_loops [OF assms] by (auto simp: compose_program_def)
  then show ?thesis
    unfolding merged_edges [OF assms] image_edges composed_id_def by simp
qed

lemma composed_entrypoints:
  assumes "fragments_ok gs"
  shows "set (pg_entrypoints (compose_program gs)) = {composed_id gs k i |k i. k < length gs \<and> i \<in> set (pg_entrypoints (gs ! k))}"
  using finalize_isomorphic [OF merged_ok [OF assms]] merged_entrypoints [OF assms]
  by (auto simp: compose_program_def composed_id_def)

lemma composed_node:
  assumes "fragments_ok gs" "k < length gs" "n \<in> set (pg_nodes (gs ! k))"
  shows "pg_nodes (compose_program gs) ! composed_id gs k (nd_id n) = placed_node gs k (composed_id gs k (nd_id n)) n"
proof -
  let ?m = "placed_node gs k (first_id gs k (nd_id n)) n"
  have "?m \<in> set (pg_nodes (merged_program gs))" using assms(2,3) unfolding in_merged_nodes [OF assms(1)] by blast
  from finalize_node [OF merged_ok [OF assms(1)] this]
  show ?thesis by (simp add: merged_remap [OF assms(1)] compose_program_def composed_id_def placed_node_def)
qed

lemma composed_ids:
  assumes "fragments_ok gs"
  shows "map nd_id (pg_nodes (compose_program gs)) = [0..<total_nodes gs]"
proof -
  have "length (pg_nodes (merged_program gs)) = total_nodes gs"
    using arg_cong [OF merged_ids [OF assms], of length] by simp
  then show ?thesis using finalize_isomorphic [OF merged_ok [OF assms]] by (simp add: compose_program_def)
qed

text \<open>
  C13. Composition keeps every node of every fragment exactly once: identifiers are dense, the renaming of
  the pairs of fragment and identifier is a bijection onto them, and each node is the original one
  with its sources renumbered and its unknown marker dropped exactly when it is a call that was
  connected to a unit.
\<close>

theorem compose_nodes_exact:
  assumes "fragments_ok gs"
  shows "map nd_id (pg_nodes (compose_program gs)) = [0..<total_nodes gs]
    \<and> bij_betw (\<lambda>(k, i). composed_id gs k i) (fragment_ids gs) {..<total_nodes gs}
    \<and> (\<forall>k < length gs. \<forall>n \<in> set (pg_nodes (gs ! k)).
         pg_nodes (compose_program gs) ! composed_id gs k (nd_id n) = placed_node gs k (composed_id gs k (nd_id n)) n)"
  using composed_ids [OF assms] composed_id_bij [OF assms] composed_node [OF assms] by blast

text \<open>
  C14. The edges of the composition are exactly the renamed edges of the fragments without self-loops, a
  call and a control edge from every connected local call to every entry point of the unit it names,
  and a persistence edge from every resource written in one source to every resource of the same
  name read in another; its entry points are exactly the renamed ones.
\<close>

theorem compose_edges_exact:
  assumes "fragments_ok gs"
  shows "set (pg_edges (compose_program gs)) = fragment_edges gs (composed_id gs)
      \<union> unit_call_edges gs (composed_id gs) \<union> resource_edges gs (composed_id gs)
    \<and> set (pg_entrypoints (compose_program gs)) = {composed_id gs k i |k i. k < length gs \<and> i \<in> set (pg_entrypoints (gs ! k))}"
  using composed_edges [OF assms] composed_entrypoints [OF assms] by blast

section \<open>A caller and a callee\<close>

definition caller_fragment :: program where
  "caller_fragment = \<lparr>pg_sources = [\<lparr>src_id = 0, src_path = ''a.yml'', src_provider = PrGithub\<rparr>],
     pg_nodes = [node_simple 4 PrGithub NkCall ''./b.yml'' PhRun default_span],
     pg_edges = [], pg_entrypoints = [4]\<rparr>"

definition callee_fragment :: program where
  "callee_fragment = \<lparr>pg_sources = [\<lparr>src_id = 0, src_path = ''b.yml'', src_provider = PrGithub\<rparr>],
     pg_nodes = [node_simple 4 PrGithub NkWorkflow ''b'' PhRun default_span],
     pg_edges = [], pg_entrypoints = [4]\<rparr>"

lemmas fragment_simps = caller_fragment_def callee_fragment_def node_simple_def node_new_def

lemma two_fragments_ok: "fragments_ok [caller_fragment, callee_fragment]"
  by (simp add: fragments_ok_def fragment_ok_def total_nodes_def collect_program_sources_def fragment_simps
      source_key_of_def normalize_slashes_def u32_max_def bset_sort Let_def)

lemma caller_calls: "calls_unit [caller_fragment, callee_fragment] 0
    (node_simple 4 PrGithub NkCall ''./b.yml'' PhRun default_span) 1"
  by (simp add: calls_unit_def local_call_target_def revision_target_def local_reference_def unique_graph_def
      normalized_source_def reference_candidates_def fragment_simps source_path_def normalize_slashes_def
      str_starts_with_def split_once_def yaml_reference_def path_extension_def rsplit_once_def Let_def)

lemma compose_nodes_exact_witness:
  "map nd_id (pg_nodes (compose_program [caller_fragment, callee_fragment])) = [0, 1]"
  using compose_nodes_exact [OF two_fragments_ok] by (simp add: total_nodes_def fragment_simps upt_rec)

lemma compose_edges_exact_witness:
  "edge_new EkControl (composed_id [caller_fragment, callee_fragment] 0 4) (composed_id [caller_fragment, callee_fragment] 1 4)
     CTrue (Some ''local-unit'') \<in> set (pg_edges (compose_program [caller_fragment, callee_fragment]))"
proof -
  let ?gs = "[caller_fragment, callee_fragment]" and ?n = "node_simple 4 PrGithub NkCall ''./b.yml'' PhRun default_span"
  have "?n \<in> set (pg_nodes (?gs ! 0))" "nd_id ?n = 4" "4 \<in> set (pg_entrypoints (?gs ! 1))"
    by (simp_all add: fragment_simps)
  then have "edge_new EkControl (composed_id ?gs 0 4) (composed_id ?gs 1 4) CTrue (Some ''local-unit'')
      \<in> unit_call_edges ?gs (composed_id ?gs)"
    using caller_calls unfolding unit_call_edges_def by (intro CollectI exI [of _ EkControl] exI [of _ 0] exI [of _ ?n] exI [of _ 1] exI [of _ 4]) simp
  with compose_edges_exact [OF two_fragments_ok] show ?thesis by blast
qed

end
