(* ===== verification/Id_Search.thy ===== *)
theory Id_Search
  imports Graph_Paths "HOL-Library.Multiset"
begin

text \<open>
  The breadth-first search over plain successor lists that \<^verbatim>\<open>src/product/policy.rs\<close> and
  \<^verbatim>\<open>src/product/semantic_diff.rs\<close> write out again. It visits what \<open>bfs_loop\<close> visits, whatever
  the representation of the successors, as long as they are the chosen neighbours in order: duplicates
  do not matter (\<open>push_ids_dedup\<close>), and so the searches inherit \<open>bfs_correct\<close>.
\<close>

fun push_ids :: "node_id \<Rightarrow> node_id list \<Rightarrow> node_id list \<times> predecessor_map \<Rightarrow> node_id list \<times> predecessor_map" where
  "push_ids c [] st = st"
| "push_ids c (x # xs) (queue, prev) =
     push_ids c xs (if bmap_get prev x = None then (queue @ [x], bmap_insert x (Some c) prev) else (queue, prev))"

fun bfs_ids :: "nat \<Rightarrow> (node_id \<Rightarrow> node_id list) \<Rightarrow> node_id \<Rightarrow> node_id list \<Rightarrow> predecessor_map \<Rightarrow> node_id list option option" where
  "bfs_ids 0 succ goal queue prev = None"
| "bfs_ids (Suc n) succ goal [] prev = Some None"
| "bfs_ids (Suc n) succ goal (c # queue) prev =
     (if c = goal then map_option (\<lambda>ids. Some (rev ids)) (trace_back (length prev + 1) prev (Some c))
      else (case push_ids c (succ c) (queue, prev) of (queue', prev') \<Rightarrow> bfs_ids n succ goal queue' prev'))"

text \<open>Sorted without duplicates: \<^verbatim>\<open>sort\<close> and \<^verbatim>\<open>dedup\<close>.\<close>

definition sort_dedup :: "node_id list \<Rightarrow> node_id list" where
  "sort_dedup xs = remdups_adj (sort xs)"

lemma set_sort_dedup [simp]: "set (sort_dedup xs) = set xs"
  by (simp add: sort_dedup_def)

lemma push_neighbours_ids: "push_neighbours kinds c vs st = push_ids c (kind_neighbours kinds vs) st"
  by (induction kinds c vs st rule: push_neighbours.induct) (auto simp: kind_neighbours_def)

lemma push_ids_known: "bmap_get prev x \<noteq> None \<Longrightarrow> push_ids c (x # xs) (queue, prev) = push_ids c xs (queue, prev)"
  by auto

lemma push_ids_dedup: "bmap_ok (snd st) \<Longrightarrow> push_ids c (remdups_adj xs) st = push_ids c xs st"
proof (induction xs arbitrary: st rule: remdups_adj.induct)
  case (3 x y xs)
  obtain queue prev where st: "st = (queue, prev)" by (cases st)
  show ?case
  proof (cases "x = y")
    case True
    with 3 st have "push_ids c (remdups_adj (x # y # xs)) st = push_ids c (x # xs) st" by simp
    also have "\<dots> = push_ids c (x # y # xs) st"
      using "3.prems" True st by (auto simp: bmap_get_insert)
    finally show ?thesis .
  next
    case False
    have "bmap_ok (bmap_insert x (Some c) prev)" using "3.prems" st by (simp add: bmap_ok_insert)
    then show ?thesis using False "3.IH"(2) [OF False] "3.prems" st by auto
  qed
qed simp_all

lemma sorted_kind_neighbours:
  "kind_neighbours kinds (sort vs) = sort (kind_neighbours kinds vs)"
proof (rule properties_for_sort [symmetric])
  have "sorted (map fst (filter P xs))" if "sorted xs" for P and xs :: "(node_id \<times> edge_kind) list"
    using that by (induction xs) (auto simp: less_eq_prod_def)
  then show "sorted (kind_neighbours kinds (sort vs))" by (simp add: kind_neighbours_def)
qed (simp add: kind_neighbours_def mset_filter)

text \<open>The chosen successors of a program, sorted.\<close>

definition chosen_targets :: "edge_kind list \<Rightarrow> program \<Rightarrow> node_id \<Rightarrow> node_id list" where
  "chosen_targets kinds g c = map ed_to (filter (\<lambda>e. ed_from e = c \<and> ed_kind e \<in> set kinds) (pg_edges g))"

lemma kind_neighbours_program: "kind_neighbours kinds (neighbours (index_new g) c) = sort (chosen_targets kinds g c)"
proof -
  have "neighbours (index_new g) c = sort (map (\<lambda>e. (ed_to e, ed_kind e)) (filter (\<lambda>e. ed_from e = c) (pg_edges g)))"
    by (rule neighbours_index)
  then show ?thesis
    by (simp add: sorted_kind_neighbours) (simp add: kind_neighbours_def chosen_targets_def filter_map comp_def conj_commute)
qed

lemma push_ids_ok: "bmap_ok (snd st) \<Longrightarrow> bmap_ok (snd (push_ids c xs st))"
  by (induction c xs st rule: push_ids.induct) (simp_all add: bmap_ok_insert)

lemma bfs_ids_loop:
  assumes "\<And>c. succ c = sort_dedup (chosen_targets kinds g c)"
  shows "bmap_ok prev \<Longrightarrow> bfs_ids n succ goal queue prev = bfs_loop n (index_new g) kinds goal queue prev"
proof (induction n arbitrary: queue prev)
  case (Suc n)
  show ?case
  proof (cases queue)
    case (Cons c rest)
    have push: "push_ids c (succ c) (rest, prev) = push_neighbours kinds c (neighbours (index_new g) c) (rest, prev)"
      using push_ids_dedup [of "(rest, prev)" c] Suc.prems
      by (simp add: assms sort_dedup_def push_neighbours_ids kind_neighbours_program)
    obtain queue' prev' where st: "push_neighbours kinds c (neighbours (index_new g) c) (rest, prev) = (queue', prev')" by fastforce
    have "bmap_ok prev'" using push_ids_ok [of "(rest, prev)" c "succ c"] Suc.prems push st by simp
    with Suc.IH show ?thesis by (simp add: Cons push st)
  qed simp
qed simp

text \<open>So the search from one node to another returns what the verifier's does.\<close>

definition ids_path :: "nat \<Rightarrow> (node_id \<Rightarrow> node_id list) \<Rightarrow> node_id \<Rightarrow> node_id \<Rightarrow> node_id list option option" where
  "ids_path fuel succ origin goal = bfs_ids fuel succ goal [origin] [(origin, None)]"

definition edge_fuel :: "program \<Rightarrow> nat" where
  "edge_fuel g = length (pg_edges g) + 2"

lemma ids_path_shortest:
  assumes "\<And>c. succ c = sort_dedup (chosen_targets kinds g c)"
  shows "ids_path (edge_fuel g) succ origin goal = shortest_ids (index_new g) origin goal kinds"
proof -
  have "search_fuel (index_new g) = edge_fuel g" by (simp add: edge_fuel_def search_fuel_def index_new_def)
  then show ?thesis
    using bfs_ids_loop [where succ = succ, OF assms, of "[(origin, None)]"]
    by (simp only: ids_path_def shortest_ids_def) (simp add: bmap_ok_def)
qed

lemma shortest_ids_spec:
  "\<exists>res. shortest_ids (index_new g) origin goal kinds = Some res
    \<and> (res = None \<longleftrightarrow> (origin, goal) \<notin> (kind_relation kinds g)\<^sup>*)
    \<and> (\<forall>ids. res = Some ids \<longrightarrow> path_from_to (kind_relation kinds g) origin goal ids
         \<and> (\<forall>p. path_from_to (kind_relation kinds g) origin goal p \<longrightarrow> length ids \<le> length p))"
proof -
  let ?r = "kind_relation kinds g" and ?U = "insert origin (targets g)"
  have "card (?U - {origin}) \<le> card (targets g)"
    by (rule card_mono) (auto simp: targets_def)
  then have fuel: "length [origin] + card (?U - dom (bmap_get [(origin, None :: node_id option)])) < search_fuel (index_new g)"
    using card_targets [of g] by (simp add: search_fuel_def index_new_def)
  have inv: "bfs_inv ?r origin goal (\<lambda>_. 0) [origin] (bmap_get [(origin, None)])"
    by (auto simp: bfs_inv_def)
  have closed: "?r `` ?U \<subseteq> ?U" by (auto simp: kind_relation_def edge_relation_def targets_def)
  show ?thesis
    using bfs_correct [OF inv _ _ _ closed fuel] by (auto simp: shortest_ids_def bmap_ok_def targets_def)
qed

end
