(* ===== verification/Policy.thy ===== *)
theory Policy
  imports Id_Search Rules
begin

text \<open>
  Repository policies (\<^verbatim>\<open>src/product/policy.rs\<close>): selectors over the nodes of a program, the four
  kinds of rules and their diagnostics, and the textual form of selectors. The policy module has a
  graph index of its own, over control, call and data edges together.
\<close>

section \<open>Rules and selectors\<close>

datatype policy_trust = PtTrusted | PtUntrusted | PtMixed | PtUnknown

datatype mutability = MutImmutable | MutMutable | MutLocal | MutUnknown

datatype selector_predicate =
  OnProvider provider | OnNodeKind node_kind | OnPathPrefix string | OnTrust policy_trust
| OnEffect observable_effect | OnCapability capability | OnMutability mutability | OnDominatedByGate bool

datatype policy_selector =
  SelectAll "selector_predicate list" | SelectAny "selector_predicate list" | SelectNoneOf "selector_predicate list"

datatype policy_rule_kind = Forbid | Require | Limit nat | ForbidPath

record policy_rule =
  po_id :: string
  po_kind :: policy_rule_kind
  po_selector :: policy_selector
  po_message :: string
  po_severity :: severity

fun policy_trust_name :: "policy_trust \<Rightarrow> string" where
  "policy_trust_name PtTrusted = ''trusted''"
| "policy_trust_name PtUntrusted = ''untrusted''"
| "policy_trust_name PtMixed = ''mixed''"
| "policy_trust_name PtUnknown = ''unknown''"

fun mutability_name :: "mutability \<Rightarrow> string" where
  "mutability_name MutImmutable = ''immutable''"
| "mutability_name MutMutable = ''mutable''"
| "mutability_name MutLocal = ''local''"
| "mutability_name MutUnknown = ''unknown''"

fun mutability_from :: "dependency_class \<Rightarrow> mutability" where
  "mutability_from DepImmutable = MutImmutable"
| "mutability_from DepMutable = MutMutable"
| "mutability_from DepLocal = MutLocal"
| "mutability_from DepUnknown = MutUnknown"

section \<open>The policy index\<close>

definition policy_kinds :: "edge_kind list" where
  "policy_kinds = [EkControl, EkCall, EkData, EkRead, EkWrite, EkPersist]"

record policy_index =
  pi_graph :: program
  pi_nodes :: "(node_id, node) bmap"
  pi_outgoing :: "(node_id, node_id list) bmap"

definition push_outgoing :: "edge \<Rightarrow> (node_id, node_id list) bmap \<Rightarrow> (node_id, node_id list) bmap" where
  "push_outgoing e m = bmap_insert (ed_from e) (bmap_get_or [] m (ed_from e) @ [ed_to e]) m"

definition policy_index_new :: "program \<Rightarrow> policy_index" where
  "policy_index_new g =
     \<lparr>pi_graph = g, pi_nodes = bmap_from (map (\<lambda>n. (nd_id n, n)) (pg_nodes g)),
      pi_outgoing = map (map_prod id sort_dedup)
        (fold push_outgoing (filter (\<lambda>e. ed_kind e \<in> set policy_kinds) (pg_edges g)) [])\<rparr>"

definition policy_successors :: "policy_index \<Rightarrow> node_id \<Rightarrow> node_id list" where
  "policy_successors idx i = bmap_get_or [] (pi_outgoing idx) i"

text \<open>
  The searches take fuel; the views below drop it, since they always return
  (\<open>policy_path_total\<close>, \<open>policy_avoiding_exact\<close>).
\<close>

definition policy_path :: "policy_index \<Rightarrow> node_id \<Rightarrow> node_id \<Rightarrow> node list option option" where
  "policy_path idx origin goal =
     map_option (map_option (List.map_filter (bmap_get (pi_nodes idx))))
       (ids_path (edge_fuel (pi_graph idx)) (policy_successors idx) origin goal)"

definition policy_path_between :: "policy_index \<Rightarrow> node_id \<Rightarrow> node_id \<Rightarrow> node list option" where
  "policy_path_between idx origin goal = Option.bind (policy_path idx origin goal) id"

definition policy_avoiding :: "policy_index \<Rightarrow> node_id \<Rightarrow> node_id \<Rightarrow> node_id \<Rightarrow> bool option" where
  "policy_avoiding idx origin goal avoided =
     (if origin = avoided then Some False
      else map_option fst
        (search_loop (edge_fuel (pi_graph idx)) (\<lambda>i. filter (\<lambda>x. x \<noteq> avoided) (policy_successors idx i))
           (Some goal) [origin] [origin]))"

definition policy_entries :: "policy_index \<Rightarrow> node_id list" where
  "policy_entries idx =
     (if pg_entrypoints (pi_graph idx) = []
      then filter (\<lambda>i. \<not> list_ex (\<lambda>e. ed_to e = i) (pg_edges (pi_graph idx))) (bmap_keys (pi_nodes idx))
      else pg_entrypoints (pi_graph idx))"

definition policy_dominates :: "policy_index \<Rightarrow> node_id \<Rightarrow> node_id \<Rightarrow> bool" where
  "policy_dominates idx dominator i \<longleftrightarrow> dominator = i
     \<or> \<not> list_ex (\<lambda>entry. policy_avoiding idx entry i dominator = Some True) (policy_entries idx)"

definition gate_dominates :: "policy_index \<Rightarrow> node \<Rightarrow> bool" where
  "gate_dominates idx n \<longleftrightarrow>
     list_ex (\<lambda>gate. policy_dominates idx (nd_id gate) (nd_id n)) (filter (\<lambda>c. nd_kind c = NkGate) (pg_nodes (pi_graph idx)))"

section \<open>Selecting nodes\<close>

definition joined_value :: "node \<Rightarrow> abstract_value" where
  "joined_value n = fold (\<lambda>v joined. join_abstract joined v) (map snd (nd_attributes n)) default_value"

definition node_mutability :: "node \<Rightarrow> mutability" where
  "node_mutability n =
     (if nd_kind n \<noteq> NkCall then MutUnknown
      else if (case Option.bind (bmap_get (nd_attributes n) ''dependency.digest'') constants of
                 None \<Rightarrow> False | Some vs \<Rightarrow> vs \<noteq> [] \<and> list_all valid_content_digest vs) then MutImmutable
      else mutability_from (classify_reference (nd_name n)))"

definition policy_effects :: "node \<Rightarrow> observable_effect list" where
  "policy_effects n = bset (nd_effects n
     @ (if nd_kind n = NkCommand
        then (let source = ascii_lowercase (command_source n) in
          [EffCommandExecution]
          @ (if list_ex (str_contains source) [''curl '', ''wget '', ''invoke-webrequest'', ''fetch('', ''requests.'']
             then [EffNetworkRequest] else [])
          @ (if str_contains source ''git push'' \<or> str_contains source ''gh pr merge'' \<or> str_contains source ''gh release''
             then [EffRepositoryChange] else []))
        else []))"

definition trust_matches :: "trust \<Rightarrow> policy_trust \<Rightarrow> bool" where
  "trust_matches t expected =
     (case (t, expected) of
        (Trusted, PtTrusted) \<Rightarrow> True
      | (Untrusted, PtUntrusted) \<Rightarrow> True
      | (TMixed, PtMixed) \<Rightarrow> True
      | (trust.TUnknown _, PtUnknown) \<Rightarrow> True
      | _ \<Rightarrow> False)"

fun predicate_matches :: "policy_index \<Rightarrow> node \<Rightarrow> selector_predicate \<Rightarrow> bool" where
  "predicate_matches idx n (OnProvider p) = (nd_provider n = p)"
| "predicate_matches idx n (OnNodeKind k) = (nd_kind n = k)"
| "predicate_matches idx n (OnPathPrefix pre) =
     (case source_path_for (pi_graph idx) (sp_source (nd_span n)) of
        None \<Rightarrow> False | Some path \<Rightarrow> str_starts_with (normalize_slashes path) pre)"
| "predicate_matches idx n (OnTrust expected) = trust_matches (av_trust (joined_value n)) expected"
| "predicate_matches idx n (OnEffect e) = (e \<in> set (policy_effects n))"
| "predicate_matches idx n (OnCapability c) = (c \<in> set (nd_capabilities n))"
| "predicate_matches idx n (OnMutability m) = (node_mutability n = m)"
| "predicate_matches idx n (OnDominatedByGate b) = (gate_dominates idx n = b)"

fun selector_matches :: "policy_index \<Rightarrow> node \<Rightarrow> policy_selector \<Rightarrow> bool" where
  "selector_matches idx n (SelectAll ps) = list_all (predicate_matches idx n) ps"
| "selector_matches idx n (SelectAny ps) = list_ex (predicate_matches idx n) ps"
| "selector_matches idx n (SelectNoneOf ps) = (\<not> list_ex (predicate_matches idx n) ps)"

section \<open>Evaluation\<close>

definition policy_diagnostic :: "(string \<Rightarrow> string) \<Rightarrow> policy_rule \<Rightarrow> string \<Rightarrow> node \<Rightarrow> diagnostic" where
  "policy_diagnostic H rule label n =
     diagnostic_new H (po_id rule) (po_severity rule) High (po_message rule) (nd_span n) [make_trace label n] [] [] None"

text \<open>Paths compare by length, then by the identifiers along them.\<close>

definition best_path :: "node list list \<Rightarrow> node list option" where
  "best_path candidates =
     (case sort_key (\<lambda>p. (length p, map nd_id p)) candidates of [] \<Rightarrow> None | p # _ \<Rightarrow> Some p)"

definition path_label :: "nat \<Rightarrow> nat \<Rightarrow> string" where
  "path_label len position =
     (if position = 0 then ''untrusted source''
      else if position = len - 1 then ''policy-selected effect'' else ''reachable semantic path'')"

definition path_diagnostics :: "(string \<Rightarrow> string) \<Rightarrow> policy_rule \<Rightarrow> program \<Rightarrow> policy_index \<Rightarrow> node list \<Rightarrow> diagnostic list" where
  "path_diagnostics H rule g idx sinks =
     (let sources = filter (\<lambda>n. is_untrusted (joined_value n)) (pg_nodes g) in
      List.map_filter (\<lambda>sink.
        case best_path (List.map_filter (\<lambda>source. policy_path_between idx (nd_id source) (nd_id sink)) sources) of
          None \<Rightarrow> None
        | Some path \<Rightarrow> Some (diagnostic_new H (po_id rule) (po_severity rule) High (po_message rule) (nd_span sink)
            (map (\<lambda>(position, n). make_trace (path_label (length path) position) n) (enumerate 0 path))
            (concat (map nd_capabilities path)) [''feasible source-to-effect path''] None)) sinks)"

definition rule_diagnostics :: "(string \<Rightarrow> string) \<Rightarrow> program \<Rightarrow> policy_index \<Rightarrow> node list \<Rightarrow> policy_rule \<Rightarrow> diagnostic list" where
  "rule_diagnostics H g idx nodes rule =
     (let matches = filter (\<lambda>n. selector_matches idx n (po_selector rule)) nodes in
      case po_kind rule of
        Forbid \<Rightarrow> map (policy_diagnostic H rule ''policy selector matched'') matches
      | Require \<Rightarrow>
          (if matches = []
           then [diagnostic_new H (po_id rule) (po_severity rule) High (po_message rule) default_span [] [] [] None] else [])
      | Limit maximum \<Rightarrow> map (policy_diagnostic H rule ''policy limit exceeded'') (drop maximum matches)
      | ForbidPath \<Rightarrow> path_diagnostics H rule g idx matches)"

definition evaluate_policy :: "(string \<Rightarrow> string) \<Rightarrow> policy_rule list \<Rightarrow> program \<Rightarrow> diagnostic list" where
  "evaluate_policy H rules g =
     (let idx = policy_index_new g; nodes = sort_key nd_id (pg_nodes g)
      in sort_key diagnostic_key (concat (map (rule_diagnostics H g idx nodes) rules)))"

section \<open>The index is the verifier's, over more edges\<close>

lemma push_outgoing_fold:
  "bmap_ok m \<Longrightarrow> bmap_ok (fold push_outgoing es m)
     \<and> bmap_get_or [] (fold push_outgoing es m) i = bmap_get_or [] m i @ map ed_to (filter (\<lambda>e. ed_from e = i) es)"
proof (induction es arbitrary: m)
  case (Cons e es)
  have "bmap_ok (push_outgoing e m)" unfolding push_outgoing_def by (rule bmap_ok_insert [OF Cons.prems])
  from Cons.IH [OF this] show ?case
    by (auto simp: push_outgoing_def bmap_get_or_def bmap_get_insert [OF Cons.prems])
qed simp

lemma policy_successors_index:
  "policy_successors (policy_index_new g) c = sort_dedup (chosen_targets policy_kinds g c)"
proof -
  have dedup: "bmap_get_or [] (map (map_prod id sort_dedup) m) i = sort_dedup (bmap_get_or [] m i)" for m i
    by (induction m) (auto simp: bmap_get_or_def sort_dedup_def)
  have "bmap_get_or [] (fold push_outgoing (filter (\<lambda>e. ed_kind e \<in> set policy_kinds) (pg_edges g)) []) c
      = chosen_targets policy_kinds g c"
    using push_outgoing_fold [of "[]" "filter (\<lambda>e. ed_kind e \<in> set policy_kinds) (pg_edges g)" c]
    by (simp add: chosen_targets_def bmap_get_or_def conj_commute)
  then show ?thesis by (simp add: policy_successors_def policy_index_new_def dedup)
qed

lemma policy_graph [simp]: "pi_graph (policy_index_new g) = g"
  by (simp add: policy_index_new_def)

lemma policy_path_shortest: "policy_path (policy_index_new g) a b = shortest_path (index_new g) a b policy_kinds"
  using ids_path_shortest [OF policy_successors_index]
  by (simp add: policy_path_def shortest_path_def policy_index_new_def index_new_def)

lemma policy_path_none:
  "policy_path_between (policy_index_new g) a b = None \<longleftrightarrow> (a, b) \<notin> (kind_relation policy_kinds g)\<^sup>*"
  using shortest_ids_spec [of g a b policy_kinds]
  by (auto simp: policy_path_between_def policy_path_shortest shortest_path_def)

lemma chosen_targets_relation: "b \<in> set (chosen_targets kinds g a) \<longleftrightarrow> (a, b) \<in> kind_relation kinds g"
  by (auto simp: chosen_targets_def kind_relation_def edge_relation_def)

lemma policy_avoiding_exact:
  "policy_avoiding (policy_index_new g) a b d = Some (\<exists>p. path_from_to (kind_relation policy_kinds g) a b p \<and> d \<notin> set p)"
proof -
  let ?succ = "\<lambda>i. filter (\<lambda>x. x \<noteq> d) (policy_successors (policy_index_new g) i)"
  have steps: "steps ?succ = {(x, y). (x, y) \<in> kind_relation policy_kinds g \<and> y \<noteq> d}"
    by (auto simp: steps_def policy_successors_index chosen_targets_relation)
  have "set (?succ p) \<subseteq> targets g" for p
    by (auto simp: policy_successors_index chosen_targets_relation kind_relation_def edge_relation_def targets_def)
  from search_total [where succ = ?succ and g = g and goal = "Some b" and origin = a, OF this]
  obtain found seen where "search_loop (search_fuel (index_new g)) ?succ (Some b) [a] [a] = Some (found, seen)"
      "found \<longleftrightarrow> (a, b) \<in> (steps ?succ)\<^sup>*" by auto
  moreover have "search_fuel (index_new g) = edge_fuel g" by (simp add: search_fuel_def edge_fuel_def index_new_def)
  ultimately show ?thesis unfolding avoiding_path by (simp add: policy_avoiding_def steps)
qed

lemma policy_entries_set: "set (policy_entries (policy_index_new g)) = entry_set g"
proof -
  have "fst ` set (pi_nodes (policy_index_new g)) = dom (bmap_get (pi_nodes (policy_index_new g)))"
    by (simp add: dom_map_of_conv_image_fst)
  also have "\<dots> = nd_id ` set (pg_nodes g)"
    by (simp add: policy_index_new_def bmap_get_from dom_map_of_conv_image_fst image_image)
  finally show ?thesis by (auto simp: policy_entries_def entry_set_def list_ex_iff)
qed

text \<open>A gate that cuts every path to the node, over all the edges policies look at.\<close>

definition gate_cuts :: "program \<Rightarrow> node \<Rightarrow> bool" where
  "gate_cuts g n \<longleftrightarrow> (\<exists>gate \<in> set (pg_nodes g). nd_kind gate = NkGate \<and> (nd_id gate = nd_id n
     \<or> (\<forall>entry \<in> entry_set g. \<forall>p. path_from_to (kind_relation policy_kinds g) entry (nd_id n) p \<longrightarrow> nd_id gate \<in> set p)))"

lemma gate_dominates_exact: "gate_dominates (policy_index_new g) n \<longleftrightarrow> gate_cuts g n"
  by (auto simp: gate_dominates_def gate_cuts_def policy_dominates_def list_ex_iff policy_entries_set policy_avoiding_exact)

section \<open>What a policy reports\<close>

fun holds :: "program \<Rightarrow> node \<Rightarrow> selector_predicate \<Rightarrow> bool" where
  "holds g n (OnDominatedByGate b) \<longleftrightarrow> gate_cuts g n = b"
| "holds g n p \<longleftrightarrow> predicate_matches (policy_index_new g) n p"

fun selects :: "program \<Rightarrow> policy_selector \<Rightarrow> node \<Rightarrow> bool" where
  "selects g (SelectAll ps) n \<longleftrightarrow> (\<forall>p \<in> set ps. holds g n p)"
| "selects g (SelectAny ps) n \<longleftrightarrow> (\<exists>p \<in> set ps. holds g n p)"
| "selects g (SelectNoneOf ps) n \<longleftrightarrow> \<not> (\<exists>p \<in> set ps. holds g n p)"

lemma predicate_holds: "predicate_matches (policy_index_new g) n p \<longleftrightarrow> holds g n p"
  by (cases p) (simp_all add: gate_dominates_exact)

lemma selector_selects: "selector_matches (policy_index_new g) n sel \<longleftrightarrow> selects g sel n"
  by (cases sel) (simp_all add: list_all_iff list_ex_iff predicate_holds)

definition attacked :: "program \<Rightarrow> node \<Rightarrow> bool" where
  "attacked g n \<longleftrightarrow> (\<exists>s \<in> set (pg_nodes g). is_untrusted (joined_value s)
     \<and> (nd_id s, nd_id n) \<in> (kind_relation policy_kinds g)\<^sup>*)"

definition violations :: "program \<Rightarrow> policy_rule \<Rightarrow> nat" where
  "violations g rule =
     (let k = length (filter (selects g (po_selector rule)) (pg_nodes g)) in
      case po_kind rule of
        Forbid \<Rightarrow> k
      | Require \<Rightarrow> (if k = 0 then 1 else 0)
      | Limit maximum \<Rightarrow> k - maximum
      | ForbidPath \<Rightarrow> length (filter (\<lambda>n. selects g (po_selector rule) n \<and> attacked g n) (pg_nodes g)))"

lemma rule_id_new [simp]: "dg_rule_id (diagnostic_new H i sev conf msg sp hops caps evidence fx) = i"
  by (simp add: diagnostic_new_def Let_def)

lemma best_path_None [simp]: "best_path ps = None \<longleftrightarrow> ps = []"
proof -
  have "length (sort_key (\<lambda>p. (length p, map nd_id p)) ps) = length ps" by simp
  then show ?thesis by (cases "sort_key (\<lambda>p. (length p, map nd_id p)) ps") (auto simp: best_path_def)
qed

lemma map_filter_none: "List.map_filter f xs = [] \<longleftrightarrow> (\<forall>x \<in> set xs. f x = None)"
  by (induction xs) (simp_all add: map_filter_simps split: option.split)

lemma map_filter_constant:
  "(\<And>x. f x = None \<longleftrightarrow> \<not> P x) \<Longrightarrow> (\<And>x d. f x = Some d \<Longrightarrow> k d = c) \<Longrightarrow>
     map k (List.map_filter f xs) = replicate (length (filter P xs)) c"
proof (induction xs)
  case (Cons x xs)
  have IH: "map k (List.map_filter f xs) = replicate (length (filter P xs)) c" by (rule Cons.IH [OF Cons.prems])
  show ?case
  proof (cases "f x")
    case None
    with Cons.prems(1) [of x] IH show ?thesis by (simp add: map_filter_simps)
  next
    case (Some d)
    with Cons.prems(1) [of x] have "P x" by simp
    with Some IH Cons.prems(2) [OF Some] show ?thesis by (simp add: map_filter_simps)
  qed
qed (simp add: map_filter_simps)

lemma path_diagnostics_ids:
  "map dg_rule_id (path_diagnostics H rule g (policy_index_new g) sinks)
   = replicate (length (filter (attacked g) sinks)) (po_id rule)"
proof -
  let ?sources = "filter (\<lambda>n. is_untrusted (joined_value n)) (pg_nodes g)"
  have "List.map_filter (\<lambda>source. policy_path_between (policy_index_new g) (nd_id source) (nd_id sink)) ?sources = []
      \<longleftrightarrow> \<not> attacked g sink" for sink
    by (auto simp: map_filter_none policy_path_none attacked_def)
  then have none: "best_path (List.map_filter (\<lambda>source. policy_path_between (policy_index_new g) (nd_id source) (nd_id sink)) ?sources) = None
      \<longleftrightarrow> \<not> attacked g sink" for sink by simp
  show ?thesis unfolding path_diagnostics_def Let_def
    by (rule map_filter_constant) (auto simp add: none [symmetric] simp del: best_path_None split: option.splits)
qed

lemma rule_diagnostics_ids:
  assumes "mset nodes = mset (pg_nodes g)"
  shows "map dg_rule_id (rule_diagnostics H g (policy_index_new g) nodes rule) = replicate (violations g rule) (po_id rule)"
proof -
  have len: "length (filter P nodes) = length (filter P (pg_nodes g))" for P
    using assms by (metis mset_filter size_mset)
  have const: "map (\<lambda>x. c) xs = replicate (length xs) c" for c :: string and xs :: "node list"
    by (induction xs) simp_all
  have none: "filter (selects g (po_selector rule)) nodes = [] \<longleftrightarrow> length (filter (selects g (po_selector rule)) (pg_nodes g)) = 0"
    by (metis len length_0_conv)
  show ?thesis
    by (cases "po_kind rule")
      (simp_all add: rule_diagnostics_def violations_def Let_def selector_selects comp_def policy_diagnostic_def
        const len none path_diagnostics_ids filter_filter conj_commute)
qed


text \<open>
  Without entry points (every node has a predecessor and none is declared) everything dominates everything
  for a policy, and nothing but itself does for the verifier.
\<close>

lemma policy_dominance_differs:
  "policy_dominates (policy_index_new loop_program) 1 2 \<and> dominates (index_new loop_program) 1 2 = Some False"
proof -
  have "entry_set loop_program = {}"
    by (auto simp: entry_set_def loop_program_simps)
  moreover from this have "policy_entries (policy_index_new loop_program) = []"
    using policy_entries_set [of loop_program] by simp
  ultimately show ?thesis by (simp add: policy_dominates_def dominates_iff)
qed

section \<open>Textual selectors\<close>

definition provider_of :: "string \<Rightarrow> provider option" where
  "provider_of value = find (\<lambda>p. provider_name p = value) [PrGithub, PrGitlab, PrAzure, PrCircleci]"

definition node_kind_of :: "string \<Rightarrow> node_kind option" where
  "node_kind_of value = find (\<lambda>k. node_kind_name k = value)
     [NkTrigger, NkParameter, NkWorkflow, NkStage, NkJob, NkStep, NkCall, NkCommand, NkGate, NkResource, NkEffect, NkOpaque]"

text \<open>Two effects have a short name besides their own.\<close>

definition effect_of :: "string \<Rightarrow> observable_effect option" where
  "effect_of value =
     (if value = ''network'' then Some EffNetworkRequest
      else if value = ''deployment'' then Some EffDeploymentChange
      else find (\<lambda>e. observable_effect_name e = value)
        [EffRepositoryChange, EffNetworkRequest, EffFileRead, EffFileWrite, EffCommandExecution, EffArtifactPublish,
         EffCachePublish, EffDeploymentChange, EffCredentialUse, EffWorkflowChange, EffAiAgentExecution])"

definition capability_of :: "string \<Rightarrow> capability option" where
  "capability_of value = find (\<lambda>c. capability_name c = value) capabilities"

definition trust_of :: "string \<Rightarrow> policy_trust option" where
  "trust_of value = find (\<lambda>t. policy_trust_name t = value) [PtTrusted, PtUntrusted, PtMixed, PtUnknown]"

definition mutability_of :: "string \<Rightarrow> mutability option" where
  "mutability_of value = find (\<lambda>m. mutability_name m = value) [MutImmutable, MutMutable, MutLocal, MutUnknown]"

definition selected_or :: "string \<Rightarrow> ('a \<Rightarrow> selector_predicate) \<Rightarrow> 'a option \<Rightarrow> string + selector_predicate" where
  "selected_or message f x = (case x of None \<Rightarrow> Inl message | Some y \<Rightarrow> Inr (f y))"

definition policy_predicate :: "string \<Rightarrow> string \<Rightarrow> string + selector_predicate" where
  "policy_predicate key value =
     (let lower = ascii_lowercase value in
      if key = ''provider'' then selected_or ''unknown provider'' OnProvider (provider_of lower)
      else if key = ''kind'' \<or> key = ''node_kind'' then selected_or ''unknown node kind'' OnNodeKind (node_kind_of lower)
      else if key = ''path'' then Inr (OnPathPrefix (normalize_slashes value))
      else if key = ''trust'' then selected_or ''unknown trust state'' OnTrust (trust_of lower)
      else if key = ''effect'' then selected_or ''unknown effect'' OnEffect (effect_of lower)
      else if key = ''capability'' then selected_or ''unknown capability'' OnCapability (capability_of lower)
      else if key = ''dependency_mutability'' \<or> key = ''mutability''
        then selected_or ''unknown dependency mutability'' OnMutability (mutability_of lower)
      else if key = ''dominance'' \<or> key = ''dominated_by_gate''
        then (if lower = ''true'' then Inr (OnDominatedByGate True)
              else if lower = ''false'' then Inr (OnDominatedByGate False)
              else Inl ''dominance must be true or false'')
      else Inl (''unknown selector field: '' @ key))"

fun predicate_field :: "selector_predicate \<Rightarrow> string \<times> json" where
  "predicate_field (OnProvider p) = (''provider'', JString (provider_name p))"
| "predicate_field (OnNodeKind k) = (''kind'', JString (node_kind_name k))"
| "predicate_field (OnPathPrefix pre) = (''path'', JString pre)"
| "predicate_field (OnTrust t) = (''trust'', JString (policy_trust_name t))"
| "predicate_field (OnEffect e) = (''effect'', JString (observable_effect_name e))"
| "predicate_field (OnCapability c) = (''capability'', JString (capability_name c))"
| "predicate_field (OnMutability m) = (''mutability'', JString (mutability_name m))"
| "predicate_field (OnDominatedByGate b) = (''dominated_by_gate'', JBoolean b)"

definition predicate_json :: "selector_predicate \<Rightarrow> json" where
  "predicate_json p = json_object [predicate_field p]"

fun selector_name :: "policy_selector \<Rightarrow> string \<times> selector_predicate list" where
  "selector_name (SelectAll ps) = (''all'', ps)"
| "selector_name (SelectAny ps) = (''any'', ps)"
| "selector_name (SelectNoneOf ps) = (''none'', ps)"

fun kind_and_limit :: "policy_rule_kind \<Rightarrow> string \<times> json" where
  "kind_and_limit Forbid = (''forbid'', JNull)"
| "kind_and_limit Require = (''require'', JNull)"
| "kind_and_limit (Limit n) = (''limit'', json_count_int n)"
| "kind_and_limit ForbidPath = (''forbid_path'', JNull)"

definition rule_json :: "policy_rule \<Rightarrow> json" where
  "rule_json rule = json_object
     [(''id'', JString (po_id rule)), (''kind'', JString (fst (kind_and_limit (po_kind rule)))),
      (''limit'', snd (kind_and_limit (po_kind rule))), (''message'', JString (po_message rule)),
      (''selector'', json_object [(fst (selector_name (po_selector rule)),
         JArray (map predicate_json (snd (selector_name (po_selector rule)))))]),
      (''severity'', JString (severity_name (po_severity rule)))]"

text \<open>The assignment a configuration writes for a member of the view.\<close>

fun field_text :: "json \<Rightarrow> string" where
  "field_text (JString s) = s"
| "field_text (JBoolean b) = (if b then ''true'' else ''false'')"
| "field_text _ = []"

lemma lowercase_names:
  "ascii_lowercase (provider_name p) = provider_name p" "ascii_lowercase (node_kind_name k) = node_kind_name k"
  "ascii_lowercase (policy_trust_name t) = policy_trust_name t"
  "ascii_lowercase (observable_effect_name e) = observable_effect_name e"
  "ascii_lowercase (mutability_name m) = mutability_name m"
  subgoal by (cases p) (simp_all add: ascii_lowercase_def is_ascii_upper_def in_range_def)
  subgoal by (cases k) (simp_all add: ascii_lowercase_def is_ascii_upper_def in_range_def)
  subgoal by (cases t) (simp_all add: ascii_lowercase_def is_ascii_upper_def in_range_def)
  subgoal by (cases e) (simp_all add: ascii_lowercase_def is_ascii_upper_def in_range_def)
  subgoal by (cases m) (simp_all add: ascii_lowercase_def is_ascii_upper_def in_range_def)
  done

lemma lowercase_booleans: "ascii_lowercase ''true'' = ''true''" "ascii_lowercase ''false'' = ''false''"
  by (simp_all add: ascii_lowercase_def is_ascii_upper_def in_range_def)

lemma names_read_back:
  "provider_of (provider_name p) = Some p" "node_kind_of (node_kind_name k) = Some k"
  "trust_of (policy_trust_name t) = Some t" "effect_of (observable_effect_name e) = Some e"
  "mutability_of (mutability_name m) = Some m"
  subgoal by (cases p) (simp_all add: provider_of_def)
  subgoal by (cases k) (simp_all add: node_kind_of_def)
  subgoal by (cases t) (simp_all add: trust_of_def)
  subgoal by (cases e) (simp_all add: effect_of_def)
  subgoal by (cases m) (simp_all add: mutability_of_def)
  done

lemma capability_reads_back:
  "ascii_lowercase (capability_name c) = capability_name c" "capability_of (capability_name c) = Some c"
proof -
  show "ascii_lowercase (capability_name c) = capability_name c"
    by (cases c) (simp_all add: ascii_lowercase_def is_ascii_upper_def in_range_def)
  have "find (\<lambda>d. capability_name d = capability_name c) cs = (if c \<in> set cs then Some c else None)" for cs
    by (induction cs) auto
  moreover have "c \<in> set capabilities" by (cases c) (simp_all add: capabilities_def)
  ultimately show "capability_of (capability_name c) = Some c" by (simp add: capability_of_def)
qed

text \<open>
  Selectors survive the trip through their textual form: reading the field and value a predicate is
  shown with gives the predicate back, for paths with normalised slashes.
\<close>

theorem policy_predicate_roundtrip:
  assumes "\<And>pre. p = OnPathPrefix pre \<Longrightarrow> normalize_slashes pre = pre"
  shows "policy_predicate (fst (predicate_field p)) (field_text (snd (predicate_field p))) = Inr p"
  using assms
  by (cases p) (simp_all add: policy_predicate_def Let_def selected_or_def lowercase_names names_read_back
    capability_reads_back lowercase_booleans)

lemma policy_predicate_roundtrip_witness:
  "policy_predicate (fst (predicate_field (OnPathPrefix ''ci/''))) (field_text (snd (predicate_field (OnPathPrefix ''ci/''))))
   = Inr (OnPathPrefix ''ci/'')"
  by (rule policy_predicate_roundtrip) (simp add: normalize_slashes_def)

end
