(* ===== verification/Serde_Views.thy ===== *)
theory Serde_Views
  imports Diagnostics
begin

text \<open>
  The serializer views of \<^verbatim>\<open>src/product/serde_views.rs\<close>, which write a value member by member instead
  of building a tree. A view is modelled as the tree of what it writes, with the members of a map in
  the order they are written; \<open>canonical_json\<close> keeps that order. The views agree with the
  \<^verbatim>\<open>to_json\<close> trees (\<open>abstract_value_view_agrees\<close>), so the order written is the canonical one.
\<close>

text \<open>Unsigned numbers; they are below the length of a buffer, hence within \<^verbatim>\<open>i64\<close>.\<close>

definition number_view :: "nat \<Rightarrow> json" where
  "number_view n = JInteger (word_of_nat n)"

definition position_view :: "position \<Rightarrow> json" where
  "position_view p = JObject
     [(''byte'', number_view (pos_byte p)), (''column'', number_view (pos_column p)), (''line'', number_view (pos_line p))]"

definition span_view :: "span \<Rightarrow> json" where
  "span_view s = JObject
     [(''source'', number_view (sp_source s)), (''start'', position_view (sp_start s)), (''stop'', position_view (sp_stop s))]"

definition unknown_view :: "unknown_reason \<Rightarrow> json" where
  "unknown_view u = (case kind_and_detail u of (kind, detail) \<Rightarrow> JObject [(''detail'', JString detail), (''kind'', JString kind)])"

definition unknowns_view :: "unknown_reason list \<Rightarrow> json" where
  "unknowns_view rs = JArray (map unknown_view rs)"

fun condition_view :: "condition \<Rightarrow> json" where
  "condition_view CFalse = JBoolean False"
| "condition_view CTrue = JBoolean True"
| "condition_view (Branch v low high) =
     JObject [(''high'', condition_view high), (''low'', condition_view low), (''variable'', JString v)]"

definition state_view :: "unknown_reason list \<Rightarrow> json" where
  "state_view rs = JObject [(''reasons'', unknowns_view rs), (''state'', JString ''unknown'')]"

fun trust_view :: "trust \<Rightarrow> json" where
  "trust_view Trusted = JString ''trusted''"
| "trust_view TMixed = JString ''mixed''"
| "trust_view Untrusted = JString ''untrusted''"
| "trust_view (TUnknown rs) = state_view rs"

fun secrecy_view :: "secrecy \<Rightarrow> json" where
  "secrecy_view Public = JString ''public''"
| "secrecy_view Sensitive = JString ''sensitive''"
| "secrecy_view Secret = JString ''secret''"
| "secrecy_view (SUnknown rs) = state_view rs"

definition provenance_item_view :: "provenance \<Rightarrow> json" where
  "provenance_item_view p = JObject
     [(''operation'', JString (pv_operation p)), (''origin'', JString (pv_origin p)), (''span'', span_view (pv_span p))]"

definition provenance_view :: "provenance list \<Rightarrow> json" where
  "provenance_view ps = JArray (map provenance_item_view ps)"

fun string_view :: "string_value \<Rightarrow> json" where
  "string_view SBottom = JString ''bottom''"
| "string_view (SConstants vs) = JObject [(''constants'', JArray (map JString vs))]"
| "string_view (SAffix p s) = JObject [(''prefix'', json_option JString p), (''suffix'', json_option JString s)]"
| "string_view (SPattern v) = JObject [(''pattern'', JString v)]"
| "string_view STop = JString ''top''"

primrec abstract_value_view :: "abstract_value \<Rightarrow> json"
and value_view :: "avalue \<Rightarrow> json" where
  "abstract_value_view (AV ty v t s p) = JObject
     [(''provenance'', provenance_view p), (''secrecy'', secrecy_view s), (''trust'', trust_view t),
      (''type'', JString (value_type_name ty)), (''value'', value_view v)]"
| "value_view VBottom = JString ''bottom''"
| "value_view VNull = JNull"
| "value_view (VBoolean b) = (case b of AFalse \<Rightarrow> JBoolean False | ATrue \<Rightarrow> JBoolean True | AMaybe \<Rightarrow> JString ''maybe'')"
| "value_view (VNumber lo hi) = JObject [(''maximum'', json_option JInteger hi), (''minimum'', json_option JInteger lo)]"
| "value_view (VString s) = string_view s"
| "value_view (VList vs) = (case map_option (map abstract_value_view) vs of None \<Rightarrow> JString ''list-top'' | Some xs \<Rightarrow> JArray xs)"
| "value_view (VObject fs) =
     (case map_option (map (map_prod id abstract_value_view)) fs of None \<Rightarrow> JString ''object-top'' | Some xs \<Rightarrow> JObject xs)"
| "value_view (VUnknown rs) = JObject [(''unknown'', unknowns_view rs)]"

text \<open>Members that are written only when they say something.\<close>

definition member_if :: "bool \<Rightarrow> string \<Rightarrow> json \<Rightarrow> (string \<times> json) list" where
  "member_if present name v = (if present then [(name, v)] else [])"

definition member_of :: "string \<Rightarrow> ('a \<Rightarrow> json) \<Rightarrow> 'a option \<Rightarrow> (string \<times> json) list" where
  "member_of name f x = (case x of None \<Rightarrow> [] | Some y \<Rightarrow> [(name, f y)])"

definition hop_view :: "trace_hop \<Rightarrow> json" where
  "hop_view hop = JObject
     [(''label'', JString (th_label hop)), (''node'', number_view (th_node_id hop)), (''span'', span_view (th_span hop))]"

definition fix_view :: "fix_proposal \<Rightarrow> json" where
  "fix_view fx = JObject
     ([(''description'', JString (fx_description fx)), (''kind'', JString (fx_kind fx))]
      @ member_of ''replacement'' JString (fx_replacement fx) @ member_of ''span'' span_view (fx_span fx))"

definition diagnostic_view :: "diagnostic \<Rightarrow> json" where
  "diagnostic_view d = JObject
     (member_if (dg_capabilities d \<noteq> []) ''capabilities'' (JArray (map (\<lambda>c. JString (capability_name c)) (dg_capabilities d)))
      @ [(''confidence'', JString (confidence_name (dg_confidence d)))]
      @ member_if (dg_evidence d \<noteq> []) ''evidence'' (JArray (map JString (dg_evidence d)))
      @ member_of ''fix'' fix_view (dg_fix d)
      @ [(''id'', JString (dg_id d)), (''message'', JString (dg_message d)), (''rule_id'', JString (dg_rule_id d)),
         (''severity'', JString (severity_name (dg_severity d))), (''span'', span_view (dg_span d))]
      @ member_if (dg_trace d \<noteq> []) ''trace'' (JArray (map hop_view (dg_trace d))))"

definition property_view :: "property \<Rightarrow> json" where
  "property_view p = JObject
     ([(''explanation'', JString (pr_explanation p)), (''id'', JString (pr_id p))]
      @ (case pr_state p of StUnknown rs \<Rightarrow> [(''reasons'', unknowns_view rs)] | _ \<Rightarrow> [])
      @ [(''state'', JString (state_name (pr_state p)))] @ member_of ''subject'' JString (pr_subject p))"

section \<open>The views write canonical trees\<close>

text \<open>Positions and identifiers within \<^verbatim>\<open>i64\<close>, and objects with increasing keys, as every \<^verbatim>\<open>BTreeMap\<close> has.\<close>

definition i64_max :: nat where "i64_max = 9223372036854775807"

definition position_fits :: "position \<Rightarrow> bool" where
  "position_fits p \<longleftrightarrow> pos_byte p \<le> i64_max \<and> pos_column p \<le> i64_max \<and> pos_line p \<le> i64_max"

definition span_fits :: "span \<Rightarrow> bool" where
  "span_fits s \<longleftrightarrow> sp_source s \<le> i64_max \<and> position_fits (sp_start s) \<and> position_fits (sp_stop s)"

primrec av_writable :: "abstract_value \<Rightarrow> bool"
and avalue_writable :: "avalue \<Rightarrow> bool" where
  "av_writable (AV ty v t s p) \<longleftrightarrow> avalue_writable v \<and> list_all (\<lambda>x. span_fits (pv_span x)) p"
| "avalue_writable VBottom \<longleftrightarrow> True"
| "avalue_writable VNull \<longleftrightarrow> True"
| "avalue_writable (VBoolean b) \<longleftrightarrow> True"
| "avalue_writable (VNumber lo hi) \<longleftrightarrow> True"
| "avalue_writable (VString s) \<longleftrightarrow> True"
| "avalue_writable (VList vs) \<longleftrightarrow> pred_option (list_all id) (map_option (map av_writable) vs)"
| "avalue_writable (VObject fs) \<longleftrightarrow> pred_option bmap_ok fs
     \<and> pred_option (list_all snd) (map_option (map (map_prod id av_writable)) fs)"
| "avalue_writable (VUnknown rs) \<longleftrightarrow> True"

lemma json_object_sorted: "bmap_ok members \<Longrightarrow> json_object members = JObject members"
  by (simp add: json_object_def bmap_from_ok)

lemma number_view_count: "n \<le> i64_max \<Longrightarrow> json_count_int n = number_view n"
  by (simp add: json_count_int_def number_view_def i64_max_def)

lemma small_keys:
  "bmap_ok [(''byte'', a), (''column'', b), (''line'', c)]" "bmap_ok [(''source'', a), (''start'', b), (''stop'', c)]"
  "bmap_ok [(''detail'', a), (''kind'', b)]" "bmap_ok [(''high'', a), (''low'', b), (''variable'', c)]"
  "bmap_ok [(''reasons'', a), (''state'', b)]" "bmap_ok [(''operation'', a), (''origin'', b), (''span'', c)]"
  "bmap_ok [(''prefix'', a), (''suffix'', b)]" "bmap_ok [(''maximum'', a), (''minimum'', b)]" "bmap_ok [(k, a)]"
  "bmap_ok [(''provenance'', a), (''secrecy'', b), (''trust'', c), (''type'', d), (''value'', e)]"
  by (simp_all add: bmap_ok_def less_char_def)

lemma span_view_agrees: "span_fits s \<Longrightarrow> span_to_json s = span_view s"
  by (simp add: span_to_json_def span_view_def position_to_json_def position_view_def json_object_sorted small_keys
      number_view_count span_fits_def position_fits_def)

lemma unknown_view_agrees: "unknown_to_json = unknown_view"
proof
  fix u
  have "bmap_from [(''detail'', JString d), (''kind'', JString k)] = [(''detail'', JString d), (''kind'', JString k)]" for d k
    using json_object_sorted [OF small_keys(3)] by (simp add: json_object_def)
  then show "unknown_to_json u = unknown_view u" by (simp add: unknown_to_json_def unknown_view_def split: prod.split)
qed

lemma condition_view_agrees: "cond_to_json c = condition_view c"
proof (induction c)
  case (Branch v low high)
  then show ?case
    using json_object_sorted [OF small_keys(4)] by (simp add: json_object_def)
qed simp_all

lemma state_views_agree: "unknown_state_json rs = state_view rs" "reasons_to_json rs = unknowns_view rs"
  by (simp_all add: unknown_state_json_def state_view_def reasons_to_json_def unknowns_view_def unknown_view_agrees
      json_object_sorted small_keys)

lemma trust_views_agree: "trust_to_json t = trust_view t" "secrecy_to_json s = secrecy_view s"
  by (cases t; simp add: state_views_agree) (cases s; simp add: state_views_agree)

lemma string_view_agrees: "string_to_json s = string_view s"
  by (cases s) (simp_all add: json_object_sorted small_keys json_texts_def)

lemma value_views_agree:
  "av_writable x \<Longrightarrow> av_to_json x = abstract_value_view x" "avalue_writable v \<Longrightarrow> avalue_to_json v = value_view v"
proof (induction x and v rule: abstract_value.induct avalue.induct)
  case (AV ty v t s p)
  then have "map provenance_to_json p = map provenance_item_view p"
    by (auto simp: list_all_iff provenance_to_json_def provenance_item_view_def json_object_sorted small_keys span_view_agrees)
  with AV show ?case
    by (simp add: json_object_sorted small_keys trust_views_agree provenance_view_def)
next
  case (VList vs)
  then show ?case by (auto simp: list_all_iff pred_option_def split: option.splits)
next
  case (VObject fs)
  show ?case
  proof (cases fs)
    case (Some xs)
    have "map (map_prod id av_to_json) xs = map (map_prod id abstract_value_view) xs"
      using VObject Some by (fastforce simp: list_all_iff)
    moreover have "bmap_ok (map (map_prod id abstract_value_view) xs)"
      using VObject.prems Some by (simp add: bmap_ok_def comp_def)
    ultimately show ?thesis by (simp add: Some json_object_sorted del: map_eq_conv)
  qed simp
qed (auto simp: string_view_agrees state_views_agree json_object_sorted small_keys split: abstract_truth.split)

lemma abstract_value_view_agrees: "av_writable x \<Longrightarrow> abstract_value_view x = av_to_json x"
  by (simp add: value_views_agree)

end
