(* ===== verification/Graph_Document.thy ===== *)
theory Graph_Document
  imports Serde_Views Ir
begin

text \<open>
  The graph document (\<^verbatim>\<open>src/product/graph_output.rs\<close>): the projection of a program to
  \<^verbatim>\<open>workflow-verifier-graph/1\<close>, its digest and the check of a received document. Two outside functions
  are arguments: \<open>S\<close> is \<^verbatim>\<open>serde_json::to_string\<close> on the tree a view writes and \<open>H\<close> the hash of the
  \<^verbatim>\<open>sha2\<close> crate. The document is authenticated by re-serializing what the product's own parser read, so
  authentication succeeds only because the views write the canonical order.
\<close>

section \<open>The projection\<close>

datatype graph_kind = GraphAll | GraphControl | GraphDataflow | GraphCall | GraphCapability

definition keep_edge :: "graph_kind \<Rightarrow> edge_kind \<Rightarrow> bool" where
  "keep_edge kind e =
     (case kind of
        GraphAll \<Rightarrow> True
      | GraphControl \<Rightarrow> e = EkControl
      | GraphDataflow \<Rightarrow> e \<in> {EkData, EkRead, EkWrite, EkPersist}
      | GraphCall \<Rightarrow> e = EkCall
      | GraphCapability \<Rightarrow> e = EkGrant)"

definition source_view :: "source \<Rightarrow> json" where
  "source_view s = JObject
     [(''id'', number_view (src_id s)), (''path'', JString (normalize_slashes (src_path s))),
      (''provider'', JString (provider_name (src_provider s)))]"

definition node_view :: "node \<Rightarrow> json" where
  "node_view n = JObject
     (member_if (nd_attributes n \<noteq> []) ''attributes'' (JObject (map (map_prod id abstract_value_view) (nd_attributes n)))
      @ member_if (nd_capabilities n \<noteq> []) ''capabilities'' (JArray (map (\<lambda>c. JString (capability_name c)) (nd_capabilities n)))
      @ member_if (nd_condition n \<noteq> CTrue) ''condition'' (condition_view (nd_condition n))
      @ member_if (nd_effects n \<noteq> []) ''effects'' (JArray (map (\<lambda>e. JString (observable_effect_name e)) (nd_effects n)))
      @ [(''id'', number_view (nd_id n)), (''kind'', JString (node_kind_name (nd_kind n))), (''name'', JString (nd_name n)),
         (''phase'', JString (phase_name (nd_phase n))), (''source'', number_view (sp_source (nd_span n))),
         (''span'', span_view (nd_span n))]
      @ member_of ''unknown'' unknown_view (nd_unknown n))"

definition edge_view :: "edge \<Rightarrow> json" where
  "edge_view e = JObject
     (member_if (ed_condition e \<noteq> CTrue) ''condition'' (condition_view (ed_condition e))
      @ [(''from'', number_view (ed_from e)), (''kind'', JString (edge_kind_name (ed_kind e)))]
      @ member_of ''label'' JString (ed_label e) @ [(''to'', number_view (ed_to e))])"

definition graph_schema :: string where "graph_schema = ''workflow-verifier-graph/1''"

definition graph_members :: "graph_kind \<Rightarrow> program \<Rightarrow> (string \<times> json) list" where
  "graph_members kind p =
     [(''edges'', JArray (map edge_view (filter (\<lambda>e. keep_edge kind (ed_kind e)) (pg_edges p)))),
      (''entrypoints'', JArray (map number_view (pg_entrypoints p))), (''nodes'', JArray (map node_view (pg_nodes p))),
      (''schema'', JString graph_schema), (''sources'', JArray (map source_view (pg_sources p)))]"

definition serialize_graph :: "graph_kind \<Rightarrow> program \<Rightarrow> string option \<Rightarrow> json" where
  "serialize_graph kind p digest =
     JObject (member_of ''digest'' (\<lambda>d. JString (digest_display d)) digest @ graph_members kind p)"

definition graph_document_digest :: "(string \<Rightarrow> string) \<Rightarrow> (json \<Rightarrow> string) \<Rightarrow> graph_kind \<Rightarrow> program \<Rightarrow> string" where
  "graph_document_digest H S kind p =
     builder_finish H (builder_add (S (serialize_graph kind p None)) (builder_new graph_schema))"

definition graph_to_canonical_json :: "(string \<Rightarrow> string) \<Rightarrow> (json \<Rightarrow> string) \<Rightarrow> graph_kind \<Rightarrow> program \<Rightarrow> string" where
  "graph_to_canonical_json H S kind p =
     S (serialize_graph kind p (Some (graph_document_digest H S kind p))) @ [CHR 0x0A]"

section \<open>The drawing\<close>

definition replace_byte :: "char \<Rightarrow> string \<Rightarrow> string \<Rightarrow> string" where
  "replace_byte c new s = concat (map (\<lambda>x. if x = c then new else [x]) s)"

definition dot_escape :: "string \<Rightarrow> string" where
  "dot_escape s = replace_byte (CHR 0x0A) [CHR 0x5C, CHR 0x6E]
     (replace_byte (CHR 0x22) [CHR 0x5C, CHR 0x22] (replace_byte (CHR 0x5C) [CHR 0x5C, CHR 0x5C] s))"

definition dot_quoted :: "string \<Rightarrow> string" where
  "dot_quoted s = [CHR 0x22] @ s @ [CHR 0x22]"

definition graph_to_dot :: "graph_kind \<Rightarrow> program \<Rightarrow> string" where
  "graph_to_dot kind p =
     ''digraph workflow {'' @ [CHR 0x0A] @ ''  rankdir=LR;'' @ [CHR 0x0A]
     @ concat (map (\<lambda>n. ''  '' @ dot_quoted (dec_nat (nd_id n)) @ '' [label=''
         @ dot_quoted (dot_escape (nd_name n) @ [CHR 0x5C, CHR 0x6E] @ node_kind_name (nd_kind n)) @ ''];'' @ [CHR 0x0A]) (pg_nodes p))
     @ concat (map (\<lambda>e. ''  '' @ dot_quoted (dec_nat (ed_from e)) @ '' -> '' @ dot_quoted (dec_nat (ed_to e)) @ '' [label=''
         @ dot_quoted (edge_kind_name (ed_kind e)) @ ''];'' @ [CHR 0x0A]) (filter (\<lambda>e. keep_edge kind (ed_kind e)) (pg_edges p)))
     @ ''}'' @ [CHR 0x0A]"

text \<open>The end of a quoted string, as a reader of the drawing finds it: a backslash hides the next character.\<close>

fun quoted_end :: "string \<Rightarrow> string option" where
  "quoted_end [] = None"
| "quoted_end [c] = (if c = CHR 0x22 then Some [] else None)"
| "quoted_end (c # d # rest) =
     (if c = CHR 0x22 then Some (d # rest) else if c = CHR 0x5C then quoted_end rest else quoted_end (d # rest))"

lemma replace_byte_append [simp]: "replace_byte c new (a @ b) = replace_byte c new a @ replace_byte c new b"
  by (simp add: replace_byte_def)

lemma replace_byte_simps [simp]:
  "replace_byte c new [] = []" "replace_byte c new (x # s) = (if x = c then new else [x]) @ replace_byte c new s"
  by (simp_all add: replace_byte_def)

lemma dot_escape_simps:
  "dot_escape [] = []"
  "dot_escape (x # s) = (if x = CHR 0x5C then [CHR 0x5C, CHR 0x5C] else if x = CHR 0x22 then [CHR 0x5C, CHR 0x22]
     else if x = CHR 0x0A then [CHR 0x5C, CHR 0x6E] else [x]) @ dot_escape s"
  by (simp_all add: dot_escape_def)

lemma quoted_end_plain: "c \<noteq> CHR 0x22 \<Longrightarrow> c \<noteq> CHR 0x5C \<Longrightarrow> rest \<noteq> [] \<Longrightarrow> quoted_end (c # rest) = quoted_end rest"
  by (cases rest) simp_all

text \<open>A name cannot end its label early, whatever it contains.\<close>

lemma dot_label_closed: "quoted_end (dot_escape name @ CHR 0x22 # rest) = Some rest"
  by (induction name) (cases rest; auto simp: dot_escape_simps quoted_end_plain)+

lemma dot_escape_inject: "dot_escape a = dot_escape b \<longleftrightarrow> a = b"
proof
  show "dot_escape a = dot_escape b \<Longrightarrow> a = b"
  proof (induction a arbitrary: b)
    case Nil
    then show ?case by (cases b) (auto simp: dot_escape_simps split: if_splits)
  next
    case (Cons x a)
    then show ?case by (cases b) (auto simp: dot_escape_simps split: if_splits)
  qed
qed simp

section \<open>Authentication\<close>

definition json_error_display :: "json_error \<Rightarrow> string" where
  "json_error_display e = ''JSON byte '' @ dec_nat (je_offset e) @ '': '' @ je_message e"

definition graph_fields :: "string list" where
  "graph_fields = [''digest'', ''edges'', ''entrypoints'', ''nodes'', ''schema'', ''sources'']"

definition claimed_digest :: "(string \<times> json) list \<Rightarrow> string + string" where
  "claimed_digest members =
     (case Option.bind (bmap_get members ''digest'') json_as_str of
        None \<Rightarrow> Inl ''graph document needs string field digest''
      | Some text \<Rightarrow> digest_parse text)"

definition authenticate_fields :: "(string \<Rightarrow> string) \<Rightarrow> (string \<times> json) list \<Rightarrow> string + unit" where
  "authenticate_fields H members =
     (if length members \<noteq> length graph_fields \<or> list_ex (\<lambda>name. bmap_get members name = None) graph_fields
      then Inl ''graph document has missing fields''
      else if Option.bind (bmap_get members ''schema'') json_as_str \<noteq> Some graph_schema
      then Inl ''unsupported graph document schema''
      else (case claimed_digest members of
          Inl e \<Rightarrow> Inl e
        | Inr claimed \<Rightarrow>
            let projection = filter (\<lambda>f. fst f \<noteq> ''digest'') members in
            if builder_finish H (builder_add (canonical_json (JObject projection)) (builder_new graph_schema)) \<noteq> claimed
            then Inl ''graph document digest mismatch'' else Inr ()))"

definition authenticate_graph_document :: "(string \<Rightarrow> string) \<Rightarrow> string \<Rightarrow> (string + unit) option" where
  "authenticate_graph_document H source =
     map_option (\<lambda>r. case r of
         Inl e \<Rightarrow> Inl (json_error_display e)
       | Inr document \<Rightarrow> (case exact_object ''graph document'' graph_fields document of
             Inl e \<Rightarrow> Inl e
           | Inr members \<Rightarrow> authenticate_fields H members)) (json_parse source)"

section \<open>What is written is a canonical document\<close>

fun condition_text :: "condition \<Rightarrow> bool" where
  "condition_text (Branch v low high) \<longleftrightarrow> utf8_valid v \<and> condition_text low \<and> condition_text high"
| "condition_text _ \<longleftrightarrow> True"

definition node_writable :: "node \<Rightarrow> bool" where
  "node_writable n \<longleftrightarrow> utf8_valid (nd_name n) \<and> span_fits (nd_span n) \<and> condition_text (nd_condition n)
     \<and> bmap_ok (nd_attributes n) \<and> (\<forall>(k, v) \<in> set (nd_attributes n). utf8_valid k \<and> av_text v \<and> av_writable v)
     \<and> pred_option (\<lambda>u. utf8_valid (snd (kind_and_detail u))) (nd_unknown n)"

definition program_writable :: "program \<Rightarrow> bool" where
  "program_writable p \<longleftrightarrow> (\<forall>n \<in> set (pg_nodes p). node_writable n)
     \<and> (\<forall>e \<in> set (pg_edges p). condition_text (ed_condition e) \<and> pred_option utf8_valid (ed_label e))
     \<and> (\<forall>s \<in> set (pg_sources p). utf8_valid (normalize_slashes (src_path s)))"

lemma view_ok [simp]:
  "json_ok (number_view k)" "json_ok (span_view s)"
  "json_ok (unknown_view u) \<longleftrightarrow> utf8_valid (snd (kind_and_detail u))"
  using unknown_json_ok [of u]
  by (simp_all add: number_view_def span_view_def position_view_def small_keys unknown_view_agrees)

lemma condition_view_ok: "condition_text c \<Longrightarrow> json_ok (condition_view c)"
  by (induction c) (simp_all add: small_keys)

lemma names_ok [simp]:
  "utf8_valid (capability_name c)" "utf8_valid (observable_effect_name e)" "utf8_valid (node_kind_name k)"
  "utf8_valid (phase_name ph)" "utf8_valid (edge_kind_name ek)" "utf8_valid (provider_name pr)"
  subgoal by (cases c) simp_all
  subgoal by (cases e) simp_all
  subgoal by (cases k) simp_all
  subgoal by (cases ph) simp_all
  subgoal by (cases ek) simp_all
  subgoal by (cases pr) simp_all
  done

lemma source_view_ok: "utf8_valid (normalize_slashes (src_path s)) \<Longrightarrow> json_ok (source_view s)"
  by (simp add: source_view_def bmap_ok_def less_char_def)

lemma edge_view_ok:
  "condition_text (ed_condition e) \<Longrightarrow> pred_option utf8_valid (ed_label e) \<Longrightarrow> json_ok (edge_view e)"
  by (auto simp: edge_view_def member_if_def member_of_def bmap_ok_def less_char_def condition_view_ok split: option.split)

lemma node_view_ok:
  assumes "node_writable n"
  shows "json_ok (node_view n)"
proof -
  have attributes: "json_ok (JObject (map (map_prod id abstract_value_view) (nd_attributes n)))"
    using assms value_views_ok(1)
    by (fastforce simp: node_writable_def bmap_ok_def comp_def list_all_iff abstract_value_view_agrees)
  have optional: "sorted_wrt (<) (map fst (member_if a ''attributes'' u @ member_if b ''capabilities'' v
      @ member_if c ''condition'' w @ member_if d ''effects'' x @ [(''id'', y1), (''kind'', y2), (''name'', y3), (''phase'', y4),
        (''source'', y5), (''span'', y6)] @ member_of ''unknown'' unknown_view z))" for a b c d u v w x y1 y2 y3 y4 y5 y6 z
    by (auto simp: sorted_wrt_append member_if_def member_of_def less_char_def split: option.splits if_splits)
  show ?thesis
    using assms attributes optional condition_view_ok
    by (auto simp: node_view_def bmap_ok_def node_writable_def list_all_iff member_if_def member_of_def pred_option_def
        split: option.split)
qed

lemma graph_members_ok: "program_writable p \<Longrightarrow> list_all (\<lambda>(k, v). utf8_valid k \<and> json_ok v) (graph_members kind p)"
  by (simp add: graph_members_def graph_schema_def program_writable_def list_all_iff node_view_ok edge_view_ok source_view_ok)

lemma digest_text_ok: "utf8_valid (digest_display d)"
proof -
  have "\<forall>c \<in> set (digest_display d). byte_of c < 128"
  proof -
    have "list_all (\<lambda>c. byte_of c < 128) hex_digits" by (simp add: hex_digits_def)
    then have "byte_of (hex_digits ! k) < 128" if "k < 16" for k
      using that by (auto simp: list_all_length hex_digits_def)
    then show ?thesis by (auto simp: digest_display_def lowercase_hex_def less_mult_imp_div_less)
  qed
  then show ?thesis by (rule utf8_valid_ascii)
qed

lemma serialize_graph_ok:
  "program_writable p \<Longrightarrow> json_ok (serialize_graph kind p digest)"
  using graph_members_ok [of p kind] digest_text_ok
  by (cases digest) (simp_all add: serialize_graph_def member_of_def bmap_ok_def graph_members_def less_char_def)

lemma graph_lookups:
  assumes "ms = (''digest'', JString d) # graph_members kind p"
  shows "bmap_get ms ''digest'' = Some (JString d)" "bmap_get ms ''schema'' = Some (JString graph_schema)"
    "filter (\<lambda>f. fst f \<noteq> ''digest'') ms = graph_members kind p"
    "\<not> list_ex (\<lambda>name. bmap_get ms name = None) graph_fields" "length ms = length graph_fields"
    "find (\<lambda>k. k \<notin> set graph_fields) (map fst ms) = None"
  by (simp_all add: assms graph_members_def graph_fields_def)

definition within_limits :: "json_limits \<Rightarrow> json \<Rightarrow> bool" where
  "within_limits lim v \<longleftrightarrow> json_depth v \<le> jl_max_depth lim \<and> json_count v \<le> jl_max_values lim
     \<and> length (canonical_line v) \<le> jl_max_bytes lim"

lemma graph_document_reads:
  assumes "program_writable p" "\<And>v. json_ok v \<Longrightarrow> S v = canonical_json v" "\<And>x. length (H x) = 32"
    "within_limits default_json_limits (serialize_graph kind p (Some (graph_document_digest H S kind p)))"
  shows "authenticate_graph_document H (graph_to_canonical_json H S kind p) = Some (Inr ())"
proof -
  let ?d = "graph_document_digest H S kind p"
  define ms where "ms = (''digest'', JString (digest_display ?d)) # graph_members kind p"
  have doc: "serialize_graph kind p (Some ?d) = JObject ms" "serialize_graph kind p None = JObject (graph_members kind p)"
    by (simp_all add: serialize_graph_def member_of_def ms_def)
  have ok: "json_ok (JObject ms)" "json_ok (JObject (graph_members kind p))"
    using serialize_graph_ok [OF assms(1), of kind "Some ?d"] serialize_graph_ok [OF assms(1), of kind None]
    unfolding doc by simp_all
  have written: "graph_to_canonical_json H S kind p = canonical_line (JObject ms)"
    unfolding graph_to_canonical_json_def doc assms(2) [OF ok(1)] canonical_line_def by (rule refl)
  have "json_parse (canonical_line (JObject ms)) = Some (Inr (JObject ms))"
    unfolding json_parse_def
    by (rule json_line_reads_back [OF ok(1)]) (use assms(4) in \<open>simp_all add: doc within_limits_def\<close>)
  moreover have "digest_parse (digest_display ?d) = Inr ?d"
    using assms(3) by (simp add: digest_parse_iff graph_document_digest_def builder_finish_def)
  moreover have "?d = builder_finish H (builder_add (canonical_json (JObject (graph_members kind p))) (builder_new graph_schema))"
    unfolding graph_document_digest_def doc assms(2) [OF ok(2)] by (rule refl)
  ultimately show ?thesis
    by (simp add: authenticate_graph_document_def written exact_object_def graph_lookups [OF ms_def]
        authenticate_fields_def claimed_digest_def json_as_str_def del: canonical_json.simps)
qed


lemma authenticated_digest:
  assumes "authenticate_graph_document H source = Some (Inr ())"
  shows "\<exists>ms text. json_parse source = Some (Inr (JObject ms)) \<and> json_ok (JObject ms)
    \<and> bmap_get ms ''digest'' = Some (JString text)
    \<and> text = digest_display (builder_finish H (built graph_schema [canonical_json (JObject (filter (\<lambda>f. fst f \<noteq> ''digest'') ms))]))"
proof -
  obtain z where z: "json_parse source = Some z"
      "(case z of Inl e \<Rightarrow> Inl (json_error_display e) | Inr document \<Rightarrow>
         (case exact_object ''graph document'' graph_fields document of Inl e \<Rightarrow> Inl e | Inr ms \<Rightarrow> authenticate_fields H ms)) = Inr ()"
    using assms by (auto simp: authenticate_graph_document_def)
  from z(2) obtain v where "z = Inr v" by (cases z) simp_all
  with z obtain ms where v: "json_parse source = Some (Inr v)" "exact_object ''graph document'' graph_fields v = Inr ms"
      "authenticate_fields H ms = Inr ()"
    by (cases "exact_object ''graph document'' graph_fields v") simp_all
  have obj: "v = JObject ms" using v(2) by (auto simp: exact_object_def split: json.splits option.splits)
  have "json_ok v" using parse_sound [of source default_json_limits] v(1) by (auto simp: json_parse_def)
  moreover obtain shown where "bmap_get ms ''digest'' = Some (JString shown)"
      "digest_parse shown = Inr (builder_finish H (builder_add (canonical_json (JObject (filter (\<lambda>f. fst f \<noteq> ''digest'') ms)))
         (builder_new graph_schema)))"
    using v(3)
    by (auto simp: authenticate_fields_def claimed_digest_def json_as_str_def Let_def bind_eq_Some_conv
        simp del: canonical_json.simps split: if_splits sum.splits option.splits json.splits)
  ultimately show ?thesis using v(1) obj by (auto simp: digest_parse_iff built_def simp del: canonical_json.simps json_ok.simps)
qed

lemma join_filter_length:
  "length (join_with '','' (map f (filter P xs))) \<le> length (join_with '','' (map f xs))"
proof -
  have len: "length (join_with '','' ys) = sum_list (map length ys) + (length ys - 1)" for ys
  proof (induction ys)
    case (Cons y ys)
    then show ?case by (cases ys) simp_all
  qed simp
  have "sum_list (map length (map f (filter P xs))) \<le> sum_list (map length (map f xs))" by (induction xs) auto
  then show ?thesis unfolding len by (simp add: add_mono diff_le_mono)
qed

lemma canonical_filter_length: "length (canonical_json (JObject (filter P xs))) \<le> length (canonical_json (JObject xs))"
  using join_filter_length [of "\<lambda>(k, v). write_string k @ '':'' @ canonical_json v" P xs] by simp

lemma digest_display_inject: "digest_display a = digest_display b \<longleftrightarrow> a = b"
  by (metis append_same_eq digest_display_def option.inject parse_pairs_hex same_append_eq)


section \<open>A concrete document\<close>

definition sample_program :: program where
  "sample_program = program_empty PrGithub ''a.yml''"

definition sample_hash :: "string \<Rightarrow> string" where
  "sample_hash x = ''hhhhhhhhhhhhhhhhhhhhhhhhhhhhhhhh''"

abbreviation sample_tree :: json where
  "sample_tree \<equiv> serialize_graph GraphAll sample_program (Some (sample_hash []))"

lemma sample_digest: "graph_document_digest sample_hash canonical_json GraphAll sample_program = sample_hash []"
  by (simp add: graph_document_digest_def builder_finish_def sample_hash_def)

lemma sample_writable: "program_writable sample_program"
  by (simp add: program_writable_def sample_program_def program_empty_def normalize_slashes_def)

lemma sample_limits: "within_limits default_json_limits sample_tree"
  by (simp add: within_limits_def default_json_limits_def serialize_graph_def member_of_def graph_members_def
      sample_program_def program_empty_def source_view_def number_view_def graph_schema_def canonical_line_def write_string_def
      escape_byte_def short_escapes_def dec_i64_def dec_nat.simps digest_display_def lowercase_hex_def sample_hash_def
      hex_digits_def normalize_slashes_def)



end
