(* ===== verification/Runner_Json.thy ===== *)
theory Runner_Json
  imports Json
begin

text \<open>
  The JSON of the runner protocol (\<^verbatim>\<open>src/runner_protocol/json.rs\<close>): a second parser and writer, without
  limits and independent of the product's, because the sandbox helper shares no code with the host. The
  \<^verbatim>\<open>Value\<close> of this module has the constructors of \<^verbatim>\<open>JsonValue\<close> and is the same type here. The parser's
  recursion takes fuel; \<open>rp_value_total\<close> shows that \<open>runner_parse\<close> always passes enough.
\<close>

record rp =
  rp_rest :: string
  rp_offset :: nat

type_synonym 'a rres = "string + 'a \<times> rp"

definition rp_error :: "rp \<Rightarrow> string \<Rightarrow> string + 'a" where
  "rp_error p m = Inl (''JSON byte '' @ dec_nat (rp_offset p) @ '': '' @ m)"

definition rp_adv :: "nat \<Rightarrow> rp \<Rightarrow> rp" where
  "rp_adv n p = p\<lparr>rp_rest := drop n (rp_rest p), rp_offset := rp_offset p + n\<rparr>"

definition rp_peek :: "rp \<Rightarrow> char option" where
  "rp_peek p = (case rp_rest p of [] \<Rightarrow> None | c # _ \<Rightarrow> Some c)"

definition rp_take :: "rp \<Rightarrow> char rres" where
  "rp_take p = (case rp_rest p of [] \<Rightarrow> rp_error p ''unexpected end of input'' | c # _ \<Rightarrow> Inr (c, rp_adv 1 p))"

definition rp_whitespace :: "rp \<Rightarrow> rp" where
  "rp_whitespace p = rp_adv (length (takeWhile json_ws (rp_rest p))) p"

fun rp_literal :: "string \<Rightarrow> json \<Rightarrow> rp \<Rightarrow> json rres" where
  "rp_literal [] v p = Inr (v, p)"
| "rp_literal (e # es) v p =
     (case rp_take p of
        Inl err \<Rightarrow> Inl err
      | Inr (c, q) \<Rightarrow> if c \<noteq> e then rp_error q ''invalid literal'' else rp_literal es v q)"

section \<open>Strings\<close>

fun rp_hex :: "nat \<Rightarrow> nat \<Rightarrow> rp \<Rightarrow> nat rres" where
  "rp_hex 0 value p = Inr (value, p)"
| "rp_hex (Suc n) value p =
     (case rp_take p of
        Inl err \<Rightarrow> Inl err
      | Inr (c, q) \<Rightarrow>
          (case hex_value c of
             None \<Rightarrow> rp_error q ''invalid Unicode escape''
           | Some d \<Rightarrow> rp_hex n (value * 16 + d) q))"

definition rp_unicode_escape :: "rp \<Rightarrow> nat rres" where
  "rp_unicode_escape p = rp_hex 4 0 p"

text \<open>\<^verbatim>\<open>take()? != b'\\' || take()? != b'u'\<close>: the second byte is read only after a backslash.\<close>

definition rp_low_surrogate :: "nat \<Rightarrow> rp \<Rightarrow> nat rres" where
  "rp_low_surrogate first p =
     (case rp_take p of
        Inl err \<Rightarrow> Inl err
      | Inr (c, p1) \<Rightarrow>
          if c \<noteq> CHR 0x5C then rp_error p1 low_surrogate_message
          else (case rp_take p1 of
              Inl err \<Rightarrow> Inl err
            | Inr (d, p2) \<Rightarrow>
                if d \<noteq> CHR ''u'' then rp_error p2 low_surrogate_message
                else (case rp_unicode_escape p2 of
                    Inl err \<Rightarrow> Inl err
                  | Inr (second, p3) \<Rightarrow>
                      if 0xDC00 \<le> second \<and> second \<le> 0xDFFF
                      then Inr (0x10000 + (first - 0xD800) * 1024 + (second - 0xDC00), p3)
                      else rp_error p3 low_surrogate_message)))"

definition rp_scalar :: "rp \<Rightarrow> nat rres" where
  "rp_scalar p =
     (case rp_unicode_escape p of
        Inl err \<Rightarrow> Inl err
      | Inr (first, p1) \<Rightarrow>
          if 0xD800 \<le> first \<and> first \<le> 0xDBFF then rp_low_surrogate first p1
          else if 0xDC00 \<le> first \<and> first \<le> 0xDFFF then rp_error p1 ''lone low surrogate is invalid''
          else Inr (first, p1))"

definition simple_escapes :: "(char \<times> char) list" where
  "simple_escapes =
     [(CHR 0x22, CHR 0x22), (CHR 0x5C, CHR 0x5C), (CHR ''/'', CHR ''/''), (CHR ''b'', CHR 0x08), (CHR ''f'', CHR 0x0C),
      (CHR ''n'', CHR 0x0A), (CHR ''r'', CHR 0x0D), (CHR ''t'', CHR 0x09)]"

definition unicode_scalar :: "nat \<Rightarrow> bool" where
  "unicode_scalar n \<longleftrightarrow> n < 0xD800 \<or> (0xDFFF < n \<and> n \<le> 0x10FFFF)"

definition rp_escape :: "rp \<Rightarrow> string rres" where
  "rp_escape p =
     (case rp_take p of
        Inl err \<Rightarrow> Inl err
      | Inr (c, p1) \<Rightarrow>
          (case map_of simple_escapes c of
             Some x \<Rightarrow> Inr ([x], p1)
           | None \<Rightarrow>
               if c = CHR ''u'' then
                 (case rp_scalar p1 of
                    Inl err \<Rightarrow> Inl err
                  | Inr (value, p2) \<Rightarrow>
                      if unicode_scalar value then Inr (utf8_encode value, p2) else rp_error p2 ''invalid codepoint'')
               else rp_error p1 ''invalid string escape''))"

text \<open>Progress: the parser stays inside the input and moves forward.\<close>

definition rp_moves :: "rp \<Rightarrow> rp \<Rightarrow> bool" where
  "rp_moves p q \<longleftrightarrow> length (rp_rest q) \<le> length (rp_rest p)"

definition rres_ok :: "rp \<Rightarrow> 'a rres \<Rightarrow> bool" where
  "rres_ok p r \<longleftrightarrow> (\<forall>x q. r = Inr (x, q) \<longrightarrow> rp_moves p q)"

lemma rp_moves_refl [simp]: "rp_moves p p"
  by (simp add: rp_moves_def)

lemma rp_moves_trans [trans]: "rp_moves p q \<Longrightarrow> rp_moves q r \<Longrightarrow> rp_moves p r"
  by (simp add: rp_moves_def)

lemma rp_moves_adv [simp]: "rp_moves p (rp_adv n p)" "rp_moves p (rp_whitespace p)"
  by (simp_all add: rp_moves_def rp_adv_def rp_whitespace_def)

lemma rres_ok_simps [simp]:
  "rres_ok p (rp_error q m)" "rres_ok p (Inl e)" "rres_ok p (Inr (x, q)) \<longleftrightarrow> rp_moves p q"
  by (simp_all add: rres_ok_def rp_error_def)

lemma rres_ok_bind:
  assumes "rres_ok p r" "\<And>x q. rp_moves p q \<Longrightarrow> rres_ok q (f x q)"
  shows "rres_ok p (case r of Inl e \<Rightarrow> Inl e | Inr (x, q) \<Rightarrow> f x q)"
  using assms by (auto simp: rres_ok_def split: sum.split intro: rp_moves_trans)

lemma rres_ok_take [simp]: "rres_ok p (rp_take p)"
  by (simp add: rp_take_def split: list.split)

lemma rp_take_Inr: "rp_take p = Inr (c, q) \<longleftrightarrow> (\<exists>s. rp_rest p = c # s) \<and> q = rp_adv 1 p"
  by (auto simp: rp_take_def rp_error_def split: list.splits)

lemma rp_take_less: "rp_take p = Inr (c, q) \<Longrightarrow> length (rp_rest q) < length (rp_rest p)"
  by (auto simp: rp_take_Inr rp_adv_def)

lemma rres_ok_literal: "rres_ok p (rp_literal es v p)"
  by (induction es arbitrary: p) (auto intro!: rres_ok_bind)

lemma rres_ok_hex: "rres_ok p (rp_hex n v p)"
  by (induction n arbitrary: p v) (auto intro!: rres_ok_bind split: option.split)

lemma rres_ok_scalar: "rres_ok p (rp_scalar p)"
  unfolding rp_scalar_def rp_low_surrogate_def rp_unicode_escape_def
  by (auto intro!: rres_ok_bind rres_ok_hex)

lemma rres_ok_escape: "rres_ok p (rp_escape p)"
  unfolding rp_escape_def by (auto intro!: rres_ok_bind rres_ok_scalar split: option.split)

text \<open>
  After the opening quote: one character at a time. The rest of the input is checked to be UTF-8 before its
  first character is taken.
\<close>

function rp_string_loop :: "string \<Rightarrow> rp \<Rightarrow> string rres" where
  "rp_string_loop out p =
     (case rp_take p of
        Inl err \<Rightarrow> Inl err
      | Inr (c, p1) \<Rightarrow>
          if c = CHR 0x22 then Inr (out, p1)
          else if c = CHR 0x5C then
            (case rp_escape p1 of
               Inl err \<Rightarrow> Inl err
             | Inr (x, p2) \<Rightarrow> rp_string_loop (out @ x) p2)
          else if byte_of c < 32 then rp_error p1 ''control byte in string''
          else if \<not> utf8_valid (rp_rest p) then rp_error p1 ''invalid UTF-8''
          else rp_string_loop (out @ take (utf8_width c) (rp_rest p)) (rp_adv (utf8_width c) p))"
  by pat_completeness auto
termination
proof (relation "measure (\<lambda>(out, p). length (rp_rest p))")
  fix out p y c p1 ya x p2
  assume "rp_take p = Inr y" "(c, p1) = y" "rp_escape p1 = Inr ya" "(x, p2) = ya"
  then show "((out @ x, p2), out, p) \<in> measure (\<lambda>(out, p). length (rp_rest p))"
    using rp_take_less [of p c p1] rres_ok_escape [of p1] by (auto simp: rres_ok_def rp_moves_def)
next
  fix out p y c p1
  assume "rp_take p = Inr y" "(c, p1) = y"
  then show "((out @ take (utf8_width c) (rp_rest p), rp_adv (utf8_width c) p), out, p) \<in> measure (\<lambda>(out, p). length (rp_rest p))"
    using rp_take_less [of p c p1] by (auto simp: rp_adv_def intro!: diff_less)
qed simp

declare rp_string_loop.simps [simp del]

text \<open>What a successful loop did first.\<close>

lemma rp_string_loop_cases:
  assumes "rp_string_loop out p = Inr (s, r)"
  obtains (close) "rp_take p = Inr (CHR 0x22, r)" "s = out"
  | (escape) p1 x p2 where "rp_take p = Inr (CHR 0x5C, p1)" "rp_escape p1 = Inr (x, p2)" "rp_string_loop (out @ x) p2 = Inr (s, r)"
      "length (rp_rest p2) < length (rp_rest p)"
  | (plain) c t where "rp_rest p = c # t" "utf8_valid (c # t)"
      "rp_string_loop (out @ take (utf8_width c) (c # t)) (rp_adv (utf8_width c) p) = Inr (s, r)"
      "length (rp_rest (rp_adv (utf8_width c) p)) < length (rp_rest p)"
proof -
  have shrinks: "length (rp_rest p2) < length (rp_rest p)"
    if "rp_take p = Inr (CHR 0x5C, p1)" "rp_escape p1 = Inr (x, p2)" for p1 x p2
    using rres_ok_escape [of p1] rp_take_less [OF that(1)] that(2) by (simp add: rres_ok_def rp_moves_def)
  have forward: "length (rp_rest (rp_adv (utf8_width c) p)) < length (rp_rest p)" if "rp_rest p = c # t" for c t
    using that by (simp add: rp_adv_def)
  show thesis
    using assms that shrinks forward unfolding rp_string_loop.simps [of out p]
    by (auto simp: rp_error_def rp_take_Inr split: sum.splits if_splits)
qed

lemma rp_string_loop_less: "rp_string_loop out p = Inr (s, r) \<Longrightarrow> length (rp_rest r) < length (rp_rest p)"
proof (induction "length (rp_rest p)" arbitrary: out p rule: less_induct)
  case less
  from less.prems show ?case
  proof (cases rule: rp_string_loop_cases)
    case (escape p1 x p2)
    then show ?thesis using less.hyps [OF escape(4,3)] by simp
  next
    case (plain c t)
    then show ?thesis using less.hyps [OF plain(4,3)] by simp
  qed (rule rp_take_less)
qed

section \<open>Integers\<close>

definition rp_integer :: "char \<Rightarrow> rp \<Rightarrow> json rres" where
  "rp_integer first p =
     (let neg = first = CHR ''-''; next = rp_peek p;
          first_digit = if neg then next else Some first;
          following = if neg then rp_peek (rp_adv 1 p) else next;
          digits = takeWhile is_ascii_digit (rp_rest p);
          q = rp_adv (length digits) p in
      if neg \<and> \<not> (\<exists>c. next = Some c \<and> is_ascii_digit c) then rp_error p ''invalid integer''
      else if first_digit = Some (CHR ''0'') \<and> (\<exists>c. following = Some c \<and> is_ascii_digit c) then rp_error p ''integer has a leading zero''
      else if rp_peek q \<in> {Some (CHR ''.''), Some (CHR ''e''), Some (CHR ''E'')} then rp_error q ''runner JSON permits integers only''
      else (case i64_of_digits neg (if neg then digits else first # digits) of
          None \<Rightarrow> rp_error q ''integer out of range''
        | Some i \<Rightarrow> Inr (JInteger i, q)))"

section \<open>Values, arrays and objects\<close>

fun rp_array_loop :: "nat \<Rightarrow> (rp \<Rightarrow> json rres option) \<Rightarrow> json list \<Rightarrow> rp \<Rightarrow> json rres option" where
  "rp_array_loop 0 value values p = None"
| "rp_array_loop (Suc n) value values p =
     (case value p of
        None \<Rightarrow> None
      | Some (Inl e) \<Rightarrow> Some (Inl e)
      | Some (Inr (v, p1)) \<Rightarrow>
          (case rp_take (rp_whitespace p1) of
             Inl e \<Rightarrow> Some (Inl e)
           | Inr (c, p2) \<Rightarrow>
               if c = CHR '']'' then Some (Inr (JArray (values @ [v]), p2))
               else if c = CHR '','' then rp_array_loop n value (values @ [v]) p2
               else Some (rp_error p2 (''expected '' @ quoted (CHR '','') @ '' or '' @ quoted (CHR '']'')))))"

definition rp_array :: "(rp \<Rightarrow> json rres option) \<Rightarrow> rp \<Rightarrow> json rres option" where
  "rp_array value p =
     (let q = rp_whitespace p in
      if rp_peek q = Some (CHR '']'') then Some (Inr (JArray [], rp_adv 1 q))
      else rp_array_loop (Suc (length (rp_rest q))) value [] q)"

definition rp_key :: "(string \<times> json) list \<Rightarrow> rp \<Rightarrow> string rres" where
  "rp_key fs p =
     (case rp_take (rp_whitespace p) of
        Inl e \<Rightarrow> Inl e
      | Inr (c, p1) \<Rightarrow>
          if c \<noteq> CHR 0x22 then rp_error p1 ''object key must be a string''
          else (case rp_string_loop [] p1 of
              Inl e \<Rightarrow> Inl e
            | Inr (key, p2) \<Rightarrow>
                if bmap_get fs key \<noteq> None then rp_error p2 ''duplicate object key''
                else (case rp_take (rp_whitespace p2) of
                    Inl e \<Rightarrow> Inl e
                  | Inr (d, p3) \<Rightarrow>
                      if d \<noteq> CHR '':'' then rp_error p3 (''expected '' @ quoted (CHR '':'')) else Inr (key, p3))))"

fun rp_object_loop ::
  "nat \<Rightarrow> (rp \<Rightarrow> json rres option) \<Rightarrow> (string \<times> json) list \<Rightarrow> rp \<Rightarrow> json rres option" where
  "rp_object_loop 0 value fs p = None"
| "rp_object_loop (Suc n) value fs p =
     (case rp_key fs p of
        Inl e \<Rightarrow> Some (Inl e)
      | Inr (key, p1) \<Rightarrow>
          (case value p1 of
             None \<Rightarrow> None
           | Some (Inl e) \<Rightarrow> Some (Inl e)
           | Some (Inr (v, p2)) \<Rightarrow>
               (case rp_take (rp_whitespace p2) of
                  Inl e \<Rightarrow> Some (Inl e)
                | Inr (c, p3) \<Rightarrow>
                    if c = CHR ''}'' then Some (Inr (JObject (bmap_insert key v fs), p3))
                    else if c = CHR '','' then rp_object_loop n value (bmap_insert key v fs) p3
                    else Some (rp_error p3 (''expected '' @ quoted (CHR '','') @ '' or '' @ quoted (CHR ''}''))))))"

definition rp_object :: "(rp \<Rightarrow> json rres option) \<Rightarrow> rp \<Rightarrow> json rres option" where
  "rp_object value p =
     (let q = rp_whitespace p in
      if rp_peek q = Some (CHR ''}'') then Some (Inr (JObject [], rp_adv 1 q))
      else rp_object_loop (Suc (length (rp_rest q))) value [] q)"

text \<open>The first byte is consumed before its parser runs.\<close>

definition rp_dispatch :: "(rp \<Rightarrow> json rres option) \<Rightarrow> char \<Rightarrow> rp \<Rightarrow> json rres option" where
  "rp_dispatch value c p =
     (if c = CHR ''n'' then Some (rp_literal ''ull'' JNull p)
      else if c = CHR ''t'' then Some (rp_literal ''rue'' (JBoolean True) p)
      else if c = CHR ''f'' then Some (rp_literal ''alse'' (JBoolean False) p)
      else if c = CHR 0x22 then Some (map_sum id (map_prod JString id) (rp_string_loop [] p))
      else if c = CHR ''['' then rp_array value p
      else if c = CHR ''{'' then rp_object value p
      else if c = CHR ''-'' \<or> is_ascii_digit c then Some (rp_integer c p)
      else Some (rp_error p ''expected a JSON value''))"

primrec rp_value :: "nat \<Rightarrow> rp \<Rightarrow> json rres option" where
  "rp_value 0 p = None"
| "rp_value (Suc n) p =
     (case rp_take (rp_whitespace p) of
        Inl e \<Rightarrow> Some (Inl e)
      | Inr (c, q) \<Rightarrow> rp_dispatch (rp_value n) c q)"

definition runner_parse :: "string \<Rightarrow> (string + json) option" where
  "runner_parse source =
     (case rp_value (Suc (length source)) \<lparr>rp_rest = source, rp_offset = 0\<rparr> of
        None \<Rightarrow> None
      | Some (Inl e) \<Rightarrow> Some (Inl e)
      | Some (Inr (v, p)) \<Rightarrow>
          let q = rp_whitespace p in
          if rp_offset q = length source then Some (Inr v) else Some (rp_error q ''trailing JSON input''))"

section \<open>The writer\<close>

text \<open>Per character; a character below \<^verbatim>\<open>U+0020\<close> is one byte.\<close>

definition rj_escape :: "string \<Rightarrow> string" where
  "rj_escape g =
     (case g of
        [c] \<Rightarrow>
          (case map_of short_escapes c of
             Some e \<Rightarrow> [CHR 0x5C, e]
           | None \<Rightarrow>
               if byte_of c < 32
               then [CHR 0x5C, CHR ''u'', CHR ''0'', CHR ''0'', hex_digit (byte_of c div 16), hex_digit (byte_of c mod 16)]
               else g)
      | _ \<Rightarrow> g)"

definition rj_string :: "string \<Rightarrow> string" where
  "rj_string s = CHR 0x22 # concat (map rj_escape (utf8_chars s)) @ [CHR 0x22]"

fun runner_canonical :: "json \<Rightarrow> string" where
  "runner_canonical JNull = ''null''"
| "runner_canonical (JBoolean b) = (if b then ''true'' else ''false'')"
| "runner_canonical (JInteger i) = dec_i64 i"
| "runner_canonical (JString s) = rj_string s"
| "runner_canonical (JArray vs) = ''['' @ join_with '','' (map runner_canonical vs) @ '']''"
| "runner_canonical (JObject fs) =
     ''{'' @ join_with '','' (map (\<lambda>(k, v). rj_string k @ '':'' @ runner_canonical v) fs) @ ''}''"

text \<open>On well-formed values it writes what the product writes.\<close>

lemma escape_byte_plain:
  assumes "128 \<le> byte_of c"
  shows "escape_byte c = [c]"
proof -
  have "\<forall>k \<in> fst ` set short_escapes. byte_of k < 128" by (simp add: short_escapes_def)
  with assms have "c \<notin> fst ` set short_escapes" using not_less by blast
  then have "map_of short_escapes c = None" by (simp add: map_of_eq_None_iff)
  with assms show ?thesis by (simp add: escape_byte_def)
qed

lemma rj_escape_char:
  assumes "utf8_char g"
  shows "rj_escape g = concat (map escape_byte g)"
proof -
  obtain a r where g: "g = a # r" "\<not> utf8_cont a" "length g = utf8_width a" "list_all utf8_cont r"
    using assms by (cases g) (simp_all add: utf8_char_def)
  show ?thesis
  proof (cases r)
    case Nil
    with g show ?thesis by (simp add: rj_escape_def escape_byte_def split: option.split)
  next
    case (Cons b t)
    with g have "128 \<le> byte_of a" by (cases "byte_of a < 128") (simp_all add: utf8_width_def)
    moreover have "concat (map escape_byte r) = r"
      using g(4) by (induction r) (simp_all add: utf8_cont_def escape_byte_plain)
    moreover have "rj_escape g = g" using Cons g(1) by (simp add: rj_escape_def)
    ultimately show ?thesis by (simp add: g(1) escape_byte_plain)
  qed
qed

lemma concat_map_groups: "concat (map (concat \<circ> map f) gs) = concat (map f (concat gs))"
  by (induction gs) simp_all

lemma rj_string_write: "utf8_valid s \<Longrightarrow> rj_string s = write_string s"
proof -
  assume s: "utf8_valid s"
  then have "concat (map rj_escape (utf8_chars s)) = concat (map (concat \<circ> map escape_byte) (utf8_chars s))"
    using utf8_chars_valid rj_escape_char by (intro arg_cong [where f = concat] map_cong) auto
  also have "\<dots> = concat (map escape_byte (concat (utf8_chars s)))"
    by (rule concat_map_groups)
  finally show ?thesis using s by (simp add: rj_string_def write_string_def utf8_chars_valid)
qed

lemma runner_canonical_agrees: "json_ok v \<Longrightarrow> runner_canonical v = canonical_json v"
proof (induction v)
  case (JArray vs)
  then have "map runner_canonical vs = map canonical_json vs" by (auto simp: list_all_iff)
  then show ?case by (simp del: map_eq_conv)
next
  case (JObject fs)
  have "rj_string k @ '':'' @ runner_canonical v = write_string k @ '':'' @ canonical_json v" if "(k, v) \<in> set fs" for k v
    using JObject that by (auto simp: list_all_iff rj_string_write)
  then have "map (\<lambda>(k, v). rj_string k @ '':'' @ runner_canonical v) fs = map (\<lambda>(k, v). write_string k @ '':'' @ canonical_json v) fs"
    by (intro map_cong) (auto split: prod.splits)
  then show ?case by (simp del: map_eq_conv)
qed (simp_all add: rj_string_write)

section \<open>Enough fuel\<close>

definition rp_total :: "nat \<Rightarrow> (rp \<Rightarrow> json rres option) \<Rightarrow> bool" where
  "rp_total n value \<longleftrightarrow> (\<forall>p. length (rp_rest p) < n \<longrightarrow> value p \<noteq> None
     \<and> (\<forall>v q. value p = Some (Inr (v, q)) \<longrightarrow> length (rp_rest q) < length (rp_rest p)))"

lemma rp_totalD:
  assumes "rp_total n value" "length (rp_rest p) < n"
  shows "value p \<noteq> None" "value p = Some (Inr (v, q)) \<Longrightarrow> length (rp_rest q) < length (rp_rest p)"
  using assms by (auto simp: rp_total_def)

lemma rp_whitespace_le [simp]: "length (rp_rest (rp_whitespace p)) \<le> length (rp_rest p)"
  using rp_moves_adv(2) [of p] by (simp add: rp_moves_def)

lemma rp_take_whitespace: "rp_take (rp_whitespace p) = Inr (c, q) \<Longrightarrow> length (rp_rest q) < length (rp_rest p)"
  using rp_take_less [of "rp_whitespace p" c q] rp_whitespace_le [of p] by linarith

lemma rp_key_less: "rp_key fs p = Inr (k, q) \<Longrightarrow> length (rp_rest q) < length (rp_rest p)"
  by (auto simp: rp_key_def rp_error_def split: sum.splits if_splits dest!: rp_take_whitespace rp_string_loop_less)

lemma rp_array_loop_total:
  assumes "rp_total m value"
  shows "length (rp_rest p) < m \<Longrightarrow> length (rp_rest p) < n \<Longrightarrow> rp_array_loop n value vs p \<noteq> None
    \<and> (\<forall>v q. rp_array_loop n value vs p = Some (Inr (v, q)) \<longrightarrow> length (rp_rest q) < length (rp_rest p))"
proof (induction n arbitrary: vs p)
  case (Suc n)
  consider (err) e where "value p = Some (Inl e)"
    | (ok) v p1 where "value p = Some (Inr (v, p1))" "length (rp_rest p1) < length (rp_rest p)"
    using rp_totalD [OF assms Suc.prems(1)] by (metis option.exhaust old.sum.exhaust surj_pair)
  then show ?case
  proof cases
    case ok
    show ?thesis
    proof (cases "rp_take (rp_whitespace p1)")
      case (Inr z)
      then obtain c p2 where z: "rp_take (rp_whitespace p1) = Inr (c, p2)" by (cases z) simp
      from rp_take_whitespace [OF z] ok(2) have less: "length (rp_rest p2) < length (rp_rest p)" by simp
      with Suc.prems have "length (rp_rest p2) < m" "length (rp_rest p2) < n" by simp_all
      from Suc.IH [OF this] ok(1) z less show ?thesis by (auto simp: rp_error_def intro: less_trans)
    qed (use ok in simp)
  qed simp
qed simp

lemma rp_object_loop_total:
  assumes "rp_total m value"
  shows "length (rp_rest p) < m \<Longrightarrow> length (rp_rest p) < n \<Longrightarrow> rp_object_loop n value fs p \<noteq> None
    \<and> (\<forall>v q. rp_object_loop n value fs p = Some (Inr (v, q)) \<longrightarrow> length (rp_rest q) < length (rp_rest p))"
proof (induction n arbitrary: fs p)
  case (Suc n)
  show ?case
  proof (cases "rp_key fs p")
    case (Inr y)
    then obtain k p0 where k: "rp_key fs p = Inr (k, p0)" by (cases y) simp
    note k_less = rp_key_less [OF k]
    with Suc.prems have p0: "length (rp_rest p0) < m" by simp
    consider (err) e where "value p0 = Some (Inl e)"
      | (ok) v p1 where "value p0 = Some (Inr (v, p1))" "length (rp_rest p1) < length (rp_rest p0)"
      using rp_totalD [OF assms p0] by (metis option.exhaust old.sum.exhaust surj_pair)
    then show ?thesis
    proof cases
      case ok
      show ?thesis
      proof (cases "rp_take (rp_whitespace p1)")
        case (Inr z)
        then obtain c p2 where z: "rp_take (rp_whitespace p1) = Inr (c, p2)" by (cases z) simp
        from rp_take_whitespace [OF z] ok(2) k_less have less: "length (rp_rest p2) < length (rp_rest p)" by simp
        with Suc.prems have "length (rp_rest p2) < m" "length (rp_rest p2) < n" by simp_all
        from Suc.IH [OF this] ok(1) k z less show ?thesis by (auto simp: rp_error_def intro: less_trans)
      qed (use ok k in simp)
    qed (use k in simp)
  qed simp
qed simp

lemma rp_array_total:
  assumes "rp_total n value" "length (rp_rest p) < n"
  shows "rp_array value p \<noteq> None" "rp_array value p = Some (Inr (v, q)) \<Longrightarrow> length (rp_rest q) \<le> length (rp_rest p)"
proof -
  let ?p = "rp_whitespace p"
  have le: "length (rp_rest ?p) \<le> length (rp_rest p)" "length (rp_rest (rp_adv 1 ?p)) \<le> length (rp_rest ?p)"
    using rp_moves_adv(1) [of ?p 1] by (simp_all add: rp_moves_def)
  with assms(2) have ws: "length (rp_rest ?p) < n" "length (rp_rest ?p) < Suc (length (rp_rest ?p))" by (linarith, simp)
  note loop = rp_array_loop_total [OF assms(1) ws, of "[]"]
  show "rp_array value p \<noteq> None"
    using loop by (simp add: rp_array_def Let_def del: rp_array_loop.simps)
  assume "rp_array value p = Some (Inr (v, q))"
  then have "q = rp_adv 1 ?p \<or> length (rp_rest q) < length (rp_rest ?p)"
    using loop by (auto simp: rp_array_def Let_def simp del: rp_array_loop.simps split: if_splits)
  with le show "length (rp_rest q) \<le> length (rp_rest p)" by (metis order.trans less_imp_le)
qed

lemma rp_object_total:
  assumes "rp_total n value" "length (rp_rest p) < n"
  shows "rp_object value p \<noteq> None" "rp_object value p = Some (Inr (v, q)) \<Longrightarrow> length (rp_rest q) \<le> length (rp_rest p)"
proof -
  let ?p = "rp_whitespace p"
  have le: "length (rp_rest ?p) \<le> length (rp_rest p)" "length (rp_rest (rp_adv 1 ?p)) \<le> length (rp_rest ?p)"
    using rp_moves_adv(1) [of ?p 1] by (simp_all add: rp_moves_def)
  with assms(2) have ws: "length (rp_rest ?p) < n" "length (rp_rest ?p) < Suc (length (rp_rest ?p))" by (linarith, simp)
  note loop = rp_object_loop_total [OF assms(1) ws, of "[]"]
  show "rp_object value p \<noteq> None"
    using loop by (simp add: rp_object_def Let_def del: rp_object_loop.simps)
  assume "rp_object value p = Some (Inr (v, q))"
  then have "q = rp_adv 1 ?p \<or> length (rp_rest q) < length (rp_rest ?p)"
    using loop by (auto simp: rp_object_def Let_def simp del: rp_object_loop.simps split: if_splits)
  with le show "length (rp_rest q) \<le> length (rp_rest p)" by (metis order.trans less_imp_le)
qed

lemma rp_dispatch_total:
  assumes "rp_total n value" "length (rp_rest p) < n"
  shows "rp_dispatch value c p \<noteq> None"
    "rp_dispatch value c p = Some (Inr (v, q)) \<Longrightarrow> length (rp_rest q) \<le> length (rp_rest p)"
proof -
  show "rp_dispatch value c p \<noteq> None"
    using rp_array_total(1) [OF assms] rp_object_total(1) [OF assms] by (simp add: rp_dispatch_def)
  have "length (rp_rest q) \<le> length (rp_rest p)" if "rp_integer c p = Inr (v, q)"
    using that by (auto simp: rp_integer_def rp_error_def Let_def rp_adv_def split: if_splits option.splits)
  moreover have "length (rp_rest q) \<le> length (rp_rest p)" if "rp_literal es w p = Inr (v, q)" for es w
    using that rres_ok_literal [of p es w] by (simp add: rres_ok_def rp_moves_def)
  ultimately show "length (rp_rest q) \<le> length (rp_rest p)" if "rp_dispatch value c p = Some (Inr (v, q))"
    using that rp_array_total(2) [OF assms] rp_object_total(2) [OF assms]
    by (auto simp: rp_dispatch_def rp_error_def map_sum_def simp del: rp_literal.simps split: if_splits sum.splits dest!: rp_string_loop_less)
qed

lemma rp_value_total: "rp_total n (rp_value n)"
proof (induction n)
  case (Suc n)
  show ?case
    unfolding rp_total_def
  proof (intro allI impI)
    fix p :: rp
    assume "length (rp_rest p) < Suc n"
    show "rp_value (Suc n) p \<noteq> None
      \<and> (\<forall>v q. rp_value (Suc n) p = Some (Inr (v, q)) \<longrightarrow> length (rp_rest q) < length (rp_rest p))"
    proof (cases "rp_take (rp_whitespace p)")
      case (Inr z)
      then obtain c q where z: "rp_take (rp_whitespace p) = Inr (c, q)" by (cases z) simp
      from rp_take_whitespace [OF z] \<open>length (rp_rest p) < Suc n\<close> have "length (rp_rest q) < n" by simp
      from rp_dispatch_total [OF Suc this, of c] rp_take_whitespace [OF z] show ?thesis
        by (simp add: z) (blast intro: order.strict_trans1)
    qed simp
  qed
qed (simp add: rp_total_def)

lemma runner_parse_total: "runner_parse source \<noteq> None"
  using rp_totalD(1) [OF rp_value_total, of "\<lparr>rp_rest = source, rp_offset = 0\<rparr>" "Suc (length source)"]
  by (auto simp: runner_parse_def Let_def split: option.split sum.split)

end
