(* ===== verification/Parser_Agreement.thy ===== *)
theory Parser_Agreement
  imports Runner_Json
begin

text \<open>
  The two JSON parsers of the program read the same documents the same way: whatever the product accepts,
  the runner accepts with the same value, and the reverse holds when no limit of the product interferes. A
  document therefore cannot mean one thing to the host and another to the sandbox helper.
\<close>

section \<open>UTF-8\<close>

lemma utf8_valid_append: "utf8_valid a \<Longrightarrow> utf8_valid (a @ b) \<longleftrightarrow> utf8_valid b"
proof (induction a rule: utf8_valid.induct)
  case (2 a s)
  then show ?case by (auto split: if_splits list.splits)
qed simp

lemma utf8_valid_forms:
  "byte_of a < 128 \<Longrightarrow> utf8_valid [a]"
  "194 \<le> byte_of a \<Longrightarrow> byte_of a \<le> 223 \<Longrightarrow> utf8_cont b \<Longrightarrow> utf8_valid [a, b]"
  "224 \<le> byte_of a \<Longrightarrow> byte_of a \<le> 239 \<Longrightarrow> byte_in (if byte_of a = 224 then 160 else 128) (if byte_of a = 237 then 159 else 191) b
     \<Longrightarrow> utf8_cont c \<Longrightarrow> utf8_valid [a, b, c]"
  "240 \<le> byte_of a \<Longrightarrow> byte_of a \<le> 244 \<Longrightarrow> byte_in (if byte_of a = 240 then 144 else 128) (if byte_of a = 244 then 143 else 191) b
     \<Longrightarrow> utf8_cont c \<Longrightarrow> utf8_cont d \<Longrightarrow> utf8_valid [a, b, c, d]"
  by (simp_all add: byte_in_def)

lemma byte_of_char_of: "k < 256 \<Longrightarrow> byte_of (char_of k) = k"
  by simp

lemma cont_byte: "utf8_cont (char_of (128 + k mod 64 :: nat))"
proof -
  have "k mod 64 < 64" by simp
  then have "byte_of (char_of (128 + k mod 64)) = 128 + k mod 64" by (intro byte_of_char_of) linarith
  with \<open>k mod 64 < 64\<close> show ?thesis unfolding utf8_cont_def by linarith
qed

lemma utf8_encode_valid:
  assumes "unicode_scalar n"
  shows "utf8_valid (utf8_encode n)"
proof -
  have cont: "byte_of (char_of (128 + k mod 64)) = 128 + k mod 64" "k mod 64 < 64" for k :: nat
    by (intro byte_of_char_of) (simp_all add: mod_less_divisor trans_less_add1)
  consider "n < 128" | "128 \<le> n" "n < 2048" | "2048 \<le> n" "n < 65536" | "65536 \<le> n" by linarith
  then show ?thesis
  proof cases
    case 1
    then show ?thesis by (simp add: utf8_encode_def)
  next
    case 2
    then have "2 \<le> n div 64" "n div 64 < 32" by auto
    then have "byte_of (char_of (192 + n div 64)) = 192 + n div 64" by (intro byte_of_char_of) simp
    with 2 \<open>2 \<le> n div 64\<close> \<open>n div 64 < 32\<close> have "utf8_valid [char_of (192 + n div 64), char_of (128 + n mod 64)]"
      by (intro utf8_valid_forms cont_byte) simp_all
    with 2 show ?thesis by (simp add: utf8_encode_def del: utf8_valid.simps)
  next
    case 3
    then have d: "n div 4096 < 16" by auto
    have parts: "n div 64 = 64 * (n div 4096) + n div 64 mod 64" using div_mult2_eq [of n 64 64] by simp
    have "32 \<le> n div 64" using 3 by (simp add: less_eq_div_iff_mult_less_eq)
    with parts have lo: "n div 64 mod 64 \<ge> 32" if "n div 4096 = 0" using that by linarith
    have hi: "n div 64 mod 64 < 32" if "n div 4096 = 13"
    proof -
      have "n div 4096 < 14" using that by simp
      then have "n < 57344" by (simp add: div_less_iff_less_mult)
      with assms have "n div 64 < 864" by (simp add: unicode_scalar_def div_less_iff_less_mult)
      with parts that show ?thesis by linarith
    qed
    have a: "byte_of (char_of (224 + n div 4096)) = 224 + n div 4096" using d by (intro byte_of_char_of) simp
    have second: "byte_in (if 224 + n div 4096 = 224 then 160 else 128) (if 224 + n div 4096 = 237 then 159 else 191)
        (char_of (128 + n div 64 mod 64))"
      unfolding byte_in_def cont(1) using lo hi cont(2) [of "n div 64"] by auto
    have "utf8_valid [char_of (224 + n div 4096), char_of (128 + n div 64 mod 64), char_of (128 + n mod 64)]"
    proof (intro utf8_valid_forms cont_byte, unfold a)
      show "224 \<le> 224 + n div 4096" "224 + n div 4096 \<le> 239" using d by simp_all
    qed (rule second)
    with 3 show ?thesis by (simp add: utf8_encode_def del: utf8_valid.simps)
  next
    case 4
    with assms have n: "n < 1114112" by (auto simp: unicode_scalar_def)
    then have d: "n div 262144 < 5" by auto
    have parts: "n div 4096 = 64 * (n div 262144) + n div 4096 mod 64" using div_mult2_eq [of n 4096 64] by simp
    have "16 \<le> n div 4096" using 4 by (simp add: less_eq_div_iff_mult_less_eq)
    with parts have lo: "n div 4096 mod 64 \<ge> 16" if "n div 262144 = 0" using that by linarith
    have "n div 4096 < 272" using n by (simp add: div_less_iff_less_mult)
    with parts have hi: "n div 4096 mod 64 < 16" if "n div 262144 = 4" using that by linarith
    have a: "byte_of (char_of (240 + n div 262144)) = 240 + n div 262144" using d by (intro byte_of_char_of) simp
    have second: "byte_in (if 240 + n div 262144 = 240 then 144 else 128) (if 240 + n div 262144 = 244 then 143 else 191)
        (char_of (128 + n div 4096 mod 64))"
      unfolding byte_in_def cont(1) using lo hi cont(2) [of "n div 4096"] by auto
    have "utf8_valid [char_of (240 + n div 262144), char_of (128 + n div 4096 mod 64), char_of (128 + n div 64 mod 64),
        char_of (128 + n mod 64)]"
    proof (intro utf8_valid_forms cont_byte, unfold a)
      show "240 \<le> 240 + n div 262144" "240 + n div 262144 \<le> 244" using d by simp_all
    qed (rule second)
    with 4 show ?thesis by (simp add: utf8_encode_def del: utf8_valid.simps)
  qed
qed

lemma utf8_valid_ascii_tail: "utf8_valid (c # s) \<Longrightarrow> byte_of c < 128 \<Longrightarrow> utf8_valid s"
  by simp

section \<open>Simulation\<close>

text \<open>
  Both parsers stand at the same place of a valid input. With \<open>strict\<close>, the values begun so far leave room
  for one per byte left (\<open>K\<close>), so that no limit of the product can interfere.
\<close>

definition same :: "bool \<Rightarrow> nat \<Rightarrow> jp \<Rightarrow> rp \<Rightarrow> bool" where
  "same strict K p q \<longleftrightarrow> jp_rest p = rp_rest q \<and> jp_offset p = rp_offset q \<and> utf8_valid (rp_rest q)
     \<and> (strict \<longrightarrow> jp_values p + length (rp_rest q) \<le> K)"

definition agrees :: "bool \<Rightarrow> nat \<Rightarrow> 'a jres \<Rightarrow> 'a rres \<Rightarrow> bool" where
  "agrees strict K a b \<longleftrightarrow>
     (case a of
        Inl e \<Rightarrow> strict \<longrightarrow> (\<exists>e'. b = Inl e')
      | Inr (x, p) \<Rightarrow> (\<exists>q. b = Inr (x, q) \<and> same strict K p q))"

definition opt_agrees :: "bool \<Rightarrow> nat \<Rightarrow> 'a jres option \<Rightarrow> 'a rres option \<Rightarrow> bool" where
  "opt_agrees strict K a b \<longleftrightarrow> (\<forall>r. a = Some r \<longrightarrow> (\<exists>r'. b = Some r' \<and> agrees strict K r r'))"

lemma agrees_simps [simp]:
  "agrees strict K (jp_error p m) (rp_error q m')" "agrees strict K (Inl e) (Inl e')"
  "agrees strict K (Inr (x, p)) (Inr (y, q)) \<longleftrightarrow> x = y \<and> same strict K p q"
  by (auto simp: agrees_def jp_error_def rp_error_def)

lemma agrees_bind:
  assumes "agrees strict K a b" "\<And>x p q. same strict K p q \<Longrightarrow> agrees strict K (f x p) (g x q)"
  shows "agrees strict K (case a of Inl e \<Rightarrow> Inl e | Inr (x, p) \<Rightarrow> f x p) (case b of Inl e \<Rightarrow> Inl e | Inr (x, q) \<Rightarrow> g x q)"
proof (cases a)
  case (Inr z)
  then obtain x p where a: "a = Inr (x, p)" by (cases z) simp
  with assms(1) obtain q where "b = Inr (x, q)" "same strict K p q" by (auto simp: agrees_def)
  with assms(2) [of p q x] a show ?thesis by simp
qed (use assms(1) in \<open>auto simp: agrees_def\<close>)

lemma same_take:
  assumes "same strict K p q"
  obtains (stop) "rp_rest q = []" "jp_take p = jp_error p ''unexpected end of JSON''" "rp_take q = rp_error q ''unexpected end of input''"
  | (byte) c s where "rp_rest q = c # s" "jp_take p = Inr (c, jp_adv 1 p)" "rp_take q = Inr (c, rp_adv 1 q)"
      "byte_of c < 128 \<Longrightarrow> same strict K (jp_adv 1 p) (rp_adv 1 q)"
  using assms by (cases "rp_rest q") (auto simp: same_def jp_take_def rp_take_def jp_adv_def rp_adv_def)

text \<open>Reading a byte and going on with an ASCII one; what follows another byte is an error on both sides.\<close>

lemma agrees_take:
  assumes "same strict K p q"
    and "\<And>c p' q'. byte_of c < 128 \<Longrightarrow> same strict K p' q' \<Longrightarrow> agrees strict K (f c p') (g c q')"
    and "\<And>c p' q'. 128 \<le> byte_of c \<Longrightarrow> agrees strict K (f c p') (g c q')"
  shows "agrees strict K (case jp_take p of Inl e \<Rightarrow> Inl e | Inr (c, p') \<Rightarrow> f c p') (case rp_take q of Inl e \<Rightarrow> Inl e | Inr (c, q') \<Rightarrow> g c q')"
  using assms(1)
proof (cases rule: same_take)
  case (byte c s)
  then show ?thesis using assms(2,3) [of c] by (cases "byte_of c < 128") simp_all
qed (simp add: agrees_def jp_error_def rp_error_def)

lemma ws_ascii: "json_ws c \<Longrightarrow> byte_of c < 128"
  by (auto simp: json_ws_def)

lemma utf8_valid_skip: "utf8_valid s \<Longrightarrow> (\<And>c. f c \<Longrightarrow> byte_of c < 128) \<Longrightarrow> utf8_valid (drop (length (takeWhile f s)) s)"
  by (induction s) auto

lemma same_skip:
  assumes "same strict K p q" "\<And>c. f c \<Longrightarrow> byte_of c < 128"
  shows "same strict K (jp_adv (length (takeWhile f (rp_rest q))) p) (rp_adv (length (takeWhile f (rp_rest q))) q)"
  using assms by (auto simp: same_def jp_adv_def rp_adv_def utf8_valid_skip)

lemma same_whitespace: "same strict K p q \<Longrightarrow> same strict K (jp_whitespace p) (rp_whitespace q)"
  using same_skip [of strict K p q json_ws, OF _ ws_ascii]
  by (simp add: jp_whitespace_def rp_whitespace_def same_def)

lemma digit_ascii: "hex_value c = Some d \<Longrightarrow> byte_of c < 128"
  by (auto simp: hex_value_def is_ascii_digit_def in_range_def split: if_splits)

lemma literal_agrees:
  "same strict K p q \<Longrightarrow> \<forall>c \<in> set es. byte_of c < 128 \<Longrightarrow> agrees strict K (jp_literal whole es v p) (rp_literal es v q)"
proof (induction es arbitrary: p q)
  case (Cons e es)
  then show ?case by (auto intro!: agrees_take)
qed simp

lemma hex_agrees: "same strict K p q \<Longrightarrow> agrees strict K (jp_hex n v p) (rp_hex n v q)"
proof (induction n arbitrary: p q v)
  case (Suc n)
  show ?case
    unfolding jp_hex.simps rp_hex.simps
    by (rule agrees_take [OF Suc.prems]) (auto split: option.split intro: Suc.IH dest: digit_ascii)
qed simp

lemma scalar_agrees: "same strict K p q \<Longrightarrow> agrees strict K (jp_scalar p) (rp_scalar q)"
  unfolding jp_scalar_def rp_scalar_def jp_unicode_escape_def rp_unicode_escape_def rp_low_surrogate_def
  by (intro agrees_bind [OF hex_agrees]) (auto intro!: agrees_take agrees_bind [OF hex_agrees])

lemma escape_agrees: "same strict K p q \<Longrightarrow> agrees strict K (jp_escape p) (rp_escape q)"
  unfolding jp_escape_def rp_escape_def
proof (rule agrees_take, assumption, goal_cases)
  case (1 c p' q')
  have scalar: "agrees strict K
      (case jp_scalar p' of Inl err \<Rightarrow> Inl err
       | Inr (scalar, p2) \<Rightarrow> if scalar < 0xD800 \<or> (0xDFFF < scalar \<and> scalar \<le> 0x10FFFF) then Inr (utf8_encode scalar, p2)
           else jp_error p2 ''invalid Unicode scalar'')
      (case rp_scalar q' of Inl err \<Rightarrow> Inl err
       | Inr (v, p2) \<Rightarrow> if unicode_scalar v then Inr (utf8_encode v, p2) else rp_error p2 ''invalid codepoint'')"
    by (rule agrees_bind [OF scalar_agrees [OF 1(3)]]) (simp add: unicode_scalar_def)
  consider "c \<in> set [CHR 0x22, CHR 0x5C, CHR ''/'', CHR ''b'', CHR ''f'', CHR ''n'', CHR ''r'', CHR ''t'']" | "c = CHR ''u''"
    | "c \<notin> set [CHR 0x22, CHR 0x5C, CHR ''/'', CHR ''b'', CHR ''f'', CHR ''n'', CHR ''r'', CHR ''t'', CHR ''u'']"
    by (cases "c = CHR ''u''") auto
  then show ?case
  proof cases
    case 1
    with \<open>same strict K p' q'\<close> show ?thesis by (auto simp: simple_escapes_def)
  next
    case 2
    with scalar show ?thesis by (simp add: simple_escapes_def)
  next
    case 3
    then show ?thesis by (simp add: simple_escapes_def)
  qed
next
  case (2 c p' q')
  then have "c \<notin> set [CHR 0x22, CHR 0x5C, CHR ''/'', CHR ''b'', CHR ''f'', CHR ''n'', CHR ''r'', CHR ''t'', CHR ''u'']" by auto
  then show ?case by (simp add: simple_escapes_def)
qed

lemma rp_escape_valid: "rp_escape q = Inr (x, r) \<Longrightarrow> utf8_valid x"
  by (auto simp: rp_escape_def rp_error_def simple_escapes_def split: sum.splits option.splits if_splits intro!: utf8_encode_valid)

lemma jp_adv_zero [simp]: "jp_adv 0 p = p"
  by (simp add: jp_adv_def)

lemma jp_string_loop_group:
  "jp_rest p = g @ t \<Longrightarrow> \<forall>c \<in> set g. c \<noteq> CHR 0x22 \<and> c \<noteq> CHR 0x5C \<and> \<not> byte_of c < 32
   \<Longrightarrow> jp_string_loop out p = jp_string_loop (out @ g) (jp_adv (length g) p)"
proof (induction g arbitrary: out p)
  case (Cons c g)
  then have "jp_string_loop out p = jp_string_loop (out @ [c]) (jp_adv 1 p)"
    by (subst jp_string_loop.simps) (simp add: jp_take_def)
  also have "\<dots> = jp_string_loop ((out @ [c]) @ g) (jp_adv (length g) (jp_adv 1 p))"
    by (rule Cons.IH) (use Cons.prems in \<open>simp_all add: jp_adv_def\<close>)
  finally show ?case by (simp add: jp_adv_def)
qed simp

lemma plain_group:
  assumes "utf8_valid (c # s)" "c \<noteq> CHR 0x22" "c \<noteq> CHR 0x5C" "\<not> byte_of c < 32"
  obtains g t where "c # s = g @ t" "utf8_valid g" "utf8_valid t" "length g = utf8_width c" "take (utf8_width c) (c # s) = g"
    "\<forall>c \<in> set g. c \<noteq> CHR 0x22 \<and> c \<noteq> CHR 0x5C \<and> \<not> byte_of c < 32" "g \<noteq> []"
proof -
  obtain r t where r: "s = r @ t" "utf8_char (c # r)" "utf8_valid t" "length r = utf8_width c - 1" "utf8_valid (c # r)"
    using utf8_valid_cases [OF assms(1)] by metis
  have len: "length (c # r) = utf8_width c" using r(4) by (simp add: utf8_width_def split: if_splits)
  have "x \<noteq> CHR 0x22 \<and> x \<noteq> CHR 0x5C \<and> \<not> byte_of x < 32" if "utf8_cont x" for x
    using that by (auto simp: utf8_cont_def)
  then have "\<forall>x \<in> set (c # r). x \<noteq> CHR 0x22 \<and> x \<noteq> CHR 0x5C \<and> \<not> byte_of x < 32"
    using r(2) assms by (auto simp: utf8_char_def list_all_iff)
  moreover have "take (utf8_width c) (c # s) = c # r"
    unfolding len [symmetric] r(1) by simp
  ultimately show thesis using r len by (intro that [of "c # r" t]) simp_all
qed

lemma string_agrees:
  "same strict K p q \<Longrightarrow> utf8_valid out \<Longrightarrow> agrees strict K (jp_string_loop out p) (rp_string_loop out q)"
proof (induction "length (rp_rest q)" arbitrary: out p q rule: less_induct)
  case less
  from less.prems(1) show ?case
  proof (cases rule: same_take)
    case stop
    then show ?thesis by (subst jp_string_loop.simps, subst rp_string_loop.simps) (simp add: jp_error_def rp_error_def)
  next
    case (byte c s)
    note start = jp_string_loop.simps [of out p] rp_string_loop.simps [of out q]
    consider "c = CHR 0x22" | "c = CHR 0x5C" | "byte_of c < 32" "c \<noteq> CHR 0x22" "c \<noteq> CHR 0x5C"
      | "c \<noteq> CHR 0x22" "c \<noteq> CHR 0x5C" "\<not> byte_of c < 32" by blast
    then show ?thesis
    proof cases
      case 1
      then show ?thesis using byte less.prems(2) by (simp add: start)
    next
      case 2
      have "agrees strict K (case jp_escape (jp_adv 1 p) of Inl e \<Rightarrow> Inl e | Inr (x, p2) \<Rightarrow> jp_string_loop (out @ x) p2)
          (case rp_escape (rp_adv 1 q) of Inl e \<Rightarrow> Inl e | Inr (x, q2) \<Rightarrow> rp_string_loop (out @ x) q2)"
      proof (cases "jp_escape (jp_adv 1 p)")
        case (Inr z)
        then obtain x p2 where z: "jp_escape (jp_adv 1 p) = Inr (x, p2)" by (cases z) simp
        have "agrees strict K (jp_escape (jp_adv 1 p)) (rp_escape (rp_adv 1 q))"
          using byte(4) 2 by (intro escape_agrees) simp
        then obtain q2 where q2: "rp_escape (rp_adv 1 q) = Inr (x, q2)" "same strict K p2 q2"
          using z by (auto simp: agrees_def)
        have "length (rp_rest q2) < length (rp_rest q)"
          using rres_ok_escape [of "rp_adv 1 q"] q2(1) byte(1) by (simp add: rres_ok_def rp_moves_def rp_adv_def)
        moreover have "utf8_valid (out @ x)" using less.prems(2) rp_escape_valid [OF q2(1)] by (simp add: utf8_valid_append)
        ultimately show ?thesis using less.hyps q2 z by simp
      qed (use escape_agrees [OF byte(4)] 2 in \<open>auto simp: agrees_def\<close>)
      then show ?thesis using byte 2 by (simp add: start)
    next
      case 3
      then show ?thesis using byte by (simp add: start)
    next
      case 4
      have valid: "utf8_valid (c # s)" "jp_rest p = c # s" using less.prems(1) byte(1) by (simp_all add: same_def del: utf8_valid.simps)
      obtain g t where g: "c # s = g @ t" "utf8_valid g" "utf8_valid t" "length g = utf8_width c" "take (utf8_width c) (c # s) = g"
          "\<forall>c \<in> set g. c \<noteq> CHR 0x22 \<and> c \<noteq> CHR 0x5C \<and> \<not> byte_of c < 32" "g \<noteq> []"
        using plain_group [OF valid(1) 4] by metis
      have left: "jp_string_loop out p = jp_string_loop (out @ g) (jp_adv (length g) p)"
        by (rule jp_string_loop_group [of p g t]) (use valid g in simp_all)
      have right: "rp_string_loop out q = rp_string_loop (out @ g) (rp_adv (length g) q)"
        using byte 4 g valid by (simp add: start g(4,5) del: utf8_valid.simps)
      have "same strict K (jp_adv (length g) p) (rp_adv (length g) q)"
        using less.prems(1) g(3,7) byte(1) valid(2) unfolding g(1) by (auto simp: same_def jp_adv_def rp_adv_def)
      moreover have "length (rp_rest (rp_adv (length g) q)) < length (rp_rest q)" using g byte(1) by (simp add: rp_adv_def)
      moreover have "utf8_valid (out @ g)" using less.prems(2) g(2) by (simp add: utf8_valid_append)
      ultimately show ?thesis unfolding left right using less.hyps by blast
    qed
  qed
qed

lemma ascii_digit_byte: "is_ascii_digit c \<Longrightarrow> byte_of c < 128"
  by (simp add: is_ascii_digit_def in_range_def)

lemma same_peek: "same strict K p q \<Longrightarrow> jp_peek p = rp_peek q"
  by (simp add: same_def jp_peek_def rp_peek_def)

lemma leading_zero:
  "takeWhile f (d # s) = d # ds \<Longrightarrow> (length (d # ds) \<noteq> 1) = (\<exists>c. (case s of [] \<Rightarrow> None | x # xs \<Rightarrow> Some x) = Some c \<and> f c)"
  by (cases s) (auto split: if_splits)

lemma negative_agrees:
  assumes "same strict K p q"
  shows "agrees strict K (jp_digits True p) (rp_integer (CHR ''-'') q)"
proof -
  have rest: "jp_rest p = rp_rest q" using assms by (simp add: same_def)
  have after: "same strict K (jp_adv (length (takeWhile is_ascii_digit (rp_rest q))) p)
      (rp_adv (length (takeWhile is_ascii_digit (rp_rest q))) q)"
    by (rule same_skip [OF assms ascii_digit_byte])
  show ?thesis
  proof (cases "rp_rest q")
    case (Cons d s)
    have zero: "(length (takeWhile is_ascii_digit (d # s)) \<noteq> 1) = (\<exists>c. rp_peek (rp_adv 1 q) = Some c \<and> is_ascii_digit c)"
      if "is_ascii_digit d"
      using that Cons by (cases s) (auto simp: rp_peek_def rp_adv_def)
    show ?thesis
      unfolding jp_digits_def rp_integer_def Let_def rest same_peek [OF assms] same_peek [OF after]
      using after zero Cons by (auto simp: rp_peek_def split: option.split)
  qed (simp add: jp_digits_def rp_integer_def Let_def rest jp_peek_def rp_peek_def)
qed

lemma natural_agrees:
  assumes "same strict K (jp_adv 1 p) q" "jp_rest p = c # rp_rest q" "is_ascii_digit c"
  shows "agrees strict K (jp_digits False p) (rp_integer c q)"
proof -
  let ?n = "length (takeWhile is_ascii_digit (rp_rest q))"
  have "same strict K (jp_adv ?n (jp_adv 1 p)) (rp_adv ?n q)"
    by (rule same_skip [OF assms(1) ascii_digit_byte])
  then have after: "same strict K (jp_adv (Suc ?n) p) (rp_adv ?n q)" by (simp add: jp_adv_def)
  have c: "c \<noteq> CHR ''-''" using assms(3) by (auto simp: is_ascii_digit_def in_range_def)
  have zero: "(length (takeWhile is_ascii_digit (c # rp_rest q)) \<noteq> 1) = (\<exists>c. rp_peek q = Some c \<and> is_ascii_digit c)"
    using assms(3) by (cases "rp_rest q") (auto simp: rp_peek_def)
  show ?thesis
    using after zero assms(2,3) c same_peek [OF after]
    by (auto simp: jp_digits_def rp_integer_def Let_def jp_peek_def [of p] split: option.split)
qed

lemma number_agrees:
  assumes "same strict K (jp_adv 1 p) q" "jp_rest p = c # rp_rest q" "c = CHR ''-'' \<or> is_ascii_digit c"
  shows "agrees strict K (jp_number p) (rp_integer c q)"
proof (cases "c = CHR ''-''")
  case True
  then show ?thesis using negative_agrees [OF assms(1)] assms(2) by (simp add: jp_number_def jp_peek_def)
next
  case False
  then show ?thesis using natural_agrees [OF assms(1,2)] assms(2,3) by (simp add: jp_number_def jp_peek_def)
qed

definition values_agree :: "bool \<Rightarrow> nat \<Rightarrow> nat \<Rightarrow> (jp \<Rightarrow> json jres option) \<Rightarrow> (rp \<Rightarrow> json rres option) \<Rightarrow> bool" where
  "values_agree strict K N f g \<longleftrightarrow> rp_total N g
     \<and> (\<forall>p q. same strict K p q \<longrightarrow> length (rp_rest q) < N \<longrightarrow> opt_agrees strict K (f p) (g q))"

lemma opt_agrees_simps [simp]:
  "opt_agrees strict K None b" "opt_agrees strict K (Some r) (Some r') \<longleftrightarrow> agrees strict K r r'"
  by (simp_all add: opt_agrees_def)

text \<open>An element, the white space after it and the byte that continues or closes the list.\<close>

lemma element_agrees:
  assumes "values_agree strict K N f g" "same strict K p q" "length (rp_rest q) < N"
    and "\<And>v c p2 q2. byte_of c < 128 \<Longrightarrow> same strict K p2 q2 \<Longrightarrow> length (rp_rest q2) < length (rp_rest q)
      \<Longrightarrow> opt_agrees strict K (f' v c p2) (g' v c q2)"
    and "\<And>v c p2 q2. 128 \<le> byte_of c \<Longrightarrow> opt_agrees strict K (f' v c p2) (g' v c q2)"
    and "\<And>v c q2. \<not> strict \<Longrightarrow> length (rp_rest q2) < length (rp_rest q) \<Longrightarrow> g' v c q2 \<noteq> None"
  shows "opt_agrees strict K
      (case f p of None \<Rightarrow> None | Some (Inl e) \<Rightarrow> Some (Inl e)
       | Some (Inr (v, p1)) \<Rightarrow> (case jp_take (jp_whitespace p1) of Inl e \<Rightarrow> Some (Inl e) | Inr (c, p2) \<Rightarrow> f' v c p2))
      (case g q of None \<Rightarrow> None | Some (Inl e) \<Rightarrow> Some (Inl e)
       | Some (Inr (v, q1)) \<Rightarrow> (case rp_take (rp_whitespace q1) of Inl e \<Rightarrow> Some (Inl e) | Inr (c, q2) \<Rightarrow> g' v c q2))"
proof -
  have total: "rp_total N g" and rel: "opt_agrees strict K (f p) (g q)"
    using assms(1-3) by (simp_all add: values_agree_def)
  show ?thesis
  proof (cases "f p")
    case (Some r)
    then obtain r' where r': "g q = Some r'" "agrees strict K r r'" using rel by (auto simp: opt_agrees_def)
    show ?thesis
    proof (cases r)
      case (Inr z)
      then obtain v p1 where r: "r = Inr (v, p1)" by (cases z) simp
      then obtain q1 where q1: "r' = Inr (v, q1)" "same strict K p1 q1" using r'(2) by (auto simp: agrees_def)
      have len: "length (rp_rest q1) < length (rp_rest q)"
        using rp_totalD(2) [OF total assms(3)] r'(1) q1(1) by simp
      from same_whitespace [OF q1(2)] show ?thesis
      proof (cases rule: same_take)
        case stop
        then show ?thesis using Some r r' q1 by (simp add: jp_error_def rp_error_def)
      next
        case (byte c s)
        have "length (rp_rest (rp_adv 1 (rp_whitespace q1))) < length (rp_rest q)"
          using rp_take_whitespace [OF byte(3)] len by simp
        then show ?thesis
          using Some r r' q1 byte assms(4) [of c] assms(5) [of c] by (cases "byte_of c < 128") simp_all
      qed
    next
      case (Inl e)
      show ?thesis
      proof (cases strict)
        case True
        then show ?thesis using Some Inl r' by (auto simp: agrees_def)
      next
        case False
        have "(case g q of None \<Rightarrow> None | Some (Inl e) \<Rightarrow> Some (Inl e)
          | Some (Inr (v, q1)) \<Rightarrow> (case rp_take (rp_whitespace q1) of Inl e \<Rightarrow> Some (Inl e) | Inr (c, q2) \<Rightarrow> g' v c q2)) \<noteq> None"
        proof (cases r')
          case (Inr z)
          then obtain v q1 where z: "r' = Inr (v, q1)" by (cases z) simp
          then have "length (rp_rest q1) < length (rp_rest q)" using rp_totalD(2) [OF total assms(3)] r'(1) by simp
          then show ?thesis
            using z r'(1) assms(6) [OF False] rp_take_whitespace [of q1]
            by (auto split: sum.split dest: order.strict_trans)
        qed (use r' in simp)
        then show ?thesis using Some Inl False by (auto simp: opt_agrees_def agrees_def)
      qed
    qed
  qed simp
qed

lemma array_loop_agrees:
  assumes "values_agree strict K N f g"
  shows "same strict K p q \<Longrightarrow> length (rp_rest q) < N \<Longrightarrow> length (rp_rest q) < n
    \<Longrightarrow> opt_agrees strict K (jp_array_loop n f vs p) (rp_array_loop n g vs q)"
proof (induction n arbitrary: vs p q)
  case (Suc n)
  note total = rp_array_loop_total [of N g] assms [unfolded values_agree_def]
  show ?case
    unfolding jp_array_loop.simps rp_array_loop.simps
  proof (rule element_agrees [OF assms Suc.prems(1,2)], goal_cases)
    case (1 v c p2 q2)
    then show ?case using Suc.IH [of p2 q2] Suc.prems by simp
  next
    case (3 v c q2)
    then show ?case using total(1) [of q2 n "vs @ [v]"] total(2) Suc.prems by simp
  qed auto
qed simp

lemma key_agrees: "same strict K p q \<Longrightarrow> agrees strict K (jp_key fs p) (rp_key fs q)"
proof -
  assume "same strict K p q"
  then have ws: "same strict K (jp_whitespace p) (rp_whitespace q)" by (rule same_whitespace)
  have after: "agrees strict K
      (case jp_string_loop [] p1 of Inl e \<Rightarrow> Inl e | Inr (name, p1) \<Rightarrow>
         if bmap_get fs name \<noteq> None then jp_error p1 (''duplicate JSON object key: '' @ name)
         else (case jp_take (jp_whitespace p1) of Inl e \<Rightarrow> Inl e
           | Inr (c, p2) \<Rightarrow> if c \<noteq> CHR '':'' then jp_error p2 (''expected '' @ quoted (CHR '':'')) else Inr (name, p2)))
      (case rp_string_loop [] q1 of Inl e \<Rightarrow> Inl e | Inr (key, p2) \<Rightarrow>
         if bmap_get fs key \<noteq> None then rp_error p2 ''duplicate object key''
         else (case rp_take (rp_whitespace p2) of Inl e \<Rightarrow> Inl e
           | Inr (d, p3) \<Rightarrow> if d \<noteq> CHR '':'' then rp_error p3 (''expected '' @ quoted (CHR '':'')) else Inr (key, p3)))"
    if "same strict K p1 q1" for p1 q1
    by (rule agrees_bind [OF string_agrees [OF that]]) (auto intro!: agrees_take same_whitespace)
  from ws show ?thesis
  proof (cases rule: same_take)
    case stop
    then show ?thesis using ws by (simp add: jp_key_def rp_key_def same_peek [OF ws] rp_peek_def Let_def jp_error_def rp_error_def agrees_def
      same_def jp_peek_def rp_take_def)
  next
    case (byte c s)
    have peek: "jp_peek (jp_whitespace p) = Some c" using same_peek [OF ws] byte(1) by (simp add: rp_peek_def)
    show ?thesis
      using after [of "jp_adv 1 (jp_whitespace p)" "rp_adv 1 (rp_whitespace q)"] byte
      by (cases "c = CHR 0x22") (simp_all add: jp_key_def rp_key_def Let_def peek jp_string_def)
  qed
qed

lemma object_loop_agrees:
  assumes "values_agree strict K N f g"
  shows "same strict K p q \<Longrightarrow> length (rp_rest q) < N \<Longrightarrow> length (rp_rest q) < n
    \<Longrightarrow> opt_agrees strict K (jp_object_loop n f fs p) (rp_object_loop n g fs q)"
proof (induction n arbitrary: fs p q)
  case (Suc n)
  note total = rp_object_loop_total [of N g] assms [unfolded values_agree_def]
  have key: "agrees strict K (jp_key fs p) (rp_key fs q)" by (rule key_agrees [OF Suc.prems(1)])
  show ?case
  proof (cases "jp_key fs p")
    case (Inl e)
    have "rp_object_loop (Suc n) g fs q \<noteq> None" using total(1) [of q "Suc n" fs] total(2) Suc.prems by blast
    with Inl key show ?thesis by (auto simp: opt_agrees_def agrees_def)
  next
    case (Inr z)
    then obtain k p1 where k: "jp_key fs p = Inr (k, p1)" by (cases z) simp
    with key obtain q1 where q1: "rp_key fs q = Inr (k, q1)" "same strict K p1 q1" by (auto simp: agrees_def)
    have less: "length (rp_rest q1) < length (rp_rest q)" by (rule rp_key_less [OF q1(1)])
    with Suc.prems have N: "length (rp_rest q1) < N" by simp
    show ?thesis
      unfolding jp_object_loop.simps rp_object_loop.simps k q1(1) sum.case prod.case
    proof (rule element_agrees [OF assms q1(2) N], goal_cases)
      case (1 v c p2 q2)
      then show ?case using Suc.IH [of p2 q2] Suc.prems less by simp
    next
      case (3 v c q2)
      then show ?case using total(1) [of q2 n "bmap_insert k v fs"] total(2) Suc.prems less by simp
    qed auto
  qed
qed simp

lemma array_agrees:
  assumes "values_agree strict K N f g" "same strict K (jp_adv 1 p) q" "jp_rest p \<noteq> []" "length (rp_rest q) < N"
  shows "opt_agrees strict K (jp_array f p) (rp_array g q)"
proof -
  let ?p = "jp_whitespace (jp_adv 1 p)" and ?q = "rp_whitespace q"
  have ws: "same strict K ?p ?q" by (rule same_whitespace [OF assms(2)])
  have len: "length (jp_rest ?p) = length (rp_rest ?q)" using ws by (simp add: same_def)
  have "length (rp_rest ?q) < N" using assms(4) rp_whitespace_le [of q] by linarith
  note loop = array_loop_agrees [OF assms(1) ws this lessI, of "[]"]
  obtain a where take: "jp_take p = Inr (a, jp_adv 1 p)"
    using assms(3) by (cases "jp_rest p") (simp_all add: jp_take_def)
  show ?thesis
  proof (cases "rp_peek ?q = Some (CHR '']'')")
    case True
    then have "same strict K (jp_adv 1 ?p) (rp_adv 1 ?q)"
      by (cases rule: same_take [OF ws]) (auto simp: rp_peek_def)
    with True show ?thesis
      unfolding jp_array_def rp_array_def take Let_def sum.case prod.case same_peek [OF ws] by simp
  next
    case False
    with loop show ?thesis
      unfolding jp_array_def rp_array_def take Let_def sum.case prod.case same_peek [OF ws] len
      by (simp del: jp_array_loop.simps rp_array_loop.simps)
  qed
qed

lemma object_agrees:
  assumes "values_agree strict K N f g" "same strict K (jp_adv 1 p) q" "jp_rest p \<noteq> []" "length (rp_rest q) < N"
  shows "opt_agrees strict K (jp_object f p) (rp_object g q)"
proof -
  let ?p = "jp_whitespace (jp_adv 1 p)" and ?q = "rp_whitespace q"
  have ws: "same strict K ?p ?q" by (rule same_whitespace [OF assms(2)])
  have len: "length (jp_rest ?p) = length (rp_rest ?q)" using ws by (simp add: same_def)
  have "length (rp_rest ?q) < N" using assms(4) rp_whitespace_le [of q] by linarith
  note loop = object_loop_agrees [OF assms(1) ws this lessI, of "[]"]
  obtain a where take: "jp_take p = Inr (a, jp_adv 1 p)"
    using assms(3) by (cases "jp_rest p") (simp_all add: jp_take_def)
  show ?thesis
  proof (cases "rp_peek ?q = Some (CHR ''}'')")
    case True
    then have "same strict K (jp_adv 1 ?p) (rp_adv 1 ?q)"
      by (cases rule: same_take [OF ws]) (auto simp: rp_peek_def)
    with True show ?thesis
      unfolding jp_object_def rp_object_def take Let_def sum.case prod.case same_peek [OF ws] by simp
  next
    case False
    with loop show ?thesis
      unfolding jp_object_def rp_object_def take Let_def sum.case prod.case same_peek [OF ws] len
      by (simp del: jp_object_loop.simps rp_object_loop.simps)
  qed
qed

lemma dispatch_agrees:
  assumes "values_agree strict K N f g" "same strict K (jp_adv 1 p) q" "jp_rest p = c # rp_rest q" "length (rp_rest q) < N" "byte_of c < 128"
  shows "opt_agrees strict K (jp_dispatch f p) (rp_dispatch g c q)"
proof -
  have take: "jp_take p = Inr (c, jp_adv 1 p)" "jp_peek p = Some c" "jp_rest p \<noteq> []"
    using assms(3) by (simp_all add: jp_take_def jp_peek_def)
  have literal: "agrees strict K (jp_literal whole (c # es) v p) (rp_literal es v q)" if "\<forall>c \<in> set es. byte_of c < 128" for whole es v
    using literal_agrees [OF assms(2) that] take(1) by simp
  have "agrees strict K (jp_map JString (jp_string p)) (map_sum id (map_prod JString id) (rp_string_loop [] q))" if "c = CHR 0x22"
    using string_agrees [OF assms(2), of "[]"] take(1) that
    by (auto simp: jp_string_def jp_map_def agrees_def split: sum.splits)
  moreover have "agrees strict K (jp_literal ''null'' ''null'' JNull p) (rp_literal ''ull'' JNull q)" if "c = CHR ''n''"
    using literal [of "''ull''" "''null''" JNull] that by (simp del: jp_literal.simps rp_literal.simps)
  moreover have "agrees strict K (jp_literal ''true'' ''true'' (JBoolean True) p) (rp_literal ''rue'' (JBoolean True) q)" if "c = CHR ''t''"
    using literal [of "''rue''" "''true''" "JBoolean True"] that by (simp del: jp_literal.simps rp_literal.simps)
  moreover have "agrees strict K (jp_literal ''false'' ''false'' (JBoolean False) p) (rp_literal ''alse'' (JBoolean False) q)" if "c = CHR ''f''"
    using literal [of "''alse''" "''false''" "JBoolean False"] that by (simp del: jp_literal.simps rp_literal.simps)
  ultimately show ?thesis
    using take array_agrees [OF assms(1,2) take(3) assms(4)] object_agrees [OF assms(1,2) take(3) assms(4)]
      number_agrees [OF assms(2,3)]
    by (simp add: jp_dispatch_def rp_dispatch_def del: jp_literal.simps rp_literal.simps)
qed

lemma same_enter:
  assumes "same strict K p q"
  shows "jp_rest (jp_whitespace (jp_enter p)) = rp_rest (rp_whitespace q)"
    "rp_rest (rp_whitespace q) \<noteq> [] \<Longrightarrow> byte_of (hd (rp_rest (rp_whitespace q))) < 128
      \<Longrightarrow> same strict K (jp_adv 1 (jp_whitespace (jp_enter p))) (rp_adv 1 (rp_whitespace q))"
proof -
  have ws: "same strict K (jp_whitespace p) (rp_whitespace q)" by (rule same_whitespace [OF assms])
  have enter: "jp_whitespace (jp_enter p) = (jp_whitespace p)\<lparr>jp_values := jp_values p + 1\<rparr>"
    by (simp add: jp_whitespace_def jp_enter_def jp_adv_def)
  have vals: "jp_values (jp_whitespace p) = jp_values p" by (simp add: jp_whitespace_def jp_adv_def)
  show "jp_rest (jp_whitespace (jp_enter p)) = rp_rest (rp_whitespace q)" using ws by (simp add: enter same_def)
  assume "rp_rest (rp_whitespace q) \<noteq> []" "byte_of (hd (rp_rest (rp_whitespace q))) < 128"
  then obtain c s where "rp_rest (rp_whitespace q) = c # s" "byte_of c < 128" by (cases "rp_rest (rp_whitespace q)") simp_all
  with ws vals show "same strict K (jp_adv 1 (jp_whitespace (jp_enter p))) (rp_adv 1 (rp_whitespace q))"
    by (simp add: enter same_def jp_adv_def rp_adv_def)
qed

lemma rp_total_mono: "rp_total n f \<Longrightarrow> m \<le> n \<Longrightarrow> rp_total m f"
  by (auto simp: rp_total_def)

lemma value_agrees:
  assumes "strict \<Longrightarrow> K < jl_max_values lim"
  shows "same strict K p q \<Longrightarrow> length (rp_rest q) < n \<Longrightarrow> (strict \<Longrightarrow> depth + length (rp_rest q) \<le> jl_max_depth lim)
    \<Longrightarrow> opt_agrees strict K (jp_value lim depth p) (rp_value n q)"
proof (induction n arbitrary: depth p q)
  case (Suc n)
  have total: "rp_value (Suc n) q \<noteq> None" by (rule rp_totalD(1) [OF rp_value_total Suc.prems(2)])
  show ?case
  proof (cases "depth > jl_max_depth lim \<or> jp_values (jp_enter p) > jl_max_values lim")
    case True
    moreover from True have "\<not> strict" using assms Suc.prems by (auto simp: same_def jp_enter_def)
    ultimately show ?thesis using total by (subst jp_value.simps) (auto simp: opt_agrees_def agrees_def jp_error_def)
  next
    case False
    let ?q = "rp_whitespace q"
    have product: "jp_value lim depth p = jp_dispatch (\<lambda>x. jp_value lim (depth + 1) x) (jp_whitespace (jp_enter p))"
      using False by (subst jp_value.simps) simp
    note enter = same_enter [OF Suc.prems(1)]
    show ?thesis
    proof (cases "rp_rest ?q")
      case Nil
      then show ?thesis unfolding product using enter(1)
        by (simp add: jp_dispatch_def jp_peek_def rp_take_def jp_error_def rp_error_def agrees_def)
    next
      case (Cons c s)
      have take: "rp_take ?q = Inr (c, rp_adv 1 ?q)" using Cons by (simp add: rp_take_def)
      have s: "rp_rest (rp_adv 1 ?q) = s" using Cons by (simp add: rp_adv_def)
      have len: "length s < length (rp_rest q)" using Cons rp_whitespace_le [of q] by simp
      show ?thesis
      proof (cases "byte_of c < 128")
        case True
        have "values_agree strict K (length (rp_rest q)) (\<lambda>x. jp_value lim (depth + 1) x) (rp_value n)"
          unfolding values_agree_def
        proof (intro conjI allI impI)
          show "rp_total (length (rp_rest q)) (rp_value n)"
            by (rule rp_total_mono [OF rp_value_total]) (use Suc.prems(2) in simp)
          fix p' q'
          assume "same strict K p' q'" "length (rp_rest q') < length (rp_rest q)"
          then show "opt_agrees strict K (jp_value lim (depth + 1) p') (rp_value n q')"
            using Suc.prems by (intro Suc.IH) (auto dest: Suc.prems(3))
        qed
        then have "opt_agrees strict K (jp_dispatch (\<lambda>x. jp_value lim (depth + 1) x) (jp_whitespace (jp_enter p)))
            (rp_dispatch (rp_value n) c (rp_adv 1 ?q))"
          by (rule dispatch_agrees) (use enter Cons True len s in simp_all)
        then show ?thesis by (simp add: product take)
      next
        case False
        then have "c \<noteq> CHR ''n'' \<and> c \<noteq> CHR ''t'' \<and> c \<noteq> CHR ''f'' \<and> c \<noteq> CHR 0x22 \<and> c \<noteq> CHR ''['' \<and> c \<noteq> CHR ''{'' \<and> c \<noteq> CHR ''-''
            \<and> \<not> is_ascii_digit c"
          using ascii_digit_byte [of c] by auto
        moreover have "jp_peek (jp_whitespace (jp_enter p)) = Some c" using enter(1) Cons by (simp add: jp_peek_def)
        ultimately show ?thesis by (simp add: product take jp_dispatch_def rp_dispatch_def)
      qed
    qed
  qed
qed simp

section \<open>The documents\<close>

definition roomy :: "string \<Rightarrow> json_limits \<Rightarrow> bool" where
  "roomy source lim \<longleftrightarrow> length source \<le> jl_max_bytes lim \<and> length source \<le> jl_max_depth lim \<and> length source < jl_max_values lim"

lemma end_agrees:
  assumes "same strict K p q" "rp_offset q + length (rp_rest q) = n"
  shows "(jp_offset (jp_whitespace p) = n) = (rp_offset (rp_whitespace q) = n)"
  using same_whitespace [OF assms(1)] by (simp add: same_def)

lemma parsed_agrees:
  assumes "utf8_valid source" "strict \<Longrightarrow> roomy source lim"
  shows "parse_with_limits source lim = Some (Inr v) \<Longrightarrow> runner_parse source = Some (Inr v)"
    "strict \<Longrightarrow> runner_parse source = Some (Inr v) \<Longrightarrow> parse_with_limits source lim = Some (Inr v)"
proof -
  let ?p = "\<lparr>jp_rest = source, jp_offset = 0, jp_values = 0\<rparr>" and ?q = "\<lparr>rp_rest = source, rp_offset = 0\<rparr>"
  have "opt_agrees strict (length source) (jp_value lim 0 ?p) (rp_value (Suc (length source)) ?q)"
    by (rule value_agrees) (use assms in \<open>simp_all add: same_def roomy_def\<close>)
  moreover have "jp_value lim 0 ?p \<noteq> None" if "length source \<le> jl_max_bytes lim"
    using parse_sound [of source lim] that by (cases "jp_value lim 0 ?p") (auto simp: parse_with_limits_def)
  ultimately have rel: "length source \<le> jl_max_bytes lim \<Longrightarrow> \<exists>r r'. jp_value lim 0 ?p = Some r
      \<and> rp_value (Suc (length source)) ?q = Some r' \<and> agrees strict (length source) r r'"
    by (auto simp: opt_agrees_def)
  have whitespace: "jp_offset (jp_whitespace p) = rp_offset (rp_whitespace q)" if "same strict K p q" for K p q
    using same_whitespace [OF that] by (simp add: same_def)
  show "runner_parse source = Some (Inr v)" if "parse_with_limits source lim = Some (Inr v)"
  proof -
    have "length source \<le> jl_max_bytes lim" using that by (auto simp: parse_with_limits_def split: if_splits)
    with rel obtain r r' where r: "jp_value lim 0 ?p = Some r" "rp_value (Suc (length source)) ?q = Some r'"
        "agrees strict (length source) r r'" by blast
    with that show ?thesis
      by (auto simp: parse_with_limits_def runner_parse_def agrees_def jp_error_def Let_def whitespace split: if_splits sum.splits)
  qed
  show "parse_with_limits source lim = Some (Inr v)" if "strict" "runner_parse source = Some (Inr v)"
  proof -
    have le: "length source \<le> jl_max_bytes lim" using that(1) assms(2) by (simp add: roomy_def)
    with rel obtain r r' where r: "jp_value lim 0 ?p = Some r" "rp_value (Suc (length source)) ?q = Some r'"
        "agrees strict (length source) r r'" by blast
    with that le show ?thesis
      by (auto simp: parse_with_limits_def runner_parse_def agrees_def rp_error_def Let_def whitespace split: if_splits sum.splits)
  qed
qed

lemma runner_parse_ok: "utf8_valid source \<Longrightarrow> runner_parse source = Some (Inr v) \<Longrightarrow> json_ok v"
proof -
  assume "utf8_valid source" "runner_parse source = Some (Inr v)"
  then have "parse_with_limits source \<lparr>jl_max_bytes = length source, jl_max_depth = length source, jl_max_values = Suc (length source)\<rparr> = Some (Inr v)"
    by (intro parsed_agrees(2) [where strict = True]) (simp_all add: roomy_def)
  then show ?thesis
    using parse_sound [of source "\<lparr>jl_max_bytes = length source, jl_max_depth = length source, jl_max_values = Suc (length source)\<rparr>"]
    by simp
qed

text \<open>Canonical texts are valid UTF-8, so both parsers read them back.\<close>

lemma utf8_valid_join:
  "utf8_valid sep \<Longrightarrow> \<forall>x \<in> set xs. utf8_valid x \<Longrightarrow> utf8_valid (join_with sep xs)"
  by (induction sep xs rule: join_with.induct) (simp_all add: utf8_valid_append)

lemma escape_ascii_valid: "byte_of c < 128 \<Longrightarrow> utf8_valid (escape_byte c)"
proof (rule utf8_valid_ascii)
  assume c: "byte_of c < 128"
  have "\<forall>e \<in> snd ` set short_escapes. byte_of e < 128" by (simp add: short_escapes_def)
  then have short: "byte_of e < 128" if "map_of short_escapes c = Some e" for e
    using map_of_SomeD [OF that] by force
  have hex: "byte_of (hex_digit d) < 128" if "d < 16" for d
    using that by (cases "d < 10") (simp_all add: hex_digit_def)
  show "\<forall>x \<in> set (escape_byte c). byte_of x < 128"
  proof (cases "map_of short_escapes c")
    case None
    have "byte_of c div 16 < 16" "byte_of c mod 16 < 16" using c by simp_all
    then show ?thesis using None c hex by (auto simp: escape_byte_def)
  qed (auto simp: escape_byte_def dest: short)
qed

lemma write_string_valid: "utf8_valid s \<Longrightarrow> utf8_valid (write_string s)"
proof -
  have "utf8_valid s \<Longrightarrow> utf8_valid (concat (map escape_byte s))"
  proof (induction "length s" arbitrary: s rule: less_induct)
    case less
    show ?case
    proof (cases s)
      case (Cons a r)
      obtain q t where q: "r = q @ t" "utf8_char (a # q)" "utf8_valid t" "utf8_valid (a # q)"
        using utf8_valid_cases less.prems unfolding Cons by metis
      have t: "utf8_valid (concat (map escape_byte t))" using less.hyps [of t] q by (simp add: Cons)
      have "utf8_valid (concat (map escape_byte (a # q)))"
      proof (cases "byte_of a < 128")
        case True
        with q(2) have "q = []" by (simp add: utf8_char_def utf8_width_def)
        with True show ?thesis by (simp add: escape_ascii_valid)
      next
        case False
        have "concat (map escape_byte q) = q"
        proof -
          have "list_all utf8_cont q" using q(2) by (simp add: utf8_char_def)
          then show ?thesis by (induction q) (simp_all add: utf8_cont_def escape_byte_plain)
        qed
        with False q(4) show ?thesis by (simp add: escape_byte_plain del: utf8_valid.simps)
      qed
      from utf8_valid_append [OF this, of "concat (map escape_byte t)"] t show ?thesis by (simp add: Cons q(1))
    qed simp
  qed
  then show "utf8_valid s \<Longrightarrow> utf8_valid (write_string s)"
    by (simp add: write_string_def utf8_valid_append)
qed

lemma dec_i64_valid: "utf8_valid (dec_i64 i)"
proof (rule utf8_valid_ascii)
  show "\<forall>c \<in> set (dec_i64 i). byte_of c < 128"
    using dec_nat_digits ascii_digit_byte by (auto simp: dec_i64_def)
qed

lemma canonical_valid: "json_ok v \<Longrightarrow> utf8_valid (canonical_json v)"
proof (induction v)
  case (JArray vs)
  then have "utf8_valid (join_with '','' (map canonical_json vs))"
    by (intro utf8_valid_join) (auto simp: list_all_iff)
  then show ?case by (simp add: utf8_valid_append)
next
  case (JObject fs)
  have "utf8_valid (write_string k @ '':'' @ canonical_json v)" if "(k, v) \<in> set fs" for k v
    using JObject that by (fastforce simp: list_all_iff write_string_valid utf8_valid_append)
  then have "utf8_valid (join_with '','' (map json_field fs))"
    by (intro utf8_valid_join) auto
  then show ?case by (simp add: utf8_valid_append)
qed (simp_all add: dec_i64_valid write_string_valid)

lemma runner_reads_back:
  assumes "json_ok v"
  shows "runner_parse (canonical_json v) = Some (Inr v)" "runner_parse (canonical_line v) = Some (Inr v)"
proof -
  define lim where "lim = \<lparr>jl_max_bytes = length (canonical_line v), jl_max_depth = json_depth v, jl_max_values = json_count v\<rparr>"
  have valid: "utf8_valid (canonical_json v)" "utf8_valid (canonical_line v)"
    using canonical_valid [OF assms] by (simp_all add: canonical_line_def utf8_valid_append)
  have "parse_with_limits (canonical_json v) lim = Some (Inr v)"
    by (rule json_reads_back) (simp_all add: assms lim_def canonical_line_def)
  then show "runner_parse (canonical_json v) = Some (Inr v)"
    using parsed_agrees(1) [OF valid(1), of False lim v] by simp
  have "parse_with_limits (canonical_line v) lim = Some (Inr v)"
    by (rule json_line_reads_back) (simp_all add: assms lim_def)
  then show "runner_parse (canonical_line v) = Some (Inr v)"
    using parsed_agrees(1) [OF valid(2), of False lim v] by simp
qed

text \<open>
  C15. The host and the sandbox helper read the same documents: whatever the product's parser accepts under any
  limits the helper's parser accepts with the same value, and on valid UTF-8 the reverse holds whenever
  the limits leave room for the input.
\<close>

theorem parsers_agree:
  assumes "utf8_valid source"
  shows "(parse_with_limits source lim = Some (Inr v) \<longrightarrow> runner_parse source = Some (Inr v))
    \<and> (roomy source lim \<longrightarrow> (runner_parse source = Some (Inr v)) = (parse_with_limits source lim = Some (Inr v)))"
  using parsed_agrees(1) [OF assms, of False] parsed_agrees [OF assms, of True lim v] by auto

lemma parsers_agree_witness: "runner_parse ''[null]'' = Some (Inr (JArray [JNull]))"
  using parsers_agree [of "''[null]''" default_json_limits "JArray [JNull]"] json_reads_back [of "JArray [JNull]" default_json_limits]
  by (simp add: default_json_limits_def)

end
