(* ===== verification/Runner_Plan.thy ===== *)
theory Runner_Plan
  imports Parser_Agreement Sha256 Paths Scripts
begin

text \<open>
  The runner-v2 plan (\<^verbatim>\<open>src/runner_protocol/mod.rs\<close>, first half): what the host asks of the sandbox helper,
  parsed and validated by the helper in one fail-closed pass, and the checks before a launch. The
  model is executable down to the helper's own SHA-256 and JSON parser.
\<close>

section \<open>Controls\<close>

datatype control =
  CtSourceReadOnly | CtScratchOverlay | CtNetworkDeny | CtEgressBroker | CtProcessIsolation |
  CtResourceLimits | CtSecretRedaction | CtNamespace | CtSeccomp | CtLandlock | CtCgroupV2 | CtAppContainer |
  CtRestrictedToken | CtJobObject | CtAppSandbox | CtVirtualMachine

fun control_index :: "control \<Rightarrow> nat" where
  "control_index CtSourceReadOnly = 0"
| "control_index CtScratchOverlay = 1"
| "control_index CtNetworkDeny = 2"
| "control_index CtEgressBroker = 3"
| "control_index CtProcessIsolation = 4"
| "control_index CtResourceLimits = 5"
| "control_index CtSecretRedaction = 6"
| "control_index CtNamespace = 7"
| "control_index CtSeccomp = 8"
| "control_index CtLandlock = 9"
| "control_index CtCgroupV2 = 10"
| "control_index CtAppContainer = 11"
| "control_index CtRestrictedToken = 12"
| "control_index CtJobObject = 13"
| "control_index CtAppSandbox = 14"
| "control_index CtVirtualMachine = 15"

lemma control_index_inj: "control_index a = control_index b \<longleftrightarrow> a = b"
  by (cases a; cases b) simp_all

instantiation control :: linorder
begin

definition less_eq_control :: "control \<Rightarrow> control \<Rightarrow> bool" where
  "less_eq_control a b \<longleftrightarrow> control_index a \<le> control_index b"

definition less_control :: "control \<Rightarrow> control \<Rightarrow> bool" where
  "less_control a b \<longleftrightarrow> control_index a < control_index b"

instance
  by standard (auto simp: less_eq_control_def less_control_def control_index_inj)

end

definition control_names :: "(string \<times> control) list" where
  "control_names =
     [(''source_read_only'', CtSourceReadOnly), (''scratch_overlay'', CtScratchOverlay),
      (''network_deny'', CtNetworkDeny), (''egress_broker'', CtEgressBroker),
      (''process_isolation'', CtProcessIsolation), (''resource_limits'', CtResourceLimits),
      (''secret_redaction'', CtSecretRedaction), (''namespace'', CtNamespace), (''seccomp'', CtSeccomp),
      (''landlock'', CtLandlock), (''cgroup_v2'', CtCgroupV2), (''app_container'', CtAppContainer),
      (''restricted_token'', CtRestrictedToken), (''job_object'', CtJobObject),
      (''app_sandbox'', CtAppSandbox), (''virtual_machine'', CtVirtualMachine)]"

fun control_name :: "control \<Rightarrow> string" where
  "control_name CtSourceReadOnly = ''source_read_only''"
| "control_name CtScratchOverlay = ''scratch_overlay''"
| "control_name CtNetworkDeny = ''network_deny''"
| "control_name CtEgressBroker = ''egress_broker''"
| "control_name CtProcessIsolation = ''process_isolation''"
| "control_name CtResourceLimits = ''resource_limits''"
| "control_name CtSecretRedaction = ''secret_redaction''"
| "control_name CtNamespace = ''namespace''"
| "control_name CtSeccomp = ''seccomp''"
| "control_name CtLandlock = ''landlock''"
| "control_name CtCgroupV2 = ''cgroup_v2''"
| "control_name CtAppContainer = ''app_container''"
| "control_name CtRestrictedToken = ''restricted_token''"
| "control_name CtJobObject = ''job_object''"
| "control_name CtAppSandbox = ''app_sandbox''"
| "control_name CtVirtualMachine = ''virtual_machine''"

definition control_parse :: "string \<Rightarrow> control option" where
  "control_parse value = map_of control_names value"

lemma control_parse_name [simp]: "control_parse (control_name c) = Some c"
  by (cases c) (simp_all add: control_parse_def control_names_def)

lemma control_parse_Some: "control_parse s = Some c \<longleftrightarrow> s = control_name c"
proof
  assume "control_parse s = Some c"
  have table: "\<forall>(n, c) \<in> set control_names. n = control_name c" by (simp add: control_names_def)
  from \<open>control_parse s = Some c\<close> have "(s, c) \<in> set control_names" unfolding control_parse_def by (rule map_of_SomeD)
  then show "s = control_name c" using table by blast
qed simp

section \<open>Data\<close>

datatype plan_status = StatusComplete | StatusIncomplete "string list"

record run_step =
  rs_id :: string
  rs_image :: string
  rs_argv :: "string list"
  rs_environment :: "(string, string) bmap"
  rs_working_directory :: string
  rs_supported :: bool

record run_limits =
  rl_cpu_seconds :: nat
  rl_memory_mb :: nat
  rl_processes :: nat
  rl_output_bytes :: nat

record runtime_profile =
  rt_kind :: string
  rt_runner_platform :: string
  rt_workload_digest :: string
  rt_rootfs_digest :: "string option"
  rt_helper_digest :: "string option"
  rt_boot_digest :: "string option"
  rt_capability_fingerprint :: "string option"

record plan_dependency =
  dp_reference :: string
  dp_digest :: "string option"
  dp_available :: bool

record validated_plan =
  pl_digest :: string
  pl_backend :: string
  pl_scenario_digest :: string
  pl_provider_profile :: string
  pl_selected_jobs :: "string list"
  pl_controls :: "control list"
  pl_status :: plan_status
  pl_source_digest :: string
  pl_lock_digest :: string
  pl_runtime :: runtime_profile
  pl_limits :: run_limits
  pl_network_destinations :: "string list"
  pl_secret_names :: "string list"
  pl_dependencies :: "plan_dependency list"
  pl_steps :: "run_step list"

definition unresolved_content_digest :: string where
  "unresolved_content_digest = ''sha256:'' @ replicate 64 (CHR ''0'')"

text \<open>The published portable profile.\<close>

definition runner_cpu_cores :: nat where "runner_cpu_cores = 1"
definition runner_wall_time_seconds :: nat where "runner_wall_time_seconds = 900"
definition runner_memory_bytes :: nat where "runner_memory_bytes = 2147483648"
definition runner_output_bytes :: nat where "runner_output_bytes = 16777216"
definition runner_processes :: nat where "runner_processes = 128"
definition runner_scratch_bytes :: nat where "runner_scratch_bytes = 4294967296"
definition runner_scratch_entries :: nat where "runner_scratch_entries = 100000"
definition bytes_per_mebibyte :: nat where "bytes_per_mebibyte = 1048576"

definition portable_limits :: run_limits where
  "portable_limits = \<lparr>rl_cpu_seconds = runner_wall_time_seconds, rl_memory_mb = runner_memory_bytes div bytes_per_mebibyte,
     rl_processes = runner_processes, rl_output_bytes = runner_output_bytes\<rparr>"

section \<open>Fallible steps\<close>

definition and_then :: "'e + 'a \<Rightarrow> ('a \<Rightarrow> 'e + 'b) \<Rightarrow> 'e + 'b" where
  "and_then r f = (case r of Inl e \<Rightarrow> Inl e | Inr x \<Rightarrow> f x)"

definition ok_or :: "'e \<Rightarrow> 'a option \<Rightarrow> 'e + 'a" where
  "ok_or e x = (case x of None \<Rightarrow> Inl e | Some y \<Rightarrow> Inr y)"

definition check :: "bool \<Rightarrow> 'e \<Rightarrow> 'e + unit" where
  "check ok e = (if ok then Inr () else Inl e)"

text \<open>\<^verbatim>\<open>collect::<Result<Vec<_>, _>>()\<close> over \<^verbatim>\<open>map\<close>: the first error wins.\<close>

fun traverse :: "('a \<Rightarrow> 'e + 'b) \<Rightarrow> 'a list \<Rightarrow> 'e + 'b list" where
  "traverse f [] = Inr []"
| "traverse f (x # xs) = and_then (f x) (\<lambda>y. and_then (traverse f xs) (\<lambda>ys. Inr (y # ys)))"

lemma and_then_simps [simp]:
  "and_then (Inl e) f = Inl e" "and_then (Inr x) f = f x"
  "and_then r f = Inr y \<longleftrightarrow> (\<exists>x. r = Inr x \<and> f x = Inr y)"
  by (auto simp: and_then_def split: sum.split)

lemma ok_or_Inr [simp]: "ok_or e x = Inr y \<longleftrightarrow> x = Some y"
  by (auto simp: ok_or_def split: option.split)

lemma check_Inr [simp]: "check ok e = Inr u \<longleftrightarrow> ok"
  by (simp add: check_def)

lemma traverse_Inr: "traverse f xs = Inr ys \<longleftrightarrow> list_all2 (\<lambda>x y. f x = Inr y) xs ys"
  by (induction xs arbitrary: ys) (auto simp: list_all2_Cons1)

lemma traverse_map: "(\<And>x. x \<in> set xs \<Longrightarrow> f (g x) = Inr (h x)) \<Longrightarrow> traverse f (map g xs) = Inr (map h xs)"
  by (auto simp: traverse_Inr list_all2_map1 list_all2_map2 list.rel_refl_strong intro!: list_all2_refl)

section \<open>Fields of an object\<close>

definition rv_object :: "json \<Rightarrow> (string \<times> json) list option" where
  "rv_object v = (case v of JObject fs \<Rightarrow> Some fs | _ \<Rightarrow> None)"
definition rv_array :: "json \<Rightarrow> json list option" where
  "rv_array v = (case v of JArray vs \<Rightarrow> Some vs | _ \<Rightarrow> None)"
definition rv_string :: "json \<Rightarrow> string option" where
  "rv_string v = (case v of JString s \<Rightarrow> Some s | _ \<Rightarrow> None)"
definition rv_bool :: "json \<Rightarrow> bool option" where
  "rv_bool v = (case v of JBoolean b \<Rightarrow> Some b | _ \<Rightarrow> None)"
definition rv_integer :: "json \<Rightarrow> i64 option" where
  "rv_integer v = (case v of JInteger i \<Rightarrow> Some i | _ \<Rightarrow> None)"

definition field_of :: "(string \<times> json) list \<Rightarrow> string \<Rightarrow> string + json" where
  "field_of fs name = ok_or (''runner plan needs field '' @ name) (bmap_get fs name)"

definition exact_fields :: "(string \<times> json) list \<Rightarrow> string list \<Rightarrow> string \<Rightarrow> string + unit" where
  "exact_fields fs expected ctx = check (map fst fs = sort expected)
     (ctx @ '' fields are ['' @ join_with '', '' (map fst fs) @ ''], expected ['' @ join_with '', '' expected @ '']'')"

definition string_field :: "(string \<times> json) list \<Rightarrow> string \<Rightarrow> string + string" where
  "string_field fs name = and_then (field_of fs name) (\<lambda>v. ok_or (name @ '' must be a string'') (rv_string v))"

definition integer_field :: "(string \<times> json) list \<Rightarrow> string \<Rightarrow> string + nat" where
  "integer_field fs name =
     and_then (field_of fs name) (\<lambda>v. and_then (ok_or (name @ '' must be an integer'') (rv_integer v))
       (\<lambda>i. and_then (check (0 \<le> sint i) (name @ '' cannot be negative'')) (\<lambda>_. Inr (unat i))))"

definition boolean_field :: "(string \<times> json) list \<Rightarrow> string \<Rightarrow> string + bool" where
  "boolean_field fs name = and_then (field_of fs name) (\<lambda>v. ok_or (name @ '' must be boolean'') (rv_bool v))"

definition nullable_string_field :: "(string \<times> json) list \<Rightarrow> string \<Rightarrow> string + string option" where
  "nullable_string_field fs name =
     and_then (field_of fs name) (\<lambda>v. case v of
         JNull \<Rightarrow> Inr None | JString s \<Rightarrow> Inr (Some s) | _ \<Rightarrow> Inl (name @ '' must be a string or null''))"

definition string_array :: "json \<Rightarrow> string \<Rightarrow> string + string list" where
  "string_array v name =
     and_then (ok_or (name @ '' must be an array'') (rv_array v))
       (traverse (\<lambda>x. ok_or (name @ '' must contain strings'') (rv_string x)))"

lemma rv_Some [simp]:
  "rv_object v = Some fs \<longleftrightarrow> v = JObject fs" "rv_array v = Some vs \<longleftrightarrow> v = JArray vs" "rv_string v = Some s \<longleftrightarrow> v = JString s"
  "rv_bool v = Some b \<longleftrightarrow> v = JBoolean b" "rv_integer v = Some i \<longleftrightarrow> v = JInteger i"
  by (cases v; simp add: rv_object_def rv_array_def rv_string_def rv_bool_def rv_integer_def)+

lemma field_of_Inr [simp]: "field_of fs name = Inr v \<longleftrightarrow> bmap_get fs name = Some v"
  by (simp add: field_of_def)

lemma string_field_Inr [simp]: "string_field fs name = Inr s \<longleftrightarrow> bmap_get fs name = Some (JString s)"
  by (simp add: string_field_def)

lemma boolean_field_Inr [simp]: "boolean_field fs name = Inr b \<longleftrightarrow> bmap_get fs name = Some (JBoolean b)"
  by (simp add: boolean_field_def)

lemma nullable_string_field_Inr [simp]:
  "nullable_string_field fs name = Inr s \<longleftrightarrow> bmap_get fs name = Some (case s of None \<Rightarrow> JNull | Some x \<Rightarrow> JString x)"
proof (cases "bmap_get fs name")
  case (Some v)
  then show ?thesis by (cases v; cases s) (auto simp: nullable_string_field_def)
qed (auto simp: nullable_string_field_def)

lemma string_array_Inr [simp]: "string_array v name = Inr xs \<longleftrightarrow> v = JArray (map JString xs)"
proof -
  have "list_all2 (\<lambda>x y. x = JString y) vs xs \<longleftrightarrow> vs = map JString xs" for vs
    by (induction vs arbitrary: xs) (auto simp: list_all2_Cons1)
  then show ?thesis by (auto simp: string_array_def traverse_Inr)
qed

section \<open>The parts of a plan\<close>

definition runner_content_digest :: "string \<Rightarrow> bool" where
  "runner_content_digest value =
     (case strip_prefix ''sha256:'' value of
        None \<Rightarrow> False
      | Some digest \<Rightarrow> length digest = 64 \<and> list_all (\<lambda>b. is_ascii_digit b \<or> in_range (CHR ''a'') (CHR ''f'') b) digest)"

definition resolved_content_digest :: "string \<Rightarrow> bool" where
  "resolved_content_digest value \<longleftrightarrow> runner_content_digest value \<and> value \<noteq> unresolved_content_digest"

definition sha_ref :: "string \<Rightarrow> string" where
  "sha_ref text = ''sha256:'' @ sha_digest text"

text \<open>The digest of a plan is over the object without its \<^verbatim>\<open>digest\<close> member.\<close>

definition validate_digest :: "(string \<times> json) list \<Rightarrow> string \<Rightarrow> string + unit" where
  "validate_digest fs supplied =
     check (supplied = sha_ref (runner_canonical (JObject (filter (\<lambda>f. fst f \<noteq> ''digest'') fs)))) ''runner plan digest mismatch''"

definition native_backends :: "string list" where
  "native_backends = [''linux-native'', ''windows-native'', ''macos-vm'']"

definition engine_byte :: "char \<Rightarrow> bool" where
  "engine_byte b \<longleftrightarrow> is_ascii_alphabetic b \<or> is_ascii_digit b \<or> b \<in> {CHR ''_'', CHR ''.'', CHR ''-''}"

definition parse_backend :: "(string \<times> json) list \<Rightarrow> string + string" where
  "parse_backend fs =
     and_then (string_field fs ''backend'') (\<lambda>backend.
       let oci = (case strip_prefix ''oci:'' backend of None \<Rightarrow> False | Some engine \<Rightarrow> engine \<noteq> [] \<and> list_all engine_byte engine) in
       if backend \<in> set native_backends \<or> oci then Inr backend else Inl (''unknown backend '' @ backend))"

definition parse_controls :: "(string \<times> json) list \<Rightarrow> string + control list" where
  "parse_controls fs =
     and_then (field_of fs ''controls'') (\<lambda>v. and_then (string_array v ''controls'') (\<lambda>names.
       and_then (traverse (\<lambda>n. ok_or (''unknown control '' @ n) (control_parse n)) names) (\<lambda>controls.
         if length (remdups_adj (sort controls)) = length controls then Inr controls else Inl ''controls must be unique'')))"

definition parse_status :: "(string \<times> json) list \<Rightarrow> string + plan_status" where
  "parse_status fs =
     and_then (field_of fs ''status'') (\<lambda>v. and_then (ok_or ''status must be an object'' (rv_object v)) (\<lambda>status.
       and_then (string_field status ''state'') (\<lambda>state.
         if state = ''complete'' then and_then (exact_fields status [''state''] ''complete status'') (\<lambda>_. Inr StatusComplete)
         else if state = ''incomplete'' then
           and_then (exact_fields status [''reasons'', ''state''] ''incomplete status'') (\<lambda>_.
             and_then (field_of status ''reasons'') (\<lambda>r. and_then (string_array r ''reasons'') (\<lambda>reasons.
               if reasons = [] then Inl ''incomplete status needs at least one reason'' else Inr (StatusIncomplete reasons))))
         else Inl (''unknown plan status '' @ state))))"

definition limit_fields :: "string list" where
  "limit_fields = [''cpu_cores'', ''memory_bytes'', ''output_bytes'', ''processes'', ''scratch_bytes'', ''scratch_entries'',
     ''wall_time_seconds'']"

definition parse_limits :: "(string \<times> json) list \<Rightarrow> string + run_limits" where
  "parse_limits fs =
     and_then (field_of fs ''limits'') (\<lambda>v. and_then (ok_or ''limits must be an object'' (rv_object v)) (\<lambda>limits.
       and_then (exact_fields limits limit_fields ''limits'') (\<lambda>_.
       and_then (integer_field limits ''cpu_cores'') (\<lambda>cpu_cores.
       and_then (integer_field limits ''memory_bytes'') (\<lambda>memory_bytes.
       and_then (integer_field limits ''scratch_bytes'') (\<lambda>scratch_bytes.
       and_then (integer_field limits ''scratch_entries'') (\<lambda>scratch_entries.
       and_then (integer_field limits ''wall_time_seconds'') (\<lambda>cpu_seconds.
       and_then (integer_field limits ''processes'') (\<lambda>processes.
       and_then (integer_field limits ''output_bytes'') (\<lambda>output_bytes.
         let parsed = \<lparr>rl_cpu_seconds = cpu_seconds, rl_memory_mb = memory_bytes div bytes_per_mebibyte,
               rl_processes = processes, rl_output_bytes = output_bytes\<rparr> in
         if cpu_cores = runner_cpu_cores \<and> memory_bytes = runner_memory_bytes \<and> parsed = portable_limits
           \<and> scratch_bytes = runner_scratch_bytes \<and> scratch_entries = runner_scratch_entries
         then Inr parsed else Inl ''runner-v2 portable limits do not match the published profile''))))))))))"

definition runtime_fields :: "string list" where
  "runtime_fields = [''boot_digest'', ''capability_fingerprint'', ''helper_digest'', ''kind'', ''rootfs_digest'',
     ''runner_platform'', ''workload_digest'']"

definition runtime_digests :: "runtime_profile \<Rightarrow> string option list" where
  "runtime_digests r = [rt_rootfs_digest r, rt_helper_digest r, rt_boot_digest r, rt_capability_fingerprint r]"

definition parse_runtime :: "(string \<times> json) list \<Rightarrow> string + runtime_profile" where
  "parse_runtime fs =
     and_then (field_of fs ''runtime'') (\<lambda>v. and_then (ok_or ''runtime must be an object'' (rv_object v)) (\<lambda>members.
       and_then (exact_fields members runtime_fields ''runtime'') (\<lambda>_.
       and_then (string_field members ''kind'') (\<lambda>kind.
       and_then (string_field members ''runner_platform'') (\<lambda>platform.
       and_then (string_field members ''workload_digest'') (\<lambda>workload.
       and_then (nullable_string_field members ''rootfs_digest'') (\<lambda>rootfs.
       and_then (nullable_string_field members ''helper_digest'') (\<lambda>helper.
       and_then (nullable_string_field members ''boot_digest'') (\<lambda>boot.
       and_then (nullable_string_field members ''capability_fingerprint'') (\<lambda>fingerprint.
         let runtime = \<lparr>rt_kind = kind, rt_runner_platform = platform, rt_workload_digest = workload, rt_rootfs_digest = rootfs,
               rt_helper_digest = helper, rt_boot_digest = boot, rt_capability_fingerprint = fingerprint\<rparr> in
         if \<not> runner_content_digest workload
           \<or> list_ex (\<lambda>d. \<not> runner_content_digest d) (List.map_filter id (runtime_digests runtime))
         then Inl ''runtime identities must be SHA-256 content digests'' else Inr runtime))))))))))"

definition plain_destination :: "string \<Rightarrow> bool" where
  "plain_destination d \<longleftrightarrow> str_starts_with d ''https://'' \<and> CHR ''@'' \<notin> set d \<and> CHR 0x5C \<notin> set d \<and> CHR ''?'' \<notin> set d
     \<and> CHR ''#'' \<notin> set d \<and> \<not> str_contains d ''..'' \<and> CHR ''%'' \<notin> set d"

definition parse_network :: "(string \<times> json) list \<Rightarrow> control list \<Rightarrow> string + string list" where
  "parse_network fs controls =
     and_then (field_of fs ''network'') (\<lambda>v. and_then (ok_or ''network must be an object'' (rv_object v)) (\<lambda>network.
       and_then (exact_fields network [''destinations'', ''mode''] ''network'') (\<lambda>_.
       and_then (string_field network ''mode'') (\<lambda>mode.
       and_then (field_of network ''destinations'') (\<lambda>ds. and_then (string_array ds ''destinations'') (\<lambda>destinations.
         let denied = CtNetworkDeny \<in> set controls in
         if (denied \<and> mode \<noteq> ''deny'') \<or> (\<not> denied \<and> mode \<noteq> ''allowlist'')
         then Inl ''network mode contradicts requested controls''
         else if denied \<and> destinations \<noteq> [] then Inl ''network-deny plans cannot contain destinations''
         else if \<not> denied \<and> destinations = [] then Inl ''network-enabled plans require an HTTPS destination policy''
         else if list_ex (\<lambda>d. \<not> plain_destination d) destinations
         then Inl ''network destinations must be normalized HTTPS origin/path policies''
         else Inr destinations))))))"

definition parse_dependency :: "json \<Rightarrow> string + plan_dependency" where
  "parse_dependency v =
     and_then (ok_or ''dependency must be an object'' (rv_object v)) (\<lambda>members.
     and_then (exact_fields members [''available'', ''digest'', ''reference''] ''dependency'') (\<lambda>_.
     and_then (string_field members ''reference'') (\<lambda>reference.
     and_then (nullable_string_field members ''digest'') (\<lambda>digest.
     and_then (boolean_field members ''available'') (\<lambda>available.
       Inr \<lparr>dp_reference = reference, dp_digest = digest, dp_available = available\<rparr>)))))"

definition parse_dependencies :: "(string \<times> json) list \<Rightarrow> string + plan_dependency list" where
  "parse_dependencies fs =
     and_then (field_of fs ''dependencies'') (\<lambda>v.
       and_then (ok_or ''dependencies must be an array'' (rv_array v)) (traverse parse_dependency))"

definition parse_environment :: "(string \<times> json) list \<Rightarrow> string + (string, string) bmap" where
  "parse_environment members =
     traverse (\<lambda>(name, v). and_then (ok_or ''environment value must be a string'' (rv_string v)) (\<lambda>s. Inr (name, s))) members"

definition parse_step :: "json \<Rightarrow> string + run_step" where
  "parse_step v =
     and_then (ok_or ''step must be an object'' (rv_object v)) (\<lambda>members.
     and_then (exact_fields members [''argv'', ''environment'', ''id'', ''image'', ''supported'', ''working_directory''] ''step'') (\<lambda>_.
     and_then (field_of members ''environment'') (\<lambda>e.
     and_then (ok_or ''environment must be an object'' (rv_object e)) (\<lambda>environment.
     and_then (parse_environment environment) (\<lambda>environment.
     and_then (field_of members ''argv'') (\<lambda>a. and_then (string_array a ''argv'') (\<lambda>argv.
     and_then (check (argv \<noteq> []) ''step argv cannot be empty'') (\<lambda>_.
     and_then (string_field members ''id'') (\<lambda>i.
     and_then (string_field members ''image'') (\<lambda>image.
     and_then (string_field members ''working_directory'') (\<lambda>directory.
     and_then (boolean_field members ''supported'') (\<lambda>supported.
       Inr \<lparr>rs_id = i, rs_image = image, rs_argv = argv, rs_environment = environment, rs_working_directory = directory,
         rs_supported = supported\<rparr>))))))))))))"

definition parse_steps :: "(string \<times> json) list \<Rightarrow> string + run_step list" where
  "parse_steps fs =
     and_then (field_of fs ''steps'') (\<lambda>v. and_then (ok_or ''steps must be an array'' (rv_array v)) (traverse parse_step))"

section \<open>Cross-field checks\<close>

definition unresolved_reasons :: "string \<Rightarrow> runtime_profile \<Rightarrow> plan_dependency list \<Rightarrow> run_step list \<Rightarrow> string list" where
  "unresolved_reasons backend runtime dependencies steps =
     map (\<lambda>d. ''unresolved dependency: '' @ dp_reference d) (filter (\<lambda>d. \<not> dp_available d \<or> dp_digest d = None) dependencies)
     @ map (\<lambda>s. ''unsupported step: '' @ rs_id s) (filter (\<lambda>s. \<not> rs_supported s) steps)
     @ map (\<lambda>s. ''unresolved capsule: '' @ rs_id s) (filter (\<lambda>s. \<not> resolved_content_digest (rs_image s)) steps)
     @ (if \<not> resolved_content_digest (rt_workload_digest runtime) then [''unresolved runtime workload''] else [])
     @ (if backend \<in> set native_backends \<and> \<not> (\<exists>d. rt_helper_digest runtime = Some d \<and> resolved_content_digest d)
        then [''unresolved runtime helper''] else [])
     @ (if backend = ''macos-vm'' \<and> \<not> (\<exists>d. rt_boot_digest runtime = Some d \<and> resolved_content_digest d)
        then [''unresolved macOS boot bundle''] else [])"

text \<open>The code sorts and deduplicates the reasons and then only asks whether there are any.\<close>

definition validate_status :: "plan_status \<Rightarrow> string \<Rightarrow> runtime_profile \<Rightarrow> plan_dependency list \<Rightarrow> run_step list \<Rightarrow> string + unit" where
  "validate_status status backend runtime dependencies steps =
     (let reasons = remdups_adj (sort (unresolved_reasons backend runtime dependencies steps)) in
      if status = StatusComplete \<and> reasons \<noteq> []
      then Inl ''complete plan contains unresolved or unsupported work'' else Inr ())"

definition is_oci :: "string \<Rightarrow> bool" where
  "is_oci backend \<longleftrightarrow> str_starts_with backend ''oci:''"

definition platform_matches :: "string \<Rightarrow> string \<Rightarrow> bool" where
  "platform_matches backend platform \<longleftrightarrow>
     (if is_oci backend \<or> backend = ''linux-native'' then str_starts_with platform ''linux-''
      else if backend = ''windows-native'' then str_starts_with platform ''windows-''
      else if backend = ''macos-vm'' then str_starts_with platform ''macos-'' else False)"

definition expected_kind :: "string \<Rightarrow> string" where
  "expected_kind backend =
     (if is_oci backend then ''oci-capsule'' else if backend = ''linux-native'' then ''linux-capsule''
      else if backend = ''windows-native'' then ''windows-runtime-profile'' else ''macos-vm'')"

definition expected_workload :: "run_step list \<Rightarrow> string" where
  "expected_workload steps =
     (case remdups_adj (sort (map rs_image steps)) of [img] \<Rightarrow> img | _ \<Rightarrow> unresolved_content_digest)"

definition rootfs_matches :: "string \<Rightarrow> runtime_profile \<Rightarrow> bool" where
  "rootfs_matches backend runtime \<longleftrightarrow>
     (if is_oci backend \<or> backend = ''linux-native'' \<or> backend = ''macos-vm''
      then rt_rootfs_digest runtime = Some (rt_workload_digest runtime)
      else if backend = ''windows-native'' then rt_rootfs_digest runtime = None \<and> rt_boot_digest runtime = None else False)"

definition check_plan :: "validated_plan \<Rightarrow> string + validated_plan" where
  "check_plan plan =
     and_then (check (runner_content_digest (pl_scenario_digest plan) \<and> runner_content_digest (pl_source_digest plan)
       \<and> runner_content_digest (pl_lock_digest plan)) ''scenario/source/lock identities must be SHA-256 digests'') (\<lambda>_.
     and_then (check (\<not> (str_trim (pl_provider_profile plan) = [] \<or> pl_selected_jobs plan = []))
       ''provider profile and selected jobs are required'') (\<lambda>_.
     and_then (check (platform_matches (pl_backend plan) (rt_runner_platform (pl_runtime plan))
       \<and> rt_kind (pl_runtime plan) = expected_kind (pl_backend plan)) ''runtime profile contradicts the selected backend'') (\<lambda>_.
     and_then (check (rt_workload_digest (pl_runtime plan) = expected_workload (pl_steps plan))
       ''runtime workload digest contradicts selected steps'') (\<lambda>_.
     and_then (check (rootfs_matches (pl_backend plan) (pl_runtime plan))
       ''runtime rootfs/boot bindings contradict the selected backend'') (\<lambda>_.
     and_then (validate_status (pl_status plan) (pl_backend plan) (pl_runtime plan) (pl_dependencies plan) (pl_steps plan)) (\<lambda>_.
       Inr plan))))))"

definition plan_fields :: "string list" where
  "plan_fields = [''backend'', ''controls'', ''dependencies'', ''digest'', ''limits'', ''lock_digest'', ''network'',
     ''provider_profile'', ''runtime'', ''scenario_digest'', ''schema'', ''secret_names'', ''selected_jobs'', ''source_digest'',
     ''status'', ''steps'']"

definition plan_of_fields :: "(string \<times> json) list \<Rightarrow> string + validated_plan" where
  "plan_of_fields fs =
     and_then (exact_fields fs plan_fields ''runner plan'') (\<lambda>_.
     and_then (string_field fs ''digest'') (\<lambda>digest.
     and_then (string_field fs ''schema'') (\<lambda>schema.
     and_then (check (schema = ''runner-v2'') (''unsupported runner schema '' @ schema)) (\<lambda>_.
     and_then (validate_digest fs digest) (\<lambda>_.
     and_then (parse_backend fs) (\<lambda>backend.
     and_then (string_field fs ''scenario_digest'') (\<lambda>scenario_digest.
     and_then (string_field fs ''provider_profile'') (\<lambda>provider_profile.
     and_then (field_of fs ''selected_jobs'') (\<lambda>j. and_then (string_array j ''selected_jobs'') (\<lambda>selected_jobs.
     and_then (string_field fs ''source_digest'') (\<lambda>source_digest.
     and_then (string_field fs ''lock_digest'') (\<lambda>lock_digest.
     and_then (parse_controls fs) (\<lambda>controls.
     and_then (parse_network fs controls) (\<lambda>destinations.
     and_then (field_of fs ''secret_names'') (\<lambda>n. and_then (string_array n ''secret_names'') (\<lambda>secret_names.
     and_then (parse_status fs) (\<lambda>status.
     and_then (parse_limits fs) (\<lambda>limits.
     and_then (parse_runtime fs) (\<lambda>runtime.
     and_then (parse_dependencies fs) (\<lambda>dependencies.
     and_then (parse_steps fs) (\<lambda>steps.
       Inr \<lparr>pl_digest = digest, pl_backend = backend, pl_scenario_digest = scenario_digest, pl_provider_profile = provider_profile,
         pl_selected_jobs = selected_jobs, pl_controls = controls, pl_status = status, pl_source_digest = source_digest,
         pl_lock_digest = lock_digest, pl_runtime = runtime, pl_limits = limits, pl_network_destinations = destinations,
         pl_secret_names = secret_names, pl_dependencies = dependencies, pl_steps = steps\<rparr>)))))))))))))))))))))"

definition validate_plan :: "string \<Rightarrow> (string + validated_plan) option" where
  "validate_plan source =
     map_option (\<lambda>r. and_then r (\<lambda>root. and_then (ok_or ''runner plan must be an object'' (rv_object root))
       (\<lambda>fs. and_then (plan_of_fields fs) check_plan))) (runner_parse source)"

section \<open>Launch and the helper's arguments\<close>

record descriptor =
  ds_id :: string
  ds_version :: string
  ds_platform :: string
  ds_available :: bool
  ds_controls :: "control list"
  ds_reasons :: "string list"

datatype launch_error =
  IncompletePlan "string list"
| UnsupportedPlatform string string
| BackendMismatch string string
| MissingControls "control list"
| InvalidPlan string
| Infrastructure string
| LaunchStepFailed string "int option"

text \<open>\<^verbatim>\<open>std::env::consts::OS\<close> is the argument \<open>os\<close>.\<close>

definition validate_launch :: "string \<Rightarrow> descriptor \<Rightarrow> validated_plan \<Rightarrow> launch_error + unit" where
  "validate_launch os d plan =
     (case pl_status plan of
        StatusIncomplete reasons \<Rightarrow> Inl (IncompletePlan reasons)
      | StatusComplete \<Rightarrow>
          if ds_id d \<noteq> pl_backend plan then Inl (BackendMismatch (ds_id d) (pl_backend plan))
          else if ds_platform d \<noteq> os then Inl (UnsupportedPlatform (ds_id d) os)
          else if \<not> ds_available d then Inl (UnsupportedPlatform (ds_id d) os)
          else (let missing = filter (\<lambda>c. c \<notin> set (ds_controls d)) (pl_controls plan) in
            if missing = [] then Inr () else Inl (MissingControls missing)))"

definition descriptor_to_json :: "descriptor \<Rightarrow> string" where
  "descriptor_to_json d =
     (let q = [CHR 0x22]; name = (\<lambda>n. q @ n @ q @ '':'') in
      ''{'' @ name ''available'' @ (if ds_available d then ''true'' else ''false'')
      @ '','' @ name ''controls'' @ ''['' @ join_with '','' (map (\<lambda>c. q @ control_name c @ q) (ds_controls d)) @ '']''
      @ '','' @ name ''id'' @ q @ ds_id d @ q @ '','' @ name ''platform'' @ q @ ds_platform d @ q
      @ '','' @ name ''reasons'' @ ''['' @ join_with '','' (map rj_string (ds_reasons d)) @ '']''
      @ '','' @ name ''schema'' @ q @ ''backend-attestation-v1'' @ q @ '','' @ name ''version'' @ q @ ds_version d @ q
      @ ''}'' @ [CHR 0x0A])"

datatype helper_mode = Doctor | Validate | Run string "string list"

text \<open>\<^verbatim>\<open>as_chunks::<2>()\<close>: whole pairs and what is left.\<close>

fun pairs_of :: "'a list \<Rightarrow> ('a \<times> 'a) list \<times> 'a list" where
  "pairs_of (a # b # rest) = (case pairs_of rest of (ps, r) \<Rightarrow> ((a, b) # ps, r))"
| "pairs_of rest = ([], rest)"

definition exclusion :: "string \<times> string \<Rightarrow> string + string" where
  "exclusion p =
     (if fst p = ''--exclude'' \<and> snd p \<noteq> [] then Inr (snd p)
      else Inl ''--run accepts only repeated --exclude PREFIX arguments after --source'')"

definition helper_usage :: string where
  "helper_usage = ''usage: helper --doctor|--validate|--run --source SOURCE_ROOT [--exclude PREFIX ...]''"

definition parse_helper_arguments :: "string list \<Rightarrow> string + helper_mode" where
  "parse_helper_arguments arguments =
     (if arguments = [] \<or> arguments = [''--doctor''] then Inr Doctor
      else if arguments = [''--validate''] then Inr Validate
      else (case arguments of
          mode # option # root # rest \<Rightarrow>
            if mode = ''--run'' \<and> option = ''--source'' \<and> root \<noteq> [] then
              (case pairs_of rest of (pairs, remainder) \<Rightarrow>
                 and_then (traverse exclusion pairs) (\<lambda>exclusions.
                   if remainder \<noteq> [] then Inl ''--exclude requires a non-empty prefix'' else Inr (Run root exclusions)))
            else Inl helper_usage
        | _ \<Rightarrow> Inl helper_usage))"

section \<open>Digests of the right form\<close>

lemma lowercase_hex_digits: "list_all (\<lambda>b. is_ascii_digit b \<or> in_range (CHR ''a'') (CHR ''f'') b) (lowercase_hex s)"
proof -
  have "list_all (\<lambda>b. is_ascii_digit b \<or> in_range (CHR ''a'') (CHR ''f'') b) hex_digits"
    by (simp add: hex_digits_def is_ascii_digit_def in_range_def)
  then have "is_ascii_digit (hex_digits ! k) \<or> in_range (CHR ''a'') (CHR ''f'') (hex_digits ! k)" if "k < 16" for k
    using that by (auto simp: list_all_length hex_digits_def)
  then show ?thesis by (auto simp: lowercase_hex_def list_all_iff less_mult_imp_div_less)
qed

lemma sha_digest_form: "length (sha_digest x) = 64 \<and> list_all (\<lambda>b. is_ascii_digit b \<or> in_range (CHR ''a'') (CHR ''f'') b) (sha_digest x)"
proof -
  have blocks: "length state = 8 \<Longrightarrow> length (fst (sha_blocks state input)) = 8" for state input
  proof (induction state input rule: sha_blocks.induct)
    case (1 state input)
    then show ?case by (subst sha_blocks.simps) simp
  qed
  have absorb: "length (sh_state s) = 8 \<Longrightarrow> length (sh_state (sha_absorb input s)) = 8" for s input
    using blocks [of "sh_state s" input] by (auto simp: sha_absorb_def split: prod.split)
  have "length (sh_state (sha_update x sha_new)) = 8"
    by (simp add: sha_update_def Let_def absorb sha_new_def sha_initial_def)
  moreover have "length (fold (\<lambda>block state. compress state block) bs state) = 8" if "length state = 8" for bs state
    using that by (induction bs arbitrary: state) simp_all
  ultimately obtain ws where ws: "sha_digest x = concat (map hex_word ws)" "length ws = 8"
    by (auto simp: sha_digest_def sha_finalize_hex_def)
  have "length (concat (map hex_word ws)) = 8 * length ws"
    by (induction ws) (simp_all add: hex_word_def length_lowercase_hex length_be_bytes)
  then show ?thesis using ws lowercase_hex_digits by (auto simp: list_all_iff hex_word_def)
qed

lemma sha_ref_valid: "runner_content_digest (sha_ref x)"
  using sha_digest_form by (simp add: runner_content_digest_def sha_ref_def)

lemma content_digest_text: "runner_content_digest d \<Longrightarrow> utf8_valid d"
proof -
  assume "runner_content_digest d"
  then obtain h where h: "d = ''sha256:'' @ h" "list_all (\<lambda>b. is_ascii_digit b \<or> in_range (CHR ''a'') (CHR ''f'') b) h"
    by (auto simp: runner_content_digest_def strip_prefix_Some split: option.splits)
  from h(2) have "\<forall>c \<in> set h. byte_of c < 128" by (auto simp: list_all_iff is_ascii_digit_def in_range_def)
  then have "utf8_valid h" by (rule utf8_valid_ascii)
  then show ?thesis by (simp add: h(1))
qed

section \<open>What an accepted plan satisfies\<close>

definition everything_resolved :: "validated_plan \<Rightarrow> bool" where
  "everything_resolved plan \<longleftrightarrow>
     (\<forall>d \<in> set (pl_dependencies plan). dp_available d \<and> dp_digest d \<noteq> None)
     \<and> (\<forall>s \<in> set (pl_steps plan). rs_supported s \<and> resolved_content_digest (rs_image s) \<and> rs_argv s \<noteq> [])
     \<and> resolved_content_digest (rt_workload_digest (pl_runtime plan))
     \<and> (pl_backend plan \<in> set native_backends \<longrightarrow> (\<exists>d. rt_helper_digest (pl_runtime plan) = Some d \<and> resolved_content_digest d))
     \<and> (pl_backend plan = ''macos-vm'' \<longrightarrow> (\<exists>d. rt_boot_digest (pl_runtime plan) = Some d \<and> resolved_content_digest d))"

definition plan_confined :: "validated_plan \<Rightarrow> bool" where
  "plan_confined plan \<longleftrightarrow>
     pl_limits plan = portable_limits \<and> distinct (pl_controls plan)
     \<and> (CtNetworkDeny \<in> set (pl_controls plan) \<longleftrightarrow> pl_network_destinations plan = [])
     \<and> (\<forall>d \<in> set (pl_network_destinations plan). plain_destination d)
     \<and> (\<forall>s \<in> set (pl_steps plan). rs_argv s \<noteq> [])
     \<and> platform_matches (pl_backend plan) (rt_runner_platform (pl_runtime plan))
     \<and> (\<forall>s \<in> set (pl_steps plan). resolved_content_digest (rt_workload_digest (pl_runtime plan))
          \<longrightarrow> rs_image s = rt_workload_digest (pl_runtime plan))"

lemma parse_limits_portable: "parse_limits fs = Inr l \<Longrightarrow> l = portable_limits"
  by (auto simp: parse_limits_def Let_def split: if_splits)

lemma parse_controls_distinct: "parse_controls fs = Inr cs \<Longrightarrow> distinct cs"
  by (auto simp: parse_controls_def length_remdups_adj_sort split: if_splits)

lemma parse_network_confined:
  "parse_network fs cs = Inr ds \<Longrightarrow> (CtNetworkDeny \<in> set cs \<longleftrightarrow> ds = []) \<and> (\<forall>d \<in> set ds. plain_destination d)"
  by (auto simp: parse_network_def Let_def list_ex_iff split: if_splits)

lemma parse_steps_argv: "parse_steps fs = Inr steps \<Longrightarrow> s \<in> set steps \<Longrightarrow> rs_argv s \<noteq> []"
proof -
  have "parse_step v = Inr s \<Longrightarrow> rs_argv s \<noteq> []" for v s
    by (auto simp: parse_step_def)
  then show "parse_steps fs = Inr steps \<Longrightarrow> s \<in> set steps \<Longrightarrow> rs_argv s \<noteq> []"
    by (auto simp: parse_steps_def traverse_Inr list_all2_conv_all_nth in_set_conv_nth)
qed

lemma plan_of_fields_parts:
  assumes "plan_of_fields fs = Inr plan"
  shows "bmap_get fs ''digest'' = Some (JString (pl_digest plan))" "validate_digest fs (pl_digest plan) = Inr ()"
    "parse_backend fs = Inr (pl_backend plan)" "parse_controls fs = Inr (pl_controls plan)"
    "parse_network fs (pl_controls plan) = Inr (pl_network_destinations plan)" "parse_limits fs = Inr (pl_limits plan)"
    "parse_runtime fs = Inr (pl_runtime plan)" "parse_steps fs = Inr (pl_steps plan)"
    "parse_dependencies fs = Inr (pl_dependencies plan)" "parse_status fs = Inr (pl_status plan)"
  using assms by (auto simp: plan_of_fields_def)

lemma check_plan_parts:
  assumes "check_plan p = Inr plan"
  shows "plan = p" "platform_matches (pl_backend p) (rt_runner_platform (pl_runtime p))"
    "rt_workload_digest (pl_runtime p) = expected_workload (pl_steps p)"
    "validate_status (pl_status p) (pl_backend p) (pl_runtime p) (pl_dependencies p) (pl_steps p) = Inr ()"
  using assms by (auto simp: check_plan_def)

lemma validate_plan_parts:
  assumes "validate_plan source = Some (Inr plan)"
  obtains fs where "runner_parse source = Some (Inr (JObject fs))" "plan_of_fields fs = Inr plan" "check_plan plan = Inr plan"
  using assms check_plan_parts(1) by (fastforce simp: validate_plan_def)

lemma expected_workload_images:
  assumes "resolved_content_digest (expected_workload steps)" "s \<in> set steps"
  shows "rs_image s = expected_workload steps"
proof -
  obtain img where img: "remdups_adj (sort (map rs_image steps)) = [img]"
    using assms(1) by (auto simp: expected_workload_def resolved_content_digest_def split: list.splits)
  then have "set (map rs_image steps) = {img}" by (metis remdups_adj_set set_sort list.set)
  then show ?thesis using assms(2) by (auto simp: expected_workload_def img)
qed

lemma complete_resolved:
  assumes "plan_of_fields fs = Inr plan" "check_plan plan = Inr plan" "pl_status plan = StatusComplete"
  shows "everything_resolved plan"
proof -
  have "unresolved_reasons (pl_backend plan) (pl_runtime plan) (pl_dependencies plan) (pl_steps plan) = []"
    using check_plan_parts(4) [OF assms(2)] assms(3)
    by (simp add: validate_status_def Let_def split: if_splits) (metis set_empty set_sort)
  then show ?thesis
    using parse_steps_argv [OF plan_of_fields_parts(8) [OF assms(1)]]
    by (auto simp: everything_resolved_def unresolved_reasons_def filter_empty_conv split: if_splits)
qed

section \<open>A plan that is accepted\<close>

text \<open>A complete native plan with one step. Its digest is the one the parser recomputes; it is never evaluated.\<close>

definition sample_image :: string where
  "sample_image = ''sha256:'' @ replicate 64 (CHR ''a'')"

definition sample_runtime :: runtime_profile where
  "sample_runtime = \<lparr>rt_kind = ''linux-capsule'', rt_runner_platform = ''linux-x64'', rt_workload_digest = sample_image,
     rt_rootfs_digest = Some sample_image, rt_helper_digest = Some sample_image, rt_boot_digest = None,
     rt_capability_fingerprint = None\<rparr>"

definition sample_step :: run_step where
  "sample_step = \<lparr>rs_id = ''s'', rs_image = sample_image, rs_argv = [''true''], rs_environment = [], rs_working_directory = ''.'',
     rs_supported = True\<rparr>"

definition sample_limits :: "(string \<times> json) list" where
  "sample_limits =
     [(''cpu_cores'', JInteger 1), (''memory_bytes'', JInteger 2147483648), (''output_bytes'', JInteger 16777216),
      (''processes'', JInteger 128), (''scratch_bytes'', JInteger 4294967296), (''scratch_entries'', JInteger 100000),
      (''wall_time_seconds'', JInteger 900)]"

definition sample_profile :: "(string \<times> json) list" where
  "sample_profile =
     [(''boot_digest'', JNull), (''capability_fingerprint'', JNull), (''helper_digest'', JString sample_image),
      (''kind'', JString ''linux-capsule''), (''rootfs_digest'', JString sample_image), (''runner_platform'', JString ''linux-x64''),
      (''workload_digest'', JString sample_image)]"

definition sample_rest :: "(string \<times> json) list" where
  "sample_rest =
     [(''backend'', JString ''linux-native''), (''controls'', JArray [JString ''network_deny'']), (''dependencies'', JArray []),
      (''limits'', JObject sample_limits), (''lock_digest'', JString sample_image),
      (''network'', JObject [(''destinations'', JArray []), (''mode'', JString ''deny'')]), (''provider_profile'', JString ''github''),
      (''runtime'', JObject sample_profile),
      (''scenario_digest'', JString sample_image), (''schema'', JString ''runner-v2''), (''secret_names'', JArray []),
      (''selected_jobs'', JArray [JString ''j'']), (''source_digest'', JString sample_image),
      (''status'', JObject [(''state'', JString ''complete'')]),
      (''steps'', JArray [JObject [(''argv'', JArray [JString ''true'']), (''environment'', JObject []), (''id'', JString ''s''),
         (''image'', JString sample_image), (''supported'', JBoolean True), (''working_directory'', JString ''.'')]])]"

definition sample_digest :: string where
  "sample_digest = sha_ref (runner_canonical (JObject sample_rest))"

definition sample_fields :: "(string \<times> json) list" where
  "sample_fields = bmap_insert ''digest'' (JString sample_digest) sample_rest"

definition sample_source :: string where
  "sample_source = canonical_json (JObject sample_fields)"

definition sample_plan :: validated_plan where
  "sample_plan = \<lparr>pl_digest = sample_digest, pl_backend = ''linux-native'', pl_scenario_digest = sample_image,
     pl_provider_profile = ''github'', pl_selected_jobs = [''j''], pl_controls = [CtNetworkDeny], pl_status = StatusComplete,
     pl_source_digest = sample_image, pl_lock_digest = sample_image, pl_runtime = sample_runtime, pl_limits = portable_limits,
     pl_network_destinations = [], pl_secret_names = [], pl_dependencies = [], pl_steps = [sample_step]\<rparr>"

lemma sample_image_resolved [simp]: "runner_content_digest sample_image" "resolved_content_digest sample_image"
proof -
  show "runner_content_digest sample_image"
    by (simp add: sample_image_def runner_content_digest_def in_range_def list_all_iff)
  moreover have "sample_image \<noteq> unresolved_content_digest"
    by (simp add: sample_image_def unresolved_content_digest_def)
  ultimately show "resolved_content_digest sample_image" by (simp add: resolved_content_digest_def)
qed

lemma sample_texts [simp]: "utf8_valid sample_image" "utf8_valid sample_digest"
  by (simp_all add: content_digest_text sample_digest_def sha_ref_valid del: runner_canonical.simps)

lemma sample_fields_ok: "json_ok (JObject sample_fields)"
  by (simp add: sample_fields_def sample_rest_def sample_limits_def sample_profile_def bmap_ok_def less_char_def)

lemma sample_parsed: "runner_parse sample_source = Some (Inr (JObject sample_fields))"
  unfolding sample_source_def by (rule runner_reads_back(1) [OF sample_fields_ok])

lemma sample_get:
  "bmap_get sample_fields ''digest'' = Some (JString sample_digest)"
  "n \<noteq> ''digest'' \<Longrightarrow> bmap_get sample_fields n = bmap_get sample_rest n"
  by (simp_all add: sample_fields_def sample_rest_def less_char_def)

lemma sample_rest_filter: "filter (\<lambda>f. fst f \<noteq> ''digest'') sample_fields = sample_rest"
  by (simp add: sample_fields_def sample_rest_def less_char_def)

lemma sample_fields_exact: "map fst sample_fields = sort plan_fields"
  by (simp add: sample_fields_def sample_rest_def plan_fields_def less_char_def)

lemma sample_limits_parsed: "parse_limits sample_fields = Inr portable_limits"
  by (simp add: parse_limits_def sample_get) (simp add: sample_rest_def sample_limits_def exact_fields_def limit_fields_def
    integer_field_def portable_limits_def runner_cpu_cores_def runner_wall_time_seconds_def runner_memory_bytes_def
    runner_output_bytes_def runner_processes_def runner_scratch_bytes_def runner_scratch_entries_def bytes_per_mebibyte_def)

lemma sample_runtime_parsed: "parse_runtime sample_fields = Inr sample_runtime"
proof -
  have "bmap_get sample_fields ''runtime'' = Some (JObject sample_profile)" by (simp add: sample_get) (simp add: sample_rest_def)
  moreover have "map fst sample_profile = sort runtime_fields" by (simp add: sample_profile_def runtime_fields_def less_char_def)
  moreover have "string_field sample_profile ''kind'' = Inr ''linux-capsule''"
    "string_field sample_profile ''runner_platform'' = Inr ''linux-x64''" "string_field sample_profile ''workload_digest'' = Inr sample_image"
    "nullable_string_field sample_profile ''rootfs_digest'' = Inr (Some sample_image)"
    "nullable_string_field sample_profile ''helper_digest'' = Inr (Some sample_image)"
    "nullable_string_field sample_profile ''boot_digest'' = Inr None" "nullable_string_field sample_profile ''capability_fingerprint'' = Inr None"
    by (simp_all add: sample_profile_def)
  ultimately show ?thesis
    by (simp add: parse_runtime_def field_of_def exact_fields_def ok_or_def check_def rv_object_def sample_runtime_def
        runtime_digests_def List.map_filter_def del: and_then_simps(3) string_field_Inr nullable_string_field_Inr)
qed

lemma sample_steps_parsed: "parse_steps sample_fields = Inr [sample_step]"
  by (simp add: parse_steps_def sample_get, simp add: sample_rest_def exact_fields_def parse_step_def parse_environment_def
    sample_step_def, rule exI [of _ "[''true'']"], auto)

lemma sample_parts_parsed:
  "parse_backend sample_fields = Inr ''linux-native''" "parse_controls sample_fields = Inr [CtNetworkDeny]"
  "parse_network sample_fields [CtNetworkDeny] = Inr []" "parse_status sample_fields = Inr StatusComplete"
  "parse_dependencies sample_fields = Inr []" "validate_digest sample_fields sample_digest = Inr ()"
proof -
  show "parse_backend sample_fields = Inr ''linux-native''"
    by (simp add: parse_backend_def sample_get, simp add: sample_rest_def native_backends_def,
        rule exI [of _ "''linux-native''"], simp)
  show "parse_controls sample_fields = Inr [CtNetworkDeny]"
  proof -
    have "field_of sample_fields ''controls'' = Inr (JArray [JString ''network_deny''])" by (simp add: sample_get) (simp add: sample_rest_def)
    moreover have "string_array (JArray [JString ''network_deny'']) ''controls'' = Inr [''network_deny'']" by simp
    moreover have "control_parse ''network_deny'' = Some CtNetworkDeny" by (simp add: control_parse_Some)
    ultimately show ?thesis
      by (simp add: parse_controls_def ok_or_def del: and_then_simps(3) field_of_Inr string_array_Inr)
  qed
  show "parse_network sample_fields [CtNetworkDeny] = Inr []"
    by (simp add: parse_network_def sample_get) (simp add: sample_rest_def exact_fields_def)
  show "parse_status sample_fields = Inr StatusComplete"
    by (simp add: parse_status_def sample_get, simp add: sample_rest_def exact_fields_def, rule exI [of _ "''complete''"], simp)
  show "parse_dependencies sample_fields = Inr []"
    by (simp add: parse_dependencies_def sample_get) (simp add: sample_rest_def)
  show "validate_digest sample_fields sample_digest = Inr ()"
    by (simp only: validate_digest_def sample_rest_filter sample_digest_def check_Inr)
qed

lemma sample_texts_parsed:
  "string_field sample_fields ''digest'' = Inr sample_digest" "string_field sample_fields ''schema'' = Inr ''runner-v2''"
  "string_field sample_fields ''scenario_digest'' = Inr sample_image" "string_field sample_fields ''provider_profile'' = Inr ''github''"
  "string_field sample_fields ''source_digest'' = Inr sample_image" "string_field sample_fields ''lock_digest'' = Inr sample_image"
  "field_of sample_fields ''selected_jobs'' = Inr (JArray [JString ''j''])" "field_of sample_fields ''secret_names'' = Inr (JArray [])"
  "string_array (JArray [JString ''j'']) ''selected_jobs'' = Inr [''j'']" "string_array (JArray []) ''secret_names'' = Inr []"
  by (simp_all add: sample_get) (simp_all add: sample_rest_def)

lemma graphic_not_white:
  assumes "32 < byte_of c" "byte_of c < 128"
  shows "\<not> white_space_char (c # r)"
proof -
  have "list_all (\<lambda>w. byte_of (hd w) \<le> 32 \<or> 128 \<le> byte_of (hd w)) (map utf8_encode white_space_points)"
    by (simp add: white_space_points_def utf8_encode_def upt_rec)
  then have "white_space_char w \<Longrightarrow> byte_of (hd w) \<le> 32 \<or> 128 \<le> byte_of (hd w)" for w
    unfolding white_space_char_def list_all_iff by blast
  from this [of "c # r"] show ?thesis using assms by auto
qed

lemma sample_profile_named: "str_trim ''github'' \<noteq> []"
  by (simp add: str_trim_def utf8_width_def graphic_not_white)

lemma sample_accepted: "validate_plan sample_source = Some (Inr sample_plan)"
proof -
  have "plan_of_fields sample_fields = Inr sample_plan"
    by (simp add: plan_of_fields_def exact_fields_def sample_fields_exact sample_texts_parsed sample_parts_parsed sample_limits_parsed
        sample_runtime_parsed sample_steps_parsed check_def sample_plan_def del: and_then_simps(3) string_field_Inr field_of_Inr string_array_Inr)
  moreover have "check_plan sample_plan = Inr sample_plan"
    by (simp add: check_plan_def sample_plan_def sample_step_def sample_runtime_def platform_matches_def expected_kind_def
        expected_workload_def rootfs_matches_def validate_status_def unresolved_reasons_def is_oci_def str_starts_with_def
        native_backends_def sample_profile_named)
  ultimately show ?thesis by (simp add: validate_plan_def sample_parsed)
qed

text \<open>
  C26. An accepted plan is confined: it carries the published limits, no control twice, network destinations exactly
  when the network is not denied and only plain HTTPS ones, no empty command line, and one image for
  all steps when the workload is resolved. A plan that claims to be complete has every dependency
  available, every step supported and every capsule resolved, and the digest it carries is the
  SHA-256 of its own canonical content.
\<close>

theorem accepted_plan_confined:
  assumes "validate_plan source = Some (Inr plan)"
  shows "plan_confined plan \<and> (pl_status plan = StatusComplete \<longrightarrow> everything_resolved plan)
    \<and> (\<exists>fs. runner_parse source = Some (Inr (JObject fs))
         \<and> pl_digest plan = sha_ref (runner_canonical (JObject (filter (\<lambda>f. fst f \<noteq> ''digest'') fs))))"
proof -
  obtain fs where fs: "runner_parse source = Some (Inr (JObject fs))" "plan_of_fields fs = Inr plan" "check_plan plan = Inr plan"
    using validate_plan_parts [OF assms] .
  note parts = plan_of_fields_parts [OF fs(2)] and checks = check_plan_parts [OF fs(3)]
  have "plan_confined plan"
    using parse_limits_portable [OF parts(6)] parse_controls_distinct [OF parts(4)] parse_network_confined [OF parts(5)]
      parse_steps_argv [OF parts(8)] checks(2,3) expected_workload_images
    by (auto simp: plan_confined_def)
  moreover have "pl_digest plan = sha_ref (runner_canonical (JObject (filter (\<lambda>f. fst f \<noteq> ''digest'') fs)))"
    using parts(2) by (simp add: validate_digest_def)
  ultimately show ?thesis using complete_resolved [OF fs(2,3)] fs(1) by blast
qed

lemma accepted_plan_confined_witness:
  "plan_confined sample_plan \<and> everything_resolved sample_plan"
  using accepted_plan_confined [OF sample_accepted] by (simp add: sample_plan_def)

lemma sha_ref_inject: "sha_ref a = sha_ref b \<longleftrightarrow> sha_digest a = sha_digest b"
  by (simp add: sha_ref_def)

lemma list_all_filter: "list_all P xs \<Longrightarrow> list_all P (filter Q xs)"
  by (induction xs) auto

lemma json_ok_filter: "json_ok (JObject fs) \<Longrightarrow> json_ok (JObject (filter P fs))"
  by (auto simp: bmap_ok_def list_all_filter sorted_wrt_map intro: sorted_wrt_filter)



text \<open>
  A launch is allowed exactly for a complete plan on an available backend of the right name and operating system
  that provides every control the plan asks for.
\<close>

theorem launch_exact:
  "validate_launch os d plan = Inr () \<longleftrightarrow>
     pl_status plan = StatusComplete \<and> ds_id d = pl_backend plan \<and> ds_platform d = os \<and> ds_available d
     \<and> set (pl_controls plan) \<subseteq> set (ds_controls d)"
  by (auto simp: validate_launch_def Let_def filter_empty_conv split: plan_status.split)

section \<open>Helper command lines\<close>

definition run_arguments :: "string \<Rightarrow> string list \<Rightarrow> string list" where
  "run_arguments root exclusions = [''--run'', ''--source'', root] @ concat (map (\<lambda>x. [''--exclude'', x]) exclusions)"

lemma pairs_of_flat: "pairs_of (concat (map (\<lambda>(a, b). [a, b]) ps)) = (ps, [])"
  by (induction ps) auto

lemma pairs_of_rest: "pairs_of xs = (ps, r) \<Longrightarrow> xs = concat (map (\<lambda>(a, b). [a, b]) ps) @ r"
  by (induction xs arbitrary: ps r rule: pairs_of.induct) (auto split: prod.splits)

lemma exclusion_Inr: "exclusion p = Inr x \<longleftrightarrow> p = (''--exclude'', x) \<and> x \<noteq> []"
  by (cases p) (auto simp: exclusion_def)

lemma exclusions_Inr: "traverse exclusion ps = Inr xs \<longleftrightarrow> ps = map (\<lambda>x. (''--exclude'', x)) xs \<and> [] \<notin> set xs"
proof -
  have "list_all2 (\<lambda>p x. exclusion p = Inr x) ps xs \<longleftrightarrow> ps = map (\<lambda>x. (''--exclude'', x)) xs \<and> [] \<notin> set xs"
  proof (induction ps arbitrary: xs)
    case (Cons p ps)
    then show ?case by (cases xs) (auto simp: exclusion_Inr)
  qed auto
  then show ?thesis by (simp add: traverse_Inr)
qed

text \<open>
  The helper's command line is read exactly: a run is asked for by these arguments and no others, and the
  root and the exclusions are the ones given.
\<close>

theorem helper_arguments_exact:
  "parse_helper_arguments args = Inr (Run root exclusions) \<longleftrightarrow>
     args = run_arguments root exclusions \<and> root \<noteq> [] \<and> [] \<notin> set exclusions"
proof -
  have flat: "concat (map ((\<lambda>(a, b). [a, b]) \<circ> Pair ''--exclude'') xs) = concat (map (\<lambda>x. [''--exclude'', x]) xs)" for xs :: "string list"
    by (induction xs) auto
  have run: "(case pairs_of rest of (pairs, remainder) \<Rightarrow> and_then (traverse exclusion pairs)
        (\<lambda>es. if remainder \<noteq> [] then Inl ''--exclude requires a non-empty prefix'' else Inr (Run r es))) = Inr (Run root exclusions)
      \<longleftrightarrow> r = root \<and> rest = concat (map (\<lambda>x. [''--exclude'', x]) exclusions) \<and> [] \<notin> set exclusions" for r rest
  proof -
    obtain ps m where ps: "pairs_of rest = (ps, m)" by (cases "pairs_of rest")
    have "m = [] \<and> ps = map (\<lambda>x. (''--exclude'', x)) exclusions \<longleftrightarrow> rest = concat (map (\<lambda>x. [''--exclude'', x]) exclusions)"
      using pairs_of_rest [OF ps] pairs_of_flat [of "map (\<lambda>x. (''--exclude'', x)) exclusions"] ps by (auto simp: flat)
    then show ?thesis by (auto simp: ps exclusions_Inr)
  qed
  show ?thesis
  proof (cases "\<exists>mode option r rest. args = mode # option # r # rest")
    case True
    then obtain mode option r rest where args: "args = mode # option # r # rest" by blast
    show ?thesis using run [of r rest] by (auto simp: args parse_helper_arguments_def run_arguments_def)
  next
    case False
    then consider "args = []" | a where "args = [a]" | a b where "args = [a, b]"
      by (metis list.exhaust)
    then show ?thesis using False by cases (auto simp: parse_helper_arguments_def run_arguments_def)
  qed
qed

end
