(* ===== verification/Evidence.thy ===== *)
theory Evidence
  imports Runner_Plan
begin

text \<open>
  Evidence of a sandbox run (\<^verbatim>\<open>src/runner_protocol/mod.rs\<close>): a log of events, each carrying the digest of its
  predecessor, with the plan's digest at the root; the checks of a persisted log and of a log against a
  plan; and the result document. Writing a count beyond \<^verbatim>\<open>i64::MAX\<close> panics in the code: \<open>None\<close> of
  \<open>evidence_append\<close> and \<open>evidence_fits\<close>.
\<close>

section \<open>Data\<close>

datatype evidence_body =
  BackendAttested (ba_id: string) (ba_version: string) (ba_platform: string) (ba_controls_digest: string)
| ControlAttested string
| ProcessStarted string "string list"
| ProcessExited int
| FilesystemAccess string string bool
| NetworkAttempt string nat bool
| ArtifactRecorded string string
| SecretRedacted string
| ResourceObserved (ro_wall: nat) (ro_cpu: nat) (ro_memory: nat) (ro_processes: nat) (ro_output: nat) (ro_scratch: nat)
    (ro_entries: nat)
| LogRecorded string
| FilesystemFinal string
| BackendError string

record evidence_event =
  ev_sequence :: nat
  ev_previous_digest :: string
  ev_digest :: string
  ev_body :: evidence_body

record evidence_bindings =
  bd_scenario_digest :: string
  bd_source_digest :: string
  bd_lock_digest :: string
  bd_runtime_digest :: string
  bd_controls_digest :: string

record forensic_sidecar =
  fs_kind :: string
  fs_digest :: string

record evidence =
  en_plan_digest :: string
  en_bindings :: evidence_bindings
  en_requested_limits :: run_limits
  en_effective_limits :: run_limits
  en_source_digest :: string
  en_events :: "evidence_event list"
  en_forensic_sidecars :: "forensic_sidecar list"

section \<open>JSON\<close>

definition runner_object :: "(string \<times> json) list \<Rightarrow> json" where
  "runner_object members = JObject (bmap_from members)"

definition json_strings :: "string list \<Rightarrow> json" where
  "json_strings vals = JArray (map JString vals)"

text \<open>\<^verbatim>\<open>i64::try_from(n).expect(..)\<close> of a count that fits.\<close>

definition json_count_of :: "nat \<Rightarrow> json" where
  "json_count_of n = JInteger (word_of_nat n)"

definition nullable :: "string option \<Rightarrow> json" where
  "nullable s = (case s of None \<Rightarrow> JNull | Some x \<Rightarrow> JString x)"

text \<open>\<^verbatim>\<open>u64::saturating_mul\<close>.\<close>

definition saturating_mul :: "nat \<Rightarrow> nat \<Rightarrow> nat" where
  "saturating_mul a b = min (a * b) u64_max"

definition limits_json :: "run_limits \<Rightarrow> json" where
  "limits_json l = runner_object
     [(''cpu_cores'', json_count_of runner_cpu_cores),
      (''memory_bytes'', json_count_of (saturating_mul (rl_memory_mb l) bytes_per_mebibyte)),
      (''output_bytes'', json_count_of (rl_output_bytes l)),
      (''processes'', json_count_of (rl_processes l)),
      (''scratch_bytes'', json_count_of runner_scratch_bytes),
      (''scratch_entries'', json_count_of runner_scratch_entries),
      (''wall_time_seconds'', json_count_of (rl_cpu_seconds l))]"

definition runtime_json :: "runtime_profile \<Rightarrow> json" where
  "runtime_json r = runner_object
     [(''boot_digest'', nullable (rt_boot_digest r)),
      (''capability_fingerprint'', nullable (rt_capability_fingerprint r)),
      (''helper_digest'', nullable (rt_helper_digest r)),
      (''kind'', JString (rt_kind r)),
      (''rootfs_digest'', nullable (rt_rootfs_digest r)),
      (''runner_platform'', JString (rt_runner_platform r)),
      (''workload_digest'', JString (rt_workload_digest r))]"

definition slashes :: "string \<Rightarrow> string" where
  "slashes path = map (\<lambda>c. if c = CHR 0x5C then CHR ''/'' else c) path"

fun evidence_body_json :: "evidence_body \<Rightarrow> json" where
  "evidence_body_json (BackendAttested i v p c) = runner_object
     [(''controls_digest'', JString c), (''id'', JString i), (''kind'', JString ''backend_attested''),
      (''platform'', JString p), (''version'', JString v)]"
| "evidence_body_json (ControlAttested c) = runner_object
     [(''control'', JString c), (''kind'', JString ''control_attested'')]"
| "evidence_body_json (ProcessStarted exe argv) = runner_object
     [(''argv'', json_strings argv), (''executable'', JString exe), (''kind'', JString ''process_started'')]"
| "evidence_body_json (ProcessExited code) = runner_object
     [(''code'', JInteger (word_of_int code)), (''kind'', JString ''process_exited'')]"
| "evidence_body_json (FilesystemAccess path operation allowed) = runner_object
     [(''allowed'', JBoolean allowed), (''kind'', JString ''filesystem_access''),
      (''operation'', JString operation), (''path'', JString (slashes path))]"
| "evidence_body_json (NetworkAttempt host port allowed) = runner_object
     [(''allowed'', JBoolean allowed), (''host'', JString host), (''kind'', JString ''network_attempt''),
      (''port'', json_count_of port)]"
| "evidence_body_json (ArtifactRecorded path digest) = runner_object
     [(''digest'', JString digest), (''kind'', JString ''artifact_recorded''), (''path'', JString (slashes path))]"
| "evidence_body_json (SecretRedacted name) = runner_object
     [(''kind'', JString ''secret_redacted''), (''name'', JString name)]"
| "evidence_body_json (ResourceObserved wall cpu memory procs out scratch entries) = runner_object
     [(''cpu_time_ms'', json_count_of cpu), (''kind'', JString ''resource_observed''), (''output_bytes'', json_count_of out),
      (''peak_memory_bytes'', json_count_of memory), (''processes'', json_count_of procs),
      (''scratch_bytes'', json_count_of scratch), (''scratch_entries'', json_count_of entries),
      (''wall_time_ms'', json_count_of wall)]"
| "evidence_body_json (LogRecorded digest) = runner_object
     [(''digest'', JString digest), (''kind'', JString ''log_recorded'')]"
| "evidence_body_json (FilesystemFinal digest) = runner_object
     [(''digest'', JString digest), (''kind'', JString ''filesystem_final'')]"
| "evidence_body_json (BackendError message) = runner_object
     [(''kind'', JString ''backend_error''), (''message'', JString message)]"

definition unsigned_members :: "nat \<Rightarrow> string \<Rightarrow> evidence_body \<Rightarrow> (string \<times> json) list" where
  "unsigned_members sequence previous body = bmap_from
     [(''body'', evidence_body_json body), (''previous_digest'', JString previous), (''sequence'', json_count_of sequence)]"

definition event_digest :: "nat \<Rightarrow> string \<Rightarrow> evidence_body \<Rightarrow> string" where
  "event_digest sequence previous body = sha_ref (runner_canonical (JObject (unsigned_members sequence previous body)))"

section \<open>Recording\<close>

definition controls_digest :: "control list \<Rightarrow> string" where
  "controls_digest controls = sha_ref (runner_canonical (JArray (map (\<lambda>c. JString (control_name c)) controls)))"

definition evidence_new :: "string \<Rightarrow> evidence" where
  "evidence_new plan_digest =
     \<lparr>en_plan_digest = plan_digest,
      en_bindings = \<lparr>bd_scenario_digest = plan_digest, bd_source_digest = plan_digest, bd_lock_digest = plan_digest,
        bd_runtime_digest = plan_digest, bd_controls_digest = plan_digest\<rparr>,
      en_requested_limits = portable_limits, en_effective_limits = portable_limits, en_source_digest = plan_digest,
      en_events = [], en_forensic_sidecars = []\<rparr>"

definition evidence_for_plan :: "validated_plan \<Rightarrow> evidence" where
  "evidence_for_plan plan =
     \<lparr>en_plan_digest = pl_digest plan,
      en_bindings = \<lparr>bd_scenario_digest = pl_scenario_digest plan, bd_source_digest = pl_source_digest plan,
        bd_lock_digest = pl_lock_digest plan, bd_runtime_digest = sha_ref (runner_canonical (runtime_json (pl_runtime plan))),
        bd_controls_digest = controls_digest (pl_controls plan)\<rparr>,
      en_requested_limits = pl_limits plan, en_effective_limits = pl_limits plan, en_source_digest = pl_source_digest plan,
      en_events = [], en_forensic_sidecars = []\<rparr>"

definition tail_digest :: "evidence \<Rightarrow> string" where
  "tail_digest e = (if en_events e = [] then en_plan_digest e else ev_digest (last (en_events e)))"

definition count_fits :: "nat \<Rightarrow> bool" where
  "count_fits n \<longleftrightarrow> n \<le> 9223372036854775807"

fun body_fits :: "evidence_body \<Rightarrow> bool" where
  "body_fits (ResourceObserved wall cpu memory procs out scratch entries) =
     list_all count_fits [wall, cpu, memory, procs, out, scratch, entries]"
| "body_fits (ProcessExited code) = (- (2 ^ 31) \<le> code \<and> code < 2 ^ 31)"
| "body_fits (NetworkAttempt host port allowed) = (port < 2 ^ 16)"
| "body_fits _ = True"

definition evidence_append :: "evidence \<Rightarrow> evidence_body \<Rightarrow> evidence option" where
  "evidence_append e body =
     (let sequence = length (en_events e); previous = tail_digest e in
      if body_fits body \<and> count_fits sequence
      then Some (e\<lparr>en_events := en_events e @ [\<lparr>ev_sequence = sequence, ev_previous_digest = previous,
        ev_digest = event_digest sequence previous body, ev_body = body\<rparr>]\<rparr>)
      else None)"

section \<open>Validation\<close>

definition blank :: "string \<Rightarrow> bool" where
  "blank s \<longleftrightarrow> str_trim s = []"

definition root_relative_path :: "string \<Rightarrow> bool" where
  "root_relative_path path \<longleftrightarrow> path \<noteq> [] \<and> hd path \<noteq> CHR ''/'' \<and> hd path \<noteq> CHR 0x5C \<and> CHR 0x5C \<notin> set path
     \<and> list_all (\<lambda>segment. segment \<notin> {[], ''.'', ''..''}) (split_on (CHR ''/'') path)"

definition digest_check :: "string \<Rightarrow> string + unit" where
  "digest_check d = check (runner_content_digest d) ''evidence-v2 contains an invalid SHA-256 digest''"

fun validate_evidence_body :: "evidence_body \<Rightarrow> string + unit" where
  "validate_evidence_body (BackendAttested i v p c) =
     and_then (check (\<not> (blank i \<or> blank v \<or> blank p)) ''backend attestation identity must not be empty'') (\<lambda>_. digest_check c)"
| "validate_evidence_body (ControlAttested c) = check (control_parse c \<noteq> None) (''unknown control attestation '' @ c)"
| "validate_evidence_body (ProcessStarted exe argv) = check (\<not> blank exe) ''process executable must not be empty''"
| "validate_evidence_body (ProcessExited code) = Inr ()"
| "validate_evidence_body (FilesystemAccess path operation allowed) =
     check (\<not> (blank path \<or> blank operation)) ''filesystem evidence must identify path and operation''"
| "validate_evidence_body (NetworkAttempt host port allowed) =
     check (\<not> (blank host \<or> port = 0)) ''network evidence host and port are invalid''"
| "validate_evidence_body (ArtifactRecorded path digest) =
     and_then (check (root_relative_path path) ''evidence artifact paths must be root-relative'') (\<lambda>_. digest_check digest)"
| "validate_evidence_body (SecretRedacted name) = check (\<not> blank name) ''redacted secret name must not be empty''"
| "validate_evidence_body (ResourceObserved wall cpu memory procs out scratch entries) = Inr ()"
| "validate_evidence_body (LogRecorded digest) = digest_check digest"
| "validate_evidence_body (FilesystemFinal digest) = digest_check digest"
| "validate_evidence_body (BackendError message) = check (\<not> blank message) ''backend error evidence must not be empty''"

fun validate_events :: "nat \<Rightarrow> string \<Rightarrow> evidence_event list \<Rightarrow> string + unit" where
  "validate_events expected previous [] = Inr ()"
| "validate_events expected previous (event # events) =
     and_then (check (ev_sequence event = expected) ''evidence sequence is not contiguous'') (\<lambda>_.
     and_then (check (ev_previous_digest event = previous) ''evidence previous digest mismatch'') (\<lambda>_.
     and_then (validate_evidence_body (ev_body event)) (\<lambda>_.
     and_then (check (ev_digest event = event_digest (ev_sequence event) (ev_previous_digest event) (ev_body event))
       ''evidence event digest mismatch'') (\<lambda>_. validate_events (Suc expected) (ev_digest event) events))))"

definition bound_digests :: "evidence \<Rightarrow> string list" where
  "bound_digests e = (let b = en_bindings e in
     [en_plan_digest e, bd_scenario_digest b, bd_source_digest b, bd_lock_digest b, bd_runtime_digest b, bd_controls_digest b])"

definition sidecar_ok :: "forensic_sidecar \<Rightarrow> bool" where
  "sidecar_ok s \<longleftrightarrow> \<not> (blank (fs_kind s) \<or> \<not> runner_content_digest (fs_digest s))"

definition evidence_validate :: "evidence \<Rightarrow> string + unit" where
  "evidence_validate e =
     and_then (check (list_all runner_content_digest (bound_digests e)) ''evidence-v2 contains an invalid SHA-256 digest'') (\<lambda>_.
     and_then (check (en_source_digest e = bd_source_digest (en_bindings e)) ''evidence source binding mismatch'') (\<lambda>_.
     and_then (check (en_requested_limits e = portable_limits \<and> en_effective_limits e = portable_limits)
       ''evidence-v2 portable limits do not match runner-v2'') (\<lambda>_.
     and_then (check (list_all sidecar_ok (en_forensic_sidecars e)) ''forensic sidecar identity is invalid'') (\<lambda>_.
       validate_events 0 (en_plan_digest e) (en_events e)))))"

section \<open>The document\<close>

text \<open>The last observation of each kind is the summary.\<close>

definition last_resources :: "evidence_event list \<Rightarrow> evidence_body" where
  "last_resources events = fold (\<lambda>e acc. case ev_body e of
       ResourceObserved w c m p out s n \<Rightarrow> ResourceObserved w c m p out s n | _ \<Rightarrow> acc) events (ResourceObserved 0 0 0 0 0 0 0)"

definition last_log :: "evidence_event list \<Rightarrow> string" where
  "last_log events = fold (\<lambda>e acc. case ev_body e of LogRecorded d \<Rightarrow> d | _ \<Rightarrow> acc) events (sha_ref [])"

definition last_filesystem :: "string \<Rightarrow> evidence_event list \<Rightarrow> string" where
  "last_filesystem source events = fold (\<lambda>e acc. case ev_body e of FilesystemFinal d \<Rightarrow> d | _ \<Rightarrow> acc) events source"

definition resources_json :: "evidence_body \<Rightarrow> json" where
  "resources_json r = runner_object
     [(''cpu_time_ms'', json_count_of (ro_cpu r)), (''output_bytes'', json_count_of (ro_output r)),
      (''peak_memory_bytes'', json_count_of (ro_memory r)), (''processes'', json_count_of (ro_processes r)),
      (''scratch_bytes'', json_count_of (ro_scratch r)), (''scratch_entries'', json_count_of (ro_entries r)),
      (''wall_time_ms'', json_count_of (ro_wall r))]"

definition event_json :: "evidence_event \<Rightarrow> json" where
  "event_json e = JObject (bmap_insert ''digest'' (JString (ev_digest e))
     (unsigned_members (ev_sequence e) (ev_previous_digest e) (ev_body e)))"

definition artifact_records :: "evidence_event list \<Rightarrow> (string \<times> string) list" where
  "artifact_records events = sort_key fst (List.map_filter (\<lambda>e. case ev_body e of
     ArtifactRecorded path digest \<Rightarrow> Some (slashes path, digest) | _ \<Rightarrow> None) events)"

definition artifact_json :: "string \<times> string \<Rightarrow> json" where
  "artifact_json a = runner_object [(''digest'', JString (snd a)), (''path'', JString (fst a))]"

definition bindings_json :: "evidence_bindings \<Rightarrow> json" where
  "bindings_json b = runner_object
     [(''controls_digest'', JString (bd_controls_digest b)), (''lock_digest'', JString (bd_lock_digest b)),
      (''runtime_digest'', JString (bd_runtime_digest b)), (''scenario_digest'', JString (bd_scenario_digest b)),
      (''source_digest'', JString (bd_source_digest b))]"

definition sidecar_json :: "forensic_sidecar \<Rightarrow> json" where
  "sidecar_json s = runner_object [(''digest'', JString (fs_digest s)), (''kind'', JString (fs_kind s))]"

definition evidence_json :: "evidence \<Rightarrow> json" where
  "evidence_json e = runner_object
     [(''artifacts'', JArray (map artifact_json (artifact_records (en_events e)))),
      (''bindings'', bindings_json (en_bindings e)),
      (''effective_limits'', limits_json (en_effective_limits e)),
      (''events'', JArray (map event_json (en_events e))),
      (''final_filesystem_digest'', JString (last_filesystem (en_source_digest e) (en_events e))),
      (''forensic_sidecars'', JArray (map sidecar_json (en_forensic_sidecars e))),
      (''observed_resources'', resources_json (last_resources (en_events e))),
      (''plan_digest'', JString (en_plan_digest e)),
      (''redacted_log_digest'', JString (last_log (en_events e))),
      (''requested_limits'', limits_json (en_requested_limits e)),
      (''schema'', JString ''evidence-v2'')]"

definition evidence_to_canonical :: "evidence \<Rightarrow> string" where
  "evidence_to_canonical e = runner_canonical (evidence_json e)"

section \<open>Reading a document\<close>

definition parse_bindings :: "json \<Rightarrow> string + evidence_bindings" where
  "parse_bindings v =
     and_then (ok_or ''evidence bindings must be an object'' (rv_object v)) (\<lambda>fs.
     and_then (exact_fields fs [''controls_digest'', ''lock_digest'', ''runtime_digest'', ''scenario_digest'', ''source_digest'']
       ''evidence bindings'') (\<lambda>_.
     and_then (string_field fs ''scenario_digest'') (\<lambda>scenario.
     and_then (string_field fs ''source_digest'') (\<lambda>source.
     and_then (string_field fs ''lock_digest'') (\<lambda>lock.
     and_then (string_field fs ''runtime_digest'') (\<lambda>runtime.
     and_then (string_field fs ''controls_digest'') (\<lambda>controls.
       Inr \<lparr>bd_scenario_digest = scenario, bd_source_digest = source, bd_lock_digest = lock, bd_runtime_digest = runtime,
         bd_controls_digest = controls\<rparr>)))))))"

definition limits_mismatch :: string where
  "limits_mismatch = ''evidence-v2 portable limits do not match runner-v2''"

definition parse_evidence_limits :: "json \<Rightarrow> string + run_limits" where
  "parse_evidence_limits v =
     and_then (ok_or ''evidence limits must be an object'' (rv_object v)) (\<lambda>fs.
     and_then (exact_fields fs limit_fields ''evidence limits'') (\<lambda>_.
     and_then (integer_field fs ''wall_time_seconds'') (\<lambda>wall.
     and_then (integer_field fs ''memory_bytes'') (\<lambda>memory.
     and_then (integer_field fs ''processes'') (\<lambda>procs.
     and_then (integer_field fs ''output_bytes'') (\<lambda>out.
       let parsed = \<lparr>rl_cpu_seconds = wall, rl_memory_mb = memory div bytes_per_mebibyte, rl_processes = procs,
             rl_output_bytes = out\<rparr> in
     and_then (integer_field fs ''cpu_cores'') (\<lambda>cores. if cores \<noteq> runner_cpu_cores then Inl limits_mismatch else
     if memory \<noteq> runner_memory_bytes then Inl limits_mismatch else
     and_then (integer_field fs ''scratch_bytes'') (\<lambda>scratch. if scratch \<noteq> runner_scratch_bytes then Inl limits_mismatch else
     and_then (integer_field fs ''scratch_entries'') (\<lambda>entries.
       if entries \<noteq> runner_scratch_entries \<or> parsed \<noteq> portable_limits then Inl limits_mismatch else Inr parsed)))))))))"

definition parse_sidecar :: "json \<Rightarrow> string + forensic_sidecar" where
  "parse_sidecar v =
     and_then (ok_or ''forensic sidecar must be an object'' (rv_object v)) (\<lambda>fs.
     and_then (exact_fields fs [''digest'', ''kind''] ''forensic sidecar'') (\<lambda>_.
     and_then (string_field fs ''kind'') (\<lambda>kind.
     and_then (string_field fs ''digest'') (\<lambda>digest. Inr \<lparr>fs_kind = kind, fs_digest = digest\<rparr>))))"

definition parse_sidecars :: "json \<Rightarrow> string + forensic_sidecar list" where
  "parse_sidecars v = and_then (ok_or ''forensic_sidecars must be an array'' (rv_array v)) (traverse parse_sidecar)"

definition parse_body_of :: "string \<Rightarrow> (string \<times> json) list \<Rightarrow> string + evidence_body" where
  "parse_body_of kind fs =
     (if kind = ''backend_attested'' then
        and_then (exact_fields fs [''controls_digest'', ''id'', ''kind'', ''platform'', ''version''] ''backend_attested'') (\<lambda>_.
        and_then (string_field fs ''id'') (\<lambda>i. and_then (string_field fs ''version'') (\<lambda>v.
        and_then (string_field fs ''platform'') (\<lambda>p. and_then (string_field fs ''controls_digest'') (\<lambda>c.
          Inr (BackendAttested i v p c))))))
      else if kind = ''control_attested'' then
        and_then (exact_fields fs [''control'', ''kind''] ''control_attested'') (\<lambda>_.
        and_then (string_field fs ''control'') (\<lambda>c. Inr (ControlAttested c)))
      else if kind = ''process_started'' then
        and_then (exact_fields fs [''argv'', ''executable'', ''kind''] ''process_started'') (\<lambda>_.
        and_then (string_field fs ''executable'') (\<lambda>exe. and_then (field_of fs ''argv'') (\<lambda>a.
        and_then (string_array a ''argv'') (\<lambda>argv. Inr (ProcessStarted exe argv)))))
      else if kind = ''process_exited'' then
        and_then (exact_fields fs [''code'', ''kind''] ''process_exited'') (\<lambda>_.
        and_then (field_of fs ''code'') (\<lambda>c. and_then (ok_or ''process exit code must be an integer'' (rv_integer c)) (\<lambda>code.
        and_then (check (- (2 ^ 31) \<le> sint code \<and> sint code < 2 ^ 31) ''process exit code is out of range'') (\<lambda>_.
          Inr (ProcessExited (sint code))))))
      else if kind = ''filesystem_access'' then
        and_then (exact_fields fs [''allowed'', ''kind'', ''operation'', ''path''] ''filesystem_access'') (\<lambda>_.
        and_then (string_field fs ''path'') (\<lambda>path. and_then (string_field fs ''operation'') (\<lambda>operation.
        and_then (boolean_field fs ''allowed'') (\<lambda>allowed. Inr (FilesystemAccess path operation allowed)))))
      else if kind = ''network_attempt'' then
        and_then (exact_fields fs [''allowed'', ''host'', ''kind'', ''port''] ''network_attempt'') (\<lambda>_.
        and_then (string_field fs ''host'') (\<lambda>host. and_then (integer_field fs ''port'') (\<lambda>port.
        and_then (check (port < 2 ^ 16) ''network port is out of range'') (\<lambda>_.
        and_then (boolean_field fs ''allowed'') (\<lambda>allowed. Inr (NetworkAttempt host port allowed))))))
      else if kind = ''artifact_recorded'' then
        and_then (exact_fields fs [''digest'', ''kind'', ''path''] ''artifact_recorded'') (\<lambda>_.
        and_then (string_field fs ''path'') (\<lambda>path. and_then (string_field fs ''digest'') (\<lambda>digest.
          Inr (ArtifactRecorded path digest))))
      else if kind = ''secret_redacted'' then
        and_then (exact_fields fs [''kind'', ''name''] ''secret_redacted'') (\<lambda>_.
        and_then (string_field fs ''name'') (\<lambda>name. Inr (SecretRedacted name)))
      else if kind = ''resource_observed'' then
        and_then (exact_fields fs [''cpu_time_ms'', ''kind'', ''output_bytes'', ''peak_memory_bytes'', ''processes'', ''scratch_bytes'',
          ''scratch_entries'', ''wall_time_ms''] ''resource_observed'') (\<lambda>_.
        and_then (integer_field fs ''wall_time_ms'') (\<lambda>wall. and_then (integer_field fs ''cpu_time_ms'') (\<lambda>cpu.
        and_then (integer_field fs ''peak_memory_bytes'') (\<lambda>memory. and_then (integer_field fs ''processes'') (\<lambda>procs.
        and_then (integer_field fs ''output_bytes'') (\<lambda>out. and_then (integer_field fs ''scratch_bytes'') (\<lambda>scratch.
        and_then (integer_field fs ''scratch_entries'') (\<lambda>entries.
          Inr (ResourceObserved wall cpu memory procs out scratch entries)))))))))
      else if kind = ''log_recorded'' then
        and_then (exact_fields fs [''digest'', ''kind''] ''log_recorded'') (\<lambda>_.
        and_then (string_field fs ''digest'') (\<lambda>digest. Inr (LogRecorded digest)))
      else if kind = ''filesystem_final'' then
        and_then (exact_fields fs [''digest'', ''kind''] ''filesystem_final'') (\<lambda>_.
        and_then (string_field fs ''digest'') (\<lambda>digest. Inr (FilesystemFinal digest)))
      else if kind = ''backend_error'' then
        and_then (exact_fields fs [''kind'', ''message''] ''backend_error'') (\<lambda>_.
        and_then (string_field fs ''message'') (\<lambda>message. Inr (BackendError message)))
      else Inl (''unknown evidence event kind '' @ kind))"

definition parse_evidence_body :: "json \<Rightarrow> string + evidence_body" where
  "parse_evidence_body v =
     and_then (ok_or ''evidence event body must be an object'' (rv_object v)) (\<lambda>fs.
     and_then (string_field fs ''kind'') (\<lambda>kind. parse_body_of kind fs))"

definition parse_event :: "json \<Rightarrow> string + evidence_event" where
  "parse_event v =
     and_then (ok_or ''evidence event must be an object'' (rv_object v)) (\<lambda>fs.
     and_then (exact_fields fs [''body'', ''digest'', ''previous_digest'', ''sequence''] ''evidence event'') (\<lambda>_.
     and_then (integer_field fs ''sequence'') (\<lambda>sequence.
     and_then (string_field fs ''previous_digest'') (\<lambda>previous.
     and_then (string_field fs ''digest'') (\<lambda>digest.
     and_then (field_of fs ''body'') (\<lambda>b. and_then (parse_evidence_body b) (\<lambda>body.
       Inr \<lparr>ev_sequence = sequence, ev_previous_digest = previous, ev_digest = digest, ev_body = body\<rparr>)))))))"

definition evidence_fields :: "string list" where
  "evidence_fields = [''artifacts'', ''bindings'', ''effective_limits'', ''events'', ''final_filesystem_digest'',
     ''forensic_sidecars'', ''observed_resources'', ''plan_digest'', ''redacted_log_digest'', ''requested_limits'', ''schema'']"

definition parse_evidence_value :: "json \<Rightarrow> string + evidence" where
  "parse_evidence_value root =
     and_then (ok_or ''evidence-v2 must be an object'' (rv_object root)) (\<lambda>fs.
     and_then (exact_fields fs evidence_fields ''evidence-v2'') (\<lambda>_.
     and_then (string_field fs ''schema'') (\<lambda>schema.
     and_then (check (schema = ''evidence-v2'') ''evidence schema must be evidence-v2'') (\<lambda>_.
     and_then (field_of fs ''bindings'') (\<lambda>b. and_then (parse_bindings b) (\<lambda>bindings.
     and_then (field_of fs ''events'') (\<lambda>es. and_then (ok_or ''evidence events must be an array'' (rv_array es)) (\<lambda>vs.
     and_then (traverse parse_event vs) (\<lambda>events.
     and_then (field_of fs ''forensic_sidecars'') (\<lambda>ss. and_then (parse_sidecars ss) (\<lambda>sidecars.
     and_then (string_field fs ''plan_digest'') (\<lambda>plan_digest.
     and_then (field_of fs ''requested_limits'') (\<lambda>rl. and_then (parse_evidence_limits rl) (\<lambda>requested.
     and_then (field_of fs ''effective_limits'') (\<lambda>el. and_then (parse_evidence_limits el) (\<lambda>effective.
       let evidence = \<lparr>en_plan_digest = plan_digest, en_bindings = bindings, en_requested_limits = requested,
             en_effective_limits = effective, en_source_digest = bd_source_digest bindings, en_events = events,
             en_forensic_sidecars = sidecars\<rparr> in
       and_then (evidence_validate evidence) (\<lambda>_.
       if runner_canonical (evidence_json evidence) \<noteq> runner_canonical root
       then Inl ''evidence summaries do not match the authenticated event chain'' else Inr evidence)))))))))))))))))"

definition evidence_parse :: "string \<Rightarrow> (string + evidence) option" where
  "evidence_parse source = map_option (\<lambda>r. and_then r parse_evidence_value) (runner_parse source)"

section \<open>Evidence for a plan\<close>

definition backend_attestations :: "evidence_event list \<Rightarrow> (string \<times> string) list" where
  "backend_attestations events = List.map_filter (\<lambda>e. case ev_body e of
     BackendAttested i v p c \<Rightarrow> Some (i, c) | _ \<Rightarrow> None) events"

definition attested_controls :: "evidence_event list \<Rightarrow> string list" where
  "attested_controls events = List.map_filter (\<lambda>e. case ev_body e of ControlAttested c \<Rightarrow> Some c | _ \<Rightarrow> None) events"

definition process_starts :: "evidence_event list \<Rightarrow> (string \<times> string list) list" where
  "process_starts events = List.map_filter (\<lambda>e. case ev_body e of ProcessStarted exe argv \<Rightarrow> Some (exe, argv) | _ \<Rightarrow> None) events"

definition is_exit :: "evidence_body \<Rightarrow> bool" where
  "is_exit b \<longleftrightarrow> (case b of ProcessExited c \<Rightarrow> True | _ \<Rightarrow> False)"

datatype body_kind = KindResource | KindLog | KindFilesystemFinal

definition kind_matches :: "body_kind \<Rightarrow> evidence_body \<Rightarrow> bool" where
  "kind_matches k b \<longleftrightarrow> (case (k, b) of
     (KindResource, ResourceObserved w c m p out s n) \<Rightarrow> True | (KindLog, LogRecorded d) \<Rightarrow> True
   | (KindFilesystemFinal, FilesystemFinal d) \<Rightarrow> True | _ \<Rightarrow> False)"

definition count_kind :: "body_kind \<Rightarrow> evidence_event list \<Rightarrow> nat" where
  "count_kind k events = length (filter (\<lambda>e. kind_matches k (ev_body e)) events)"

definition start_matches :: "string \<times> string list \<Rightarrow> run_step \<Rightarrow> bool" where
  "start_matches start step = (case rs_argv step of [] \<Rightarrow> False | expected # rest \<Rightarrow> expected = fst start \<and> rest = snd start)"

definition evidence_for_plan_ok :: "evidence \<Rightarrow> validated_plan \<Rightarrow> string + unit" where
  "evidence_for_plan_ok e plan =
     and_then (evidence_validate e) (\<lambda>_.
     let expected = evidence_for_plan plan; events = en_events e; attestations = backend_attestations events;
         starts = process_starts events; exits = length (filter (\<lambda>e. is_exit (ev_body e)) events) in
     and_then (check (en_plan_digest e = pl_digest plan) ''evidence plan digest mismatch'') (\<lambda>_.
     and_then (check (en_bindings e = en_bindings expected) ''evidence provenance bindings do not match runner-v2'') (\<lambda>_.
     and_then (check (en_requested_limits e = pl_limits plan) ''evidence limits do not match runner-v2'') (\<lambda>_.
     and_then (check (length attestations = 1) ''evidence-v2 requires exactly one backend attestation'') (\<lambda>_.
     and_then (check (fst (hd attestations) = pl_backend plan) ''backend attestation identity does not match runner-v2'') (\<lambda>_.
     and_then (check (snd (hd attestations) = bd_controls_digest (en_bindings expected))
       ''backend attestation controls do not match runner-v2'') (\<lambda>_.
     and_then (check (attested_controls events = map control_name (pl_controls plan))
       ''control attestations do not exactly match runner-v2'') (\<lambda>_.
     and_then (check (count_kind KindResource events = 1) ''evidence-v2 requires exactly one resource observation'') (\<lambda>_.
     and_then (check (count_kind KindLog events = 1) ''evidence-v2 requires exactly one redacted log record'') (\<lambda>_.
     and_then (check (count_kind KindFilesystemFinal events = 1) ''evidence-v2 requires exactly one final filesystem record'') (\<lambda>_.
     and_then (check (length starts = exits) ''process lifecycle start/exit events are unbalanced'') (\<lambda>_.
     and_then (check (\<not> (pl_steps plan \<noteq> [] \<and> starts = [])) ''evidence-v2 is missing the planned process lifecycle'') (\<lambda>_.
       check (\<not> (length (pl_steps plan) < length starts \<or> \<not> list_all (\<lambda>(s, t). start_matches s t) (zip starts (pl_steps plan))))
         ''process lifecycle does not match the ordered runner-v2 steps'')))))))))))))"

section \<open>The result of a run\<close>

datatype outcome = Completed | StepFailed string "int option" | TimedOut string | OutputLimitExceeded string

record run_result =
  rr_evidence :: evidence
  rr_outcome :: outcome

fun outcome_json :: "outcome \<Rightarrow> json" where
  "outcome_json Completed = runner_object [(''state'', JString ''completed'')]"
| "outcome_json (StepFailed step code) = runner_object
     [(''code'', case code of None \<Rightarrow> JNull | Some c \<Rightarrow> JInteger (word_of_int c)), (''state'', JString ''step_failed''),
      (''step'', JString step)]"
| "outcome_json (TimedOut step) = runner_object [(''state'', JString ''timed_out''), (''step'', JString step)]"
| "outcome_json (OutputLimitExceeded step) = runner_object [(''state'', JString ''output_limit_exceeded''), (''step'', JString step)]"

definition result_json :: "run_result \<Rightarrow> json" where
  "result_json r = runner_object
     [(''evidence'', evidence_json (rr_evidence r)), (''outcome'', outcome_json (rr_outcome r)),
      (''schema'', JString ''sandbox-run-v2'')]"

definition result_to_canonical :: "run_result \<Rightarrow> string" where
  "result_to_canonical r = runner_canonical (result_json r) @ [CHR 0x0A]"

definition nonempty_string_field :: "(string \<times> json) list \<Rightarrow> string \<Rightarrow> string + string" where
  "nonempty_string_field fs name =
     and_then (string_field fs name) (\<lambda>v. if blank v then Inl (name @ '' must not be empty'') else Inr v)"

definition parse_outcome_code :: "json \<Rightarrow> string + int option" where
  "parse_outcome_code v = (case v of
       JNull \<Rightarrow> Inr None
     | JInteger i \<Rightarrow> and_then (check (- (2 ^ 31) \<le> sint i \<and> sint i < 2 ^ 31) ''sandbox outcome code is out of range'')
         (\<lambda>_. Inr (Some (sint i)))
     | _ \<Rightarrow> Inl ''sandbox outcome code must be an integer or null'')"

definition parse_outcome :: "json \<Rightarrow> string + outcome" where
  "parse_outcome v =
     and_then (ok_or ''sandbox outcome must be an object'' (rv_object v)) (\<lambda>fs.
     and_then (string_field fs ''state'') (\<lambda>state.
       if state = ''completed'' then and_then (exact_fields fs [''state''] ''completed outcome'') (\<lambda>_. Inr Completed)
       else if state = ''step_failed'' then
         and_then (exact_fields fs [''code'', ''state'', ''step''] ''step_failed outcome'') (\<lambda>_.
         and_then (field_of fs ''code'') (\<lambda>c. and_then (parse_outcome_code c) (\<lambda>code.
         and_then (nonempty_string_field fs ''step'') (\<lambda>step. Inr (StepFailed step code)))))
       else if state = ''timed_out'' then
         and_then (exact_fields fs [''state'', ''step''] ''timed_out outcome'') (\<lambda>_.
         and_then (nonempty_string_field fs ''step'') (\<lambda>step. Inr (TimedOut step)))
       else if state = ''output_limit_exceeded'' then
         and_then (exact_fields fs [''state'', ''step''] ''output_limit_exceeded outcome'') (\<lambda>_.
         and_then (nonempty_string_field fs ''step'') (\<lambda>step. Inr (OutputLimitExceeded step)))
       else Inl (''unknown sandbox outcome '' @ state)))"

definition str_trim_end :: "string \<Rightarrow> string" where
  "str_trim_end s = concat (rev (dropWhile white_space_char (rev (utf8_chars s))))"

definition result_of_value :: "json \<Rightarrow> string + run_result" where
  "result_of_value root =
     and_then (ok_or ''sandbox-run-v2 must be an object'' (rv_object root)) (\<lambda>fs.
     and_then (exact_fields fs [''evidence'', ''outcome'', ''schema''] ''sandbox-run-v2'') (\<lambda>_.
     and_then (string_field fs ''schema'') (\<lambda>schema.
     and_then (check (schema = ''sandbox-run-v2'') ''sandbox run schema must be sandbox-run-v2'') (\<lambda>_.
     and_then (field_of fs ''evidence'') (\<lambda>e. and_then (parse_evidence_value e) (\<lambda>evidence.
     and_then (field_of fs ''outcome'') (\<lambda>o'. and_then (parse_outcome o') (\<lambda>out.
       let result = \<lparr>rr_evidence = evidence, rr_outcome = out\<rparr> in
       if str_trim_end (result_to_canonical result) \<noteq> runner_canonical root
       then Inl ''sandbox-run-v2 summary is not internally consistent'' else Inr result))))))))"

definition result_parse :: "string \<Rightarrow> (string + run_result) option" where
  "result_parse source = map_option (\<lambda>r. and_then r result_of_value) (runner_parse source)"

section \<open>The chain\<close>

definition chain_last :: "string \<Rightarrow> evidence_event list \<Rightarrow> string" where
  "chain_last p es = (if es = [] then p else ev_digest (last es))"

definition event_linked :: "nat \<Rightarrow> string \<Rightarrow> evidence_event \<Rightarrow> bool" where
  "event_linked n p e \<longleftrightarrow> ev_sequence e = n \<and> ev_previous_digest e = p \<and> validate_evidence_body (ev_body e) = Inr ()
     \<and> ev_digest e = event_digest n p (ev_body e)"

lemma validate_events_Cons: "validate_events k p (e # es) = Inr u \<longleftrightarrow> event_linked k p e \<and> validate_events (Suc k) (ev_digest e) es = Inr u"
  by (auto simp: event_linked_def)

lemma validate_events_snoc:
  "validate_events k p (es @ [e]) = Inr () \<longleftrightarrow> validate_events k p es = Inr () \<and> event_linked (k + length es) (chain_last p es) e"
proof (induction es arbitrary: k p)
  case (Cons x xs)
  show ?case
    using Cons [of "Suc k" "ev_digest x"] by (auto simp: validate_events_Cons chain_last_def simp del: validate_events.simps(2))
qed (simp add: validate_events_Cons chain_last_def del: validate_events.simps(2))

lemma tail_digest_chain: "tail_digest e = chain_last (en_plan_digest e) (en_events e)"
  by (simp add: tail_digest_def chain_last_def)

lemma append_valid:
  assumes "evidence_validate e = Inr ()" "validate_evidence_body body = Inr ()" "evidence_append e body = Some e'"
  shows "evidence_validate e' = Inr ()"
proof -
  let ?x = "\<lparr>ev_sequence = length (en_events e), ev_previous_digest = tail_digest e,
    ev_digest = event_digest (length (en_events e)) (tail_digest e) body, ev_body = body\<rparr>"
  have e': "e' = e\<lparr>en_events := en_events e @ [?x]\<rparr>" using assms(3) by (auto simp: evidence_append_def Let_def split: if_splits)
  show ?thesis
    using assms(1,2) unfolding e'
    by (simp add: evidence_validate_def bound_digests_def validate_events_snoc event_linked_def tail_digest_chain del: validate_events.simps)
qed

section \<open>Paths with forward slashes\<close>

lemma slashes_idem [simp]: "slashes (slashes s) = slashes s"
  by (simp add: slashes_def)

lemma slashes_id: "CHR 0x5C \<notin> set s \<Longrightarrow> slashes s = s"
  unfolding slashes_def by (rule map_idI) auto

abbreviation slash :: "char \<Rightarrow> char" where
  "slash c \<equiv> (if c = CHR 0x5C then CHR ''/'' else c)"

lemma slash_ascii: "byte_of (slash c) < 128 \<longleftrightarrow> byte_of c < 128" "\<not> byte_of c < 128 \<Longrightarrow> slash c = c"
  by auto

lemma utf8_valid_slashes: "utf8_valid (slashes s) \<longleftrightarrow> utf8_valid s"
proof (induction s rule: utf8_valid.induct)
  case (2 a s)
  show ?case
  proof (cases "byte_of a < 128")
    case True
    then show ?thesis using 2(1) by (auto simp: slashes_def)
  next
    case False
    then have a: "a \<noteq> CHR 0x5C" by auto
    have cont: "utf8_cont (slash c) \<longleftrightarrow> utf8_cont c" "128 \<le> lo \<Longrightarrow> byte_in lo hi (slash c) \<longleftrightarrow> byte_in lo hi c" for c lo hi
      by (auto simp: utf8_cont_def byte_in_def)
    show ?thesis
    proof (cases s)
      case (Cons b t)
      show ?thesis
      proof (cases t)
        case Nil
        then show ?thesis using False a Cons 2(2) cont by (simp add: slashes_def)
      next
        fix c u assume t: "t = c # u"
        show ?thesis
        proof (cases u)
          case Nil
          then show ?thesis using False a Cons t 2(2,3) cont by (simp add: slashes_def)
        next
          fix d w assume u: "u = d # w"
          show ?thesis using False a Cons t u 2(2,3,4) cont by (simp add: slashes_def)
        qed
      qed
    qed (use False a in \<open>simp add: slashes_def\<close>)
  qed
qed (simp add: slashes_def)

lemma utf8_chars_slashes: "utf8_chars (slashes s) = map slashes (utf8_chars s)"
proof (induction s rule: utf8_chars.induct)
  case (2 a s)
  have width: "utf8_width (slash a) = utf8_width a" by (simp add: utf8_width_def)
  have "slashes (a # s) = slash a # slashes s" by (simp add: slashes_def)
  moreover have "take k (slashes s) = slashes (take k s)" "drop k (slashes s) = slashes (drop k s)" for k
    by (simp_all add: slashes_def take_map drop_map)
  ultimately show ?case using 2 width by (simp add: slashes_def)
qed (simp add: slashes_def)

lemma white_space_slashes: "white_space_char (slashes g) \<longleftrightarrow> white_space_char g"
proof (cases "CHR 0x5C \<in> set g")
  case True
  have "list_all (list_all (\<lambda>c. byte_of c \<noteq> 92 \<and> byte_of c \<noteq> 47)) (map utf8_encode white_space_points)"
    by (simp add: white_space_points_def utf8_encode_def upt_rec)
  then have "\<forall>c \<in> set w. byte_of c \<noteq> 92 \<and> byte_of c \<noteq> 47" if "white_space_char w" for w
    using that unfolding white_space_char_def list_all_iff by blast
  moreover have "byte_of (CHR 0x5C) = 92" "byte_of (CHR ''/'') = 47" by simp_all
  ultimately have none: "white_space_char w \<Longrightarrow> CHR 0x5C \<notin> set w \<and> CHR ''/'' \<notin> set w" for w by metis
  have "CHR ''/'' \<in> set (slashes g)" using True by (force simp: slashes_def)
  with True none show ?thesis by blast
qed (simp add: slashes_id)

lemma dropWhile_all: "(\<forall>g \<in> set (dropWhile P gs). P g) \<longleftrightarrow> (\<forall>g \<in> set gs. P g)"
  by (induction gs) auto

lemma concat_Nil: "[] \<notin> set t \<Longrightarrow> concat t = [] \<longleftrightarrow> t = []"
  by (cases t) auto

lemma blank_iff:
  assumes "[] \<notin> set (utf8_chars s)"
  shows "blank s \<longleftrightarrow> (\<forall>g \<in> set (utf8_chars s). white_space_char g)"
proof -
  let ?t = "rev (dropWhile white_space_char (rev (dropWhile white_space_char (utf8_chars s))))"
  have "set ?t \<subseteq> set (utf8_chars s)" by (auto dest!: set_dropWhileD)
  with assms have "[] \<notin> set ?t" by blast
  then have "concat ?t = [] \<longleftrightarrow> ?t = []" by (rule concat_Nil)
  also have "\<dots> \<longleftrightarrow> (\<forall>g \<in> set (utf8_chars s). white_space_char g)"
    by (simp add: dropWhile_all)
  finally show ?thesis by (simp add: blank_def str_trim_def)
qed

lemma utf8_chars_nonempty: "[] \<notin> set (utf8_chars s)"
  by (induction s rule: utf8_chars.induct) auto

lemma blank_slashes [simp]: "blank (slashes s) \<longleftrightarrow> blank s"
  unfolding blank_iff [OF utf8_chars_nonempty] by (simp add: utf8_chars_slashes white_space_slashes)

section \<open>Normal form of a body\<close>

fun normal_body :: "evidence_body \<Rightarrow> evidence_body" where
  "normal_body (FilesystemAccess path operation allowed) = FilesystemAccess (slashes path) operation allowed"
| "normal_body (ArtifactRecorded path digest) = ArtifactRecorded (slashes path) digest"
| "normal_body b = b"

definition normal_event :: "evidence_event \<Rightarrow> evidence_event" where
  "normal_event e = e\<lparr>ev_body := normal_body (ev_body e)\<rparr>"

definition evidence_normal :: "evidence \<Rightarrow> evidence" where
  "evidence_normal e = e\<lparr>en_events := map normal_event (en_events e)\<rparr>"

lemma normal_body_json [simp]: "evidence_body_json (normal_body b) = evidence_body_json b"
  by (cases b) simp_all

lemma normal_body_valid: "validate_evidence_body b = Inr () \<Longrightarrow> validate_evidence_body (normal_body b) = Inr ()"
  by (cases b) (simp_all add: root_relative_path_def slashes_id)

lemma event_digest_normal [simp]: "event_digest n p (normal_body b) = event_digest n p b"
  by (simp add: event_digest_def unsigned_members_def)

lemma normal_event_simps [simp]:
  "ev_sequence (normal_event e) = ev_sequence e" "ev_previous_digest (normal_event e) = ev_previous_digest e"
  "ev_digest (normal_event e) = ev_digest e" "ev_body (normal_event e) = normal_body (ev_body e)"
  by (simp_all add: normal_event_def)

lemma validate_events_normal: "validate_events k p es = Inr () \<Longrightarrow> validate_events k p (map normal_event es) = Inr ()"
  by (induction es arbitrary: k p) (auto simp: normal_body_valid)

lemma evidence_normal_valid: "evidence_validate e = Inr () \<Longrightarrow> evidence_validate (evidence_normal e) = Inr ()"
  by (simp add: evidence_validate_def evidence_normal_def bound_digests_def validate_events_normal)

section \<open>Trees with their members in order\<close>

lemma object_sorted: "bmap_ok members \<Longrightarrow> runner_object members = JObject members"
  by (simp add: runner_object_def bmap_from_ok)

lemma unsigned_sorted:
  "unsigned_members n p b = [(''body'', evidence_body_json b), (''previous_digest'', JString p), (''sequence'', json_count_of n)]"
  unfolding unsigned_members_def by (rule bmap_from_ok) (simp add: bmap_ok_def less_char_def)

lemma event_json_members:
  "event_json e = JObject [(''body'', evidence_body_json (ev_body e)), (''digest'', JString (ev_digest e)),
     (''previous_digest'', JString (ev_previous_digest e)), (''sequence'', json_count_of (ev_sequence e))]"
  by (simp add: event_json_def unsigned_sorted less_char_def)

lemma json_count_ok [simp]: "json_ok (json_count_of n)"
  by (simp add: json_count_of_def)

lemma nullable_ok [simp]: "json_ok (nullable s) \<longleftrightarrow> pred_option utf8_valid s"
  by (cases s) (simp_all add: nullable_def)

lemma json_strings_ok [simp]: "json_ok (json_strings xs) \<longleftrightarrow> list_all utf8_valid xs"
  by (simp add: json_strings_def list_all_iff)

lemma limits_members:
  "limits_json l = JObject
     [(''cpu_cores'', json_count_of runner_cpu_cores),
      (''memory_bytes'', json_count_of (saturating_mul (rl_memory_mb l) bytes_per_mebibyte)),
      (''output_bytes'', json_count_of (rl_output_bytes l)), (''processes'', json_count_of (rl_processes l)),
      (''scratch_bytes'', json_count_of runner_scratch_bytes), (''scratch_entries'', json_count_of runner_scratch_entries),
      (''wall_time_seconds'', json_count_of (rl_cpu_seconds l))]"
  unfolding limits_json_def by (rule object_sorted) (simp add: bmap_ok_def less_char_def)

fun body_members :: "evidence_body \<Rightarrow> (string \<times> json) list" where
  "body_members (BackendAttested i v p c) =
     [(''controls_digest'', JString c), (''id'', JString i), (''kind'', JString ''backend_attested''), (''platform'', JString p),
      (''version'', JString v)]"
| "body_members (ControlAttested c) = [(''control'', JString c), (''kind'', JString ''control_attested'')]"
| "body_members (ProcessStarted exe argv) =
     [(''argv'', json_strings argv), (''executable'', JString exe), (''kind'', JString ''process_started'')]"
| "body_members (ProcessExited code) = [(''code'', JInteger (word_of_int code)), (''kind'', JString ''process_exited'')]"
| "body_members (FilesystemAccess path operation allowed) =
     [(''allowed'', JBoolean allowed), (''kind'', JString ''filesystem_access''), (''operation'', JString operation),
      (''path'', JString (slashes path))]"
| "body_members (NetworkAttempt host port allowed) =
     [(''allowed'', JBoolean allowed), (''host'', JString host), (''kind'', JString ''network_attempt''), (''port'', json_count_of port)]"
| "body_members (ArtifactRecorded path digest) =
     [(''digest'', JString digest), (''kind'', JString ''artifact_recorded''), (''path'', JString (slashes path))]"
| "body_members (SecretRedacted name) = [(''kind'', JString ''secret_redacted''), (''name'', JString name)]"
| "body_members (ResourceObserved wall cpu memory procs out scratch entries) =
     [(''cpu_time_ms'', json_count_of cpu), (''kind'', JString ''resource_observed''), (''output_bytes'', json_count_of out),
      (''peak_memory_bytes'', json_count_of memory), (''processes'', json_count_of procs),
      (''scratch_bytes'', json_count_of scratch), (''scratch_entries'', json_count_of entries), (''wall_time_ms'', json_count_of wall)]"
| "body_members (LogRecorded digest) = [(''digest'', JString digest), (''kind'', JString ''log_recorded'')]"
| "body_members (FilesystemFinal digest) = [(''digest'', JString digest), (''kind'', JString ''filesystem_final'')]"
| "body_members (BackendError message) = [(''kind'', JString ''backend_error''), (''message'', JString message)]"

lemma body_members_ok: "bmap_ok (body_members b)"
  by (cases b) (simp_all add: bmap_ok_def less_char_def)

lemma body_json_members: "evidence_body_json b = JObject (body_members b)"
proof -
  have "evidence_body_json b = runner_object (body_members b)" by (cases b) simp_all
  then show ?thesis by (simp add: object_sorted body_members_ok)
qed

text \<open>Texts that Rust's \<^verbatim>\<open>String\<close> can hold, and counts the writer accepts.\<close>

fun body_text :: "evidence_body \<Rightarrow> bool" where
  "body_text (BackendAttested i v p c) = list_all utf8_valid [i, v, p, c]"
| "body_text (ControlAttested c) = utf8_valid c"
| "body_text (ProcessStarted exe argv) = list_all utf8_valid (exe # argv)"
| "body_text (FilesystemAccess path operation allowed) = (utf8_valid path \<and> utf8_valid operation)"
| "body_text (NetworkAttempt host port allowed) = utf8_valid host"
| "body_text (ArtifactRecorded path digest) = (utf8_valid path \<and> utf8_valid digest)"
| "body_text (SecretRedacted name) = utf8_valid name"
| "body_text (LogRecorded digest) = utf8_valid digest"
| "body_text (FilesystemFinal digest) = utf8_valid digest"
| "body_text (BackendError message) = utf8_valid message"
| "body_text _ = True"

lemma body_json_ok: "body_text b \<Longrightarrow> json_ok (evidence_body_json b)"
  using body_members_ok [of b] unfolding body_json_members
  by (cases b) (simp_all add: utf8_valid_slashes)

section \<open>Reading back\<close>

lemma count_word:
  assumes "count_fits n"
  shows "0 \<le> sint (word_of_nat n :: i64)" "unat (word_of_nat n :: i64) = n"
proof -
  have n: "n < 2 ^ 63" using assms by (simp add: count_fits_def)
  then show "unat (word_of_nat n :: i64) = n" by (simp add: unat_of_nat)
  have "sint (word_of_nat n :: i64) = int n"
    using n by (simp add: signed_of_nat signed_take_bit_int_eq_self)
  then show "0 \<le> sint (word_of_nat n :: i64)" by simp
qed

lemma integer_field_count: "bmap_get fs name = Some (json_count_of n) \<Longrightarrow> count_fits n \<Longrightarrow> integer_field fs name = Inr n"
  by (simp add: integer_field_def json_count_of_def field_of_def ok_or_def rv_integer_def check_def count_word)

lemma small_int_word: "- (2 ^ 31) \<le> c \<Longrightarrow> c < 2 ^ 31 \<Longrightarrow> sint (word_of_int c :: i64) = c"
  by (simp add: sint_sbintrunc' signed_take_bit_int_eq_self)

lemma body_reads_back: "body_fits b \<Longrightarrow> parse_evidence_body (evidence_body_json b) = Inr (normal_body b)"
  unfolding body_json_members
  by (cases b) (simp_all add: parse_evidence_body_def parse_body_of_def exact_fields_def json_strings_def
    integer_field_count small_int_word count_fits_def)

definition event_writable :: "evidence_event \<Rightarrow> bool" where
  "event_writable e \<longleftrightarrow> count_fits (ev_sequence e) \<and> body_fits (ev_body e) \<and> body_text (ev_body e)
     \<and> utf8_valid (ev_previous_digest e) \<and> utf8_valid (ev_digest e)"

lemma event_reads_back: "event_writable e \<Longrightarrow> parse_event (event_json e) = Inr (normal_event e)"
  unfolding event_json_members
  by (simp add: parse_event_def exact_fields_def integer_field_count event_writable_def body_reads_back normal_event_def)

lemma event_json_ok: "event_writable e \<Longrightarrow> json_ok (event_json e)"
  unfolding event_json_members
  by (simp add: event_writable_def body_json_ok bmap_ok_def less_char_def del: evidence_body_json.simps)

text \<open>A log as it is recorded: texts are UTF-8 and counts within \<^verbatim>\<open>i64\<close>; the digests follow from validity.\<close>

definition body_writable :: "evidence_body \<Rightarrow> bool" where
  "body_writable b \<longleftrightarrow> body_fits b \<and> body_text b"

definition evidence_writable :: "evidence \<Rightarrow> bool" where
  "evidence_writable e \<longleftrightarrow> (\<forall>x \<in> set (en_events e). count_fits (ev_sequence x) \<and> body_writable (ev_body x))
     \<and> (\<forall>s \<in> set (en_forensic_sidecars e). utf8_valid (fs_kind s))"

lemma valid_events_writable:
  "validate_events k p es = Inr () \<Longrightarrow> runner_content_digest p
    \<Longrightarrow> \<forall>x \<in> set es. count_fits (ev_sequence x) \<and> body_writable (ev_body x) \<Longrightarrow> \<forall>x \<in> set es. event_writable x"
proof (induction es arbitrary: k p)
  case (Cons e es)
  from Cons.prems(1) have e: "event_linked k p e" "validate_events (Suc k) (ev_digest e) es = Inr ()"
    by (simp_all only: validate_events_Cons)
  then have d: "runner_content_digest (ev_digest e)" by (simp add: event_linked_def event_digest_def sha_ref_valid)
  have "event_writable e"
    using e(1) d Cons.prems(2,3) by (auto simp: event_writable_def body_writable_def event_linked_def content_digest_text)
  moreover have "\<forall>x \<in> set es. event_writable x"
    using Cons.IH [OF e(2) d] Cons.prems(3) by simp
  ultimately show ?case by simp
qed simp

lemma limits_read_back: "parse_evidence_limits (limits_json portable_limits) = Inr portable_limits"
  unfolding limits_members
  by (simp add: parse_evidence_limits_def exact_fields_def limit_fields_def integer_field_count count_fits_def portable_limits_def
      runner_cpu_cores_def runner_memory_bytes_def runner_scratch_bytes_def runner_scratch_entries_def runner_output_bytes_def
      runner_processes_def runner_wall_time_seconds_def bytes_per_mebibyte_def saturating_mul_def u64_max_def Let_def)

lemma sidecar_members: "sidecar_json s = JObject [(''digest'', JString (fs_digest s)), (''kind'', JString (fs_kind s))]"
  unfolding sidecar_json_def by (rule object_sorted) (simp add: bmap_ok_def less_char_def)

lemma sidecar_reads_back: "parse_sidecar (sidecar_json s) = Inr s"
  by (simp add: sidecar_members parse_sidecar_def exact_fields_def)

lemma bindings_members:
  "bindings_json b = JObject
     [(''controls_digest'', JString (bd_controls_digest b)), (''lock_digest'', JString (bd_lock_digest b)),
      (''runtime_digest'', JString (bd_runtime_digest b)), (''scenario_digest'', JString (bd_scenario_digest b)),
      (''source_digest'', JString (bd_source_digest b))]"
  unfolding bindings_json_def by (rule object_sorted) (simp add: bmap_ok_def less_char_def)

lemma bindings_read_back: "parse_bindings (bindings_json b) = Inr b"
  by (simp add: bindings_members parse_bindings_def exact_fields_def)

definition evidence_members :: "evidence \<Rightarrow> (string \<times> json) list" where
  "evidence_members e =
     [(''artifacts'', JArray (map artifact_json (artifact_records (en_events e)))), (''bindings'', bindings_json (en_bindings e)),
      (''effective_limits'', limits_json (en_effective_limits e)), (''events'', JArray (map event_json (en_events e))),
      (''final_filesystem_digest'', JString (last_filesystem (en_source_digest e) (en_events e))),
      (''forensic_sidecars'', JArray (map sidecar_json (en_forensic_sidecars e))),
      (''observed_resources'', resources_json (last_resources (en_events e))), (''plan_digest'', JString (en_plan_digest e)),
      (''redacted_log_digest'', JString (last_log (en_events e))), (''requested_limits'', limits_json (en_requested_limits e)),
      (''schema'', JString ''evidence-v2'')]"

lemma evidence_members_ok: "bmap_ok (evidence_members e)"
  by (simp add: bmap_ok_def less_char_def evidence_members_def)

lemma evidence_json_members: "evidence_json e = JObject (evidence_members e)"
  unfolding evidence_json_def evidence_members_def [symmetric] by (rule object_sorted) (rule evidence_members_ok)

section \<open>A document is read back\<close>

lemma fold_invariant: "P a \<Longrightarrow> (\<And>x acc. x \<in> set xs \<Longrightarrow> P acc \<Longrightarrow> P (f x acc)) \<Longrightarrow> P (fold f xs a)"
  by (induction xs arbitrary: a) auto

lemma last_resources_fits:
  assumes "\<forall>x \<in> set es. body_fits (ev_body x)"
  shows "\<exists>w c m p out s n. last_resources es = ResourceObserved w c m p out s n \<and> list_all count_fits [w, c, m, p, out, s, n]"
proof -
  let ?P = "\<lambda>b. \<exists>w c m p out s n. b = ResourceObserved w c m p out s n \<and> body_fits b"
  have "?P (last_resources es)" unfolding last_resources_def
    by (rule fold_invariant) (use assms in \<open>auto simp: count_fits_def split: evidence_body.split\<close>)
  then show ?thesis by auto
qed

lemma last_texts:
  assumes "\<forall>x \<in> set es. body_text (ev_body x)"
  shows "utf8_valid (last_log es)" "utf8_valid source \<Longrightarrow> utf8_valid (last_filesystem source es)"
proof -
  have "utf8_valid (sha_ref [])" by (rule content_digest_text [OF sha_ref_valid])
  then show "utf8_valid (last_log es)" unfolding last_log_def
    by (rule fold_invariant) (use assms in \<open>auto split: evidence_body.split\<close>)
  show "utf8_valid (last_filesystem source es)" if "utf8_valid source" unfolding last_filesystem_def
    by (rule fold_invariant) (use assms that in \<open>auto split: evidence_body.split\<close>)
qed

lemma artifact_records_text:
  assumes "\<forall>x \<in> set es. body_text (ev_body x)" "a \<in> set (artifact_records es)"
  shows "utf8_valid (fst a)" "utf8_valid (snd a)"
proof -
  obtain x where x: "x \<in> set es" "(case ev_body x of ArtifactRecorded path digest \<Rightarrow> Some (slashes path, digest) | _ \<Rightarrow> None) = Some a"
    using assms(2) by (auto simp: artifact_records_def List.map_filter_def split: if_splits option.splits)
  then show "utf8_valid (fst a)" "utf8_valid (snd a)"
    using assms(1) by (auto simp: utf8_valid_slashes split: evidence_body.splits)
qed

lemma artifact_members: "artifact_json a = JObject [(''digest'', JString (snd a)), (''path'', JString (fst a))]"
  unfolding artifact_json_def by (rule object_sorted) (simp add: bmap_ok_def less_char_def)

lemma resources_ok: "json_ok (resources_json r)"
proof -
  have "resources_json r = JObject
     [(''cpu_time_ms'', json_count_of (ro_cpu r)), (''output_bytes'', json_count_of (ro_output r)),
      (''peak_memory_bytes'', json_count_of (ro_memory r)), (''processes'', json_count_of (ro_processes r)),
      (''scratch_bytes'', json_count_of (ro_scratch r)), (''scratch_entries'', json_count_of (ro_entries r)),
      (''wall_time_ms'', json_count_of (ro_wall r))]"
    unfolding resources_json_def by (rule object_sorted) (simp add: bmap_ok_def less_char_def)
  then show ?thesis by (simp add: bmap_ok_def less_char_def)
qed

lemma limits_ok: "json_ok (limits_json l)"
  unfolding limits_members by (simp add: bmap_ok_def less_char_def)

lemma evidence_validate_parts:
  assumes "evidence_validate e = Inr ()"
  shows "list_all runner_content_digest (bound_digests e)" "en_source_digest e = bd_source_digest (en_bindings e)"
    "en_requested_limits e = portable_limits" "en_effective_limits e = portable_limits"
    "list_all sidecar_ok (en_forensic_sidecars e)" "validate_events 0 (en_plan_digest e) (en_events e) = Inr ()"
  using assms by (auto simp: evidence_validate_def)

lemma valid_events:
  assumes "evidence_validate e = Inr ()" "evidence_writable e"
  shows "\<forall>x \<in> set (en_events e). event_writable x"
proof -
  note parts = evidence_validate_parts [OF assms(1)]
  have "runner_content_digest (en_plan_digest e)" using parts(1) by (simp add: bound_digests_def Let_def)
  with parts(6) assms(2) show ?thesis
    by (intro valid_events_writable [of 0 "en_plan_digest e"]) (auto simp: evidence_writable_def)
qed

lemma evidence_json_ok:
  assumes "evidence_validate e = Inr ()" "evidence_writable e"
  shows "json_ok (evidence_json e)"
proof -
  note parts = evidence_validate_parts [OF assms(1)]
  have texts: "\<forall>x \<in> set (en_events e). body_text (ev_body x)" using assms(2) by (auto simp: evidence_writable_def body_writable_def)
  have digests: "list_all utf8_valid (bound_digests e)" using parts(1) by (auto simp: list_all_iff intro: content_digest_text)
  have "list_all json_ok (map artifact_json (artifact_records (en_events e)))"
    using artifact_records_text [OF texts] by (auto simp: list_all_iff artifact_members bmap_ok_def less_char_def)
  moreover have "json_ok (bindings_json (en_bindings e))"
    using digests by (simp add: bindings_members bound_digests_def Let_def bmap_ok_def less_char_def)
  moreover have "list_all json_ok (map event_json (en_events e))"
    using valid_events [OF assms] by (simp add: list_all_iff event_json_ok)
  moreover have "list_all json_ok (map sidecar_json (en_forensic_sidecars e))"
    using assms(2) parts(5) by (auto simp: list_all_iff sidecar_members bmap_ok_def less_char_def evidence_writable_def
        sidecar_ok_def intro: content_digest_text)
  moreover have "utf8_valid (last_filesystem (en_source_digest e) (en_events e))" "utf8_valid (en_plan_digest e)"
    using last_texts(2) [OF texts] digests by (simp_all add: parts(2) bound_digests_def Let_def)
  moreover have "utf8_valid (last_log (en_events e))" by (rule last_texts(1) [OF texts])
  ultimately show ?thesis
    using evidence_members_ok [of e] unfolding evidence_json_members
    by (simp add: evidence_members_def limits_ok resources_ok del: evidence_body_json.simps)
qed

lemma summaries_normal:
  "last_resources (map normal_event es) = last_resources es" "last_log (map normal_event es) = last_log es"
  "last_filesystem d (map normal_event es) = last_filesystem d es" "artifact_records (map normal_event es) = artifact_records es"
proof -
  have "(case normal_body b of ResourceObserved w c m p out s n \<Rightarrow> ResourceObserved w c m p out s n | _ \<Rightarrow> acc)
      = (case b of ResourceObserved w c m p out s n \<Rightarrow> ResourceObserved w c m p out s n | _ \<Rightarrow> acc)" for b acc
    by (cases b) simp_all
  then show "last_resources (map normal_event es) = last_resources es"
    by (simp add: last_resources_def fold_map comp_def)
  have "(case normal_body b of LogRecorded d \<Rightarrow> d | _ \<Rightarrow> acc) = (case b of LogRecorded d \<Rightarrow> d | _ \<Rightarrow> acc)" for b acc
    by (cases b) simp_all
  then show "last_log (map normal_event es) = last_log es" by (simp add: last_log_def fold_map comp_def)
  have "(case normal_body b of FilesystemFinal d \<Rightarrow> d | _ \<Rightarrow> acc) = (case b of FilesystemFinal d \<Rightarrow> d | _ \<Rightarrow> acc)" for b acc
    by (cases b) simp_all
  then show "last_filesystem d (map normal_event es) = last_filesystem d es" by (simp add: last_filesystem_def fold_map comp_def)
  have "(case normal_body b of ArtifactRecorded path digest \<Rightarrow> Some (slashes path, digest) | _ \<Rightarrow> None)
      = (case b of ArtifactRecorded path digest \<Rightarrow> Some (slashes path, digest) | _ \<Rightarrow> None)" for b
    by (cases b) simp_all
  then show "artifact_records (map normal_event es) = artifact_records es"
    by (simp add: artifact_records_def List.map_filter_def filter_map comp_def)
qed

lemma event_json_normal: "event_json (normal_event x) = event_json x"
  by (simp add: event_json_def unsigned_members_def)

lemma evidence_members_normal: "evidence_members (evidence_normal e) = evidence_members e"
  by (simp add: evidence_members_def evidence_normal_def summaries_normal event_json_normal comp_def)

lemma evidence_value_reads_back:
  assumes "evidence_validate e = Inr ()" "evidence_writable e"
  shows "parse_evidence_value (evidence_json e) = Inr (evidence_normal e)"
proof -
  note parts = evidence_validate_parts [OF assms(1)]
  have get: "bmap_get (evidence_members e) ''schema'' = Some (JString ''evidence-v2'')"
    "bmap_get (evidence_members e) ''bindings'' = Some (bindings_json (en_bindings e))"
    "bmap_get (evidence_members e) ''events'' = Some (JArray (map event_json (en_events e)))"
    "bmap_get (evidence_members e) ''forensic_sidecars'' = Some (JArray (map sidecar_json (en_forensic_sidecars e)))"
    "bmap_get (evidence_members e) ''plan_digest'' = Some (JString (en_plan_digest e))"
    "bmap_get (evidence_members e) ''requested_limits'' = Some (limits_json (en_requested_limits e))"
    "bmap_get (evidence_members e) ''effective_limits'' = Some (limits_json (en_effective_limits e))"
    by (simp_all add: evidence_members_def)
  have names: "map fst (evidence_members e) = sort evidence_fields"
    by (simp add: evidence_members_def evidence_fields_def less_char_def)
  have events: "traverse parse_event (map event_json (en_events e)) = Inr (map normal_event (en_events e))"
    using valid_events [OF assms] by (intro traverse_map) (auto simp: event_reads_back)
  have sidecars: "traverse parse_sidecar (map sidecar_json (en_forensic_sidecars e)) = Inr (en_forensic_sidecars e)"
    using traverse_map [of "en_forensic_sidecars e" parse_sidecar sidecar_json "\<lambda>s. s"] by (simp add: sidecar_reads_back)
  have same: "\<lparr>en_plan_digest = en_plan_digest e, en_bindings = en_bindings e, en_requested_limits = portable_limits,
       en_effective_limits = portable_limits, en_source_digest = bd_source_digest (en_bindings e),
       en_events = map normal_event (en_events e), en_forensic_sidecars = en_forensic_sidecars e\<rparr> = evidence_normal e"
    using parts(2-4) by (simp add: evidence_normal_def)
  show ?thesis
    unfolding evidence_json_members parse_evidence_value_def
    by (simp add: exact_fields_def names get parse_sidecars_def bindings_read_back limits_read_back parts(3,4) events sidecars same
        evidence_normal_valid [OF assms(1)] evidence_members_normal del: runner_canonical.simps)
qed

lemma evidence_document_reads_back:
  assumes "evidence_validate e = Inr ()" "evidence_writable e"
  shows "evidence_parse (evidence_to_canonical e) = Some (Inr (evidence_normal e))"
proof -
  note ok = evidence_json_ok [OF assms]
  have "evidence_to_canonical e = canonical_json (evidence_json e)"
    by (simp only: evidence_to_canonical_def runner_canonical_agrees [OF ok])
  then have "runner_parse (evidence_to_canonical e) = Some (Inr (evidence_json e))"
    by (simp only: runner_reads_back(1) [OF ok])
  then show ?thesis by (simp add: evidence_parse_def evidence_value_reads_back [OF assms])
qed

section \<open>Recording a run\<close>

text \<open>
  The logs a run can reach: it starts from the plan and appends bodies that pass the check of bodies. Rust's
  strings are UTF-8.
\<close>

inductive recorded :: "validated_plan \<Rightarrow> evidence \<Rightarrow> bool" for plan :: validated_plan where
  start: "recorded plan (evidence_for_plan plan)"
| append: "recorded plan e \<Longrightarrow> validate_evidence_body body = Inr () \<Longrightarrow> body_text body \<Longrightarrow> evidence_append e body = Some e'
    \<Longrightarrow> recorded plan e'"

lemma evidence_for_plan_valid:
  assumes "validate_plan source = Some (Inr plan)"
  shows "evidence_validate (evidence_for_plan plan) = Inr ()"
proof -
  obtain fs where fs: "runner_parse source = Some (Inr (JObject fs))" "plan_of_fields fs = Inr plan" "check_plan plan = Inr plan"
    using validate_plan_parts [OF assms] .
  note parts = plan_of_fields_parts [OF fs(2)]
  have "runner_content_digest (pl_digest plan)" using parts(2) by (simp add: validate_digest_def sha_ref_valid)
  then show ?thesis using fs(3) parse_limits_portable [OF parts(6)]
    by (simp add: evidence_validate_def evidence_for_plan_def bound_digests_def controls_digest_def sha_ref_valid check_plan_def)
qed

lemma append_writable: "evidence_writable e \<Longrightarrow> body_text body \<Longrightarrow> evidence_append e body = Some e' \<Longrightarrow> evidence_writable e'"
  by (auto simp: evidence_append_def evidence_writable_def body_writable_def Let_def split: if_splits)

lemma recorded_invariant:
  "recorded plan e \<Longrightarrow> validate_plan source = Some (Inr plan) \<Longrightarrow> evidence_validate e = Inr () \<and> evidence_writable e"
proof (induction rule: recorded.induct)
  case start
  have "evidence_writable (evidence_for_plan plan)" by (simp add: evidence_writable_def evidence_for_plan_def)
  with start show ?case using evidence_for_plan_valid by blast
next
  case (append e body e')
  then show ?case using append_valid append_writable by blast
qed


section \<open>Tampering\<close>

definition sha_collision :: bool where
  "sha_collision \<longleftrightarrow> (\<exists>x y. x \<noteq> y \<and> sha_digest x = sha_digest y)"

lemma canonical_digest_binds:
  assumes "json_ok v" "json_ok w" "sha_ref (runner_canonical v) = sha_ref (runner_canonical w)" "\<not> sha_collision"
  shows "v = w"
proof -
  have "runner_canonical v = runner_canonical w" using assms(3,4) by (auto simp: sha_collision_def sha_ref_inject)
  then show ?thesis
    using canonical_json_inject [OF assms(1,2)] by (simp only: runner_canonical_agrees [OF assms(1)] runner_canonical_agrees [OF assms(2)])
qed

lemma unsigned_ok: "body_text b \<Longrightarrow> utf8_valid p \<Longrightarrow> json_ok (JObject (unsigned_members n p b))"
  unfolding unsigned_sorted by (simp add: body_json_ok bmap_ok_def less_char_def del: evidence_body_json.simps)

lemma count_inject: "count_fits n \<Longrightarrow> count_fits m \<Longrightarrow> json_count_of n = json_count_of m \<Longrightarrow> n = m"
  using count_word(2) by (metis json_count_of_def json.inject(2))

lemma body_json_inject:
  "body_fits b \<Longrightarrow> body_fits c \<Longrightarrow> evidence_body_json b = evidence_body_json c \<Longrightarrow> normal_body b = normal_body c"
  by (metis body_reads_back sum.inject(2))

lemma event_digest_binds:
  assumes "event_writable x" "event_writable y" "event_linked n p x" "event_linked m q y" "ev_digest x = ev_digest y" "\<not> sha_collision"
  shows "n = m \<and> p = q \<and> normal_event x = normal_event y"
proof -
  have ok: "json_ok (JObject (unsigned_members n p (ev_body x)))" "json_ok (JObject (unsigned_members m q (ev_body y)))"
    using assms(1-4) by (metis event_writable_def event_linked_def unsigned_ok)+
  have "JObject (unsigned_members n p (ev_body x)) = JObject (unsigned_members m q (ev_body y))"
    by (rule canonical_digest_binds [OF ok _ assms(6)]) (use assms(3-5) in \<open>simp add: event_linked_def event_digest_def\<close>)
  then have eq: "evidence_body_json (ev_body x) = evidence_body_json (ev_body y)" "p = q" "json_count_of n = json_count_of m"
    by (simp_all add: unsigned_sorted del: evidence_body_json.simps)
  have "n = m" using count_inject [OF _ _ eq(3)] assms(1-4) by (auto simp: event_writable_def event_linked_def)
  moreover have "normal_body (ev_body x) = normal_body (ev_body y)"
    using body_json_inject [OF _ _ eq(1)] assms(1,2) by (auto simp: event_writable_def)
  ultimately show ?thesis
    using eq(2) assms(3-5) by (simp add: event_linked_def normal_event_def)
qed

lemma chain_binds:
  assumes "validate_events 0 p es = Inr ()" "validate_events 0 q fs = Inr ()" "es \<noteq> []" "fs \<noteq> []"
    "\<forall>x \<in> set es. event_writable x" "\<forall>x \<in> set fs. event_writable x" "chain_last p es = chain_last q fs" "\<not> sha_collision"
  shows "p = q \<and> map normal_event es = map normal_event fs"
  using assms
proof (induction es arbitrary: fs rule: rev_induct)
  case (snoc x es)
  obtain ys y where fs: "fs = ys @ [y]" using snoc.prems(4) by (cases fs rule: rev_cases) auto
  have linked: "validate_events 0 p es = Inr ()" "event_linked (length es) (chain_last p es) x"
    "validate_events 0 q ys = Inr ()" "event_linked (length ys) (chain_last q ys) y"
    using snoc.prems(1,2) by (simp_all add: fs validate_events_snoc del: validate_events.simps)
  have "ev_digest x = ev_digest y" using snoc.prems(7) by (simp add: chain_last_def fs)
  then have step: "length es = length ys" "chain_last p es = chain_last q ys" "normal_event x = normal_event y"
    using event_digest_binds [OF _ _ linked(2,4) _ snoc.prems(8)] snoc.prems(5,6) by (auto simp: fs)
  show ?case
  proof (cases "es = []")
    case True
    then show ?thesis using step fs by (simp add: chain_last_def)
  next
    case False
    then have "ys \<noteq> []" using step(1) by auto
    with False have "p = q \<and> map normal_event es = map normal_event ys"
      using snoc.IH [OF linked(1,3)] step(1,2) snoc.prems(5,6,8) by (auto simp: fs)
    then show ?thesis using step(3) by (simp add: fs)
  qed
qed simp


section \<open>Evidence that fits its plan\<close>

lemma prefix_of_steps:
  assumes "length starts \<le> length steps" "list_all (\<lambda>(s, t). start_matches s t) (zip starts steps)"
  shows "map (\<lambda>(exe, argv). exe # argv) starts = map rs_argv (take (length starts) steps)"
  using assms
proof (induction starts arbitrary: steps)
  case (Cons s starts)
  then obtain t ts where steps: "steps = t # ts" by (cases steps) auto
  then have "start_matches s t" using Cons.prems(2) by simp
  then have "fst s # snd s = rs_argv t" by (auto simp: start_matches_def split: list.splits)
  then show ?case using Cons steps by (cases s) simp
qed simp

text \<open>
  C29. Evidence accepted for a plan shows that plan and nothing else: it carries the plan's digest and bindings, one
  attestation by the plan's backend, exactly the plan's controls in order, and its processes are the
  command lines of the first steps of the plan, in order, each with an exit.
\<close>

theorem plan_evidence_exact:
  assumes "evidence_for_plan_ok e plan = Inr ()"
  shows "evidence_validate e = Inr () \<and> en_plan_digest e = pl_digest plan
    \<and> en_bindings e = en_bindings (evidence_for_plan plan)
    \<and> (\<exists>c. backend_attestations (en_events e) = [(pl_backend plan, c)] \<and> c = controls_digest (pl_controls plan))
    \<and> attested_controls (en_events e) = map control_name (pl_controls plan)
    \<and> (\<exists>n \<le> length (pl_steps plan).
         map (\<lambda>(exe, argv). exe # argv) (process_starts (en_events e)) = map rs_argv (take n (pl_steps plan))
         \<and> length (filter (\<lambda>x. is_exit (ev_body x)) (en_events e)) = n \<and> (n = 0) = (pl_steps plan = []))"
proof -
  let ?starts = "process_starts (en_events e)"
  note ok = assms [unfolded evidence_for_plan_ok_def Let_def, simplified]
  have len: "length ?starts \<le> length (pl_steps plan)"
    and all: "list_all (\<lambda>(s, t). start_matches s t) (zip ?starts (pl_steps plan))"
    using ok by auto
  have "backend_attestations (en_events e) = [(pl_backend plan, controls_digest (pl_controls plan))]"
  proof -
    obtain a where a: "backend_attestations (en_events e) = [a]" using ok by (auto simp: length_Suc_conv)
    then show ?thesis using ok by (cases a) (auto simp: evidence_for_plan_def)
  qed
  moreover have "map (\<lambda>(exe, argv). exe # argv) ?starts = map rs_argv (take (length ?starts) (pl_steps plan))"
    by (rule prefix_of_steps [OF len all])
  moreover have "(length ?starts = 0) = (pl_steps plan = [])" using ok len by auto
  ultimately show ?thesis using ok len by auto
qed

section \<open>A recorded run\<close>

lemma append_more:
  assumes "recorded plan e" "validate_evidence_body body = Inr ()" "body_text body" "body_fits body" "length (en_events e) < 100"
  shows "\<exists>e'. evidence_append e body = Some e' \<and> recorded plan e' \<and> map ev_body (en_events e') = map ev_body (en_events e) @ [body]"
proof -
  obtain e' where e': "evidence_append e body = Some e'"
    using assms(4,5) by (auto simp: evidence_append_def Let_def count_fits_def)
  then have "map ev_body (en_events e') = map ev_body (en_events e) @ [body]"
    by (auto simp: evidence_append_def Let_def split: if_splits)
  with e' recorded.append [OF assms(1-3) e'] show ?thesis by blast
qed

lemma append_run:
  "recorded plan e \<Longrightarrow> \<forall>b \<in> set bodies. validate_evidence_body b = Inr () \<and> body_text b \<and> body_fits b
    \<Longrightarrow> length (en_events e) + length bodies < 100
    \<Longrightarrow> \<exists>e'. recorded plan e' \<and> map ev_body (en_events e') = map ev_body (en_events e) @ bodies"
proof (induction bodies arbitrary: e)
  case (Cons b bodies)
  obtain e1 where e1: "recorded plan e1" "map ev_body (en_events e1) = map ev_body (en_events e) @ [b]"
    using append_more [OF Cons.prems(1), of b] Cons.prems(2,3) by auto
  have "length (en_events e1) = Suc (length (en_events e))" using arg_cong [OF e1(2), of length] by simp
  then show ?case using Cons.IH [OF e1(1)] Cons.prems(2,3) e1(2) by auto
qed auto

lemma recorded_frame:
  "recorded plan e \<Longrightarrow> en_plan_digest e = pl_digest plan \<and> en_bindings e = en_bindings (evidence_for_plan plan)
    \<and> en_requested_limits e = pl_limits plan"
proof (induction rule: recorded.induct)
  case start
  show ?case by (simp add: evidence_for_plan_def)
next
  case (append e body e')
  then show ?case by (auto simp: evidence_append_def Let_def split: if_splits)
qed

definition sample_bodies :: "evidence_body list" where
  "sample_bodies =
     [BackendAttested ''linux-native'' ''1'' ''linux-x64'' (controls_digest [CtNetworkDeny]), ControlAttested ''network_deny'',
      ProcessStarted ''true'' [], ProcessExited 0, ResourceObserved 1 1 1 1 1 1 1, LogRecorded (sha_ref []),
      FilesystemFinal (sha_ref [])]"

lemma graphic_not_blank: "32 < byte_of c \<Longrightarrow> byte_of c < 128 \<Longrightarrow> \<not> blank (c # r)"
  using blank_iff [OF utf8_chars_nonempty, of "c # r"] by (simp add: graphic_not_white)

lemma sample_bodies_fine: "\<forall>b \<in> set sample_bodies. validate_evidence_body b = Inr () \<and> body_text b \<and> body_fits b"
  by (simp add: sample_bodies_def graphic_not_blank digest_check_def sha_ref_valid controls_digest_def content_digest_text
      control_parse_name [of CtNetworkDeny, simplified] count_fits_def del: runner_canonical.simps)

lemma sample_recorded: obtains e where "recorded sample_plan e" "map ev_body (en_events e) = sample_bodies"
  using append_run [OF recorded.start sample_bodies_fine, of sample_plan] by (auto simp: evidence_for_plan_def sample_bodies_def)


lemma plan_evidence_exact_witness:
  "\<exists>e. evidence_for_plan_ok e sample_plan = Inr () \<and> attested_controls (en_events e) = [''network_deny'']"
proof -
  obtain e where e: "recorded sample_plan e" "map ev_body (en_events e) = sample_bodies" using sample_recorded .
  then obtain a b c d x y z where events: "en_events e = [a, b, c, d, x, y, z]"
    and bodies: "[ev_body a, ev_body b, ev_body c, ev_body d, ev_body x, ev_body y, ev_body z] = sample_bodies"
    by (auto simp: sample_bodies_def map_eq_Cons_conv)
  note bodies = bodies [unfolded sample_bodies_def list.inject]
  have plan: "pl_backend sample_plan = ''linux-native''" "pl_controls sample_plan = [CtNetworkDeny]" "pl_steps sample_plan = [sample_step]"
    by (simp_all add: sample_plan_def)
  have "evidence_validate e = Inr ()" using recorded_invariant [OF e(1) sample_accepted] by blast
  then have "evidence_for_plan_ok e sample_plan = Inr ()"
    using recorded_frame [OF e(1)] bodies
    by (simp add: evidence_for_plan_ok_def events plan backend_attestations_def attested_controls_def process_starts_def
        List.map_filter_def count_kind_def kind_matches_def is_exit_def start_matches_def sample_step_def evidence_for_plan_def)
  with plan_evidence_exact [OF this] show ?thesis by (auto simp: plan)
qed


end
