(* ===== verification/Scenario.thy ===== *)
theory Scenario
  imports Runner_Plan Graph_Document
begin

text \<open>
  Scenarios (\<^verbatim>\<open>src/sandbox/scenario.rs\<close>): the concrete selection of one job of one workflow that the sandbox is to
  run, built by adding bindings, written as an authenticated document and read back. The hash is the
  parameter \<open>H\<close>, as in \<open>Digests\<close>.
\<close>

section \<open>Platforms\<close>

datatype runner_platform = LinuxX86_64 | LinuxArm64 | WindowsX86_64 | WindowsArm64 | MacosX86_64 | MacosArm64

fun platform_name :: "runner_platform \<Rightarrow> string" where
  "platform_name LinuxX86_64 = ''linux-x86_64''"
| "platform_name LinuxArm64 = ''linux-arm64''"
| "platform_name WindowsX86_64 = ''windows-x86_64''"
| "platform_name WindowsArm64 = ''windows-arm64''"
| "platform_name MacosX86_64 = ''macos-x86_64''"
| "platform_name MacosArm64 = ''macos-arm64''"

fun platform_os :: "runner_platform \<Rightarrow> string" where
  "platform_os LinuxX86_64 = ''linux''"
| "platform_os LinuxArm64 = ''linux''"
| "platform_os WindowsX86_64 = ''windows''"
| "platform_os WindowsArm64 = ''windows''"
| "platform_os MacosX86_64 = ''macos''"
| "platform_os MacosArm64 = ''macos''"

definition platform_parse :: "string \<Rightarrow> runner_platform option" where
  "platform_parse value' = map_of
     [(''linux-x86_64'', LinuxX86_64), (''linux-arm64'', LinuxArm64), (''windows-x86_64'', WindowsX86_64),
      (''windows-arm64'', WindowsArm64), (''macos-x86_64'', MacosX86_64), (''macos-arm64'', MacosArm64)] value'"

lemma platform_parse_name [simp]: "platform_parse (platform_name p) = Some p"
  by (cases p) (simp_all add: platform_parse_def)

section \<open>Scenarios\<close>

record scenario =
  sc_digest :: string
  sc_provider :: provider
  sc_workflow_entrypoint :: string
  sc_job :: string
  sc_event :: string
  sc_inputs :: "(string, string) bmap"
  sc_matrix :: "(string, json) bmap"
  sc_variables :: "(string, string) bmap"
  sc_runner_platform :: runner_platform
  sc_secret_names :: "string list"

definition name_start :: "char \<Rightarrow> bool" where
  "name_start b \<longleftrightarrow> is_ascii_alphabetic b \<or> b = CHR ''_''"

definition portable_name :: "string \<Rightarrow> bool" where
  "portable_name value' = (case value' of
       [] \<Rightarrow> False
     | b # bytes \<Rightarrow> name_start b \<and> list_all (\<lambda>b. is_ascii_alphabetic b \<or> is_ascii_digit b \<or> b \<in> {CHR ''_'', CHR ''-'', CHR ''.''}) bytes)"

definition secret_name :: "string \<Rightarrow> bool" where
  "secret_name value' = (case value' of
       [] \<Rightarrow> False
     | b # bytes \<Rightarrow> name_start b \<and> list_all (\<lambda>b. is_ascii_alphabetic b \<or> is_ascii_digit b \<or> b = CHR ''_'') bytes)"

fun scalar_json :: "json \<Rightarrow> bool" where
  "scalar_json (JString s) = True"
| "scalar_json (JBoolean b) = True"
| "scalar_json (JInteger i) = True"
| "scalar_json _ = False"

definition scenario_validate :: "scenario \<Rightarrow> string + unit" where
  "scenario_validate s =
     and_then (case public_path_new (sc_workflow_entrypoint s) of
         Inl e \<Rightarrow> Inl ''scenario workflow_entrypoint must be a root-relative UTF-8 path'' | Inr p \<Rightarrow> Inr ()) (\<lambda>_.
     and_then (check (str_trim (sc_job s) \<noteq> []) ''scenario job must not be empty'') (\<lambda>_.
     and_then (check (str_trim (sc_event s) \<noteq> []) ''scenario event must not be empty'') (\<lambda>_.
     and_then (check (list_all portable_name (bmap_keys (sc_inputs s) @ bmap_keys (sc_variables s))
       \<and> list_all portable_name (bmap_keys (sc_matrix s))) ''scenario input, matrix, and variable names must be portable'') (\<lambda>_.
       check (list_all secret_name (sc_secret_names s)) ''scenario secret_names must be portable identifiers''))))"

definition string_map :: "(string, string) bmap \<Rightarrow> json" where
  "string_map m = JObject (map (\<lambda>(name, v). (name, JString v)) m)"

definition unsigned_fields :: "scenario \<Rightarrow> (string \<times> json) list" where
  "unsigned_fields s = bmap_from
     [(''event'', JString (sc_event s)), (''inputs'', string_map (sc_inputs s)), (''job'', JString (sc_job s)),
      (''matrix'', JObject (sc_matrix s)), (''provider'', JString (provider_name (sc_provider s))),
      (''runner_platform'', JString (platform_name (sc_runner_platform s))), (''schema'', JString ''scenario-v1''),
      (''secret_names'', JArray (map JString (sc_secret_names s))), (''variables'', string_map (sc_variables s)),
      (''workflow_entrypoint'', JString (sc_workflow_entrypoint s))]"

definition canonical_digest :: "(string \<Rightarrow> string) \<Rightarrow> json \<Rightarrow> string" where
  "canonical_digest H v = content_digest H (canonical_json v)"

definition refresh_digest :: "(string \<Rightarrow> string) \<Rightarrow> scenario \<Rightarrow> scenario" where
  "refresh_digest H s = s\<lparr>sc_digest := canonical_digest H (JObject (unsigned_fields s))\<rparr>"

definition verify_digest :: "(string \<Rightarrow> string) \<Rightarrow> scenario \<Rightarrow> bool" where
  "verify_digest H s \<longleftrightarrow> sc_digest s = canonical_digest H (JObject (unsigned_fields s))"

definition scenario_new :: "(string \<Rightarrow> string) \<Rightarrow> provider \<Rightarrow> string \<Rightarrow> string \<Rightarrow> string \<Rightarrow> runner_platform \<Rightarrow> string + scenario" where
  "scenario_new H provider entrypoint job event platform =
     (let s = \<lparr>sc_digest = [], sc_provider = provider, sc_workflow_entrypoint = normalize_slashes entrypoint, sc_job = job,
        sc_event = event, sc_inputs = [], sc_matrix = [], sc_variables = [], sc_runner_platform = platform,
        sc_secret_names = []\<rparr> in
      and_then (scenario_validate s) (\<lambda>_. Inr (refresh_digest H s)))"

text \<open>\<^verbatim>\<open>BTreeMap::insert\<close> answers whether the key was there.\<close>

definition with_input :: "(string \<Rightarrow> string) \<Rightarrow> string \<Rightarrow> string \<Rightarrow> scenario \<Rightarrow> string + scenario" where
  "with_input H name v s =
     (if \<not> portable_name name \<or> bmap_get (sc_inputs s) name \<noteq> None then Inl ''scenario input names must be unique and portable''
      else Inr (refresh_digest H (s\<lparr>sc_inputs := bmap_insert name v (sc_inputs s)\<rparr>)))"

definition with_variable :: "(string \<Rightarrow> string) \<Rightarrow> string \<Rightarrow> string \<Rightarrow> scenario \<Rightarrow> string + scenario" where
  "with_variable H name v s =
     (if \<not> portable_name name \<or> bmap_get (sc_variables s) name \<noteq> None then Inl ''scenario variable names must be unique and portable''
      else Inr (refresh_digest H (s\<lparr>sc_variables := bmap_insert name v (sc_variables s)\<rparr>)))"

definition with_matrix :: "(string \<Rightarrow> string) \<Rightarrow> string \<Rightarrow> json \<Rightarrow> scenario \<Rightarrow> string + scenario" where
  "with_matrix H name v s =
     (if \<not> scalar_json v then Inl ''scenario matrix values must be scalar''
      else if \<not> portable_name name \<or> bmap_get (sc_matrix s) name \<noteq> None then Inl ''scenario matrix names must be unique and portable''
      else Inr (refresh_digest H (s\<lparr>sc_matrix := bmap_insert name v (sc_matrix s)\<rparr>)))"

definition with_secret :: "(string \<Rightarrow> string) \<Rightarrow> string \<Rightarrow> scenario \<Rightarrow> string + scenario" where
  "with_secret H name s =
     (if \<not> secret_name name \<or> name \<in> set (sc_secret_names s) then Inl ''scenario secret_names must be unique portable identifiers''
      else Inr (refresh_digest H (s\<lparr>sc_secret_names := sort (sc_secret_names s @ [name])\<rparr>)))"

definition scenario_to_canonical :: "scenario \<Rightarrow> string" where
  "scenario_to_canonical s = canonical_line (JObject (bmap_insert ''digest'' (JString (sc_digest s)) (unsigned_fields s)))"

section \<open>Reading a scenario\<close>

definition scenario_fields :: "string list" where
  "scenario_fields = [''digest'', ''event'', ''inputs'', ''job'', ''matrix'', ''provider'', ''runner_platform'', ''schema'',
     ''secret_names'', ''variables'', ''workflow_entrypoint'']"

definition scenario_string :: "(string \<times> json) list \<Rightarrow> string \<Rightarrow> string + string" where
  "scenario_string fs name = ok_or (''scenario-v1 needs string field '' @ name) (Option.bind (bmap_get fs name) json_as_str)"

definition scenario_object :: "(string \<times> json) list \<Rightarrow> string \<Rightarrow> string + (string \<times> json) list" where
  "scenario_object fs name =
     and_then (ok_or (''scenario-v1 needs field '' @ name) (bmap_get fs name)) (\<lambda>v. case v of
         JObject vals \<Rightarrow> Inr vals | _ \<Rightarrow> Inl (''scenario '' @ name @ '' must be an object''))"

definition parse_string_map :: "(string \<times> json) list \<Rightarrow> string \<Rightarrow> string + (string, string) bmap" where
  "parse_string_map fs name =
     and_then (scenario_object fs name) (traverse (\<lambda>(key, v).
       map_sum id (Pair key) (ok_or (''scenario '' @ name @ ''.'' @ key @ '' must be a string'') (json_as_str v))))"

definition parse_matrix :: "(string \<times> json) list \<Rightarrow> string + (string, json) bmap" where
  "parse_matrix fs =
     and_then (scenario_object fs ''matrix'') (\<lambda>vals.
       if list_all scalar_json (map snd vals) then Inr vals
       else Inl ''scenario matrix values must be scalar strings, booleans, or integers'')"

definition provider_parse :: "string \<Rightarrow> string + provider" where
  "provider_parse value' = ok_or (''unknown scenario provider '' @ value')
     (map_of [(''github'', PrGithub), (''gitlab'', PrGitlab), (''azure'', PrAzure), (''circleci'', PrCircleci)] value')"

definition parse_secret_names :: "(string \<times> json) list \<Rightarrow> string + string list" where
  "parse_secret_names fs =
     and_then (ok_or ''secret_names must be an array'' (Option.bind (bmap_get fs ''secret_names'') json_as_array))
       (traverse (\<lambda>v. ok_or ''secret_names must contain strings'' (json_as_str v)))"

definition scenario_of_fields :: "(string \<Rightarrow> string) \<Rightarrow> (string \<times> json) list \<Rightarrow> string + scenario" where
  "scenario_of_fields H fs =
     (case find (\<lambda>name. bmap_get fs name = None) scenario_fields of
        Some name \<Rightarrow> Inl (''scenario-v1 needs field '' @ name)
      | None \<Rightarrow>
     and_then (scenario_string fs ''schema'') (\<lambda>schema.
     and_then (check (schema = ''scenario-v1'') ''unsupported scenario schema'') (\<lambda>_.
     and_then (scenario_string fs ''digest'') (\<lambda>supplied.
     and_then (scenario_string fs ''provider'') (\<lambda>p. and_then (provider_parse p) (\<lambda>provider.
     and_then (scenario_string fs ''runner_platform'') (\<lambda>r.
     and_then (ok_or (''unknown runner platform '' @ r) (platform_parse r)) (\<lambda>platform.
     and_then (scenario_string fs ''workflow_entrypoint'') (\<lambda>entrypoint.
     and_then (scenario_string fs ''job'') (\<lambda>job.
     and_then (scenario_string fs ''event'') (\<lambda>event.
     and_then (scenario_new H provider entrypoint job event platform) (\<lambda>s.
     and_then (parse_string_map fs ''inputs'') (\<lambda>inputs.
     and_then (parse_string_map fs ''variables'') (\<lambda>vars.
     and_then (parse_matrix fs) (\<lambda>matrix.
     and_then (parse_secret_names fs) (\<lambda>secrets.
     and_then (check (length (remdups_adj (sort secrets)) = length secrets) ''scenario secret_names must be unique'') (\<lambda>_.
       let s' = s\<lparr>sc_inputs := inputs, sc_variables := vars, sc_matrix := matrix, sc_secret_names := sort secrets\<rparr> in
     and_then (scenario_validate s') (\<lambda>_.
       let s'' = refresh_digest H s' in
       if sc_digest s'' \<noteq> supplied then Inl ''scenario digest mismatch'' else Inr s''))))))))))))))))))"

definition scenario_parse :: "(string \<Rightarrow> string) \<Rightarrow> string \<Rightarrow> (string + scenario) option" where
  "scenario_parse H source =
     map_option (\<lambda>r. case r of
         Inl e \<Rightarrow> Inl (json_error_display e)
       | Inr root \<Rightarrow> and_then (exact_object ''scenario-v1'' scenario_fields root) (scenario_of_fields H)) (json_parse source)"

section \<open>What holds of every scenario\<close>

definition scenario_ok :: "(string \<Rightarrow> string) \<Rightarrow> scenario \<Rightarrow> bool" where
  "scenario_ok H s \<longleftrightarrow> scenario_validate s = Inr () \<and> verify_digest H s
     \<and> bmap_ok (sc_inputs s) \<and> bmap_ok (sc_variables s) \<and> bmap_ok (sc_matrix s) \<and> list_all scalar_json (map snd (sc_matrix s))
     \<and> canonical (sc_secret_names s)"

text \<open>How a program builds a scenario.\<close>

inductive scenario_built :: "(string \<Rightarrow> string) \<Rightarrow> scenario \<Rightarrow> bool" for H :: "string \<Rightarrow> string" where
  new: "scenario_new H provider entrypoint job event platform = Inr s \<Longrightarrow> scenario_built H s"
| input: "scenario_built H s \<Longrightarrow> with_input H name v s = Inr s' \<Longrightarrow> scenario_built H s'"
| variable: "scenario_built H s \<Longrightarrow> with_variable H name v s = Inr s' \<Longrightarrow> scenario_built H s'"
| matrix: "scenario_built H s \<Longrightarrow> with_matrix H name j s = Inr s' \<Longrightarrow> scenario_built H s'"
| secret: "scenario_built H s \<Longrightarrow> with_secret H name s = Inr s' \<Longrightarrow> scenario_built H s'"

lemma refresh_simps [simp]:
  "sc_provider (refresh_digest H s) = sc_provider s" "sc_workflow_entrypoint (refresh_digest H s) = sc_workflow_entrypoint s"
  "sc_job (refresh_digest H s) = sc_job s" "sc_event (refresh_digest H s) = sc_event s" "sc_inputs (refresh_digest H s) = sc_inputs s"
  "sc_matrix (refresh_digest H s) = sc_matrix s" "sc_variables (refresh_digest H s) = sc_variables s"
  "sc_runner_platform (refresh_digest H s) = sc_runner_platform s" "sc_secret_names (refresh_digest H s) = sc_secret_names s"
  by (simp_all add: refresh_digest_def)

lemma unsigned_refresh [simp]: "unsigned_fields (refresh_digest H s) = unsigned_fields s"
  by (simp add: unsigned_fields_def)

lemma verify_refresh [simp]: "verify_digest H (refresh_digest H s)"
  by (simp add: verify_digest_def) (simp add: refresh_digest_def)

lemma validate_refresh [simp]: "scenario_validate (refresh_digest H s) = scenario_validate s"
  by (simp add: scenario_validate_def)

lemma insert_all: "list_all P (map fst m) \<Longrightarrow> P k \<Longrightarrow> list_all P (map fst (bmap_insert k v m))"
  by (induction m) auto

lemma insert_all_values: "list_all P (map snd m) \<Longrightarrow> P v \<Longrightarrow> list_all P (map snd (bmap_insert k v m))"
  by (induction m) auto

lemma list_all_sort_snoc: "list_all P (sort (xs @ [x])) \<longleftrightarrow> list_all P xs \<and> P x"
  by (auto simp: list_all_iff)

lemma scenario_built_ok: "scenario_built H s \<Longrightarrow> scenario_ok H s"
proof (induction rule: scenario_built.induct)
  case (new provider entrypoint job event platform s)
  then show ?case by (auto simp: scenario_new_def scenario_ok_def Let_def)
next
  case (input s name v s')
  then have "scenario_validate s' = Inr ()"
    by (auto simp: with_input_def scenario_ok_def scenario_validate_def bmap_keys_def insert_all split: if_splits sum.splits)
  with input show ?case by (auto simp: with_input_def scenario_ok_def bmap_ok_insert split: if_splits)
next
  case (variable s name v s')
  then have "scenario_validate s' = Inr ()"
    by (auto simp: with_variable_def scenario_ok_def scenario_validate_def bmap_keys_def insert_all split: if_splits sum.splits)
  with variable show ?case by (auto simp: with_variable_def scenario_ok_def bmap_ok_insert split: if_splits)
next
  case (matrix s name j s')
  then have "scenario_validate s' = Inr ()"
    by (auto simp: with_matrix_def scenario_ok_def scenario_validate_def bmap_keys_def insert_all split: if_splits sum.splits)
  with matrix show ?case by (auto simp: with_matrix_def scenario_ok_def bmap_ok_insert insert_all_values split: if_splits)
next
  case (secret s name s')
  then have "scenario_validate s' = Inr ()"
    by (auto simp: with_secret_def scenario_ok_def scenario_validate_def list_all_sort_snoc split: if_splits sum.splits)
  with secret show ?case
    by (auto simp: with_secret_def scenario_ok_def strict_sorted_iff split: if_splits)
qed

lemma find_all_None: "find P xs = None \<longleftrightarrow> (\<forall>x \<in> set xs. \<not> P x)"
  by (induction xs) auto

section \<open>A written scenario is read back\<close>

text \<open>Texts that Rust's \<^verbatim>\<open>String\<close> can hold.\<close>

definition scenario_text :: "scenario \<Rightarrow> bool" where
  "scenario_text s \<longleftrightarrow> list_all utf8_valid [sc_workflow_entrypoint s, sc_job s, sc_event s]
     \<and> list_all utf8_valid (map snd (sc_inputs s) @ map snd (sc_variables s)) \<and> list_all json_ok (map snd (sc_matrix s))"

lemma name_byte_ascii: "is_ascii_alphabetic b \<or> is_ascii_digit b \<or> b \<in> {CHR ''_'', CHR ''-'', CHR ''.''} \<Longrightarrow> byte_of b < 128"
  by (auto simp: is_ascii_alphabetic_def is_ascii_lower_def is_ascii_upper_def is_ascii_digit_def in_range_def)

lemma portable_text: "portable_name n \<Longrightarrow> utf8_valid n"
  by (rule utf8_valid_ascii) (auto simp: portable_name_def name_start_def list_all_iff split: list.splits
      intro: name_byte_ascii)

lemma secret_portable: "secret_name n \<Longrightarrow> portable_name n"
  by (auto simp: secret_name_def portable_name_def list_all_iff split: list.splits)

lemma string_map_ok:
  "bmap_ok m \<Longrightarrow> list_all portable_name (bmap_keys m) \<Longrightarrow> list_all utf8_valid (map snd m) \<Longrightarrow> json_ok (string_map m)"
  by (force simp: string_map_def bmap_ok_def comp_def case_prod_beta list_all_iff bmap_keys_def portable_text)

lemma matrix_ok:
  "bmap_ok m \<Longrightarrow> list_all portable_name (bmap_keys m) \<Longrightarrow> list_all json_ok (map snd m) \<Longrightarrow> json_ok (JObject m)"
  by (force simp: list_all_iff bmap_keys_def portable_text)

definition scenario_members :: "scenario \<Rightarrow> (string \<times> json) list" where
  "scenario_members s =
     [(''digest'', JString (sc_digest s)), (''event'', JString (sc_event s)), (''inputs'', string_map (sc_inputs s)),
      (''job'', JString (sc_job s)), (''matrix'', JObject (sc_matrix s)), (''provider'', JString (provider_name (sc_provider s))),
      (''runner_platform'', JString (platform_name (sc_runner_platform s))), (''schema'', JString ''scenario-v1''),
      (''secret_names'', JArray (map JString (sc_secret_names s))), (''variables'', string_map (sc_variables s)),
      (''workflow_entrypoint'', JString (sc_workflow_entrypoint s))]"

lemma scenario_members_eq: "bmap_insert ''digest'' (JString (sc_digest s)) (unsigned_fields s) = scenario_members s"
proof -
  have "unsigned_fields s = tl (scenario_members s)"
    unfolding unsigned_fields_def scenario_members_def
    by (subst bmap_from_ok) (simp_all add: bmap_ok_def less_char_def)
  then show ?thesis by (simp add: scenario_members_def less_char_def)
qed

lemma content_digest_utf8: "utf8_valid (content_digest H x)"
proof -
  have "list_all (\<lambda>b. is_ascii_digit b \<or> in_range (CHR ''a'') (CHR ''f'') b) (lowercase_hex (H x))"
    by (rule lowercase_hex_digits)
  then have "\<forall>c \<in> set (lowercase_hex (H x)). byte_of c < 128" by (auto simp: list_all_iff is_ascii_digit_def in_range_def)
  then have "utf8_valid (lowercase_hex (H x))" by (rule utf8_valid_ascii)
  then show ?thesis by (simp add: content_digest_def digest_display_def of_bytes_def)
qed

lemma scenario_members_ok:
  assumes "scenario_ok H s" "scenario_text s"
  shows "json_ok (JObject (scenario_members s))"
proof -
  have names: "list_all portable_name (bmap_keys (sc_inputs s))" "list_all portable_name (bmap_keys (sc_variables s))"
    "list_all portable_name (bmap_keys (sc_matrix s))" "list_all secret_name (sc_secret_names s)"
    using assms(1) by (auto simp: scenario_ok_def scenario_validate_def)
  have "json_ok (string_map (sc_inputs s))" "json_ok (string_map (sc_variables s))"
    using assms names by (auto simp: scenario_ok_def scenario_text_def intro: string_map_ok)
  moreover have "json_ok (JObject (sc_matrix s))"
    using assms names by (intro matrix_ok) (simp_all add: scenario_ok_def scenario_text_def)
  moreover have "utf8_valid (sc_digest s)"
    using assms(1) content_digest_utf8 by (simp add: scenario_ok_def verify_digest_def canonical_digest_def)
  moreover have "list_all json_ok (map JString (sc_secret_names s))"
    using names(4) by (auto simp: list_all_iff intro: portable_text secret_portable)
  moreover have "utf8_valid (platform_name p)" "utf8_valid (provider_name q)" for p q
    by (cases p; simp) (cases q; simp)
  ultimately show ?thesis
    using assms(2) by (simp add: scenario_members_def bmap_ok_def less_char_def scenario_text_def del: json_ok.simps(3))
      (simp add: bmap_ok_def less_char_def)
qed

lemma refresh_any_digest: "refresh_digest H (s\<lparr>sc_digest := d\<rparr>) = refresh_digest H s"
  by (simp add: refresh_digest_def unsigned_fields_def)

lemma verified_refresh: "verify_digest H s \<Longrightarrow> refresh_digest H s = s"
  by (simp add: verify_digest_def refresh_digest_def)

lemma validate_any_digest: "scenario_validate (s\<lparr>sc_digest := d\<rparr>) = scenario_validate s"
  by (simp add: scenario_validate_def)

lemma parse_string_map_back:
  "bmap_get fs name = Some (string_map m) \<Longrightarrow> parse_string_map fs name = Inr m"
  using traverse_map [of m "\<lambda>(key, v). map_sum id (Pair key) (ok_or (''scenario '' @ name @ ''.'' @ key @ '' must be a string'') (json_as_str v))"
      "\<lambda>(n, v). (n, JString v)" "\<lambda>x. x"]
  by (simp add: parse_string_map_def scenario_object_def string_map_def ok_or_def json_as_str_def case_prod_beta)

lemma scenario_reads_back:
  assumes "scenario_ok H s"
  shows "scenario_of_fields H (scenario_members s) = Inr s"
proof -
  let ?fs = "scenario_members s"
  have get: "bmap_get ?fs ''inputs'' = Some (string_map (sc_inputs s))" "bmap_get ?fs ''variables'' = Some (string_map (sc_variables s))"
    "bmap_get ?fs ''matrix'' = Some (JObject (sc_matrix s))" "bmap_get ?fs ''secret_names'' = Some (JArray (map JString (sc_secret_names s)))"
    by (simp_all add: scenario_members_def)
  have texts: "scenario_string ?fs ''schema'' = Inr ''scenario-v1''" "scenario_string ?fs ''digest'' = Inr (sc_digest s)"
    "scenario_string ?fs ''provider'' = Inr (provider_name (sc_provider s))"
    "scenario_string ?fs ''runner_platform'' = Inr (platform_name (sc_runner_platform s))"
    "scenario_string ?fs ''workflow_entrypoint'' = Inr (sc_workflow_entrypoint s)"
    "scenario_string ?fs ''job'' = Inr (sc_job s)" "scenario_string ?fs ''event'' = Inr (sc_event s)"
    by (simp_all add: scenario_string_def scenario_members_def json_as_str_def ok_or_def)
  have present: "find (\<lambda>name. bmap_get ?fs name = None) scenario_fields = None"
    by (simp add: scenario_fields_def scenario_members_def)
  have provider: "provider_parse (provider_name (sc_provider s)) = Inr (sc_provider s)"
    by (cases "sc_provider s") (simp_all add: provider_parse_def ok_or_def)
  have secrets: "parse_secret_names ?fs = Inr (sc_secret_names s)"
    using traverse_map [of "sc_secret_names s" "\<lambda>v. ok_or ''secret_names must contain strings'' (json_as_str v)" JString "\<lambda>x. x"]
    by (simp add: parse_secret_names_def get json_as_array_def ok_or_def json_as_str_def)
  have sorted: "sort (sc_secret_names s) = sc_secret_names s" "length (remdups_adj (sc_secret_names s)) = length (sc_secret_names s)"
    using assms by (simp_all add: scenario_ok_def strict_sorted_iff sorted_sort_id remdups_adj_distinct)
  have matrix: "parse_matrix ?fs = Inr (sc_matrix s)"
    using assms by (simp add: parse_matrix_def scenario_object_def get ok_or_def scenario_ok_def)
  have slashed: "normalize_slashes (sc_workflow_entrypoint s) = sc_workflow_entrypoint s"
  proof -
    have "CHR 0x5C \<notin> set (sc_workflow_entrypoint s)"
      using assms by (auto simp: scenario_ok_def scenario_validate_def public_path_new_def split: if_splits sum.splits)
    then show ?thesis unfolding normalize_slashes_def by (intro map_idI) auto
  qed
  let ?base = "s\<lparr>sc_digest := [], sc_inputs := [], sc_matrix := [], sc_variables := [], sc_secret_names := []\<rparr>"
  have new: "scenario_new H (sc_provider s) (sc_workflow_entrypoint s) (sc_job s) (sc_event s) (sc_runner_platform s)
      = Inr (refresh_digest H ?base)"
  proof -
    have "scenario_validate ?base = Inr ()"
      using assms by (auto simp: scenario_ok_def scenario_validate_def bmap_keys_def split: sum.splits)
    moreover have same: "\<lparr>sc_digest = [], sc_provider = sc_provider s, sc_workflow_entrypoint = sc_workflow_entrypoint s, sc_job = sc_job s,
        sc_event = sc_event s, sc_inputs = [], sc_matrix = [], sc_variables = [], sc_runner_platform = sc_runner_platform s,
        sc_secret_names = []\<rparr> = ?base" by (cases s) simp
    ultimately show ?thesis unfolding scenario_new_def slashed Let_def same by simp
  qed
  have rebuilt: "(refresh_digest H ?base)\<lparr>sc_inputs := sc_inputs s, sc_variables := sc_variables s, sc_matrix := sc_matrix s,
      sc_secret_names := sc_secret_names s\<rparr> = s\<lparr>sc_digest := sc_digest (refresh_digest H ?base)\<rparr>"
    by (cases s) (simp add: refresh_digest_def)
  show ?thesis
    using assms
    by (simp add: scenario_of_fields_def present texts provider ok_or_def new parse_string_map_back [OF get(1)]
        parse_string_map_back [OF get(2)] matrix secrets sorted check_def rebuilt refresh_any_digest verified_refresh validate_any_digest
        scenario_ok_def Let_def del: and_then_simps(3))
qed

text \<open>The document stays within the default budgets of the JSON parser.\<close>

definition scenario_fits :: "scenario \<Rightarrow> bool" where
  "scenario_fits s \<longleftrightarrow> length (scenario_to_canonical s) \<le> jl_max_bytes default_json_limits
     \<and> json_count (JObject (scenario_members s)) \<le> jl_max_values default_json_limits"

lemma scalar_depth: "list_all scalar_json (map snd m) \<Longrightarrow> json_depth (JObject m) \<le> 1"
proof (induction m)
  case (Cons x m)
  then show ?case by (cases x; cases "snd x") auto
qed simp

lemma scenario_depth:
  assumes "scenario_ok H s"
  shows "json_depth (JObject (scenario_members s)) \<le> 2"
proof -
  have map: "json_depth (string_map m) \<le> 1" for m by (induction m) (auto simp: string_map_def)
  have list: "json_depth (JArray (map JString xs)) \<le> 1" for xs by (induction xs) auto
  show ?thesis
    using map [of "sc_inputs s"] map [of "sc_variables s"] list [of "sc_secret_names s"] scalar_depth [of "sc_matrix s"] assms
    by (simp add: scenario_members_def scenario_ok_def)
qed

lemma scenario_document_reads_back:
  assumes "scenario_ok H s" "scenario_text s" "scenario_fits s"
  shows "scenario_parse H (scenario_to_canonical s) = Some (Inr s)"
proof -
  have doc: "scenario_to_canonical s = canonical_line (JObject (scenario_members s))"
    by (simp only: scenario_to_canonical_def scenario_members_eq)
  have "parse_with_limits (canonical_line (JObject (scenario_members s))) default_json_limits = Some (Inr (JObject (scenario_members s)))"
    by (rule json_line_reads_back [OF scenario_members_ok [OF assms(1,2)]])
      (use scenario_depth [OF assms(1)] assms(3) in \<open>simp_all only: doc scenario_fits_def, simp add: default_json_limits_def\<close>)
  moreover have "exact_object ''scenario-v1'' scenario_fields (JObject (scenario_members s)) = Inr (scenario_members s)"
  proof -
    have "find (\<lambda>k. k \<notin> set scenario_fields) (map fst (scenario_members s)) = None"
      by (simp add: scenario_members_def scenario_fields_def)
    then show ?thesis by (simp add: exact_object_def)
  qed
  ultimately show ?thesis
    by (simp add: scenario_parse_def json_parse_def doc scenario_reads_back [OF assms(1)] del: canonical_json.simps)
qed


definition sample_scenario :: "(string \<Rightarrow> string) \<Rightarrow> scenario" where
  "sample_scenario H = refresh_digest H
     \<lparr>sc_digest = [], sc_provider = PrGithub, sc_workflow_entrypoint = ''ci.yml'', sc_job = ''build'', sc_event = ''push'',
      sc_inputs = [(''x'', ''1'')], sc_matrix = [(''os'', JBoolean True)], sc_variables = [], sc_runner_platform = LinuxX86_64,
      sc_secret_names = [''TOKEN'']\<rparr>"

lemma portable_samples: "portable_name ''x''" "portable_name ''os''" "secret_name ''TOKEN''"
  by (simp_all add: portable_name_def secret_name_def name_start_def is_ascii_alphabetic_def is_ascii_lower_def is_ascii_upper_def
      in_range_def)

lemma sample_scenario_built: "scenario_built H (sample_scenario H)"
proof -
  define s0 where "s0 = \<lparr>sc_digest = [], sc_provider = PrGithub, sc_workflow_entrypoint = ''ci.yml'', sc_job = ''build'',
      sc_event = ''push'', sc_inputs = [], sc_matrix = [], sc_variables = [], sc_runner_platform = LinuxX86_64, sc_secret_names = []\<rparr>"
  have named: "str_trim ''build'' \<noteq> []" "str_trim ''push'' \<noteq> []"
    by (simp_all add: str_trim_def utf8_width_def graphic_not_white)
  have "public_path_new ''ci.yml'' = Inr ''ci.yml''"
    by (simp add: public_path_new_def str_starts_with_def drive_prefixed_def)
  then have valid: "scenario_validate s0 = Inr ()"
    by (simp add: s0_def scenario_validate_def named bmap_keys_def)
  have "normalize_slashes ''ci.yml'' = ''ci.yml''" by (simp add: normalize_slashes_def)
  with valid have new: "scenario_new H PrGithub ''ci.yml'' ''build'' ''push'' LinuxX86_64 = Inr (refresh_digest H s0)"
    by (simp add: scenario_new_def s0_def)
  have i: "with_input H ''x'' ''1'' (refresh_digest H s0) = Inr (refresh_digest H (s0\<lparr>sc_inputs := [(''x'', ''1'')]\<rparr>))"
    by (simp add: with_input_def portable_samples s0_def refresh_digest_def unsigned_fields_def)
  have m: "with_matrix H ''os'' (JBoolean True) (refresh_digest H (s0\<lparr>sc_inputs := [(''x'', ''1'')]\<rparr>))
      = Inr (refresh_digest H (s0\<lparr>sc_inputs := [(''x'', ''1'')], sc_matrix := [(''os'', JBoolean True)]\<rparr>))"
    by (simp add: with_matrix_def portable_samples s0_def refresh_digest_def unsigned_fields_def)
  have t: "with_secret H ''TOKEN'' (refresh_digest H (s0\<lparr>sc_inputs := [(''x'', ''1'')], sc_matrix := [(''os'', JBoolean True)]\<rparr>))
      = Inr (sample_scenario H)"
    by (simp add: with_secret_def portable_samples s0_def refresh_digest_def unsigned_fields_def sample_scenario_def)
  show ?thesis
    by (rule scenario_built.secret [OF scenario_built.matrix [OF scenario_built.input [OF scenario_built.new [OF new] i] m] t])
qed

lemma plain_escape:
  assumes "32 \<le> byte_of c" "byte_of c \<noteq> 34" "byte_of c \<noteq> 92"
  shows "escape_byte c = [c]"
proof -
  have "list_all (\<lambda>(k, e). byte_of k < 32 \<or> byte_of k = 34 \<or> byte_of k = 92) short_escapes" by (simp add: short_escapes_def)
  then have "map_of short_escapes c \<noteq> Some e" for e
    using assms map_of_SomeD [of short_escapes c e] unfolding list_all_iff by fastforce
  then have "map_of short_escapes c = None" by (cases "map_of short_escapes c") auto
  with assms show ?thesis by (simp add: escape_byte_def)
qed


end
