(* ===== verification/Plan_Builder.thy ===== *)
theory Plan_Builder
  imports Scenario Evidence
begin

text \<open>
  Building a runner plan (\<^verbatim>\<open>src/sandbox/runner_plan.rs\<close>): the host checks a request, derives the runtime identity and
  the reasons for incompleteness, writes the canonical document under its digest and hands it to the
  helper's own validation. The host hashes with the sha2 crate (parameter \<open>H\<close>), the helper with its own
  SHA-256.
\<close>

section \<open>Requests\<close>

datatype backend = Oci string | LinuxNative | WindowsNative | MacosVm

fun backend_name :: "backend \<Rightarrow> string" where
  "backend_name (Oci engine) = ''oci:'' @ engine"
| "backend_name LinuxNative = ''linux-native''"
| "backend_name WindowsNative = ''windows-native''"
| "backend_name MacosVm = ''macos-vm''"

fun runtime_kind :: "backend \<Rightarrow> string" where
  "runtime_kind (Oci engine) = ''oci-capsule''"
| "runtime_kind LinuxNative = ''linux-capsule''"
| "runtime_kind WindowsNative = ''windows-runtime-profile''"
| "runtime_kind MacosVm = ''macos-vm''"

fun compatible_os :: "backend \<Rightarrow> string" where
  "compatible_os (Oci engine) = ''linux''"
| "compatible_os LinuxNative = ''linux''"
| "compatible_os WindowsNative = ''windows''"
| "compatible_os MacosVm = ''macos''"

record plan_request =
  rq_backend :: backend
  rq_scenario :: scenario
  rq_provider_profile :: string
  rq_selected_jobs :: "string list"
  rq_source_digest :: string
  rq_lock_digest :: string
  rq_controls :: "control list"
  rq_network_destinations :: "string list"
  rq_dependencies :: "plan_dependency list"
  rq_steps :: "run_step list"
  rq_incomplete_reasons :: "string list"
  rq_helper_digest :: "string option"
  rq_boot_digest :: "string option"
  rq_capability_fingerprint :: "string option"

definition unique :: "'a::linorder list \<Rightarrow> string \<Rightarrow> string + unit" where
  "unique xs context' = check (length (bset xs) = length xs) (context' @ '' must be unique'')"

definition ascii_whitespace :: "char \<Rightarrow> bool" where
  "ascii_whitespace b \<longleftrightarrow> byte_of b \<in> {9, 10, 12, 13, 32}"

definition ascii_control :: "char \<Rightarrow> bool" where
  "ascii_control b \<longleftrightarrow> byte_of b < 32 \<or> byte_of b = 127"

definition valid_destination :: "string \<Rightarrow> bool" where
  "valid_destination value' = (case strip_prefix ''https://'' value' of
       None \<Rightarrow> False
     | Some rest \<Rightarrow> hd (split_on (CHR ''/'') rest) \<noteq> []
         \<and> list_all (\<lambda>c. c \<notin> {CHR ''@'', CHR 0x5C, CHR ''?'', CHR ''#'', CHR ''%'', CHR 0x00, CHR 0x0D, CHR 0x0A}) value'
         \<and> list_all (\<lambda>b. \<not> (ascii_whitespace b \<or> ascii_control b)) value' \<and> \<not> str_contains value' ''..'')"

text \<open>The loop over the dependencies; \<open>seen\<close> are the references inserted so far.\<close>

fun check_dependencies :: "string list \<Rightarrow> plan_dependency list \<Rightarrow> string + unit" where
  "check_dependencies seen [] = Inr ()"
| "check_dependencies seen (d # ds) =
     (if str_trim (dp_reference d) = [] \<or> dp_reference d \<in> set seen then Inl ''dependency references must be non-empty and unique''
      else if \<not> pred_option valid_content_digest (dp_digest d) then Inl (''dependency '' @ dp_reference d @ '' has an invalid digest'')
      else check_dependencies (dp_reference d # seen) ds)"

definition confined_directory :: "string \<Rightarrow> bool" where
  "confined_directory directory \<longleftrightarrow> directory = ''/workspace'' \<or> str_starts_with directory ''/workspace/''"

definition environment_name :: "string \<Rightarrow> bool" where
  "environment_name value' = (case value' of
       [] \<Rightarrow> False
     | b # bytes \<Rightarrow> (is_ascii_alphabetic b \<or> b = CHR ''_'')
         \<and> list_all (\<lambda>b. is_ascii_alphabetic b \<or> is_ascii_digit b \<or> b = CHR ''_'') bytes)"

fun check_steps :: "string list \<Rightarrow> run_step list \<Rightarrow> string + unit" where
  "check_steps seen [] = Inr ()"
| "check_steps seen (s # ss) =
     (if rs_id s = [] \<or> rs_argv s = [] \<or> \<not> confined_directory (rs_working_directory s) \<or> rs_id s \<in> set seen
      then Inl ''steps need unique IDs, argv, and a confined working directory''
      else if list_ex (\<lambda>name. \<not> environment_name name) (bmap_keys (rs_environment s))
      then Inl ''step environment names must be portable identifiers''
      else check_steps (rs_id s # seen) ss)"

definition engine_name_ok :: "backend \<Rightarrow> bool" where
  "engine_name_ok b = (case b of Oci engine \<Rightarrow> engine \<noteq> [] \<and> list_all engine_byte engine | _ \<Rightarrow> True)"

definition validate_request :: "(string \<Rightarrow> string) \<Rightarrow> plan_request \<Rightarrow> string + unit" where
  "validate_request H r =
     (let denied = CtNetworkDeny \<in> set (rq_controls r) in
     and_then (check (engine_name_ok (rq_backend r)) ''OCI backend name is invalid'') (\<lambda>_.
     and_then (check (compatible_os (rq_backend r) = platform_os (sc_runner_platform (rq_scenario r)))
       ''runner platform contradicts the selected backend'') (\<lambda>_.
     and_then (check (verify_digest H (rq_scenario r) \<and> valid_content_digest (rq_source_digest r) \<and> valid_content_digest (rq_lock_digest r))
       ''runner-v2 scenario/source/lock digests must be SHA-256'') (\<lambda>_.
     and_then (check (\<not> (str_trim (rq_provider_profile r) = [] \<or> rq_selected_jobs r = []
       \<or> list_ex (\<lambda>job. str_trim job = []) (rq_selected_jobs r))) ''runner-v2 requires a provider profile and selected job'') (\<lambda>_.
     and_then (unique (rq_selected_jobs r) ''selected jobs'') (\<lambda>_.
     and_then (unique (rq_controls r) ''controls'') (\<lambda>_.
     and_then (unique (rq_network_destinations r) ''network destinations'') (\<lambda>_.
     and_then (check (\<not> (denied \<and> rq_network_destinations r \<noteq> [])) ''network-deny plans cannot contain destination grants'') (\<lambda>_.
     and_then (check (\<not> (\<not> denied \<and> rq_network_destinations r = [])) ''network-enabled plans require at least one destination policy'') (\<lambda>_.
     and_then (check (\<not> list_ex (\<lambda>d. \<not> valid_destination d) (rq_network_destinations r))
       ''network destinations must be normalized HTTPS policies'') (\<lambda>_.
     and_then (check_dependencies [] (rq_dependencies r)) (\<lambda>_.
     and_then (check_steps [] (rq_steps r)) (\<lambda>_.
       check (list_all valid_content_digest (List.map_filter id [rq_helper_digest r, rq_boot_digest r, rq_capability_fingerprint r]))
         ''runtime identities must be SHA-256 content digests'')))))))))))))"

section \<open>Building\<close>

text \<open>
  \<^verbatim>\<open>resolved_digest\<close> of the host is \<open>resolved_content_digest\<close> of the helper written again over \<^verbatim>\<open>valid_content_digest\<close>
  of \<^verbatim>\<open>foundation\<close>.
\<close>

definition resolved_digest :: "string \<Rightarrow> bool" where
  "resolved_digest value' \<longleftrightarrow> valid_content_digest value' \<and> value' \<noteq> unresolved_content_digest"

definition mask_secrets :: "string list \<Rightarrow> (string, string) bmap \<Rightarrow> (string, string) bmap" where
  "mask_secrets secrets env = map (\<lambda>(name, v). (name, if name \<in> set secrets then ''${SECRET:'' @ name @ ''}'' else v)) env"

definition normal_step :: "string list \<Rightarrow> run_step \<Rightarrow> run_step" where
  "normal_step secrets s = s\<lparr>rs_image := (if resolved_digest (rs_image s) then rs_image s else unresolved_content_digest),
     rs_environment := mask_secrets secrets (rs_environment s)\<rparr>"

definition workload_of :: "run_step list \<Rightarrow> string" where
  "workload_of steps = (case remdups_adj (sort (map rs_image steps)) of [img] \<Rightarrow> img | _ \<Rightarrow> unresolved_content_digest)"

definition native_backend :: "backend \<Rightarrow> bool" where
  "native_backend b \<longleftrightarrow> b \<in> {LinuxNative, WindowsNative, MacosVm}"

definition resolved_option :: "string option \<Rightarrow> bool" where
  "resolved_option d = (case d of None \<Rightarrow> False | Some digest \<Rightarrow> resolved_digest digest)"

text \<open>\<open>ds\<close> and \<open>steps\<close> are the sorted dependencies and the normalised steps.\<close>

definition incomplete_reasons :: "plan_request \<Rightarrow> plan_dependency list \<Rightarrow> run_step list \<Rightarrow> string list" where
  "incomplete_reasons r ds steps =
     rq_incomplete_reasons r
     @ map (\<lambda>d. ''Incomplete.Unresolved_dependency: '' @ dp_reference d)
         (filter (\<lambda>d. \<not> (dp_available d \<and> resolved_option (dp_digest d))) ds)
     @ map (\<lambda>s. ''Incomplete.Unsupported_step: '' @ rs_id s) (filter (\<lambda>s. \<not> rs_supported s) steps)
     @ map (\<lambda>s. ''Incomplete.Unresolved_capsule: '' @ rs_id s) (filter (\<lambda>s. \<not> resolved_digest (rs_image s)) steps)
     @ (if \<not> resolved_digest (workload_of steps) then [''Incomplete.Unresolved_runtime_workload''] else [])
     @ (if native_backend (rq_backend r) \<and> \<not> resolved_option (rq_helper_digest r) then [''Incomplete.Unresolved_runtime_helper''] else [])
     @ (if rq_backend r = MacosVm \<and> \<not> resolved_option (rq_boot_digest r) then [''Incomplete.Unresolved_macos_boot_bundle''] else [])"

definition label_reason :: "string \<Rightarrow> string" where
  "label_reason reason = (if str_starts_with reason ''Incomplete.'' then reason else ''Incomplete.Planner: '' @ reason)"

definition status_json :: "string list \<Rightarrow> json" where
  "status_json reasons =
     (if reasons = [] then runner_object [(''state'', JString ''complete'')]
      else runner_object [(''reasons'', JArray (map JString reasons)), (''state'', JString ''incomplete'')])"

definition plan_limits_json :: json where
  "plan_limits_json = runner_object
     [(''cpu_cores'', json_count_of runner_cpu_cores), (''memory_bytes'', json_count_of runner_memory_bytes),
      (''output_bytes'', json_count_of runner_output_bytes), (''processes'', json_count_of runner_processes),
      (''scratch_bytes'', json_count_of runner_scratch_bytes), (''scratch_entries'', json_count_of runner_scratch_entries),
      (''wall_time_seconds'', json_count_of runner_wall_time_seconds)]"

definition plan_runtime_json :: "plan_request \<Rightarrow> string \<Rightarrow> json" where
  "plan_runtime_json r workload = runner_object
     [(''boot_digest'', nullable (rq_boot_digest r)), (''capability_fingerprint'', nullable (rq_capability_fingerprint r)),
      (''helper_digest'', nullable (rq_helper_digest r)), (''kind'', JString (runtime_kind (rq_backend r))),
      (''rootfs_digest'', if rq_backend r = WindowsNative then JNull else JString workload),
      (''runner_platform'', JString (platform_name (sc_runner_platform (rq_scenario r)))), (''workload_digest'', JString workload)]"

definition dependency_json :: "plan_dependency \<Rightarrow> json" where
  "dependency_json d = runner_object
     [(''available'', JBoolean (dp_available d)), (''digest'', nullable (dp_digest d)), (''reference'', JString (dp_reference d))]"

definition step_json :: "run_step \<Rightarrow> json" where
  "step_json s = runner_object
     [(''argv'', json_strings (rs_argv s)), (''environment'', string_map (rs_environment s)), (''id'', JString (rs_id s)),
      (''image'', JString (rs_image s)), (''supported'', JBoolean (rs_supported s)),
      (''working_directory'', JString (rs_working_directory s))]"

definition plan_deps :: "plan_request \<Rightarrow> plan_dependency list" where
  "plan_deps r = sort_key dp_reference (rq_dependencies r)"

definition plan_steps :: "plan_request \<Rightarrow> run_step list" where
  "plan_steps r = map (normal_step (sc_secret_names (rq_scenario r))) (rq_steps r)"

definition plan_reasons :: "plan_request \<Rightarrow> string list" where
  "plan_reasons r = map label_reason (remdups_adj (sort (incomplete_reasons r (plan_deps r) (plan_steps r))))"

definition network_json :: "plan_request \<Rightarrow> json" where
  "network_json r = runner_object
     [(''destinations'', json_strings (sort (rq_network_destinations r))),
      (''mode'', JString (if CtNetworkDeny \<in> set (rq_controls r) then ''deny'' else ''allowlist''))]"

definition plan_unsigned :: "plan_request \<Rightarrow> (string \<times> json) list" where
  "plan_unsigned r = bmap_from
     [(''backend'', JString (backend_name (rq_backend r))),
      (''controls'', JArray (map (\<lambda>c. JString (control_name c)) (sort (rq_controls r)))),
      (''dependencies'', JArray (map dependency_json (plan_deps r))), (''limits'', plan_limits_json),
      (''lock_digest'', JString (rq_lock_digest r)), (''network'', network_json r),
      (''provider_profile'', JString (rq_provider_profile r)), (''runtime'', plan_runtime_json r (workload_of (plan_steps r))),
      (''scenario_digest'', JString (sc_digest (rq_scenario r))), (''schema'', JString ''runner-v2''),
      (''secret_names'', json_strings (sc_secret_names (rq_scenario r))), (''selected_jobs'', json_strings (sort (rq_selected_jobs r))),
      (''source_digest'', JString (rq_source_digest r)), (''status'', status_json (plan_reasons r)),
      (''steps'', JArray (map step_json (plan_steps r)))]"

record runner_plan =
  rp_canonical :: string
  rp_validated :: validated_plan

definition plan_text :: "(string \<Rightarrow> string) \<Rightarrow> plan_request \<Rightarrow> string" where
  "plan_text H r = canonical_line (JObject (bmap_insert ''digest''
     (JString (canonical_digest H (JObject (plan_unsigned r)))) (plan_unsigned r)))"

definition plan_build :: "(string \<Rightarrow> string) \<Rightarrow> plan_request \<Rightarrow> (string + runner_plan) option" where
  "plan_build H r = (case validate_request H r of
       Inl e \<Rightarrow> Some (Inl e)
     | Inr _ \<Rightarrow> map_option (map_sum id (\<lambda>plan. \<lparr>rp_canonical = plan_text H r, rp_validated = plan\<rparr>)) (validate_plan (plan_text H r)))"

section \<open>The plan a request stands for\<close>

definition built_plan :: "(string \<Rightarrow> string) \<Rightarrow> plan_request \<Rightarrow> validated_plan" where
  "built_plan H r =
     \<lparr>pl_digest = canonical_digest H (JObject (plan_unsigned r)), pl_backend = backend_name (rq_backend r),
      pl_scenario_digest = sc_digest (rq_scenario r), pl_provider_profile = rq_provider_profile r,
      pl_selected_jobs = sort (rq_selected_jobs r), pl_controls = sort (rq_controls r),
      pl_status = (if plan_reasons r = [] then StatusComplete else StatusIncomplete (plan_reasons r)),
      pl_source_digest = rq_source_digest r, pl_lock_digest = rq_lock_digest r,
      pl_runtime = \<lparr>rt_kind = runtime_kind (rq_backend r), rt_runner_platform = platform_name (sc_runner_platform (rq_scenario r)),
        rt_workload_digest = workload_of (plan_steps r),
        rt_rootfs_digest = (if rq_backend r = WindowsNative then None else Some (workload_of (plan_steps r))),
        rt_helper_digest = rq_helper_digest r, rt_boot_digest = rq_boot_digest r,
        rt_capability_fingerprint = rq_capability_fingerprint r\<rparr>,
      pl_limits = portable_limits, pl_network_destinations = sort (rq_network_destinations r),
      pl_secret_names = sc_secret_names (rq_scenario r), pl_dependencies = plan_deps r, pl_steps = plan_steps r\<rparr>"

text \<open>Texts that Rust's \<^verbatim>\<open>String\<close> and \<^verbatim>\<open>BTreeMap\<close> can hold.\<close>

definition step_text :: "run_step \<Rightarrow> bool" where
  "step_text s \<longleftrightarrow> list_all utf8_valid (rs_id s # rs_working_directory s # rs_argv s)
     \<and> bmap_ok (rs_environment s) \<and> list_all utf8_valid (map snd (rs_environment s))"

definition request_text :: "plan_request \<Rightarrow> bool" where
  "request_text r \<longleftrightarrow> list_all utf8_valid (rq_provider_profile r # rq_selected_jobs r @ rq_network_destinations r
       @ map dp_reference (rq_dependencies r) @ rq_incomplete_reasons r @ sc_secret_names (rq_scenario r))
     \<and> list_all step_text (rq_steps r)"

lemma valid_content_digest_eq: "valid_content_digest = runner_content_digest"
  by (auto simp: fun_eq_iff valid_content_digest_def runner_content_digest_def exact_lower_hex_def list_all_iff split: option.splits)

lemma resolved_digest_eq: "resolved_digest = resolved_content_digest"
  by (simp add: fun_eq_iff resolved_digest_def resolved_content_digest_def valid_content_digest_eq)

lemma workload_of_eq: "workload_of = expected_workload"
  by (simp add: fun_eq_iff workload_of_def expected_workload_def)

lemma environment_name_eq: "environment_name = secret_name"
  by (auto simp: fun_eq_iff environment_name_def secret_name_def name_start_def split: list.split)

lemma plan_unsigned_members:
  "plan_unsigned r =
     [(''backend'', JString (backend_name (rq_backend r))),
      (''controls'', JArray (map (\<lambda>c. JString (control_name c)) (sort (rq_controls r)))),
      (''dependencies'', JArray (map dependency_json (plan_deps r))), (''limits'', plan_limits_json),
      (''lock_digest'', JString (rq_lock_digest r)), (''network'', network_json r),
      (''provider_profile'', JString (rq_provider_profile r)), (''runtime'', plan_runtime_json r (workload_of (plan_steps r))),
      (''scenario_digest'', JString (sc_digest (rq_scenario r))), (''schema'', JString ''runner-v2''),
      (''secret_names'', json_strings (sc_secret_names (rq_scenario r))), (''selected_jobs'', json_strings (sort (rq_selected_jobs r))),
      (''source_digest'', JString (rq_source_digest r)), (''status'', status_json (plan_reasons r)),
      (''steps'', JArray (map step_json (plan_steps r)))]"
  unfolding plan_unsigned_def by (rule bmap_from_ok) (simp add: bmap_ok_def less_char_def)

lemma plan_objects:
  "plan_limits_json = JObject
     [(''cpu_cores'', json_count_of runner_cpu_cores), (''memory_bytes'', json_count_of runner_memory_bytes),
      (''output_bytes'', json_count_of runner_output_bytes), (''processes'', json_count_of runner_processes),
      (''scratch_bytes'', json_count_of runner_scratch_bytes), (''scratch_entries'', json_count_of runner_scratch_entries),
      (''wall_time_seconds'', json_count_of runner_wall_time_seconds)]"
  "plan_runtime_json r w = JObject
     [(''boot_digest'', nullable (rq_boot_digest r)), (''capability_fingerprint'', nullable (rq_capability_fingerprint r)),
      (''helper_digest'', nullable (rq_helper_digest r)), (''kind'', JString (runtime_kind (rq_backend r))),
      (''rootfs_digest'', if rq_backend r = WindowsNative then JNull else JString w),
      (''runner_platform'', JString (platform_name (sc_runner_platform (rq_scenario r)))), (''workload_digest'', JString w)]"
  "dependency_json d = JObject
     [(''available'', JBoolean (dp_available d)), (''digest'', nullable (dp_digest d)), (''reference'', JString (dp_reference d))]"
  "step_json s = JObject
     [(''argv'', json_strings (rs_argv s)), (''environment'', string_map (rs_environment s)), (''id'', JString (rs_id s)),
      (''image'', JString (rs_image s)), (''supported'', JBoolean (rs_supported s)),
      (''working_directory'', JString (rs_working_directory s))]"
  "network_json r = JObject [(''destinations'', json_strings (sort (rq_network_destinations r))),
      (''mode'', JString (if CtNetworkDeny \<in> set (rq_controls r) then ''deny'' else ''allowlist''))]"
  "status_json reasons = JObject (if reasons = [] then [(''state'', JString ''complete'')]
      else [(''reasons'', JArray (map JString reasons)), (''state'', JString ''incomplete'')])"
  by (auto simp: plan_limits_json_def plan_runtime_json_def dependency_json_def step_json_def network_json_def status_json_def
      bmap_ok_def less_char_def intro!: object_sorted)

section \<open>What a checked request satisfies\<close>

lemma check_dependencies_digests:
  "check_dependencies seen ds = Inr () \<Longrightarrow> d \<in> set ds \<Longrightarrow> pred_option runner_content_digest (dp_digest d)"
  by (induction seen ds rule: check_dependencies.induct) (auto simp: valid_content_digest_eq split: if_splits)

lemma check_steps_each:
  "check_steps seen ss = Inr () \<Longrightarrow> s \<in> set ss \<Longrightarrow> rs_argv s \<noteq> [] \<and> list_all secret_name (bmap_keys (rs_environment s))"
  by (induction seen ss rule: check_steps.induct) (auto simp: environment_name_eq list_all_iff list_ex_iff split: if_splits)

lemma unique_Inr: "unique xs c = Inr () \<longleftrightarrow> distinct xs"
  by (simp add: unique_def length_bset) (metis card_distinct distinct_card)

lemma request_parts:
  assumes "validate_request H r = Inr ()"
  shows "engine_name_ok (rq_backend r)" "compatible_os (rq_backend r) = platform_os (sc_runner_platform (rq_scenario r))"
    "verify_digest H (rq_scenario r)" "runner_content_digest (rq_source_digest r)" "runner_content_digest (rq_lock_digest r)"
    "str_trim (rq_provider_profile r) \<noteq> []" "rq_selected_jobs r \<noteq> []" "distinct (rq_controls r)"
    "CtNetworkDeny \<in> set (rq_controls r) \<longleftrightarrow> rq_network_destinations r = []"
    "\<And>d. d \<in> set (rq_network_destinations r) \<Longrightarrow> valid_destination d"
    "\<And>d. d \<in> set (rq_dependencies r) \<Longrightarrow> pred_option runner_content_digest (dp_digest d)"
    "\<And>s. s \<in> set (rq_steps r) \<Longrightarrow> rs_argv s \<noteq> [] \<and> list_all secret_name (bmap_keys (rs_environment s))"
    "pred_option runner_content_digest (rq_helper_digest r)" "pred_option runner_content_digest (rq_boot_digest r)"
    "pred_option runner_content_digest (rq_capability_fingerprint r)"
proof -
  note ok = assms [unfolded validate_request_def Let_def, simplified, unfolded valid_content_digest_eq]
  show "engine_name_ok (rq_backend r)" "compatible_os (rq_backend r) = platform_os (sc_runner_platform (rq_scenario r))"
    "verify_digest H (rq_scenario r)" "runner_content_digest (rq_source_digest r)" "runner_content_digest (rq_lock_digest r)"
    "str_trim (rq_provider_profile r) \<noteq> []" "rq_selected_jobs r \<noteq> []" "distinct (rq_controls r)"
    "CtNetworkDeny \<in> set (rq_controls r) \<longleftrightarrow> rq_network_destinations r = []"
    using ok by (auto simp: unique_Inr)
  show "\<And>d. d \<in> set (rq_network_destinations r) \<Longrightarrow> valid_destination d" using ok by (auto simp: list_ex_iff)
  show "\<And>d. d \<in> set (rq_dependencies r) \<Longrightarrow> pred_option runner_content_digest (dp_digest d)"
    using ok check_dependencies_digests by blast
  show "\<And>s. s \<in> set (rq_steps r) \<Longrightarrow> rs_argv s \<noteq> [] \<and> list_all secret_name (bmap_keys (rs_environment s))"
    using ok check_steps_each by blast
  have "list_all runner_content_digest (List.map_filter id [rq_helper_digest r, rq_boot_digest r, rq_capability_fingerprint r])"
    using ok by simp
  then show "pred_option runner_content_digest (rq_helper_digest r)" "pred_option runner_content_digest (rq_boot_digest r)"
    "pred_option runner_content_digest (rq_capability_fingerprint r)"
    by (cases "rq_helper_digest r"; cases "rq_boot_digest r"; cases "rq_capability_fingerprint r"; simp add: List.map_filter_def)+
qed

lemma destination_plain: "valid_destination d \<Longrightarrow> plain_destination d"
  by (auto simp: valid_destination_def plain_destination_def str_starts_with_def strip_prefix_Some list_all_iff split: option.splits)

lemma digest_option_text: "pred_option runner_content_digest d \<Longrightarrow> pred_option utf8_valid d"
  by (cases d) (simp_all add: content_digest_text)

lemma unresolved_text: "utf8_valid unresolved_content_digest"
  unfolding unresolved_content_digest_def by (rule utf8_valid_ascii) auto

lemma backend_text: "engine_name_ok b \<Longrightarrow> utf8_valid (backend_name b)"
proof (cases b)
  case (Oci engine)
  assume "engine_name_ok b"
  then have "\<forall>c \<in> set engine. byte_of c < 128"
    by (auto simp: Oci engine_name_ok_def list_all_iff engine_byte_def intro: name_byte_ascii)
  then show ?thesis by (simp add: Oci utf8_valid_ascii)
qed simp_all

lemma dependency_json_ok: "utf8_valid (dp_reference d) \<Longrightarrow> pred_option utf8_valid (dp_digest d) \<Longrightarrow> json_ok (dependency_json d)"
  unfolding plan_objects by (simp add: bmap_ok_def less_char_def)

lemma image_text: "utf8_valid (rs_image (normal_step secrets s))"
  by (simp add: normal_step_def resolved_digest_eq resolved_content_digest_def content_digest_text unresolved_text)

lemma mask_ok:
  assumes "bmap_ok env" "list_all secret_name (bmap_keys env)" "list_all utf8_valid (map snd env)"
  shows "bmap_ok (mask_secrets secrets env)" "list_all portable_name (bmap_keys (mask_secrets secrets env))"
    "list_all utf8_valid (map snd (mask_secrets secrets env))"
proof -
  have keys: "map fst (mask_secrets secrets env) = map fst env" by (simp add: mask_secrets_def case_prod_beta comp_def)
  then show "bmap_ok (mask_secrets secrets env)" "list_all portable_name (bmap_keys (mask_secrets secrets env))"
    using assms(1,2) by (auto simp: bmap_ok_def bmap_keys_def list_all_iff intro: secret_portable)
  show "list_all utf8_valid (map snd (mask_secrets secrets env))"
    using assms(2,3) by (auto simp: mask_secrets_def list_all_iff bmap_keys_def dest!: bspec simp: portable_text secret_portable utf8_valid_append)
qed

lemma step_json_ok:
  assumes "step_text s" "list_all secret_name (bmap_keys (rs_environment s))"
  shows "json_ok (step_json (normal_step secrets s))"
proof -
  have "json_ok (string_map (rs_environment (normal_step secrets s)))"
    using assms mask_ok [of "rs_environment s" secrets] by (intro string_map_ok) (simp_all add: normal_step_def step_text_def)
  then show ?thesis
    using assms(1) image_text [of secrets s] unfolding plan_objects
    by (simp add: bmap_ok_def less_char_def step_text_def) (simp add: normal_step_def)
qed

lemma reasons_text:
  assumes "request_text r" "reason \<in> set (plan_reasons r)"
  shows "utf8_valid reason"
proof -
  have "utf8_valid x" if "x \<in> set (incomplete_reasons r (plan_deps r) (plan_steps r))" for x
    using that assms(1)
    by (auto simp: incomplete_reasons_def request_text_def plan_deps_def plan_steps_def list_all_iff normal_step_def step_text_def
        split: if_splits)
  then show ?thesis using assms(2) by (auto simp: plan_reasons_def label_reason_def)
qed

section \<open>The document of a request\<close>

lemma workload_text: "request_text r \<Longrightarrow> utf8_valid (workload_of (plan_steps r))"
proof -
  have "utf8_valid img" if img: "remdups_adj (sort (map rs_image (plan_steps r))) = [img]" for img
  proof -
    have "set (map rs_image (plan_steps r)) = {img}" using arg_cong [OF img, of set] by simp
    then obtain s where "s \<in> set (plan_steps r)" "rs_image s = img" by (metis imageE insertI1 list.set_map)
    then show ?thesis using image_text by (auto simp: plan_steps_def)
  qed
  then show "utf8_valid (workload_of (plan_steps r))" by (auto simp: workload_of_def unresolved_text split: list.split)
qed

lemma platform_text: "utf8_valid (platform_name p)" "utf8_valid (control_name c)" "utf8_valid (runtime_kind b)"
proof -
  show "utf8_valid (platform_name p)" by (cases p) simp_all
  show "utf8_valid (control_name c)" by (cases c) simp_all
  show "utf8_valid (runtime_kind b)" by (cases b) simp_all
qed

lemma plan_unsigned_ok:
  assumes "validate_request H r = Inr ()" "request_text r"
  shows "json_ok (JObject (plan_unsigned r))"
proof -
  note parts = request_parts [OF assms(1)]
  have texts: "utf8_valid (rq_provider_profile r)" "list_all utf8_valid (sort (rq_selected_jobs r))"
    "list_all utf8_valid (sort (rq_network_destinations r))" "list_all utf8_valid (sc_secret_names (rq_scenario r))"
    using assms(2) by (auto simp: request_text_def list_all_iff)
  have "list_all json_ok (map dependency_json (plan_deps r))"
    using assms(2) parts(11) digest_option_text
    by (auto simp: list_all_iff request_text_def plan_deps_def intro!: dependency_json_ok)
  moreover have "list_all json_ok (map step_json (plan_steps r))"
    using assms(2) parts(12) by (auto simp: list_all_iff request_text_def plan_steps_def intro!: step_json_ok)
  moreover have "json_ok (status_json (plan_reasons r))"
    using reasons_text [OF assms(2)] unfolding plan_objects by (simp add: bmap_ok_def less_char_def list_all_iff)
  moreover have "json_ok (plan_runtime_json r (workload_of (plan_steps r)))"
    using workload_text [OF assms(2)] digest_option_text [OF parts(13)] digest_option_text [OF parts(14)] digest_option_text [OF parts(15)]
      platform_text unfolding plan_objects by (simp add: bmap_ok_def less_char_def)
  moreover have "json_ok (network_json r)"
    using texts(3) unfolding plan_objects by (simp add: bmap_ok_def less_char_def)
  moreover have "json_ok plan_limits_json" unfolding plan_objects by (simp add: bmap_ok_def less_char_def)
  moreover have "utf8_valid (sc_digest (rq_scenario r))"
    using parts(3) content_digest_utf8 by (simp add: verify_digest_def canonical_digest_def)
  ultimately show ?thesis
    using texts(1,2,4) backend_text [OF parts(1)] content_digest_text [OF parts(4)] content_digest_text [OF parts(5)] platform_text(2)
    unfolding plan_unsigned_members
    by (simp add: bmap_ok_def less_char_def list_all_iff comp_def del: json_ok.simps(3)) (simp add: bmap_ok_def less_char_def list_all_iff)
qed

definition plan_document :: "(string \<Rightarrow> string) \<Rightarrow> plan_request \<Rightarrow> (string \<times> json) list" where
  "plan_document H r = bmap_insert ''digest'' (JString (canonical_digest H (JObject (plan_unsigned r)))) (plan_unsigned r)"

lemma plan_document_get:
  "bmap_get (plan_document H r) ''digest'' = Some (JString (canonical_digest H (JObject (plan_unsigned r))))"
  "n \<noteq> ''digest'' \<Longrightarrow> bmap_get (plan_document H r) n = bmap_get (plan_unsigned r) n"
  unfolding plan_document_def plan_unsigned_members by (simp_all add: less_char_def)

lemma plan_document_rest: "filter (\<lambda>f. fst f \<noteq> ''digest'') (plan_document H r) = plan_unsigned r"
  unfolding plan_document_def plan_unsigned_members by (simp add: less_char_def)

lemma plan_document_fields: "map fst (plan_document H r) = sort plan_fields"
  unfolding plan_document_def plan_unsigned_members plan_fields_def by (simp add: less_char_def)

lemma plan_document_ok:
  assumes "validate_request H r = Inr ()" "request_text r"
  shows "json_ok (JObject (plan_document H r))"
proof -
  have "utf8_valid (canonical_digest H v)" for v by (simp add: canonical_digest_def content_digest_utf8)
  moreover have "list_all P (bmap_insert k v m)" if "list_all P m" "P (k, v)" for P :: "string \<times> json \<Rightarrow> bool" and k v m
    using that by (induction m) auto
  ultimately show ?thesis
    using plan_unsigned_ok [OF assms] by (simp add: plan_document_def bmap_ok_insert del: canonical_json.simps)
qed

section \<open>The helper reads what the host wrote\<close>

text \<open>Evaluation of the field readers on known members.\<close>

lemma read_fields:
  "bmap_get fs n = Some v \<Longrightarrow> field_of fs n = Inr v"
  "bmap_get fs n = Some (JString s) \<Longrightarrow> string_field fs n = Inr s"
  "bmap_get fs n = Some (JBoolean b) \<Longrightarrow> boolean_field fs n = Inr b"
  "bmap_get fs n = Some (nullable d) \<Longrightarrow> nullable_string_field fs n = Inr d"
  "string_array (json_strings xs) n = Inr xs" "ok_or e (Some y) = Inr y" "ok_or e (rv_object (JObject fs)) = Inr fs"
  "ok_or e (rv_array (JArray vs)) = Inr vs" "ok_or e (rv_string (JString s)) = Inr s" "check True e = Inr ()"
  by (simp_all add: nullable_def json_strings_def ok_or_def rv_object_def rv_array_def rv_string_def check_def)

lemmas evaluate_fields = read_fields and_then_simps(1,2) Let_def

lemma read_dependency: "parse_dependency (dependency_json d) = Inr d"
  unfolding plan_objects parse_dependency_def
  by (simp add: evaluate_fields exact_fields_def del: and_then_simps(3) string_field_Inr nullable_string_field_Inr boolean_field_Inr)

lemma read_environment: "parse_environment (map (\<lambda>(name, v). (name, JString v)) m) = Inr m"
  using traverse_map [of m "\<lambda>(name, v). and_then (ok_or ''environment value must be a string'' (rv_string v)) (\<lambda>s. Inr (name, s))"
      "\<lambda>(name, v). (name, JString v)" "\<lambda>x. x"]
  by (simp add: parse_environment_def evaluate_fields case_prod_beta del: and_then_simps(3))

lemma read_step: "rs_argv s \<noteq> [] \<Longrightarrow> parse_step (step_json s) = Inr s"
  unfolding plan_objects parse_step_def
  by (simp add: evaluate_fields exact_fields_def string_map_def read_environment
      del: and_then_simps(3) string_field_Inr boolean_field_Inr field_of_Inr string_array_Inr)

lemma read_limits:
  assumes "bmap_get fs ''limits'' = Some plan_limits_json"
  shows "parse_limits fs = Inr portable_limits"
proof -
  let ?ls = "[(''cpu_cores'', json_count_of runner_cpu_cores), (''memory_bytes'', json_count_of runner_memory_bytes),
      (''output_bytes'', json_count_of runner_output_bytes), (''processes'', json_count_of runner_processes),
      (''scratch_bytes'', json_count_of runner_scratch_bytes), (''scratch_entries'', json_count_of runner_scratch_entries),
      (''wall_time_seconds'', json_count_of runner_wall_time_seconds)]"
  have fits: "count_fits runner_cpu_cores" "count_fits runner_memory_bytes" "count_fits runner_output_bytes" "count_fits runner_processes"
    "count_fits runner_scratch_bytes" "count_fits runner_scratch_entries" "count_fits runner_wall_time_seconds"
    by (simp_all add: count_fits_def runner_cpu_cores_def runner_memory_bytes_def runner_output_bytes_def runner_processes_def
        runner_scratch_bytes_def runner_scratch_entries_def runner_wall_time_seconds_def)
  have "exact_fields ?ls limit_fields ''limits'' = Inr ()" by (simp add: exact_fields_def limit_fields_def)
  then show ?thesis
    using assms unfolding plan_objects
    by (simp add: parse_limits_def evaluate_fields integer_field_count fits portable_limits_def
        del: and_then_simps(3) field_of_Inr)
qed

lemma read_runtime:
  assumes "validate_request H r = Inr ()" "bmap_get fs ''runtime'' = Some (plan_runtime_json r (workload_of (plan_steps r)))"
  shows "parse_runtime fs = Inr (pl_runtime (built_plan H r))"
proof -
  note parts = request_parts [OF assms(1)]
  let ?w = "workload_of (plan_steps r)"
  let ?ms = "[(''boot_digest'', nullable (rq_boot_digest r)), (''capability_fingerprint'', nullable (rq_capability_fingerprint r)),
      (''helper_digest'', nullable (rq_helper_digest r)), (''kind'', JString (runtime_kind (rq_backend r))),
      (''rootfs_digest'', if rq_backend r = WindowsNative then JNull else JString ?w),
      (''runner_platform'', JString (platform_name (sc_runner_platform (rq_scenario r)))), (''workload_digest'', JString ?w)]"
  have w: "runner_content_digest ?w"
  proof -
    have image: "runner_content_digest (rs_image s)" if "s \<in> set (plan_steps r)" for s
      using that by (auto simp: plan_steps_def normal_step_def resolved_digest_eq resolved_content_digest_def unresolved_content_digest_def
          runner_content_digest_def is_ascii_digit_def in_range_def list_all_iff)
    have "runner_content_digest unresolved_content_digest"
      by (simp add: unresolved_content_digest_def runner_content_digest_def is_ascii_digit_def in_range_def list_all_iff)
    moreover have "runner_content_digest img" if img: "remdups_adj (sort (map rs_image (plan_steps r))) = [img]" for img
    proof -
      have "set (map rs_image (plan_steps r)) = {img}" using arg_cong [OF img, of set] by simp
      then obtain s where "s \<in> set (plan_steps r)" "rs_image s = img" by (metis imageE insertI1 list.set_map)
      then show ?thesis using image by auto
    qed
    ultimately show ?thesis by (auto simp: workload_of_def split: list.split)
  qed
  have "exact_fields ?ms runtime_fields ''runtime'' = Inr ()" by (simp add: exact_fields_def runtime_fields_def less_char_def)
  moreover have "nullable_string_field ?ms ''rootfs_digest'' = Inr (if rq_backend r = WindowsNative then None else Some ?w)"
    by simp
  moreover have "list_all runner_content_digest (List.map_filter id [rq_helper_digest r, rq_boot_digest r, rq_capability_fingerprint r])"
    using parts(13-15)
    by (cases "rq_helper_digest r"; cases "rq_boot_digest r"; cases "rq_capability_fingerprint r") (simp_all add: List.map_filter_def)
  moreover have "\<not> list_ex (\<lambda>d. \<not> P d) xs \<longleftrightarrow> list_all P xs" for P and xs :: "string list"
    by (auto simp: list_ex_iff list_all_iff)
  ultimately show ?thesis
    using assms(2) w unfolding plan_objects
    by (simp add: parse_runtime_def evaluate_fields built_plan_def runtime_digests_def
        del: and_then_simps(3) field_of_Inr string_field_Inr nullable_string_field_Inr)
qed

lemma read_backend:
  assumes "engine_name_ok b" "bmap_get fs ''backend'' = Some (JString (backend_name b))"
  shows "parse_backend fs = Inr (backend_name b)"
  using assms
  by (cases b) (simp_all add: parse_backend_def evaluate_fields engine_name_ok_def native_backends_def strip_prefix_Some
      del: and_then_simps(3) string_field_Inr)

lemma read_controls:
  assumes "distinct cs" "bmap_get fs ''controls'' = Some (JArray (map (\<lambda>c. JString (control_name c)) cs))"
  shows "parse_controls fs = Inr cs"
proof -
  have strings: "JArray (map (\<lambda>c. JString (control_name c)) cs) = json_strings (map control_name cs)"
    by (simp add: json_strings_def comp_def)
  have "traverse (\<lambda>n. ok_or (''unknown control '' @ n) (control_parse n)) (map control_name cs) = Inr (map (\<lambda>c. c) cs)"
    by (rule traverse_map) (simp add: ok_or_def)
  then show ?thesis
    using assms(1,2) unfolding strings
    by (simp add: parse_controls_def evaluate_fields length_remdups_adj_sort del: and_then_simps(3) field_of_Inr string_array_Inr)
qed

lemma read_network:
  assumes "validate_request H r = Inr ()" "bmap_get fs ''network'' = Some (network_json r)"
  shows "parse_network fs (sort (rq_controls r)) = Inr (sort (rq_network_destinations r))"
proof -
  note parts = request_parts [OF assms(1)]
  have "list_all plain_destination (sort (rq_network_destinations r))"
    using parts(10) destination_plain by (auto simp: list_all_iff)
  then have "\<not> list_ex (\<lambda>d. \<not> plain_destination d) (sort (rq_network_destinations r))"
    by (auto simp: list_ex_iff list_all_iff)
  moreover have "sort (rq_network_destinations r) = [] \<longleftrightarrow> rq_network_destinations r = []" by (metis set_empty set_sort)
  ultimately show ?thesis
    using assms(2) parts(9) unfolding plan_objects
    by (cases "CtNetworkDeny \<in> set (rq_controls r)")
      (simp_all add: parse_network_def evaluate_fields exact_fields_def del: and_then_simps(3) field_of_Inr string_field_Inr string_array_Inr)
qed

lemma read_status:
  assumes "bmap_get fs ''status'' = Some (status_json reasons)"
  shows "parse_status fs = Inr (if reasons = [] then StatusComplete else StatusIncomplete reasons)"
proof -
  have strings: "JArray (map JString xs) = json_strings xs" for xs by (simp add: json_strings_def)
  show ?thesis
    using assms unfolding plan_objects strings
    by (cases "reasons = []")
      (simp_all add: parse_status_def evaluate_fields exact_fields_def del: and_then_simps(3) field_of_Inr string_field_Inr string_array_Inr)
qed

definition digests_agree :: "(string \<Rightarrow> string) \<Rightarrow> bool" where
  "digests_agree H \<longleftrightarrow> (\<forall>x. lowercase_hex (H x) = sha_digest x)"

lemma plan_document_parsed:
  assumes "digests_agree H" "validate_request H r = Inr ()" "request_text r"
  shows "plan_of_fields (plan_document H r) = Inr (built_plan H r)"
proof -
  let ?fs = "plan_document H r"
  note parts = request_parts [OF assms(2)] and ok = plan_unsigned_ok [OF assms(2,3)]
  have get: "bmap_get ?fs n = Some v" if "n \<noteq> ''digest''" "bmap_get (plan_unsigned r) n = Some v" for n v
    using that by (simp add: plan_document_get)
  have members: "bmap_get ?fs ''backend'' = Some (JString (backend_name (rq_backend r)))"
    "bmap_get ?fs ''controls'' = Some (JArray (map (\<lambda>c. JString (control_name c)) (sort (rq_controls r))))"
    "bmap_get ?fs ''dependencies'' = Some (JArray (map dependency_json (plan_deps r)))" "bmap_get ?fs ''limits'' = Some plan_limits_json"
    "bmap_get ?fs ''lock_digest'' = Some (JString (rq_lock_digest r))" "bmap_get ?fs ''network'' = Some (network_json r)"
    "bmap_get ?fs ''provider_profile'' = Some (JString (rq_provider_profile r))"
    "bmap_get ?fs ''runtime'' = Some (plan_runtime_json r (workload_of (plan_steps r)))"
    "bmap_get ?fs ''scenario_digest'' = Some (JString (sc_digest (rq_scenario r)))" "bmap_get ?fs ''schema'' = Some (JString ''runner-v2'')"
    "bmap_get ?fs ''secret_names'' = Some (json_strings (sc_secret_names (rq_scenario r)))"
    "bmap_get ?fs ''selected_jobs'' = Some (json_strings (sort (rq_selected_jobs r)))"
    "bmap_get ?fs ''source_digest'' = Some (JString (rq_source_digest r))" "bmap_get ?fs ''status'' = Some (status_json (plan_reasons r))"
    "bmap_get ?fs ''steps'' = Some (JArray (map step_json (plan_steps r)))"
    by (rule get; simp add: plan_unsigned_members)+
  have digest: "validate_digest ?fs (canonical_digest H (JObject (plan_unsigned r))) = Inr ()"
    using assms(1)
    by (simp only: validate_digest_def plan_document_rest check_Inr runner_canonical_agrees [OF ok] canonical_digest_def content_digest_def
        digest_display_def of_bytes_def sha_ref_def digests_agree_def)
  have deps: "parse_dependencies ?fs = Inr (plan_deps r)"
    using traverse_map [of "plan_deps r" parse_dependency dependency_json "\<lambda>d. d"]
    by (simp add: parse_dependencies_def evaluate_fields members read_dependency del: and_then_simps(3) field_of_Inr)
  have steps: "parse_steps ?fs = Inr (plan_steps r)"
  proof -
    have "rs_argv s \<noteq> []" if "s \<in> set (plan_steps r)" for s
      using that parts(12) by (auto simp: plan_steps_def normal_step_def)
    then show ?thesis
      using traverse_map [of "plan_steps r" parse_step step_json "\<lambda>s. s"]
      by (simp add: parse_steps_def evaluate_fields members read_step del: and_then_simps(3) field_of_Inr)
  qed
  have controls: "parse_controls ?fs = Inr (sort (rq_controls r))" by (rule read_controls) (simp_all add: parts(8) members)
  show ?thesis
    by (simp add: plan_of_fields_def exact_fields_def plan_document_fields evaluate_fields plan_document_get(1) members digest
        read_backend [OF parts(1) members(1)] controls read_network [OF assms(2) members(6)] read_status [OF members(14)]
        read_limits [OF members(4)] read_runtime [OF assms(2) members(8)] deps steps
        del: and_then_simps(3) field_of_Inr string_field_Inr string_array_Inr) (simp add: built_plan_def)
qed

section \<open>The helper accepts what the host built\<close>

definition boot_fits :: "plan_request \<Rightarrow> bool" where
  "boot_fits r \<longleftrightarrow> (rq_backend r = WindowsNative \<longrightarrow> rq_boot_digest r = None)"

lemma built_plan_simps [simp]:
  "pl_backend (built_plan H r) = backend_name (rq_backend r)" "pl_scenario_digest (built_plan H r) = sc_digest (rq_scenario r)"
  "pl_provider_profile (built_plan H r) = rq_provider_profile r" "pl_selected_jobs (built_plan H r) = sort (rq_selected_jobs r)"
  "pl_source_digest (built_plan H r) = rq_source_digest r" "pl_lock_digest (built_plan H r) = rq_lock_digest r"
  "pl_steps (built_plan H r) = plan_steps r" "pl_dependencies (built_plan H r) = plan_deps r"
  "pl_status (built_plan H r) = (if plan_reasons r = [] then StatusComplete else StatusIncomplete (plan_reasons r))"
  "rt_kind (pl_runtime (built_plan H r)) = runtime_kind (rq_backend r)"
  "rt_runner_platform (pl_runtime (built_plan H r)) = platform_name (sc_runner_platform (rq_scenario r))"
  "rt_workload_digest (pl_runtime (built_plan H r)) = workload_of (plan_steps r)"
  "rt_rootfs_digest (pl_runtime (built_plan H r)) = (if rq_backend r = WindowsNative then None else Some (workload_of (plan_steps r)))"
  "rt_helper_digest (pl_runtime (built_plan H r)) = rq_helper_digest r" "rt_boot_digest (pl_runtime (built_plan H r)) = rq_boot_digest r"
  by (simp_all add: built_plan_def)

lemma backend_kinds:
  "is_oci (backend_name b) \<longleftrightarrow> (\<exists>engine. b = Oci engine)" "backend_name b = ''linux-native'' \<longleftrightarrow> b = LinuxNative"
  "backend_name b = ''windows-native'' \<longleftrightarrow> b = WindowsNative" "backend_name b = ''macos-vm'' \<longleftrightarrow> b = MacosVm"
  by (cases b; simp add: is_oci_def str_starts_with_def)+

lemma platform_fits: "compatible_os b = platform_os p \<Longrightarrow> platform_matches (backend_name b) (platform_name p)"
  by (cases b; cases p) (simp_all add: platform_matches_def is_oci_def str_starts_with_def)

lemma kind_fits: "expected_kind (backend_name b) = runtime_kind b"
  by (cases b) (simp_all add: expected_kind_def is_oci_def str_starts_with_def)

lemma rootfs_fits: "rootfs_matches (backend_name (rq_backend r)) (pl_runtime (built_plan H r)) \<longleftrightarrow> boot_fits r"
  by (cases "rq_backend r") (simp_all add: rootfs_matches_def is_oci_def str_starts_with_def boot_fits_def)

lemma resolved_option_eq: "resolved_option d \<longleftrightarrow> (\<exists>x. d = Some x \<and> resolved_content_digest x)"
  by (cases d) (simp_all add: resolved_option_def resolved_digest_eq)

lemma complete_has_no_reasons:
  assumes "plan_reasons r = []"
  shows "unresolved_reasons (backend_name (rq_backend r)) (pl_runtime (built_plan H r)) (plan_deps r) (plan_steps r) = []"
proof -
  have "remdups_adj (sort (incomplete_reasons r (plan_deps r) (plan_steps r))) = []" using assms by (simp add: plan_reasons_def)
  then have none: "incomplete_reasons r (plan_deps r) (plan_steps r) = []" by (metis remdups_adj_Nil_iff set_empty set_sort)
  have "\<forall>d \<in> set (plan_deps r). dp_available d \<and> dp_digest d \<noteq> None"
    using none by (auto simp: incomplete_reasons_def filter_empty_conv resolved_option_eq)
  moreover have "\<forall>s \<in> set (plan_steps r). rs_supported s \<and> resolved_content_digest (rs_image s)"
    using none by (auto simp: incomplete_reasons_def filter_empty_conv resolved_digest_eq)
  moreover have "resolved_content_digest (workload_of (plan_steps r))"
    using none by (auto simp: incomplete_reasons_def resolved_digest_eq split: if_splits)
  moreover have "backend_name (rq_backend r) \<in> set native_backends \<Longrightarrow> resolved_option (rq_helper_digest r)"
    using none by (cases "rq_backend r") (auto simp: incomplete_reasons_def native_backend_def native_backends_def split: if_splits)
  moreover have "rq_backend r = MacosVm \<Longrightarrow> resolved_option (rq_boot_digest r)"
    using none by (auto simp: incomplete_reasons_def split: if_splits)
  ultimately show ?thesis
    by (auto simp: unresolved_reasons_def filter_empty_conv backend_kinds resolved_option_eq)
qed

lemma built_plan_checked:
  assumes "digests_agree H" "validate_request H r = Inr ()"
  shows "check_plan (built_plan H r) = Inr p \<longleftrightarrow> boot_fits r \<and> p = built_plan H r"
proof -
  note parts = request_parts [OF assms(2)]
  have "sc_digest (rq_scenario r) = sha_ref (canonical_json (JObject (unsigned_fields (rq_scenario r))))"
    using parts(3) assms(1)
    by (simp only: verify_digest_def canonical_digest_def content_digest_def digest_display_def of_bytes_def sha_ref_def digests_agree_def)
  then have digest: "runner_content_digest (sc_digest (rq_scenario r))" by (simp only: sha_ref_valid)
  have jobs: "sort (rq_selected_jobs r) \<noteq> []" using parts(7) by (metis set_empty set_sort)
  have status: "validate_status (pl_status (built_plan H r)) (backend_name (rq_backend r)) (pl_runtime (built_plan H r)) (plan_deps r)
      (plan_steps r) = Inr ()"
    using complete_has_no_reasons [of r H] by (simp add: validate_status_def)
  show ?thesis
    using digest jobs status parts(4-6) platform_fits [OF parts(2)]
    by (auto simp: check_plan_def kind_fits rootfs_fits workload_of_eq)
qed

text \<open>
  C16. The helper accepts what the host built. Given that both compute SHA-256, a request yields a runner plan exactly
  when it passes the host's checks and does not pair a boot bundle with the Windows backend; then the
  helper's validation of the written text returns the plan the request stands for, with its controls,
  jobs, destinations and dependencies in order, its secrets masked and its status complete exactly
  when nothing was left unresolved.
\<close>

theorem built_plan_accepted:
  assumes "digests_agree H" "request_text r"
  shows "plan_build H r = Some (Inr p) \<longleftrightarrow>
    validate_request H r = Inr () \<and> boot_fits r \<and> p = \<lparr>rp_canonical = plan_text H r, rp_validated = built_plan H r\<rparr>"
proof (cases "validate_request H r")
  case (Inr u)
  have doc: "plan_text H r = canonical_line (JObject (plan_document H r))"
    by (simp only: plan_text_def plan_document_def)
  have "runner_parse (plan_text H r) = Some (Inr (JObject (plan_document H r)))"
    unfolding doc using Inr assms(2) by (intro runner_reads_back(2) plan_document_ok) simp_all
  then have "validate_plan (plan_text H r) = Some (check_plan (built_plan H r))"
    using plan_document_parsed [OF assms(1) _ assms(2)] Inr
    by (simp add: validate_plan_def evaluate_fields del: and_then_simps(3))
  then show ?thesis
    using built_plan_checked [OF assms(1), of r "built_plan H r"] built_plan_checked [OF assms(1), of r] Inr by (cases "check_plan (built_plan H r)") (auto simp: plan_build_def)
qed (simp add: plan_build_def)

text \<open>The model's own SHA-256 as the host's hash, and a complete request.\<close>

definition sha_raw :: "string \<Rightarrow> string" where
  "sha_raw input = (let s = sha_update input sha_new in
     concat (map (\<lambda>w. be_bytes 4 (unat w)) (fold (\<lambda>block state. compress state block) (chunks 64 (sha_tail s)) (sh_state s))))"

lemma sha_raw_agrees: "digests_agree sha_raw"
proof -
  have "lowercase_hex (concat (map (\<lambda>w. be_bytes 4 (unat w)) ws)) = concat (map hex_word ws)" for ws :: "u32 list"
    by (induction ws) (simp_all add: hex_word_def lowercase_hex_def)
  then show ?thesis by (simp add: digests_agree_def sha_raw_def sha_digest_def sha_finalize_hex_def Let_def)
qed

definition sample_request :: plan_request where
  "sample_request =
     \<lparr>rq_backend = LinuxNative, rq_scenario = sample_scenario sha_raw, rq_provider_profile = ''github'', rq_selected_jobs = [''j''],
      rq_source_digest = sample_image, rq_lock_digest = sample_image, rq_controls = [CtNetworkDeny], rq_network_destinations = [],
      rq_dependencies = [], rq_steps = [sample_step\<lparr>rs_working_directory := ''/workspace''\<rparr>], rq_incomplete_reasons = [],
      rq_helper_digest = Some sample_image, rq_boot_digest = None, rq_capability_fingerprint = None\<rparr>"

lemma built_plan_accepted_witness:
  "\<exists>p. plan_build sha_raw sample_request = Some (Inr p) \<and> pl_status (rp_validated p) = StatusComplete"
proof -
  have named: "str_trim ''j'' \<noteq> []" by (simp add: str_trim_def utf8_width_def graphic_not_white)
  have "verify_digest sha_raw (sample_scenario sha_raw)" by (simp add: sample_scenario_def)
  moreover have "sc_runner_platform (sample_scenario sha_raw) = LinuxX86_64" "sc_secret_names (sample_scenario sha_raw) = [''TOKEN'']"
    by (simp_all add: sample_scenario_def)
  ultimately have valid: "validate_request sha_raw sample_request = Inr ()"
    by (simp add: validate_request_def sample_request_def engine_name_ok_def valid_content_digest_eq sample_profile_named named unique_def
        sample_step_def confined_directory_def bmap_keys_def List.map_filter_def)
  have "request_text sample_request"
    by (simp add: request_text_def sample_request_def step_text_def sample_step_def sample_scenario_def)
  then have "plan_build sha_raw sample_request
      = Some (Inr \<lparr>rp_canonical = plan_text sha_raw sample_request, rp_validated = built_plan sha_raw sample_request\<rparr>)"
    using built_plan_accepted [OF sha_raw_agrees] valid by (simp add: boot_fits_def sample_request_def)
  moreover have "plan_reasons sample_request = []"
    by (simp add: plan_reasons_def incomplete_reasons_def sample_request_def plan_deps_def plan_steps_def sample_step_def normal_step_def
        resolved_digest_eq resolved_option_def workload_of_def)
  ultimately show ?thesis by simp
qed

end
