(* ===== verification/Job_Graph.thy ===== *)
theory Job_Graph
  imports Graph_Paths
begin

text \<open>
  The graph part of scenario planning (\<^verbatim>\<open>src/sandbox/planner.rs\<close>): the jobs a job depends on, the truth with which a
  node is reached from them, and the order of execution. The facts of the scenario are the argument
  \<open>facts\<close>.
\<close>

section \<open>Job closure\<close>

definition job_predecessors :: "program \<Rightarrow> node_id \<Rightarrow> node_id list" where
  "job_predecessors g i = map nd_id (List.map_filter (\<lambda>e. find (\<lambda>n. nd_id n = ed_from e \<and> nd_kind n = NkJob) (pg_nodes g))
     (filter (\<lambda>e. ed_kind e = EkControl \<and> ed_to e = i) (pg_edges g)))"

text \<open>\<open>seen\<close> is the \<^verbatim>\<open>BTreeSet\<close> of visited jobs. The recursion takes fuel; one more than the number of nodes is enough.\<close>

fun closure_visit :: "nat \<Rightarrow> program \<Rightarrow> node_id \<Rightarrow> node_id list \<Rightarrow> node_id list option"
and closure_visit_all :: "nat \<Rightarrow> program \<Rightarrow> node_id list \<Rightarrow> node_id list \<Rightarrow> node_id list option" where
  "closure_visit 0 g i seen = None"
| "closure_visit (Suc n) g i seen =
     (if i \<in> set seen then Some seen else closure_visit_all n g (job_predecessors g i) (bset (i # seen)))"
| "closure_visit_all n g [] seen = Some seen"
| "closure_visit_all n g (p # ps) seen =
     (case closure_visit n g p seen of None \<Rightarrow> None | Some seen' \<Rightarrow> closure_visit_all n g ps seen')"

definition job_closure :: "program \<Rightarrow> node_id \<Rightarrow> node_id list option" where
  "job_closure g selected = closure_visit (length (pg_nodes g) + 3) g selected []"

text \<open>A job and the jobs it waits for.\<close>

definition waits_for :: "program \<Rightarrow> (node_id \<times> node_id) set" where
  "waits_for g = {(i, j). \<exists>e \<in> set (pg_edges g). ed_kind e = EkControl \<and> ed_to e = i \<and> ed_from e = j
     \<and> (\<exists>n \<in> set (pg_nodes g). nd_id n = j \<and> nd_kind n = NkJob)}"

lemma set_job_predecessors: "set (job_predecessors g i) = {j. (i, j) \<in> waits_for g}"
proof -
  have find: "find (\<lambda>n. nd_id n = j \<and> nd_kind n = NkJob) ns = None \<longleftrightarrow> \<not> (\<exists>n \<in> set ns. nd_id n = j \<and> nd_kind n = NkJob)" for j and ns :: "node list"
    by (auto simp: find_None_iff)
  have some: "find (\<lambda>n. nd_id n = j \<and> nd_kind n = NkJob) ns = Some m \<Longrightarrow> nd_id m = j" for j m and ns :: "node list"
    by (auto dest: find_member)
  show ?thesis
  proof (intro set_eqI iffI)
    fix j assume "j \<in> set (job_predecessors g i)"
    then obtain e m where e: "e \<in> set (pg_edges g)" "ed_kind e = EkControl" "ed_to e = i" "nd_id m = j"
        "find (\<lambda>n. nd_id n = ed_from e \<and> nd_kind n = NkJob) (pg_nodes g) = Some m"
      by (auto simp: job_predecessors_def List.map_filter_def)
    then show "j \<in> {j. (i, j) \<in> waits_for g}"
      using find_member [OF e(5)] by (auto simp: waits_for_def)
  next
    fix j assume "j \<in> {j. (i, j) \<in> waits_for g}"
    then obtain e where e: "e \<in> set (pg_edges g)" "ed_kind e = EkControl" "ed_to e = i" "ed_from e = j"
        "\<exists>n \<in> set (pg_nodes g). nd_id n = j \<and> nd_kind n = NkJob"
      by (auto simp: waits_for_def)
    then obtain m where m: "find (\<lambda>n. nd_id n = j \<and> nd_kind n = NkJob) (pg_nodes g) = Some m" using find by blast
    have "nd_id m = j" by (rule some [OF m])
    then show "j \<in> set (job_predecessors g i)"
      using e(1-4) m by (force simp: job_predecessors_def List.map_filter_def)
  qed
qed

definition closed_beyond :: "program \<Rightarrow> node_id set \<Rightarrow> node_id set \<Rightarrow> bool" where
  "closed_beyond g old seen \<longleftrightarrow> (\<forall>x \<in> seen - old. waits_for g `` {x} \<subseteq> seen)"

lemma closure_visit_spec:
  "closure_visit n g i seen = Some s \<Longrightarrow> set seen \<subseteq> set s \<and> i \<in> set s \<and> set s \<subseteq> set seen \<union> (waits_for g)\<^sup>* `` {i}
    \<and> closed_beyond g (set seen) (set s)"
  "closure_visit_all n g is seen = Some s \<Longrightarrow> set seen \<subseteq> set s \<and> set is \<subseteq> set s \<and> set s \<subseteq> set seen \<union> (waits_for g)\<^sup>* `` set is
    \<and> closed_beyond g (set seen) (set s)"
proof (induction n g i seen and n g "is" seen arbitrary: s and s rule: closure_visit_closure_visit_all.induct)
  case (2 n g i seen)
  show ?case
  proof (cases "i \<in> set seen")
    case True
    then show ?thesis using "2.prems" by (auto simp: closed_beyond_def)
  next
    case False
    with "2.prems" have all: "closure_visit_all n g (job_predecessors g i) (bset (i # seen)) = Some s" by simp
    from "2.IH" [OF False this] have spec: "set (bset (i # seen)) \<subseteq> set s" "set (job_predecessors g i) \<subseteq> set s"
      "set s \<subseteq> set (bset (i # seen)) \<union> (waits_for g)\<^sup>* `` set (job_predecessors g i)"
      "closed_beyond g (set (bset (i # seen))) (set s)" by blast+
    have "(waits_for g)\<^sup>* `` set (job_predecessors g i) \<subseteq> (waits_for g)\<^sup>* `` {i}"
      by (auto simp: set_job_predecessors intro: converse_rtrancl_into_rtrancl)
    moreover have "closed_beyond g (set seen) (set s)"
      using spec(2,4) by (auto simp: closed_beyond_def set_job_predecessors)
    moreover have "set s \<subseteq> set seen \<union> (waits_for g)\<^sup>* `` {i}"
      using spec(3) \<open>(waits_for g)\<^sup>* `` set (job_predecessors g i) \<subseteq> (waits_for g)\<^sup>* `` {i}\<close> by fastforce
    ultimately show ?thesis using spec(1) by auto
  qed
next
  case (4 n g p ps seen)
  then obtain s1 where s1: "closure_visit n g p seen = Some s1" "closure_visit_all n g ps s1 = Some s"
    by (auto split: option.splits)
  note first = "4.IH"(1) [OF s1(1)] and rest = "4.IH"(2) [OF s1]
  have "set s \<subseteq> set seen \<union> (waits_for g)\<^sup>* `` set (p # ps)"
  proof -
    have "(waits_for g)\<^sup>* `` set (p # ps) = (waits_for g)\<^sup>* `` {p} \<union> (waits_for g)\<^sup>* `` set ps" by auto
    then show ?thesis using first rest by blast
  qed
  moreover have "closed_beyond g (set seen) (set s)"
    unfolding closed_beyond_def
  proof
    fix x assume "x \<in> set s - set seen"
    then consider "x \<in> set s1 - set seen" | "x \<in> set s - set s1" by blast
    then show "waits_for g `` {x} \<subseteq> set s"
    proof cases
      case 1
      then have "waits_for g `` {x} \<subseteq> set s1" using first unfolding closed_beyond_def by blast
      then show ?thesis using rest by blast
    next
      case 2
      then show ?thesis using rest unfolding closed_beyond_def by blast
    qed
  qed
  ultimately show ?case using first rest by auto
qed (auto simp: closed_beyond_def)

lemma closure_visit_total:
  "card (U - set seen) < n \<Longrightarrow> finite U \<Longrightarrow> i \<in> U \<Longrightarrow> waits_for g `` UNIV \<subseteq> U \<Longrightarrow> closure_visit n g i seen \<noteq> None"
  "card (U - set seen) < n \<Longrightarrow> finite U \<Longrightarrow> set is \<subseteq> U \<Longrightarrow> waits_for g `` UNIV \<subseteq> U \<Longrightarrow> closure_visit_all n g is seen \<noteq> None"
proof (induction n g i seen and n g "is" seen rule: closure_visit_closure_visit_all.induct)
  case (2 n g i seen)
  show ?case
  proof (cases "i \<in> set seen")
    case False
    have "card (U - set (bset (i # seen))) < card (U - set seen)"
      using False 2(3,4) by (intro psubset_card_mono) auto
    moreover have "set (job_predecessors g i) \<subseteq> U" using 2(5) by (auto simp: set_job_predecessors)
    ultimately show ?thesis using 2 False by simp
  qed simp
next
  case (4 n g p ps seen)
  then obtain s1 where s1: "closure_visit n g p seen = Some s1" by auto
  have "card (U - set s1) \<le> card (U - set seen)"
    using closure_visit_spec(1) [OF s1] 4(4) by (intro card_mono) auto
  then show ?case using 4 s1 by auto
qed auto

lemma waits_for_card: "finite (insert i (waits_for g `` UNIV))" "card (insert i (waits_for g `` UNIV)) \<le> length (pg_nodes g) + 1"
proof -
  have sub: "waits_for g `` UNIV \<subseteq> nd_id ` set (pg_nodes g)" by (force simp: waits_for_def)
  then have fin: "finite (waits_for g `` UNIV)" by (rule finite_subset) simp
  then show "finite (insert i (waits_for g `` UNIV))" by simp
  have "card (waits_for g `` UNIV) \<le> card (nd_id ` set (pg_nodes g))" using sub by (intro card_mono) auto
  also have "\<dots> \<le> length (pg_nodes g)" by (meson card_image_le card_length finite_set le_trans)
  finally show "card (insert i (waits_for g `` UNIV)) \<le> length (pg_nodes g) + 1"
    using card_insert_le_m1 by (simp add: card_insert_if fin)
qed

lemma job_closure_spec: "\<exists>s. job_closure g selected = Some s \<and> set s = (waits_for g)\<^sup>* `` {selected}"
proof -
  let ?U = "insert selected (waits_for g `` UNIV)"
  have "closure_visit (length (pg_nodes g) + 3) g selected [] \<noteq> None"
    by (rule closure_visit_total(1) [of ?U]) (use waits_for_card [of selected g] in auto)
  then obtain s where s: "closure_visit (length (pg_nodes g) + 3) g selected [] = Some s" by blast
  from closure_visit_spec(1) [OF s] have spec: "selected \<in> set s" "set s \<subseteq> (waits_for g)\<^sup>* `` {selected}"
    "waits_for g `` set s \<subseteq> set s"
    by (auto simp: closed_beyond_def)
  have "(waits_for g)\<^sup>* `` {selected} \<subseteq> set s"
    using spec(1,3) by (metis Image_closed_trancl Image_mono empty_subsetI insert_subset subset_refl)
  with spec(2) s show ?thesis by (auto simp: job_closure_def)
qed

section \<open>How a node is reached\<close>

text \<open>The three truth values as a chain: false, unknown, true.\<close>

fun truth_and :: "truth \<Rightarrow> truth \<Rightarrow> truth" where
  "truth_and TFalse right = TFalse"
| "truth_and left TFalse = TFalse"
| "truth_and TTrue TTrue = TTrue"
| "truth_and left right = truth.TUnknown"

fun truth_or :: "truth \<Rightarrow> truth \<Rightarrow> truth" where
  "truth_or TTrue right = TTrue"
| "truth_or left TTrue = TTrue"
| "truth_or TFalse TFalse = TFalse"
| "truth_or left right = truth.TUnknown"

type_synonym reach_key = "node_id \<times> bool"

definition gate_entries :: "program \<Rightarrow> node_id \<Rightarrow> node_id list" where
  "gate_entries g job = map nd_id (filter (\<lambda>n. nd_kind n = NkGate) (List.map_filter (\<lambda>e. find_node g (ed_from e))
     (filter (\<lambda>e. ed_kind e = EkControl \<and> ed_to e = job \<and> ed_label e = Some ''gate'') (pg_edges g))))"

definition reach_starts :: "program \<Rightarrow> node_id list \<Rightarrow> (reach_key \<times> truth) list" where
  "reach_starts g jobs = concat (map (\<lambda>job. let gates = gate_entries g job in
     if gates = [] then [((job, False), TTrue)] else map (\<lambda>i. ((i, False), TTrue)) gates) jobs)"

text \<open>What a node that is reached passes on: the target, whether jobs of another unit may be entered, and the edge's condition.\<close>

definition reach_step :: "program \<Rightarrow> (string \<Rightarrow> bool option) \<Rightarrow> node_id list \<Rightarrow> reach_key \<Rightarrow> edge \<Rightarrow> (reach_key \<times> truth) option" where
  "reach_step g facts jobs key e =
     (let allow_local = snd key \<or> ed_label e = Some ''local-unit'' in
      case find_node g (ed_to e) of
        None \<Rightarrow> None
      | Some target \<Rightarrow>
          if nd_kind target = NkJob \<and> nd_id target \<notin> set jobs \<and> \<not> allow_local then None
          else Some ((nd_id target, allow_local), evaluate facts (ed_condition e)))"

definition reach_succ :: "program \<Rightarrow> (string \<Rightarrow> bool option) \<Rightarrow> node_id list \<Rightarrow> reach_key \<Rightarrow> (reach_key \<times> truth) list" where
  "reach_succ g facts jobs key = List.map_filter (reach_step g facts jobs key)
     (filter (\<lambda>e. ed_from e = fst key \<and> ed_kind e \<in> {EkControl, EkCall}) (pg_edges g))"

definition reach_node :: "program \<Rightarrow> (string \<Rightarrow> bool option) \<Rightarrow> reach_key \<Rightarrow> truth option" where
  "reach_node g facts key = map_option (\<lambda>n. evaluate facts (nd_condition n)) (find_node g (fst key))"

text \<open>The worklist, over what a node does with the truth that comes in (\<open>own\<close>) and passes on (\<open>succ\<close>).\<close>

fun reach_loop :: "nat \<Rightarrow> (reach_key \<Rightarrow> truth option) \<Rightarrow> (reach_key \<Rightarrow> (reach_key \<times> truth) list) \<Rightarrow>
    (reach_key \<times> truth) list \<Rightarrow> (reach_key, truth) bmap \<Rightarrow> (reach_key, truth) bmap option" where
  "reach_loop 0 own succ queue states = None"
| "reach_loop (Suc n) own succ [] states = Some states"
| "reach_loop (Suc n) own succ ((key, incoming) # queue) states =
     (case own key of
        None \<Rightarrow> reach_loop n own succ queue states
      | Some t \<Rightarrow>
          let node_truth = truth_and incoming t;
              merged = (case bmap_get states key of None \<Rightarrow> node_truth | Some old \<Rightarrow> truth_or old node_truth) in
          if bmap_get states key = Some merged then reach_loop n own succ queue states
          else if merged = TFalse then reach_loop n own succ queue (bmap_insert key merged states)
          else reach_loop n own succ (queue @ map (\<lambda>(k, c). (k, truth_and merged c)) (succ key)) (bmap_insert key merged states))"

definition reach_fuel :: "program \<Rightarrow> nat \<Rightarrow> nat" where
  "reach_fuel g starts = starts + 4 * length (pg_edges g) + 1"

text \<open>Both entries of a node are joined.\<close>

definition join_entries :: "(reach_key, truth) bmap \<Rightarrow> (node_id, truth) bmap" where
  "join_entries states = fold (\<lambda>((i, b), t) out. bmap_insert i (case bmap_get out i of None \<Rightarrow> t | Some old \<Rightarrow> truth_or old t) out)
     states []"

definition descendants :: "program \<Rightarrow> (string \<Rightarrow> bool option) \<Rightarrow> node_id list \<Rightarrow> (node_id, truth) bmap option" where
  "descendants g facts jobs =
     (let starts = reach_starts g jobs in
      map_option join_entries (reach_loop (reach_fuel g (length starts)) (reach_node g facts) (reach_succ g facts jobs) starts []))"

subsection \<open>What the loop computes\<close>

fun truth_rank :: "truth \<Rightarrow> nat" where
  "truth_rank TFalse = 0"
| "truth_rank truth.TUnknown = 1"
| "truth_rank TTrue = 2"

lemma truth_rank_inj: "truth_rank a = truth_rank b \<longleftrightarrow> a = b"
  by (cases a; cases b) simp_all

lemma truth_rank_and [simp]: "truth_rank (truth_and a b) = min (truth_rank a) (truth_rank b)"
  by (cases a; cases b) simp_all

lemma truth_rank_or [simp]: "truth_rank (truth_or a b) = max (truth_rank a) (truth_rank b)"
  by (cases a; cases b) simp_all

lemma truth_rank_0 [simp]: "truth_rank a = 0 \<longleftrightarrow> a = TFalse" "0 < truth_rank a \<longleftrightarrow> a \<noteq> TFalse"
  by (cases a; simp)+

lemma truth_rank_le: "truth_rank a \<le> 2"
  by (cases a) simp_all

lemma truth_or_either: "truth_or a b = a \<or> truth_or a b = b"
  by (cases a; cases b) simp_all

text \<open>The truth of one walk from a start: the conjunction of the conditions on it, as long as it is not false.\<close>

inductive walk :: "(reach_key \<Rightarrow> truth option) \<Rightarrow> (reach_key \<Rightarrow> (reach_key \<times> truth) list) \<Rightarrow> (reach_key \<times> truth) list \<Rightarrow>
    reach_key \<Rightarrow> truth \<Rightarrow> bool" for own succ starts where
  start: "(k, c) \<in> set starts \<Longrightarrow> own k = Some t \<Longrightarrow> walk own succ starts k (truth_and c t)"
| step: "walk own succ starts k v \<Longrightarrow> v \<noteq> TFalse \<Longrightarrow> (k', c) \<in> set (succ k) \<Longrightarrow> own k' = Some t
    \<Longrightarrow> walk own succ starts k' (truth_and (truth_and v c) t)"

definition covered :: "(reach_key \<Rightarrow> truth option) \<Rightarrow> (reach_key \<times> truth) list \<Rightarrow> (reach_key \<rightharpoonup> truth) \<Rightarrow> reach_key \<Rightarrow> truth \<Rightarrow> bool" where
  "covered own queue m k c \<longleftrightarrow> (\<exists>c'. (k, c') \<in> set queue \<and> truth_rank c \<le> truth_rank c')
     \<or> (\<forall>t. own k = Some t \<longrightarrow> (\<exists>w. m k = Some w \<and> min (truth_rank c) (truth_rank t) \<le> truth_rank w))"

definition reach_inv ::
  "(reach_key \<Rightarrow> truth option) \<Rightarrow> (reach_key \<Rightarrow> (reach_key \<times> truth) list) \<Rightarrow> (reach_key \<times> truth) list \<Rightarrow>
   (reach_key \<times> truth) list \<Rightarrow> (reach_key \<rightharpoonup> truth) \<Rightarrow> bool" where
  "reach_inv own succ starts queue m \<longleftrightarrow>
     (\<forall>k w. m k = Some w \<longrightarrow> walk own succ starts k w)
     \<and> (\<forall>(k, c) \<in> set queue. \<forall>t. own k = Some t \<longrightarrow> walk own succ starts k (truth_and c t))
     \<and> (\<forall>(k, c) \<in> set starts. covered own queue m k c)
     \<and> (\<forall>k w. m k = Some w \<longrightarrow> w \<noteq> TFalse \<longrightarrow> (\<forall>(k', c) \<in> set (succ k). covered own queue m k' (truth_and w c)))"

lemma reach_invD:
  assumes "reach_inv own succ starts queue m"
  shows "m k = Some w \<Longrightarrow> walk own succ starts k w"
    "(k, c) \<in> set queue \<Longrightarrow> own k = Some t \<Longrightarrow> walk own succ starts k (truth_and c t)"
    "(k, c) \<in> set starts \<Longrightarrow> covered own queue m k c"
    "m k = Some w \<Longrightarrow> w \<noteq> TFalse \<Longrightarrow> (k', c) \<in> set (succ k) \<Longrightarrow> covered own queue m k' (truth_and w c)"
  using assms unfolding reach_inv_def by blast+

lemma reach_invI:
  assumes "\<And>k w. m k = Some w \<Longrightarrow> walk own succ starts k w"
    "\<And>k c t. (k, c) \<in> set queue \<Longrightarrow> own k = Some t \<Longrightarrow> walk own succ starts k (truth_and c t)"
    "\<And>k c. (k, c) \<in> set starts \<Longrightarrow> covered own queue m k c"
    "\<And>k w k' c. m k = Some w \<Longrightarrow> w \<noteq> TFalse \<Longrightarrow> (k', c) \<in> set (succ k) \<Longrightarrow> covered own queue m k' (truth_and w c)"
  shows "reach_inv own succ starts queue m"
  using assms unfolding reach_inv_def by blast

lemma covered_pop:
  assumes "covered own ((key, incoming) # queue) m k c" "set queue \<subseteq> set queue'"
    "\<And>k w. m k = Some w \<Longrightarrow> \<exists>w'. m' k = Some w' \<and> truth_rank w \<le> truth_rank w'"
    "\<And>t. own key = Some t \<Longrightarrow> \<exists>w. m' key = Some w \<and> min (truth_rank incoming) (truth_rank t) \<le> truth_rank w"
  shows "covered own queue' m' k c"
proof -
  consider (queue) c' where "(k, c') \<in> set queue" "truth_rank c \<le> truth_rank c'"
    | (here) "k = key" "truth_rank c \<le> truth_rank incoming"
    | (state) "\<forall>t. own k = Some t \<longrightarrow> (\<exists>w. m k = Some w \<and> min (truth_rank c) (truth_rank t) \<le> truth_rank w)"
    using assms(1) by (auto simp: covered_def)
  then show ?thesis
  proof cases
    case queue
    then show ?thesis using assms(2) by (auto simp: covered_def)
  next
    case here
    have "\<exists>w. m' k = Some w \<and> min (truth_rank c) (truth_rank t) \<le> truth_rank w" if "own k = Some t" for t
      using assms(4) [of t] that here by (auto intro: le_trans)
    then show ?thesis by (simp add: covered_def)
  next
    case state
    have "\<exists>w. m' k = Some w \<and> min (truth_rank c) (truth_rank t) \<le> truth_rank w" if "own k = Some t" for t
      using state that assms(3) le_trans by meson
    then show ?thesis by (simp add: covered_def)
  qed
qed

lemma reach_inv_skip:
  assumes inv: "reach_inv own succ starts ((key, incoming) # queue) m"
    and here: "\<And>t. own key = Some t \<Longrightarrow> \<exists>w. m key = Some w \<and> min (truth_rank incoming) (truth_rank t) \<le> truth_rank w"
  shows "reach_inv own succ starts queue m"
proof -
  have cov: "covered own queue m k c" if "covered own ((key, incoming) # queue) m k c" for k c
    by (rule covered_pop [OF that]) (use here in auto)
  show ?thesis
  proof (rule reach_invI)
    show "walk own succ starts k (truth_and c t)" if "(k, c) \<in> set queue" "own k = Some t" for k c t
      by (rule reach_invD(2) [OF inv _ that(2)]) (simp add: that(1))
  qed (use reach_invD(1) [OF inv] cov [OF reach_invD(3) [OF inv]] cov [OF reach_invD(4) [OF inv]] in blast)+
qed

lemma reach_inv_update:
  assumes inv: "reach_inv own succ starts ((key, incoming) # queue) m" and own: "own key = Some t"
    and merged: "merged = (case m key of None \<Rightarrow> truth_and incoming t | Some old \<Rightarrow> truth_or old (truth_and incoming t))"
    and queue': "set queue' = set queue \<union> (if merged = TFalse then {} else (\<lambda>(k, c). (k, truth_and merged c)) ` set (succ key))"
  shows "reach_inv own succ starts queue' (m(key \<mapsto> merged))"
proof -
  let ?m = "m(key \<mapsto> merged)"
  have walk_in: "walk own succ starts key (truth_and incoming t)" by (rule reach_invD(2) [OF inv _ own]) simp
  have walk_merged: "walk own succ starts key merged"
  proof (cases "m key")
    case (Some old)
    have "walk own succ starts key old" by (rule reach_invD(1) [OF inv Some])
    then show ?thesis using walk_in truth_or_either [of old "truth_and incoming t"] by (simp add: merged Some) metis
  qed (simp add: merged walk_in)
  have grows: "\<exists>w'. ?m k = Some w' \<and> truth_rank w \<le> truth_rank w'" if "m k = Some w" for k w
    using that by (cases "k = key") (simp_all add: merged)
  have here: "\<exists>w. ?m key = Some w \<and> min (truth_rank incoming) (truth_rank t') \<le> truth_rank w" if "own key = Some t'" for t'
    using that own by (simp add: merged split: option.split)
  have cov: "covered own queue' ?m k c" if "covered own ((key, incoming) # queue) m k c" for k c
  proof (rule covered_pop [OF that])
    show "set queue \<subseteq> set queue'" by (simp add: queue')
  qed (use grows here in blast)+
  show ?thesis
  proof (rule reach_invI)
    show "walk own succ starts k w" if "?m k = Some w" for k w
      using that walk_merged reach_invD(1) [OF inv, of k w] by (cases "k = key") simp_all
  next
    fix k c t' assume kc: "(k, c) \<in> set queue'" and t': "own k = Some t'"
    show "walk own succ starts k (truth_and c t')"
    proof (cases "(k, c) \<in> set queue")
      case True
      show ?thesis by (rule reach_invD(2) [OF inv _ t']) (simp add: True)
    next
      case False
      then obtain c0 where "merged \<noteq> TFalse" "(k, c0) \<in> set (succ key)" "c = truth_and merged c0"
        using kc queue' by (auto split: if_splits)
      then show ?thesis using walk.step [OF walk_merged _ _ t'] by blast
    qed
  next
    show "covered own queue' ?m k c" if "(k, c) \<in> set starts" for k c
      by (rule cov [OF reach_invD(3) [OF inv that]])
  next
    fix k w k' c assume w: "?m k = Some w" "w \<noteq> TFalse" "(k', c) \<in> set (succ k)"
    show "covered own queue' ?m k' (truth_and w c)"
    proof (cases "k = key")
      case True
      then have "(k', truth_and w c) \<in> set queue'" using w queue' by force
      then show ?thesis unfolding covered_def by blast
    next
      case False
      show ?thesis by (rule cov [OF reach_invD(4) [OF inv _ w(2,3)]]) (use w(1) False in simp)
    qed
  qed
qed

lemma reach_inv_done:
  assumes inv: "reach_inv own succ starts [] m" and walk: "walk own succ starts k v"
  shows "\<exists>w. m k = Some w \<and> truth_rank v \<le> truth_rank w"
  using walk
proof (induction rule: walk.induct)
  case (start k c t)
  then show ?case using reach_invD(3) [OF inv start(1)] by (auto simp: covered_def)
next
  case (step k v k' c t)
  then obtain w where w: "m k = Some w" "truth_rank v \<le> truth_rank w" by blast
  then have "w \<noteq> TFalse" using step.hyps(2) by (metis truth_rank_0(2) less_le_trans)
  from reach_invD(4) [OF inv w(1) this step.hyps(3)]
  obtain w' where "m k' = Some w'" "min (min (truth_rank w) (truth_rank c)) (truth_rank t) \<le> truth_rank w'"
    using step.hyps(4) by (auto simp: covered_def)
  then show ?case using w(2) by (intro exI [of _ w']) (auto simp: min_def split: if_splits)
qed

subsection \<open>The loop ends\<close>

text \<open>How often a node can still pass something on, summed over the entries \<open>W\<close> that its edges stand for.\<close>

definition budget_left :: "truth option \<Rightarrow> nat" where
  "budget_left t = 2 - (case t of None \<Rightarrow> 0 | Some v \<Rightarrow> truth_rank v)"

definition reach_potential :: "reach_key list \<Rightarrow> (reach_key \<rightharpoonup> truth) \<Rightarrow> nat" where
  "reach_potential W m = sum_list (map (\<lambda>k. budget_left (m k)) W)"

lemma potential_update:
  assumes "budget_left (Some v) \<le> budget_left (m k)"
  shows "reach_potential W (m(k \<mapsto> v)) + count_list W k * (budget_left (m k) - budget_left (Some v)) = reach_potential W m"
proof -
  obtain d where d: "budget_left (m k) = budget_left (Some v) + d" using assms by (metis le_Suc_ex)
  have "reach_potential W (m(k \<mapsto> v)) + count_list W k * d = reach_potential W m"
  proof (induction W)
    case (Cons x W)
    then show ?case by (cases "x = k") (simp_all add: reach_potential_def d)
  qed (simp add: reach_potential_def)
  then show ?thesis by (simp add: d)
qed

lemma reach_loop_step:
  assumes "own key = Some t"
    "merged = (case bmap_get states key of None \<Rightarrow> truth_and incoming t | Some old \<Rightarrow> truth_or old (truth_and incoming t))"
  shows "reach_loop (Suc n) own succ ((key, incoming) # rest) states =
    (if bmap_get states key = Some merged then reach_loop n own succ rest states
     else if merged = TFalse then reach_loop n own succ rest (bmap_insert key merged states)
     else reach_loop n own succ (rest @ map (\<lambda>(k, c). (k, truth_and merged c)) (succ key)) (bmap_insert key merged states))"
  using assms by (simp add: Let_def)

lemma reach_loop_total:
  assumes "\<And>k. length (succ k) \<le> count_list W k"
  shows "bmap_ok states \<Longrightarrow> length queue + reach_potential W (bmap_get states) < n \<Longrightarrow> reach_loop n own succ queue states \<noteq> None"
proof (induction n arbitrary: queue states)
  case (Suc n)
  show ?case
  proof (cases queue)
    case (Cons e rest)
    obtain key incoming where e: "e = (key, incoming)" by (cases e)
    show ?thesis
    proof (cases "own key")
      case (Some t)
      define merged where "merged = (case bmap_get states key of None \<Rightarrow> truth_and incoming t | Some old \<Rightarrow> truth_or old (truth_and incoming t))"
      let ?m = "(bmap_get states)(key \<mapsto> merged)"
      have get: "bmap_get (bmap_insert key merged states) = ?m" using Suc.prems(1) by (auto simp: fun_eq_iff bmap_get_insert)
      have ok: "bmap_ok (bmap_insert key merged states)" using Suc.prems(1) by (rule bmap_ok_insert)
      have le: "budget_left (Some merged) \<le> budget_left (bmap_get states key)"
        by (auto simp: budget_left_def merged_def split: option.split)
      note step = reach_loop_step [where own = own and key = key and states = states and incoming = incoming and merged = merged, OF Some merged_def]
      note pot = potential_update [where W = W and m = "bmap_get states" and k = key and v = merged, OF le]
      show ?thesis
      proof (cases "bmap_get states key = Some merged \<or> merged = TFalse")
        case True
        show ?thesis
        proof (cases "bmap_get states key = Some merged")
          case True
          then show ?thesis using Suc by (simp add: Cons e step del: reach_loop.simps)
        next
          case False
          have "reach_loop n own succ rest (bmap_insert key merged states) \<noteq> None"
          proof (rule Suc.IH [OF ok])
            show "length rest + reach_potential W (bmap_get (bmap_insert key merged states)) < n"
              unfolding get using Suc.prems(2) pot by (simp add: Cons)
          qed
          then show ?thesis using False True by (simp add: Cons e step del: reach_loop.simps)
        qed
      next
        case False
        have "budget_left (Some merged) < budget_left (bmap_get states key)"
        proof (cases "bmap_get states key")
          case None
          then show ?thesis using False truth_rank_le [of merged] by (simp add: budget_left_def)
        next
          case (Some old)
          then have "merged = truth_or old (truth_and incoming t)" by (simp add: merged_def)
          then have "truth_rank old \<le> truth_rank merged" by simp
          moreover have "truth_rank old \<noteq> truth_rank merged" using False Some by (simp add: truth_rank_inj)
          ultimately show ?thesis using truth_rank_le [of merged] by (simp add: Some budget_left_def)
        qed
        then have "count_list W key * 1 \<le> count_list W key * (budget_left (bmap_get states key) - budget_left (Some merged))"
          by (intro mult_le_mono2) simp
        then have "length (succ key) + reach_potential W ?m \<le> reach_potential W (bmap_get states)"
          using assms [of key] pot by linarith
        then have "reach_loop n own succ (rest @ map (\<lambda>(k, c). (k, truth_and merged c)) (succ key)) (bmap_insert key merged states) \<noteq> None"
          using Suc.prems(2) unfolding get [symmetric] by (intro Suc.IH ok) (simp add: Cons)
        then show ?thesis using False by (simp add: Cons e step del: reach_loop.simps)
      qed
    qed (use Suc in \<open>simp add: Cons e\<close>)
  qed simp
qed simp

lemma reach_loop_inv:
  "reach_loop n own succ queue states = Some result \<Longrightarrow> bmap_ok states \<Longrightarrow> reach_inv own succ starts queue (bmap_get states)
    \<Longrightarrow> bmap_ok result \<and> reach_inv own succ starts [] (bmap_get result)"
proof (induction n arbitrary: queue states)
  case (Suc n)
  show ?case
  proof (cases queue)
    case (Cons e rest)
    obtain key incoming where e: "e = (key, incoming)" by (cases e)
    note inv = Suc.prems(3) [unfolded Cons e]
    show ?thesis
    proof (cases "own key")
      case None
      have "reach_inv own succ starts rest (bmap_get states)" by (rule reach_inv_skip [OF inv]) (simp add: None)
      then show ?thesis using Suc by (simp add: Cons e None)
    next
      case (Some t)
      define merged where "merged = (case bmap_get states key of None \<Rightarrow> truth_and incoming t | Some old \<Rightarrow> truth_or old (truth_and incoming t))"
      have get: "bmap_get (bmap_insert key merged states) = (bmap_get states)(key \<mapsto> merged)"
        using Suc.prems(2) by (auto simp: fun_eq_iff bmap_get_insert)
      have ok: "bmap_ok (bmap_insert key merged states)" using Suc.prems(2) by (rule bmap_ok_insert)
      note step = reach_loop_step [where own = own and key = key and states = states and incoming = incoming and merged = merged, OF Some merged_def]
      consider "bmap_get states key = Some merged" | "bmap_get states key \<noteq> Some merged" "merged = TFalse"
        | "bmap_get states key \<noteq> Some merged" "merged \<noteq> TFalse" by blast
      then show ?thesis
      proof cases
        case 1
        have "min (truth_rank incoming) (truth_rank t) \<le> truth_rank merged"
          by (auto simp: merged_def split: option.split)
        then have "reach_inv own succ starts rest (bmap_get states)"
          by (intro reach_inv_skip [OF inv]) (auto simp: Some 1)
        then show ?thesis using Suc.IH [OF _ Suc.prems(2)] Suc.prems(1) 1 by (simp add: Cons e step del: reach_loop.simps)
      next
        case 2
        have "reach_inv own succ starts rest ((bmap_get states)(key \<mapsto> merged))"
          by (rule reach_inv_update [OF inv Some merged_def]) (simp add: 2)
        then have "reach_inv own succ starts rest (bmap_get (bmap_insert key merged states))"
          by (simp only: get)
        then show ?thesis using Suc.IH [OF _ ok] Suc.prems(1) 2 by (simp add: Cons e step del: reach_loop.simps)
      next
        case 3
        have "reach_inv own succ starts (rest @ map (\<lambda>(k, c). (k, truth_and merged c)) (succ key)) ((bmap_get states)(key \<mapsto> merged))"
          by (rule reach_inv_update [OF inv Some merged_def]) (simp add: 3)
        then have "reach_inv own succ starts (rest @ map (\<lambda>(k, c). (k, truth_and merged c)) (succ key)) (bmap_get (bmap_insert key merged states))"
          by (simp only: get)
        then show ?thesis using Suc.IH [OF _ ok] Suc.prems(1) 3 by (simp add: Cons e step del: reach_loop.simps)
      qed
    qed
  qed (use Suc in auto)
qed simp

subsection \<open>Descendants\<close>

text \<open>A node is surely reached by a walk of conditions that are all true, possibly reached by one where none is false.\<close>

definition plan_walk :: "program \<Rightarrow> (string \<Rightarrow> bool option) \<Rightarrow> node_id list \<Rightarrow> reach_key \<Rightarrow> truth \<Rightarrow> bool" where
  "plan_walk g facts jobs = walk (reach_node g facts) (reach_succ g facts jobs) (reach_starts g jobs)"

definition surely_reached :: "program \<Rightarrow> (string \<Rightarrow> bool option) \<Rightarrow> node_id list \<Rightarrow> node_id \<Rightarrow> bool" where
  "surely_reached g facts jobs i \<longleftrightarrow> (\<exists>b. plan_walk g facts jobs (i, b) TTrue)"

definition possibly_reached :: "program \<Rightarrow> (string \<Rightarrow> bool option) \<Rightarrow> node_id list \<Rightarrow> node_id \<Rightarrow> bool" where
  "possibly_reached g facts jobs i \<longleftrightarrow> (\<exists>b t. t \<noteq> TFalse \<and> plan_walk g facts jobs (i, b) t)"

lemma walk_exists: "walk own succ starts k v \<Longrightarrow> own k \<noteq> None"
  by (induction rule: walk.induct) auto

lemma join_entries_spec:
  assumes "bmap_ok states"
  shows "bmap_ok (join_entries states)"
    "bmap_get (join_entries states) i = (case (bmap_get states (i, False), bmap_get states (i, True)) of
       (None, None) \<Rightarrow> None | (Some a, None) \<Rightarrow> Some a | (None, Some b) \<Rightarrow> Some b | (Some a, Some b) \<Rightarrow> Some (truth_or a b))"
proof -
  let ?f = "\<lambda>((i, b), t) out. bmap_insert i (case bmap_get out i of None \<Rightarrow> t | Some old \<Rightarrow> truth_or old t) out"
  define best :: "(reach_key, truth) bmap \<Rightarrow> truth option" where
    "best es = fold (\<lambda>((j, b), t) acc. if j = i then (case acc of None \<Rightarrow> Some t | Some old \<Rightarrow> Some (truth_or old t)) else acc) es None" for es
  have main: "bmap_ok (fold ?f es []) \<and> bmap_get (fold ?f es []) i = best es" for es
  proof (induction es rule: rev_induct)
    case (snoc e es)
    obtain j b t where e: "e = ((j, b), t)" by (metis prod.exhaust)
    let ?out = "fold ?f es []"
    have ok: "bmap_ok (bmap_insert j v ?out)" for v using snoc.IH by (simp add: bmap_ok_insert)
    show ?case
      using snoc.IH ok bmap_get_insert [of ?out j] by (auto simp: e best_def split: option.splits)
  qed (simp add: best_def)
  then show "bmap_ok (join_entries states)" by (simp add: join_entries_def)
  have le: "(j, b) < (j', b') \<longleftrightarrow> j < j' \<or> j = j' \<and> \<not> b \<and> b'" for j j' :: node_id and b b'
    by (auto simp: less_prod_def less_le)
  have "best states = (case (bmap_get states (i, False), bmap_get states (i, True)) of
       (None, None) \<Rightarrow> None | (Some a, None) \<Rightarrow> Some a | (None, Some b) \<Rightarrow> Some b | (Some a, Some b) \<Rightarrow> Some (truth_or a b))"
    using assms
  proof (induction states rule: rev_induct)
    case (snoc e es)
    obtain j b t where e: "e = ((j, b), t)" by (metis prod.exhaust)
    have ok: "bmap_ok es" and last: "\<forall>k \<in> fst ` set es. k < (j, b)"
      using snoc.prems by (auto simp: bmap_ok_def sorted_wrt_append e)
    have fresh: "bmap_get es (j, b) = None" "\<not> b \<Longrightarrow> bmap_get es (j, True) = None"
      using last by (force simp: map_of_eq_None_iff le)+
    have get: "bmap_get (es @ [e]) k = (if k = (j, b) then Some t else bmap_get es k)" for k
      using fresh(1) by (auto simp: e map_add_def split: option.splits)
    show ?case
      using snoc.IH [OF ok] fresh
      by (cases b; cases "j = i") (auto simp: best_def e [symmetric] get, auto simp: e split: option.splits)
  qed (simp add: best_def)
  with main [of states] show "bmap_get (join_entries states) i = (case (bmap_get states (i, False), bmap_get states (i, True)) of
       (None, None) \<Rightarrow> None | (Some a, None) \<Rightarrow> Some a | (None, Some b) \<Rightarrow> Some b | (Some a, Some b) \<Rightarrow> Some (truth_or a b))"
    by (simp add: join_entries_def)
qed

definition edge_keys :: "program \<Rightarrow> reach_key list" where
  "edge_keys g = concat (map (\<lambda>e. [(ed_from e, False), (ed_from e, True)]) (pg_edges g))"

lemma reach_succ_count: "length (reach_succ g facts jobs key) \<le> count_list (edge_keys g) key"
proof -
  have map_filter: "length (List.map_filter f xs) \<le> length xs" for f :: "edge \<Rightarrow> (reach_key \<times> truth) option" and xs
    by (induction xs) (auto split: option.split)
  have count: "length (filter (\<lambda>e. ed_from e = fst key \<and> ed_kind e \<in> {EkControl, EkCall}) es)
      \<le> count_list (concat (map (\<lambda>e. [(ed_from e, False), (ed_from e, True)]) es)) key" for es
    by (induction es) (cases key; cases "snd key"; auto)+
  show ?thesis using map_filter count order_trans unfolding reach_succ_def edge_keys_def by blast
qed

lemma edge_keys_potential: "reach_potential (edge_keys g) (\<lambda>_. None) = 4 * length (pg_edges g)"
proof -
  have "sum_list (map (\<lambda>k. budget_left None) (concat (map (\<lambda>e. [(ed_from e, False), (ed_from e, True)]) es))) = 4 * length es"
    for es :: "edge list"
    by (induction es) (simp_all add: budget_left_def)
  then show ?thesis by (simp add: reach_potential_def edge_keys_def)
qed

lemma descendants_spec:
  obtains out where "descendants g facts jobs = Some out" "bmap_ok out"
    "\<And>i. bmap_get out i = Some TTrue \<longleftrightarrow> surely_reached g facts jobs i"
    "\<And>i. bmap_get out i \<in> {None, Some TFalse} \<longleftrightarrow> \<not> possibly_reached g facts jobs i"
proof -
  let ?own = "reach_node g facts" and ?succ = "reach_succ g facts jobs" and ?starts = "reach_starts g jobs"
  have "reach_loop (reach_fuel g (length ?starts)) ?own ?succ ?starts [] \<noteq> None"
    by (rule reach_loop_total [where W = "edge_keys g", OF reach_succ_count]) (simp_all add: reach_fuel_def edge_keys_potential)
  then obtain states where loop: "reach_loop (reach_fuel g (length ?starts)) ?own ?succ ?starts [] = Some states" by blast
  have start: "reach_inv ?own ?succ ?starts ?starts (bmap_get [])"
    by (rule reach_invI) (auto simp: covered_def intro: walk.start)
  have "bmap_ok states \<and> reach_inv ?own ?succ ?starts [] (bmap_get states)"
    by (rule reach_loop_inv [OF loop _ start]) simp
  then have ok: "bmap_ok states" and inv: "reach_inv ?own ?succ ?starts [] (bmap_get states)" by blast+
  have sound: "bmap_get states k = Some w \<Longrightarrow> plan_walk g facts jobs k w" for k w
    unfolding plan_walk_def by (rule reach_invD(1) [OF inv])
  have complete: "plan_walk g facts jobs k v \<Longrightarrow> \<exists>w. bmap_get states k = Some w \<and> truth_rank v \<le> truth_rank w" for k v
    unfolding plan_walk_def by (rule reach_inv_done [OF inv])
  have top: "truth_rank TTrue \<le> truth_rank w \<longleftrightarrow> w = TTrue" for w by (cases w) simp_all
  have sure: "plan_walk g facts jobs k TTrue \<longleftrightarrow> bmap_get states k = Some TTrue" for k
    using sound [of k TTrue] complete [of k TTrue] top by metis
  have possible: "(\<exists>t. t \<noteq> TFalse \<and> plan_walk g facts jobs k t) \<longleftrightarrow> bmap_get states k \<notin> {None, Some TFalse}" for k
  proof
    assume "\<exists>t. t \<noteq> TFalse \<and> plan_walk g facts jobs k t"
    then obtain t w where "t \<noteq> TFalse" "bmap_get states k = Some w" "truth_rank t \<le> truth_rank w" using complete by blast
    then show "bmap_get states k \<notin> {None, Some TFalse}" by auto
  qed (use sound [of k] in auto)
  have or_true: "truth_or a b = TTrue \<longleftrightarrow> a = TTrue \<or> b = TTrue" "truth_or a b = TFalse \<longleftrightarrow> a = TFalse \<and> b = TFalse" for a b
    by (cases a; cases b; simp)+
  note get = join_entries_spec(2) [OF ok]
  have both: "(\<exists>b. P b) \<longleftrightarrow> P False \<or> P True" for P by (metis (full_types))
  show ?thesis
  proof (rule that [of "join_entries states"])
    show "descendants g facts jobs = Some (join_entries states)" by (simp add: descendants_def loop)
    show "bmap_ok (join_entries states)" by (rule join_entries_spec(1) [OF ok])
    show "bmap_get (join_entries states) i = Some TTrue \<longleftrightarrow> surely_reached g facts jobs i" for i
      unfolding surely_reached_def sure get both [of "\<lambda>b. bmap_get states (i, b) = Some TTrue"]
      by (auto simp: or_true split: option.split)
    show "bmap_get (join_entries states) i \<in> {None, Some TFalse} \<longleftrightarrow> \<not> possibly_reached g facts jobs i" for i
      unfolding possibly_reached_def possible get both [of "\<lambda>b. bmap_get states (i, b) \<notin> {None, Some TFalse}"]
      by (auto simp: or_true split: option.split)
  qed
qed

section \<open>The order of execution\<close>

definition order_edge :: "edge \<Rightarrow> bool" where
  "order_edge e \<longleftrightarrow> ed_kind e \<in> {EkControl, EkCall}"

definition ready_ids :: "program \<Rightarrow> node_id list \<Rightarrow> node_id list \<Rightarrow> node_id list \<Rightarrow> node_id list" where
  "ready_ids g selected emitted remaining = filter (\<lambda>i. list_all (\<lambda>e. \<not> order_edge e \<or> ed_to e \<noteq> i \<or> ed_from e \<notin> set selected
     \<or> ed_from e \<in> set emitted) (pg_edges g)) remaining"

definition emit_key :: "program \<Rightarrow> node_id \<Rightarrow> (span \<times> node_kind \<times> string \<times> node_id) option \<times> node_id" where
  "emit_key g i = (map_option (\<lambda>n. (nd_span n, nd_kind n, nd_name n, nd_id n)) (find_node g i), i)"

definition emit_pass :: "program \<Rightarrow> node_id list \<Rightarrow> node_id list \<Rightarrow> node_id list \<Rightarrow> node_id list" where
  "emit_pass g selected emitted remaining =
     (let ready = ready_ids g selected emitted remaining in sort_key (emit_key g) (if ready = [] then remaining else ready))"

lemma emit_pass_nonempty:
  assumes "remaining \<noteq> []"
  shows "emit_pass g selected emitted remaining \<noteq> []" "set (emit_pass g selected emitted remaining) \<subseteq> set remaining"
proof -
  have "set (emit_pass g selected emitted remaining) \<noteq> {}"
    using assms by (auto simp: emit_pass_def Let_def)
  then show "emit_pass g selected emitted remaining \<noteq> []" by auto
  show "set (emit_pass g selected emitted remaining) \<subseteq> set remaining"
    by (auto simp: emit_pass_def Let_def ready_ids_def)
qed

text \<open>\<open>emitted\<close> is in the order of emission; the nodes are looked up at the end, as the code does on the way.\<close>

function emit_loop :: "program \<Rightarrow> node_id list \<Rightarrow> node_id list \<Rightarrow> node_id list \<Rightarrow> node_id list" where
  "emit_loop g selected emitted remaining =
     (if remaining = [] then emitted
      else let pass = emit_pass g selected emitted remaining in
        emit_loop g selected (emitted @ pass) (filter (\<lambda>i. i \<notin> set pass) remaining))"
  by pat_completeness auto

termination
proof (relation "measure (\<lambda>(g, selected, emitted, remaining). length remaining)")
  fix g selected emitted remaining pass
  assume remaining: "remaining \<noteq> ([] :: node_id list)" and pass: "pass = emit_pass g selected emitted remaining"
  obtain x where "x \<in> set pass" "x \<in> set remaining"
    using emit_pass_nonempty [OF remaining, of g selected emitted] pass by (metis hd_in_set subsetD)
  then have "length (filter (\<lambda>i. i \<notin> set pass) remaining) < length remaining" by (intro length_filter_less) auto
  then show "((g, selected, emitted @ pass, filter (\<lambda>i. i \<notin> set pass) remaining), g, selected, emitted, remaining)
      \<in> measure (\<lambda>(g, selected, emitted, remaining). length remaining)" by simp
qed simp

declare emit_loop.simps [simp del]

definition emit_order :: "program \<Rightarrow> node_id list \<Rightarrow> node_id list" where
  "emit_order g selected = emit_loop g selected [] selected"

definition topological_nodes :: "program \<Rightarrow> node_id list \<Rightarrow> node list" where
  "topological_nodes g selected = List.map_filter (find_node g) (emit_order g selected)"

text \<open>The edges that order the selected nodes.\<close>

definition runs_before :: "program \<Rightarrow> node_id list \<Rightarrow> (node_id \<times> node_id) set" where
  "runs_before g selected = {(ed_from e, ed_to e) | e. e \<in> set (pg_edges g) \<and> order_edge e
     \<and> ed_from e \<in> set selected \<and> ed_to e \<in> set selected}"

lemma finite_runs_before: "finite (runs_before g selected)"
proof -
  have "runs_before g selected \<subseteq> (\<lambda>e. (ed_from e, ed_to e)) ` set (pg_edges g)" by (auto simp: runs_before_def)
  then show ?thesis by (rule finite_subset) simp
qed

lemma ready_ids_iff:
  assumes "set remaining \<subseteq> set selected"
  shows "i \<in> set (ready_ids g selected emitted remaining) \<longleftrightarrow>
    i \<in> set remaining \<and> (\<forall>j. (j, i) \<in> runs_before g selected \<longrightarrow> j \<in> set emitted)"
  using assms by (auto simp: ready_ids_def list_all_iff runs_before_def)

lemma emit_loop_perm:
  assumes "distinct (emitted @ remaining)"
  shows "distinct (emit_loop g selected emitted remaining) \<and> set (emit_loop g selected emitted remaining) = set emitted \<union> set remaining"
  using assms
proof (induction g selected emitted remaining rule: emit_loop.induct)
  case (1 g selected emitted remaining)
  let ?pass = "emit_pass g selected emitted remaining"
  show ?case
  proof (cases "remaining = []")
    case False
    have sub: "set ?pass \<subseteq> set remaining" by (rule emit_pass_nonempty(2) [OF False])
    have "distinct ?pass" using "1.prems" by (simp add: emit_pass_def Let_def ready_ids_def)
    then have next_ok: "distinct ((emitted @ ?pass) @ filter (\<lambda>i. i \<notin> set ?pass) remaining)" using "1.prems" sub by auto
    show ?thesis using "1.IH" [OF False refl next_ok] sub False
      by (subst emit_loop.simps, subst (2) emit_loop.simps) (auto simp: Let_def)
  qed (use "1.prems" in \<open>simp add: emit_loop.simps\<close>)
qed

lemma emit_pass_forward:
  assumes "acyclic (runs_before g selected)" "remaining \<noteq> []" "set emitted \<union> set remaining = set selected"
    and x: "x \<in> set (emit_pass g selected emitted remaining)" and edge: "(y, x) \<in> runs_before g selected"
  shows "y \<in> set emitted"
proof -
  have sub: "set remaining \<subseteq> set selected" using assms(3) by blast
  have wf: "wf (runs_before g selected)" by (rule finite_acyclic_wf [OF finite_runs_before assms(1)])
  obtain z where "z \<in> set remaining" "\<And>y. (y, z) \<in> runs_before g selected \<Longrightarrow> y \<notin> set remaining"
    using assms(2) by (metis list.set_intros(1) neq_Nil_conv wfE_min [OF wf, of _ "set remaining"])
  then have "z \<in> set (ready_ids g selected emitted remaining)"
    using assms(3) unfolding ready_ids_iff [OF sub] by (auto simp: runs_before_def)
  then have "ready_ids g selected emitted remaining \<noteq> []" by auto
  then have "x \<in> set (ready_ids g selected emitted remaining)" using x by (simp add: emit_pass_def Let_def)
  with edge show ?thesis by (simp add: ready_ids_iff [OF sub])
qed

lemma emit_loop_forward:
  assumes "acyclic (runs_before g selected)" "distinct (emitted @ remaining)" "set emitted \<union> set remaining = set selected"
    "sorted_wrt (\<lambda>x y. (y, x) \<notin> runs_before g selected) emitted"
    "\<And>x y. x \<in> set emitted \<Longrightarrow> y \<in> set remaining \<Longrightarrow> (y, x) \<notin> runs_before g selected"
  shows "sorted_wrt (\<lambda>x y. (y, x) \<notin> runs_before g selected) (emit_loop g selected emitted remaining)"
  using assms
proof (induction g selected emitted remaining rule: emit_loop.induct)
  case (1 g selected emitted remaining)
  let ?pass = "emit_pass g selected emitted remaining" and ?R = "runs_before g selected"
  show ?case
  proof (cases "remaining = []")
    case False
    have sub: "set ?pass \<subseteq> set remaining" by (rule emit_pass_nonempty(2) [OF False])
    note forward = emit_pass_forward [OF "1.prems"(1) False "1.prems"(3)]
    have "distinct ?pass" using "1.prems"(2) by (simp add: emit_pass_def Let_def ready_ids_def)
    then have next_ok: "distinct ((emitted @ ?pass) @ filter (\<lambda>i. i \<notin> set ?pass) remaining)" using "1.prems"(2) sub by auto
    have disjoint: "set emitted \<inter> set remaining = {}" using "1.prems"(2) by simp
    have late: "(y, x) \<notin> ?R" if "x \<in> set ?pass" "y \<in> set remaining" for x y
      using forward [OF that(1)] that(2) disjoint by blast
    have "sorted_wrt (\<lambda>x y. (y, x) \<notin> ?R) ?pass"
      by (rule sorted_wrt_mono_rel [of _ "\<lambda>_ _. True"]) (use late sub in auto)
    then have sorted: "sorted_wrt (\<lambda>x y. (y, x) \<notin> ?R) (emitted @ ?pass)"
      using "1.prems"(4,5) sub by (auto simp: sorted_wrt_append)
    have split: "set (emitted @ ?pass) \<union> set (filter (\<lambda>i. i \<notin> set ?pass) remaining) = set selected"
      using "1.prems"(3) sub by auto
    have cross: "(y, x) \<notin> ?R" if "x \<in> set (emitted @ ?pass)" "y \<in> set (filter (\<lambda>i. i \<notin> set ?pass) remaining)" for x y
      using that late "1.prems"(5) by auto
    show ?thesis
      using "1.IH" [OF False refl "1.prems"(1) next_ok split sorted cross] False by (subst emit_loop.simps) (simp add: Let_def)
  qed (use "1.prems" in \<open>simp add: emit_loop.simps\<close>)
qed

text \<open>
  C19. The order of execution contains every selected node exactly once, cycles or not; when the control
  and call edges among them form no cycle, no node comes after one that its edge leads to.
\<close>

theorem emit_order_topological:
  assumes "distinct selected" "acyclic (runs_before g selected)"
  shows "distinct (emit_order g selected) \<and> set (emit_order g selected) = set selected
    \<and> sorted_wrt (\<lambda>x y. (y, x) \<notin> runs_before g selected) (emit_order g selected)"
  using emit_loop_perm [of "[]" selected g selected] emit_loop_forward [of g selected "[]" selected] assms
  by (simp add: emit_order_def)

definition sample_jobs :: program where
  "sample_jobs = add_edge (edge_simple EkControl 1 0)
     (add_node (node_simple 1 PrGithub NkJob ''b'' PhRun default_span)
       (add_node (node_simple 0 PrGithub NkCommand ''a'' PhRun default_span) (program_empty PrGithub ''ci.yml'')))"

lemma sample_runs_before: "runs_before sample_jobs [0, 1] = {(1, 0)}"
  by (auto simp: runs_before_def sample_jobs_def order_edge_def add_edge_def add_node_def edge_simple_def edge_new_def program_empty_def)

lemma emit_order_topological_witness: "emit_order sample_jobs [0, 1] = [1, 0]"
proof -
  have "acyclic (runs_before sample_jobs [0, 1])" unfolding sample_runs_before by (rule wf_acyclic) (simp add: wf_insert)
  from emit_order_topological [OF _ this]
  have all: "distinct (emit_order sample_jobs [0, 1])" "set (emit_order sample_jobs [0, 1]) = {0, 1}"
    and sorted: "sorted_wrt (\<lambda>x y. (y, x) \<notin> {(1, 0)}) (emit_order sample_jobs [0, 1])"
    unfolding sample_runs_before by simp_all
  have "length (emit_order sample_jobs [0, 1]) = 2" using distinct_card [OF all(1)] all(2) by simp
  then obtain x y where xy: "emit_order sample_jobs [0, 1] = [x, y]" by (auto simp: numeral_2_eq_2 length_Suc_conv)
  have "{x, y} = {0, 1}" using all(2) by (simp only: xy list.set)
  then have "(x = 0 \<and> y = 1) \<or> (x = 1 \<and> y = 0)" by (simp only: doubleton_eq_iff)
  moreover have "\<not> (x = 0 \<and> y = 1)" using sorted unfolding xy by auto
  ultimately show ?thesis unfolding xy by blast
qed

text \<open>
  The closure of a job, which always ends, is the job itself and exactly the jobs it waits for through control edges,
  directly or through other jobs.
\<close>

theorem job_closure_exact: "set (the (job_closure g selected)) = (waits_for g)\<^sup>* `` {selected} \<and> job_closure g selected \<noteq> None"
proof -
  obtain s where "job_closure g selected = Some s" "set s = (waits_for g)\<^sup>* `` {selected}" using job_closure_spec by blast
  then show ?thesis by simp
qed

text \<open>
  C18. The worklist ends within its fuel on every graph, and gives a node the truth of the best walk to it: true exactly for the
  nodes reached through conditions that are all true under the facts, false or nothing exactly for those with a false
  condition on every walk. The walks follow control and call edges from the jobs or their gates, and enter a job outside
  the closure only after a local call.
\<close>

theorem descendants_exact:
  "\<exists>out. descendants g facts jobs = Some out
    \<and> (\<forall>i. (bmap_get out i = Some TTrue \<longleftrightarrow> surely_reached g facts jobs i)
       \<and> (bmap_get out i \<in> {None, Some TFalse} \<longleftrightarrow> \<not> possibly_reached g facts jobs i))"
proof (rule descendants_spec [of g facts jobs])
  fix out
  assume out: "descendants g facts jobs = Some out"
    "\<And>i. bmap_get out i = Some TTrue \<longleftrightarrow> surely_reached g facts jobs i"
    "\<And>i. bmap_get out i \<in> {None, Some TFalse} \<longleftrightarrow> \<not> possibly_reached g facts jobs i"
  show ?thesis by (rule exI [of _ out]) (simp only: out simp_thms)
qed

end
