(* ===== verification/Planner.thy ===== *)
theory Planner
  imports Job_Graph Compose Scenario Scripts
begin

text \<open>
  Planning a scenario (\<^verbatim>\<open>src/sandbox/planner.rs\<close>): the entry job is looked up in the compiled graphs, the graphs are
  composed, the jobs it depends on and what they reach under the facts of the scenario are selected, and each reached
  command becomes a step of the runner or a reason why the plan is incomplete.
\<close>

section \<open>Text\<close>

text \<open>\<^verbatim>\<open>str::replace\<close> for a pattern that is not empty: matches are taken from the left and do not overlap.\<close>

fun str_replace :: "string \<Rightarrow> string \<Rightarrow> nat \<Rightarrow> string \<Rightarrow> string" where
  "str_replace needle value' skip [] = []"
| "str_replace needle value' (Suc skip) (c # s) = str_replace needle value' skip s"
| "str_replace needle value' 0 (c # s) =
     (if prefix needle (c # s) then value' @ str_replace needle value' (length needle - 1) s
      else c # str_replace needle value' 0 s)"

abbreviation replace_all :: "string \<Rightarrow> string \<Rightarrow> string \<Rightarrow> string" where
  "replace_all needle value' s \<equiv> str_replace needle value' 0 s"

lemma replace_absent: "\<not> sublist needle s \<Longrightarrow> replace_all needle value' s = s"
  by (induction s) (auto simp: sublist_Cons_right)

definition span_display :: "span \<Rightarrow> string" where
  "span_display s = ''source '' @ dec_nat (sp_source s) @ '':'' @ dec_nat (pos_line (sp_start s)) @ '':'' @ dec_nat (pos_column (sp_start s))"

section \<open>Facts of a scenario\<close>

definition source_matches :: "string \<Rightarrow> string \<Rightarrow> bool" where
  "source_matches expected actual =
     (let expected = normalize_slashes expected; actual = normalize_slashes actual in
      actual = expected \<or> suffix (''/'' @ expected) actual)"

definition quoted_in :: "string \<Rightarrow> char \<Rightarrow> string option" where
  "quoted_in lower quote = (case split_once quote lower of
       None \<Rightarrow> None
     | Some (_, tail) \<Rightarrow> map_option fst (split_once quote tail))"

definition scenario_fact :: "scenario \<Rightarrow> string \<Rightarrow> bool option" where
  "scenario_fact sc atom =
     (let lower = ascii_lowercase atom in
      if str_contains lower ''github.event_name'' \<or> str_contains lower ''ci_pipeline_source''
      then map_option (\<lambda>expected.
             let equal = ascii_lowercase (sc_event sc) = ascii_lowercase expected in
             if str_contains lower ''!='' then \<not> equal else equal)
           (find_map (quoted_in lower) [CHR 0x27, CHR 0x22])
      else None)"

section \<open>Steps\<close>

definition attribute_constant :: "node \<Rightarrow> string \<Rightarrow> string option" where
  "attribute_constant n name = (case Option.bind (bmap_get (nd_attributes n) name) constants of
       Some [value'] \<Rightarrow> Some value' | _ \<Rightarrow> None)"

text \<open>Every expression of a binding, replaced one after the other.\<close>

definition replace_each :: "(string \<Rightarrow> string list) \<Rightarrow> ('a \<Rightarrow> string) \<Rightarrow> (string \<times> 'a) list \<Rightarrow> string \<Rightarrow> string" where
  "replace_each expressions render bindings source' =
     fold (\<lambda>(name, value') out. fold (\<lambda>e out. replace_all e (render value') out) (expressions name) out) bindings source'"

definition input_expressions :: "string \<Rightarrow> string list" where
  "input_expressions name =
     [''${{ inputs.'' @ name @ '' }}'', ''${{inputs.'' @ name @ ''}}'', ''${{ parameters.'' @ name @ '' }}'',
      ''<< pipeline.parameters.'' @ name @ '' >>'', ''<< parameters.'' @ name @ '' >>'']"

definition matrix_expressions :: "string \<Rightarrow> string list" where
  "matrix_expressions name = [''${{ matrix.'' @ name @ '' }}'', ''${{matrix.'' @ name @ ''}}'']"

definition variable_expressions :: "string \<Rightarrow> string list" where
  "variable_expressions name =
     [''${{ vars.'' @ name @ '' }}'', ''${{ variables.'' @ name @ '' }}'', ''$[ variables.'' @ name @ '' ]'',
      ''${{ '' @ name @ '' }}'', ''${{'' @ name @ ''}}'']"

definition secret_expressions :: "string \<Rightarrow> string list" where
  "secret_expressions name = [''${{ secrets.'' @ name @ '' }}'', ''${{secrets.'' @ name @ ''}}'']"

fun matrix_text :: "json \<Rightarrow> string" where
  "matrix_text (JString value') = value'"
| "matrix_text (JBoolean value') = (if value' then ''true'' else ''false'')"
| "matrix_text (JInteger value') = dec_i64 value'"
| "matrix_text _ = []"

definition secret_expansion :: "string \<Rightarrow> string \<Rightarrow> string" where
  "secret_expansion shell name =
     (if shell \<in> {''pwsh'', ''powershell''} then ''$env:'' @ name
      else if shell \<in> {''cmd'', ''cmd.exe''} then ''%'' @ name @ ''%''
      else CHR 0x22 # ''${'' @ name @ ''}'' @ [CHR 0x22])"

definition concretize :: "scenario \<Rightarrow> string \<Rightarrow> string \<Rightarrow> string" where
  "concretize sc shell source' =
     replace_each secret_expressions (secret_expansion shell) (map (\<lambda>name. (name, name)) (sc_secret_names sc))
      (replace_each variable_expressions id (sc_variables sc)
        (replace_each matrix_expressions matrix_text (sc_matrix sc)
          (replace_each input_expressions id (sc_inputs sc) source')))"

definition shell_argv :: "string \<Rightarrow> string \<Rightarrow> string \<Rightarrow> string list \<times> bool" where
  "shell_argv os shell command =
     (if os \<in> {''linux'', ''macos''} \<and> shell \<in> {''default'', ''bash''} then
        ([''/bin/bash'', ''-euo'', ''pipefail'', ''-c'', command], True)
      else if os \<in> {''linux'', ''macos''} \<and> shell \<in> {''sh'', ''posix''} then ([''/bin/sh'', ''-eu'', ''-c'', command], True)
      else if os = ''windows'' \<and> shell \<in> {''default'', ''pwsh'', ''powershell''} then
        ([''pwsh.exe'', ''-NoLogo'', ''-NonInteractive'', ''-Command'', command], True)
      else if os = ''windows'' \<and> shell \<in> {''cmd'', ''cmd.exe''} then ([''cmd.exe'', ''/D'', ''/S'', ''/C'', command], True)
      else if shell \<in> {''python'', ''python3'', ''pwsh'', ''powershell''} then
        ([''<capsule-tool-not-declared>'', shell, command], False)
      else ([''<unsupported-shell>'', shell, command], False))"

definition shell_of :: "node \<Rightarrow> string" where
  "shell_of n = ascii_lowercase (case attribute_constant n ''shell'' of None \<Rightarrow> ''default'' | Some s \<Rightarrow> s)"

definition unresolved_markers :: "string \<Rightarrow> bool" where
  "unresolved_markers command \<longleftrightarrow> str_contains command ''${{'' \<or> str_contains command ''$[['' \<or> str_contains command ''<<''"

definition shell_step :: "scenario \<Rightarrow> string \<Rightarrow> node \<Rightarrow> run_step" where
  "shell_step sc img n =
     (let shell = shell_of n;
          command = concretize sc shell (nd_name n);
          unresolved = unresolved_markers command;
          (argv, supported) = shell_argv (platform_os (sc_runner_platform sc)) shell command;
          directory = normalize_slashes (case attribute_constant n ''working_directory'' of None \<Rightarrow> ''/workspace'' | Some d \<Rightarrow> d);
          confined = (directory = ''/workspace'' \<or> str_starts_with directory ''/workspace/'')
      in \<lparr>rs_id = dec_nat (nd_id n), rs_image = img, rs_argv = argv, rs_environment = sc_variables sc,
          rs_working_directory = directory, rs_supported = (supported \<and> confined \<and> \<not> unresolved)\<rparr>)"

definition unsupported_reason :: "node \<Rightarrow> string option" where
  "unsupported_reason n =
     (let place = '' at '' @ span_display (nd_span n) @ '': '' @ nd_name n in
      if nd_kind n = NkCall \<and> nd_unknown n \<noteq> None then Some (''Incomplete.Unresolved_call'' @ place)
      else if nd_kind n = NkOpaque \<and> nd_phase n = PhRun then Some (''Incomplete.Unsupported_feature'' @ place)
      else if nd_kind n = NkResource
        \<and> list_ex (str_contains (ascii_lowercase (nd_name n))) [''service'', ''cache'', ''artifact'', ''deployment'']
        then Some (''Incomplete.Unsupported_feature'' @ place)
      else None)"

section \<open>The plan\<close>

record scenario_plan =
  spl_steps :: "run_step list"
  spl_selected_jobs :: "string list"
  spl_incomplete_reasons :: "string list"

definition entry_job :: "scenario \<Rightarrow> program list \<Rightarrow> string + node_id" where
  "entry_job sc gs =
     (case filter (\<lambda>g. program_provider g = sc_provider sc \<and> source_matches (sc_workflow_entrypoint sc) (source_path g)) gs of
        [] \<Rightarrow> Inl (''scenario workflow entrypoint was not compiled: '' @ sc_workflow_entrypoint sc)
      | [entry] \<Rightarrow>
          (case filter (\<lambda>n. nd_kind n = NkJob \<and> nd_name n = sc_job sc) (pg_nodes entry) of
             [] \<Rightarrow> Inl (''scenario job was not found: '' @ sc_job sc)
           | [job] \<Rightarrow>
               (let program = compose_program gs in
                case find (\<lambda>n. nd_kind n = NkJob \<and> nd_name n = nd_name job
                    \<and> (case source_path_for program (sp_source (nd_span n)) of
                         None \<Rightarrow> False | Some path \<Rightarrow> source_matches (sc_workflow_entrypoint sc) path)) (pg_nodes program) of
                  None \<Rightarrow> Inl ''selected job disappeared during program composition''
                | Some selected \<Rightarrow> Inr (nd_id selected))
           | _ \<Rightarrow> Inl (''scenario job is ambiguous: '' @ sc_job sc))
      | _ \<Rightarrow> Inl (''scenario workflow entrypoint is ambiguous: '' @ sc_workflow_entrypoint sc))"

text \<open>What one node of the order adds: its step, if any, and its reasons.\<close>

definition plan_node :: "scenario \<Rightarrow> string \<Rightarrow> (node_id, truth) bmap \<Rightarrow> node \<Rightarrow> run_step list \<times> string list" where
  "plan_node sc img reachability n =
     (let truth = (case bmap_get reachability (nd_id n) of None \<Rightarrow> TFalse | Some t \<Rightarrow> t);
          reasons = (if truth = TFalse then [] else case unsupported_reason n of None \<Rightarrow> [] | Some reason \<Rightarrow> [reason])
      in case (nd_kind n, truth) of
        (NkCommand, TTrue) \<Rightarrow>
          (let step = shell_step sc img n in
           ([step], reasons @ (if rs_supported step then []
              else [''Incomplete.Unsupported_shell at '' @ span_display (nd_span n) @ '': '' @ nd_name n])))
      | (NkCommand, truth.TUnknown) \<Rightarrow> ([], reasons @ [''Incomplete.Unknown_expression at '' @ span_display (nd_span n)])
      | _ \<Rightarrow> ([], reasons))"

definition plan_from :: "scenario \<Rightarrow> string \<Rightarrow> program \<Rightarrow> node_id list \<Rightarrow> (node_id, truth) bmap \<Rightarrow> scenario_plan" where
  "plan_from sc img program job_ids reachability =
     (let selected_ids = map fst (filter (\<lambda>(i, truth). truth \<noteq> TFalse) reachability);
          planned = map (plan_node sc img reachability) (topological_nodes program selected_ids)
      in \<lparr>spl_steps = concat (map fst planned),
          spl_selected_jobs = remdups_adj (sort (map nd_name
            (List.map_filter (\<lambda>i. find (\<lambda>n. nd_id n = i) (pg_nodes program)) job_ids))),
          spl_incomplete_reasons = remdups_adj (sort (concat (map snd planned)))\<rparr>)"

text \<open>\<open>None\<close> stands for a closure or a worklist that has used up its fuel; \<open>plan_scenario_exact\<close> shows that there is none.\<close>

definition plan_scenario :: "scenario \<Rightarrow> string \<Rightarrow> program list \<Rightarrow> (string + scenario_plan) option" where
  "plan_scenario sc img gs =
     (case entry_job sc gs of
        Inl e \<Rightarrow> Some (Inl e)
      | Inr selected \<Rightarrow>
          (let program = compose_program gs in
           Option.bind (job_closure program selected) (\<lambda>job_ids.
             map_option (\<lambda>reachability. Inr (plan_from sc img program job_ids reachability))
               (descendants program (scenario_fact sc) job_ids))))"

section \<open>What the plan covers\<close>

text \<open>A node the plan cannot carry out as it stands.\<close>

definition plan_gap :: "scenario \<Rightarrow> string \<Rightarrow> program \<Rightarrow> node_id list \<Rightarrow> node \<Rightarrow> bool" where
  "plan_gap sc img g jobs n \<longleftrightarrow> unsupported_reason n \<noteq> None
     \<or> nd_kind n = NkCommand \<and> \<not> (surely_reached g (scenario_fact sc) jobs (nd_id n) \<and> rs_supported (shell_step sc img n))"

lemma find_node_id: "find_node g i = Some n \<Longrightarrow> nd_id n = i"
  by (auto simp: find_node_def find_Some_iff split: if_splits)

lemma plan_node_steps:
  "fst (plan_node sc img reach n) =
     (if nd_kind n = NkCommand \<and> bmap_get reach (nd_id n) = Some TTrue then [shell_step sc img n] else [])"
  by (auto simp: plan_node_def Let_def split: option.split truth.split node_kind.split)

lemma plan_node_reasons:
  assumes "bmap_get reach (nd_id n) \<notin> {None, Some TFalse}"
  shows "snd (plan_node sc img reach n) = [] \<longleftrightarrow> unsupported_reason n = None
    \<and> (nd_kind n = NkCommand \<longrightarrow> bmap_get reach (nd_id n) = Some TTrue \<and> rs_supported (shell_step sc img n))"
  using assms by (auto simp: plan_node_def Let_def split: option.splits truth.splits node_kind.splits)

lemma concat_if_map: "concat (map (\<lambda>x. if P x then [f x] else []) xs) = map f (filter P xs)"
  by (induction xs) auto

lemma dec_nat_inj: "dec_nat m = dec_nat n \<longleftrightarrow> m = n"
  by (metis dec_nat_value)

lemma topological_ids:
  assumes "\<And>i. i \<in> set selected \<Longrightarrow> find_node g i \<noteq> None" "distinct selected"
  shows "map nd_id (topological_nodes g selected) = emit_order g selected"
    "n \<in> set (topological_nodes g selected) \<longleftrightarrow> nd_id n \<in> set selected \<and> find_node g (nd_id n) = Some n"
proof -
  have order: "distinct (emit_order g selected)" "set (emit_order g selected) = set selected"
    using emit_loop_perm [of "[]" selected g selected] assms(2) by (simp_all add: emit_order_def)
  have "map nd_id (List.map_filter (find_node g) is) = is" if "set is \<subseteq> set selected" for "is"
    using that assms(1) by (induction "is") (fastforce simp: find_node_id split: option.split)+
  then show "map nd_id (topological_nodes g selected) = emit_order g selected"
    by (simp add: topological_nodes_def order)
  show "n \<in> set (topological_nodes g selected) \<longleftrightarrow> nd_id n \<in> set selected \<and> find_node g (nd_id n) = Some n"
    by (auto simp: topological_nodes_def set_map_filter order(2) dest: find_node_id)
qed

lemma reached_found:
  assumes "possibly_reached g facts jobs i"
  shows "find_node g i \<noteq> None"
  using assms walk_exists unfolding possibly_reached_def plan_walk_def by (fastforce simp: reach_node_def)

lemma plan_from_exact:
  assumes reach: "descendants g (scenario_fact sc) jobs = Some reach"
  shows "\<exists>selected. distinct selected \<and> set selected = {i. possibly_reached g (scenario_fact sc) jobs i}
    \<and> spl_steps (plan_from sc img g jobs reach) = map (shell_step sc img)
         (filter (\<lambda>n. nd_kind n = NkCommand \<and> surely_reached g (scenario_fact sc) jobs (nd_id n)) (topological_nodes g selected))
    \<and> distinct (map rs_id (spl_steps (plan_from sc img g jobs reach)))
    \<and> (spl_incomplete_reasons (plan_from sc img g jobs reach) = []
         \<longleftrightarrow> {n. find_node g (nd_id n) = Some n \<and> possibly_reached g (scenario_fact sc) jobs (nd_id n) \<and> plan_gap sc img g jobs n} = {})"
proof -
  let ?facts = "scenario_fact sc" and ?plan = "plan_from sc img g jobs reach"
  define selected where "selected = map fst (filter (\<lambda>(i, truth). truth \<noteq> TFalse) reach)"
  have ok: "bmap_ok reach" and sure: "\<And>i. bmap_get reach i = Some TTrue \<longleftrightarrow> surely_reached g ?facts jobs i"
    and possible: "\<And>i. bmap_get reach i \<in> {None, Some TFalse} \<longleftrightarrow> \<not> possibly_reached g ?facts jobs i"
    by (rule descendants_spec [of g ?facts jobs], simp add: reach)+
  have keys: "distinct (map fst reach)" using ok by (auto simp: bmap_ok_def strict_sorted_iff)
  have set: "set selected = {i. possibly_reached g ?facts jobs i}"
  proof -
    have "i \<in> set selected \<longleftrightarrow> (\<exists>t. bmap_get reach i = Some t \<and> t \<noteq> TFalse)" for i
      by (auto simp: selected_def map_of_eq_Some_iff [OF keys] image_iff)
    then have "i \<in> set selected \<longleftrightarrow> bmap_get reach i \<notin> {None, Some TFalse}" for i by (cases "bmap_get reach i") auto
    then have "i \<in> set selected \<longleftrightarrow> possibly_reached g ?facts jobs i" for i unfolding possible by simp
    then show ?thesis by blast
  qed
  have distinct: "distinct selected" using keys unfolding selected_def by (simp add: distinct_map_filter)
  note nodes = topological_ids [where g = g and selected = selected, OF _ distinct]
  have found: "find_node g i \<noteq> None" if "i \<in> set selected" for i using that reached_found set by blast
  let ?nodes = "topological_nodes g selected"
  have steps: "spl_steps ?plan = map (shell_step sc img) (filter (\<lambda>n. nd_kind n = NkCommand \<and> surely_reached g ?facts jobs (nd_id n)) ?nodes)"
    by (simp add: plan_from_def Let_def selected_def [symmetric] comp_def plan_node_steps sure concat_if_map)
  have ids: "map rs_id (map (shell_step sc img) ns) = map dec_nat (map nd_id ns)" for ns
    by (simp add: shell_step_def Let_def split_beta)
  have "distinct (map nd_id ?nodes)" using emit_loop_perm [of "[]" selected g selected] distinct
    by (simp add: nodes(1) [OF found] emit_order_def)
  then have unique: "distinct (map rs_id (spl_steps ?plan))"
    unfolding steps ids by (simp add: distinct_map inj_on_def dec_nat_inj)
  have "spl_incomplete_reasons ?plan = [] \<longleftrightarrow> (\<forall>n \<in> set ?nodes. snd (plan_node sc img reach n) = [])"
    by (simp add: plan_from_def Let_def selected_def [symmetric] flip: set_empty)
  also have "\<dots> \<longleftrightarrow> (\<forall>n \<in> set ?nodes. \<not> plan_gap sc img g jobs n)"
  proof (rule ball_cong [OF refl])
    fix n
    assume "n \<in> set ?nodes"
    then have "bmap_get reach (nd_id n) \<notin> {None, Some TFalse}" using nodes(2) [OF found] set possible by blast
    from plan_node_reasons [OF this, of sc img] show "snd (plan_node sc img reach n) = [] \<longleftrightarrow> \<not> plan_gap sc img g jobs n"
      by (simp add: plan_gap_def sure)
  qed
  also have "\<dots> \<longleftrightarrow> {n. find_node g (nd_id n) = Some n \<and> possibly_reached g ?facts jobs (nd_id n) \<and> plan_gap sc img g jobs n} = {}"
    using nodes(2) [OF found] set by blast
  finally show ?thesis using set distinct steps unique by blast
qed

text \<open>
  C17. Planning always ends, and fails exactly when the entry job cannot be determined. A plan's steps are the commands
  that are surely reached under the scenario's facts from the closure of the entry job, one step each, in the order of execution
  of the possibly reached nodes; and nothing is left out silently: the plan is free of reasons for incompleteness exactly if
  no possibly reached node is an unresolved call, unsupported work, a command that may be skipped or a
  command without a supported step.
\<close>

theorem plan_scenario_exact:
  "case plan_scenario sc img gs of
     None \<Rightarrow> False
   | Some (Inl e) \<Rightarrow> entry_job sc gs = Inl e
   | Some (Inr p) \<Rightarrow> (\<exists>entry jobs selected. entry_job sc gs = Inr entry \<and> set jobs = (waits_for (compose_program gs))\<^sup>* `` {entry}
       \<and> distinct selected \<and> set selected = {i. possibly_reached (compose_program gs) (scenario_fact sc) jobs i}
       \<and> spl_steps p = map (shell_step sc img) (filter (\<lambda>n. nd_kind n = NkCommand
            \<and> surely_reached (compose_program gs) (scenario_fact sc) jobs (nd_id n)) (topological_nodes (compose_program gs) selected))
       \<and> distinct (map rs_id (spl_steps p))
       \<and> (spl_incomplete_reasons p = [] \<longleftrightarrow> {n. find_node (compose_program gs) (nd_id n) = Some n
            \<and> possibly_reached (compose_program gs) (scenario_fact sc) jobs (nd_id n) \<and> plan_gap sc img (compose_program gs) jobs n} = {}))"
proof (cases "entry_job sc gs")
  case (Inr entry)
  let ?g = "compose_program gs"
  obtain jobs where jobs: "job_closure ?g entry = Some jobs" "set jobs = (waits_for ?g)\<^sup>* `` {entry}"
    using job_closure_spec by blast
  have "descendants ?g (scenario_fact sc) jobs \<noteq> None" by (rule descendants_spec [of ?g "scenario_fact sc" jobs]) simp
  then obtain reach where reach: "descendants ?g (scenario_fact sc) jobs = Some reach" by blast
  have "plan_scenario sc img gs = Some (Inr (plan_from sc img ?g jobs reach))"
    by (simp add: plan_scenario_def Inr jobs(1) reach)
  with plan_from_exact [OF reach, of img] Inr jobs(2) show ?thesis by auto
qed (simp add: plan_scenario_def)

section \<open>A limit of the facts\<close>

text \<open>The operator of an atom is not read: a test for a substring of the event is answered as if it were an equality.\<close>

lemma fact_reads_every_operator_as_equality:
  "scenario_fact (sample_scenario H) (''contains(github.event_name,'' @ [CHR 0x22] @ ''pus'' @ [CHR 0x22] @ '')'') = Some False"
proof -
  have "sc_event (sample_scenario H) = ''push''" by (simp add: sample_scenario_def refresh_digest_def)
  then show ?thesis by (simp add: scenario_fact_def) code_simp
qed

end
