(* ===== verification/Source_Manifest.thy ===== *)
theory Source_Manifest
  imports Scenario Compose
begin

text \<open>
  Source manifests (\<^verbatim>\<open>src/sandbox/source_manifest.rs\<close>): the snapshot of the files a run may see, with the checks that keep
  it inside its root, free of collisions and within its budget, and the authenticated document. The hash is
  \<open>H\<close>; \<open>key\<close> is \<^verbatim>\<open>portable_path_key\<close>, the Unicode normalisation and case folding of two
  third-party crates.
\<close>

section \<open>Files and entries\<close>

record manifest_budget =
  mb_max_file_bytes :: nat
  mb_max_entries :: nat
  mb_max_snapshot_bytes :: nat

definition published_budget :: manifest_budget where
  "published_budget = \<lparr>mb_max_file_bytes = 16777216, mb_max_entries = 100000, mb_max_snapshot_bytes = 4294967296\<rparr>"

datatype source_kind = SkRegular string bool | SkSymlink string

record source_file =
  sf_path :: string
  sf_kind :: source_kind
  sf_identity :: "string option"

datatype manifest_entry_kind = MekRegular | MekSymlink

fun entry_kind_name :: "manifest_entry_kind \<Rightarrow> string" where
  "entry_kind_name MekRegular = ''regular''"
| "entry_kind_name MekSymlink = ''symlink''"

record manifest_entry =
  me_path :: string
  me_kind :: manifest_entry_kind
  me_executable :: bool
  me_size :: nat
  me_digest :: string
  me_target :: "string option"
  me_identity :: "string option"

record manifest_exclusion =
  mx_path :: string
  mx_reason :: string

record source_manifest =
  mf_entries :: "manifest_entry list"
  mf_exclusions :: "manifest_exclusion list"
  mf_exclusion_policy_digest :: string
  mf_total_size :: nat
  mf_digest :: string

section \<open>Paths\<close>

definition generated_directories :: "string list" where
  "generated_directories = [''.git'', ''.workflow-verifier'', ''.workflow-verifier-cache'', ''.workflow-verifier-output'']"

definition trim_slashes_end :: "string \<Rightarrow> string" where
  "trim_slashes_end s = rev (dropWhile (\<lambda>c. c = CHR ''/'') (rev s))"

definition normalize_root :: "string \<Rightarrow> string" where
  "normalize_root root = trim_slashes_end (normalize_slashes root)"

definition relative_to :: "string \<Rightarrow> string \<Rightarrow> string + string" where
  "relative_to root path =
     (let path = trim_dot_slash (normalize_slashes path) in
      and_then (if root \<in> {'''', ''.''} then Inr path
                else case strip_prefix (root @ ''/'') path of
                  Some relative \<Rightarrow> Inr relative
                | None \<Rightarrow> Inl (''source path escapes or equals manifest root: '' @ path))
       (\<lambda>relative. case public_path_new relative of
            Inl _ \<Rightarrow> Inl (''source path is not a safe relative path: '' @ relative)
          | Inr _ \<Rightarrow> Inr relative))"

definition generated :: "string \<Rightarrow> bool" where
  "generated path \<longleftrightarrow> list_ex (\<lambda>segment. list_ex (\<lambda>g. ascii_lowercase segment = ascii_lowercase g) generated_directories)
     (split_on CHR ''/'' path)"

definition path_below :: "string \<Rightarrow> string \<Rightarrow> bool" where
  "path_below path p \<longleftrightarrow> ascii_lowercase path = ascii_lowercase p
     \<or> str_starts_with (ascii_lowercase path) (ascii_lowercase p @ ''/'')"

text \<open>The segments are a stack, last segment first.\<close>

definition resolve_target :: "string \<Rightarrow> string \<Rightarrow> string + string" where
  "resolve_target path target =
     (let target = normalize_slashes target in
      if str_starts_with target ''/'' \<or> (1 < length target \<and> target ! 1 = CHR '':'') \<or> CHR 0x00 \<in> set target
      then Inl (path @ '': absolute symlink target is forbidden'')
      else
        let segments = (case rsplit_once CHR ''/'' path of None \<Rightarrow> [] | Some (base, _) \<Rightarrow> split_on CHR ''/'' base) in
        case fold_components (split_on CHR ''/'' target) (rev segments) of
          None \<Rightarrow> Inl (path @ '': symlink target escapes snapshot root'')
        | Some out \<Rightarrow>
            (let resolved = join_with ''/'' out in
             case public_path_new resolved of
               Inl _ \<Rightarrow> Inl (path @ '': symlink target is not a safe relative path'')
             | Inr _ \<Rightarrow> Inr resolved))"

section \<open>Symbolic links\<close>

text \<open>Following the links from a path; a link met a second time is a cycle.\<close>

function follow_links :: "(string, string) bmap \<Rightarrow> string list \<Rightarrow> string \<Rightarrow> string + unit" where
  "follow_links targets visiting cursor =
     (case bmap_get targets cursor of
        None \<Rightarrow> Inr ()
      | Some target \<Rightarrow>
          if cursor \<in> set visiting then Inl (''symlink cycle at '' @ cursor)
          else follow_links targets (cursor # visiting) target)"
  by pat_completeness auto

termination
proof (relation "measure (\<lambda>(targets, visiting, cursor). card (fst ` set targets - set visiting))")
  fix targets :: "(string, string) bmap" and visiting cursor target
  assume "bmap_get targets cursor = Some target" "cursor \<notin> set visiting"
  then have "cursor \<in> fst ` set targets - set visiting" by (force dest: map_of_SomeD)
  then have "card (fst ` set targets - set visiting - {cursor}) < card (fst ` set targets - set visiting)"
    by (intro card_Diff1_less) auto
  moreover have "fst ` set targets - set (cursor # visiting) = fst ` set targets - set visiting - {cursor}" by auto
  ultimately show "((targets, cursor # visiting, target), targets, visiting, cursor)
      \<in> measure (\<lambda>(targets, visiting, cursor). card (fst ` set targets - set visiting))" by (simp only: in_measure prod.case)
qed simp

declare follow_links.simps [simp del]

definition link_targets :: "manifest_entry list \<Rightarrow> (string, string) bmap" where
  "link_targets entries = bmap_from (List.map_filter (\<lambda>e. map_option (\<lambda>t. (me_path e, t)) (me_target e)) entries)"

fun first_error :: "('a \<Rightarrow> string + unit) \<Rightarrow> 'a list \<Rightarrow> string + unit" where
  "first_error f [] = Inr ()"
| "first_error f (x # xs) = and_then (f x) (\<lambda>_. first_error f xs)"

definition validate_symlinks :: "manifest_entry list \<Rightarrow> string + unit" where
  "validate_symlinks entries = (let targets = link_targets entries in first_error (follow_links targets []) (bmap_keys targets))"

text \<open>A path from which every chain of links ends.\<close>

inductive links_end :: "(string, string) bmap \<Rightarrow> string \<Rightarrow> bool" for targets where
  stop: "bmap_get targets p = None \<Longrightarrow> links_end targets p"
| link: "bmap_get targets p = Some t \<Longrightarrow> links_end targets t \<Longrightarrow> links_end targets p"

definition link_step :: "(string, string) bmap \<Rightarrow> (string \<times> string) set" where
  "link_step targets = {(p, t). bmap_get targets p = Some t}"

lemma links_end_acyclic: "links_end targets p \<Longrightarrow> (p, p) \<notin> (link_step targets)\<^sup>+"
proof (induction rule: links_end.induct)
  case (stop p)
  then show ?case by (auto simp: link_step_def dest: tranclD)
next
  case (link p t)
  show ?case
  proof
    assume "(p, p) \<in> (link_step targets)\<^sup>+"
    then obtain q where "(p, q) \<in> link_step targets" "(q, p) \<in> (link_step targets)\<^sup>*" by (blast dest: tranclD)
    moreover from this(1) link.hyps(1) have "q = t" by (simp add: link_step_def)
    ultimately have "(t, t) \<in> (link_step targets)\<^sup>+" by (blast intro: rtrancl_into_trancl1)
    with link.IH show False by blast
  qed
qed

lemma follow_links_exact:
  assumes "\<forall>v \<in> set visiting. (v, cursor) \<in> (link_step targets)\<^sup>+"
  shows "follow_links targets visiting cursor = Inr () \<longleftrightarrow> links_end targets cursor"
  using assms
proof (induction targets visiting cursor rule: follow_links.induct)
  case (1 targets visiting cursor)
  show ?case
  proof (cases "bmap_get targets cursor")
    case None
    then show ?thesis by (subst follow_links.simps) (simp add: links_end.stop)
  next
    case (Some t)
    then have edge: "(cursor, t) \<in> link_step targets" by (simp add: link_step_def)
    have iff: "links_end targets cursor \<longleftrightarrow> links_end targets t"
      using Some by (auto elim: links_end.cases intro: links_end.link)
    show ?thesis
    proof (cases "cursor \<in> set visiting")
      case True
      with "1.prems" links_end_acyclic [of targets cursor] Some show ?thesis by (subst follow_links.simps) auto
    next
      case False
      have "\<forall>v \<in> set (cursor # visiting). (v, t) \<in> (link_step targets)\<^sup>+" using "1.prems" edge by auto
      with "1.IH" [OF Some False] Some False iff show ?thesis by (subst follow_links.simps) simp
    qed
  qed
qed

lemma first_error_Inr: "first_error f xs = Inr () \<longleftrightarrow> list_all (\<lambda>x. f x = Inr ()) xs"
  by (induction xs) (auto simp: and_then_def split: sum.splits)

lemma validate_symlinks_exact:
  "validate_symlinks entries = Inr () \<longleftrightarrow> (\<forall>p. links_end (link_targets entries) p)"
proof -
  have "links_end (link_targets entries) p" if "p \<notin> set (bmap_keys (link_targets entries))" for p
    using that by (intro links_end.stop) (auto simp: bmap_keys_def map_of_eq_None_iff)
  then show ?thesis
    unfolding validate_symlinks_def Let_def first_error_Inr list_all_iff using follow_links_exact [of "[]"] by fastforce
qed

section \<open>Construction\<close>

definition limit_exceeded :: "nat \<Rightarrow> nat \<Rightarrow> bool" where
  "limit_exceeded observed limit \<longleftrightarrow> limit < observed"

fun source_bytes :: "source_kind \<Rightarrow> string" where
  "source_bytes (SkRegular contents executable) = contents"
| "source_bytes (SkSymlink target) = target"

definition entry_of :: "(string \<Rightarrow> string) \<Rightarrow> string \<Rightarrow> source_file \<Rightarrow> string + manifest_entry" where
  "entry_of H relative file =
     (let entry = (\<lambda>kind executable target. \<lparr>me_path = relative, me_kind = kind, me_executable = executable,
          me_size = length (source_bytes (sf_kind file)), me_digest = content_digest H (source_bytes (sf_kind file)),
          me_target = target, me_identity = sf_identity file\<rparr>) in
      case sf_kind file of
        SkRegular contents executable \<Rightarrow> Inr (entry MekRegular executable None)
      | SkSymlink target \<Rightarrow> and_then (resolve_target relative target) (\<lambda>normalized. Inr (entry MekSymlink False (Some normalized))))"

text \<open>The variables of the loop; the three sets are the \<^verbatim>\<open>BTreeSet\<close>s of the code.\<close>

record manifest_state =
  ms_entries :: "manifest_entry list"
  ms_exclusions :: "manifest_exclusion list"
  ms_exact :: "string list"
  ms_portable :: "string list"
  ms_identities :: "string list"
  ms_total :: nat

definition manifest_start :: manifest_state where
  "manifest_start = \<lparr>ms_entries = [], ms_exclusions = [], ms_exact = [], ms_portable = [], ms_identities = [], ms_total = 0\<rparr>"

definition manifest_step :: "(string \<Rightarrow> string) \<Rightarrow> (string \<Rightarrow> string) \<Rightarrow> manifest_budget \<Rightarrow> string \<Rightarrow> string list \<Rightarrow>
    source_file \<Rightarrow> manifest_state \<Rightarrow> string + manifest_state" where
  "manifest_step H key budget root trusted file st =
     and_then (relative_to root (sf_path file)) (\<lambda>relative.
       if generated relative then
         Inr (st\<lparr>ms_exclusions := ms_exclusions st @ [\<lparr>mx_path = relative, mx_reason = ''product-default''\<rparr>]\<rparr>)
       else if list_ex (path_below relative) trusted then
         Inr (st\<lparr>ms_exclusions := ms_exclusions st @ [\<lparr>mx_path = relative, mx_reason = ''trusted-policy''\<rparr>]\<rparr>)
       else if relative \<in> set (ms_exact st) then Inl (''duplicate source manifest path: '' @ relative)
       else if key relative \<in> set (ms_portable st) then Inl (''portable case-fold path collision: '' @ relative)
       else if mb_max_entries budget \<le> length (ms_entries st) then Inl ''Incomplete.Resource_limit: source entry budget exceeded''
       else if (case sf_identity file of None \<Rightarrow> False | Some identity \<Rightarrow> identity \<in> set (ms_identities st)) then
         Inl (''hardlink/file identity collision: '' @ relative)
       else and_then (entry_of H relative file) (\<lambda>entry.
         if limit_exceeded (me_size entry) (mb_max_file_bytes budget) then
           Inl (''Incomplete.Resource_limit: file exceeds 16 MiB: '' @ relative)
         else let total = ms_total st + me_size entry in
           if u64_max < total then Inl ''Incomplete.Resource_limit: snapshot size overflow''
           else if limit_exceeded total (mb_max_snapshot_bytes budget) then
             Inl ''Incomplete.Resource_limit: snapshot exceeds 4 GiB''
           else Inr (st\<lparr>ms_entries := ms_entries st @ [entry], ms_exact := bset (relative # ms_exact st),
             ms_portable := bset (key relative # ms_portable st),
             ms_identities := (case sf_identity file of None \<Rightarrow> ms_identities st | Some identity \<Rightarrow> bset (identity # ms_identities st)),
             ms_total := total\<rparr>)))"

fun manifest_loop :: "(string \<Rightarrow> string) \<Rightarrow> (string \<Rightarrow> string) \<Rightarrow> manifest_budget \<Rightarrow> string \<Rightarrow> string list \<Rightarrow>
    source_file list \<Rightarrow> manifest_state \<Rightarrow> string + manifest_state" where
  "manifest_loop H key budget root trusted [] st = Inr st"
| "manifest_loop H key budget root trusted (file # files) st =
     and_then (manifest_step H key budget root trusted file st) (manifest_loop H key budget root trusted files)"

section \<open>The document\<close>

definition entry_json :: "manifest_entry \<Rightarrow> json" where
  "entry_json e = JObject [(''digest'', JString (me_digest e)), (''executable'', JBoolean (me_executable e)),
     (''kind'', JString (entry_kind_name (me_kind e))), (''path'', JString (me_path e)), (''size'', json_count_int (me_size e)),
     (''target'', case me_target e of None \<Rightarrow> JNull | Some target \<Rightarrow> JString target)]"

definition exclusion_json :: "manifest_exclusion \<Rightarrow> json" where
  "exclusion_json x = JObject [(''path'', JString (mx_path x)), (''reason'', JString (mx_reason x))]"

definition manifest_limits_json :: json where
  "manifest_limits_json = JObject [(''max_entries'', json_count_int (mb_max_entries published_budget)),
     (''max_file_bytes'', json_count_int (mb_max_file_bytes published_budget)),
     (''max_snapshot_bytes'', json_count_int (mb_max_snapshot_bytes published_budget))]"

definition body_fields :: "source_manifest \<Rightarrow> (string, json) bmap" where
  "body_fields m = [(''entries'', JArray (map entry_json (mf_entries m))),
     (''exclusion_policy_digest'', JString (mf_exclusion_policy_digest m)),
     (''exclusions'', JArray (map exclusion_json (mf_exclusions m))), (''limits'', manifest_limits_json),
     (''schema'', JString ''source-manifest-v2''), (''total_size'', json_count_int (mf_total_size m))]"

definition manifest_verify_digest :: "(string \<Rightarrow> string) \<Rightarrow> source_manifest \<Rightarrow> bool" where
  "manifest_verify_digest H m \<longleftrightarrow> mf_digest m = canonical_digest H (JObject (body_fields m))"

definition manifest_to_canonical :: "source_manifest \<Rightarrow> string" where
  "manifest_to_canonical m = canonical_line (JObject (bmap_insert ''digest'' (JString (mf_digest m)) (body_fields m)))"

definition trusted_prefixes :: "string list \<Rightarrow> string list" where
  "trusted_prefixes exclusions = bset (map normalize_slashes exclusions)"

definition exclusion_policy :: "string list \<Rightarrow> json" where
  "exclusion_policy trusted = JObject [(''default'', JArray (map JString generated_directories)), (''trusted'', JArray (map JString trusted))]"

definition manifest_create :: "(string \<Rightarrow> string) \<Rightarrow> (string \<Rightarrow> string) \<Rightarrow> string \<Rightarrow> source_file list \<Rightarrow> string list \<Rightarrow> manifest_budget \<Rightarrow>
    string + source_manifest" where
  "manifest_create H key root files exclusions budget =
     (if mb_max_file_bytes budget < mb_max_file_bytes published_budget \<or> mb_max_entries budget < mb_max_entries published_budget
         \<or> mb_max_snapshot_bytes budget < mb_max_snapshot_bytes published_budget
      then Inl ''source-manifest-v2 budgets are below the published floor''
      else let trusted = trusted_prefixes exclusions in
        and_then (manifest_loop H key budget (normalize_root root) trusted (sort_key (\<lambda>f. normalize_slashes (sf_path f)) files) manifest_start)
         (\<lambda>st. and_then (validate_symlinks (ms_entries st)) (\<lambda>_.
            let m = \<lparr>mf_entries = ms_entries st, mf_exclusions = ms_exclusions st,
                 mf_exclusion_policy_digest = canonical_digest H (exclusion_policy trusted),
                 mf_total_size = ms_total st, mf_digest = []\<rparr>
            in Inr (m\<lparr>mf_digest := canonical_digest H (JObject (body_fields m))\<rparr>))))"

section \<open>What is accepted\<close>

definition relative_of :: "string \<Rightarrow> source_file \<Rightarrow> string" where
  "relative_of root file = (case relative_to root (sf_path file) of Inl _ \<Rightarrow> [] | Inr relative \<Rightarrow> relative)"

definition left_out :: "string list \<Rightarrow> string \<Rightarrow> bool" where
  "left_out trusted relative \<longleftrightarrow> generated relative \<or> list_ex (path_below relative) trusted"

definition kept :: "string \<Rightarrow> string list \<Rightarrow> source_file list \<Rightarrow> source_file list" where
  "kept root trusted files = filter (\<lambda>f. \<not> left_out trusted (relative_of root f)) files"

definition file_size :: "source_file \<Rightarrow> nat" where
  "file_size f = length (source_bytes (sf_kind f))"

definition admissible :: "(string \<Rightarrow> string) \<Rightarrow> (string \<Rightarrow> string) \<Rightarrow> manifest_budget \<Rightarrow> string \<Rightarrow> string list \<Rightarrow> source_file list \<Rightarrow> bool" where
  "admissible H key budget root trusted files \<longleftrightarrow>
     list_all (\<lambda>f. \<not> isl (relative_to root (sf_path f))) files
     \<and> distinct (map (relative_of root) (kept root trusted files))
     \<and> distinct (map (key \<circ> relative_of root) (kept root trusted files))
     \<and> distinct (List.map_filter sf_identity (kept root trusted files))
     \<and> length (kept root trusted files) \<le> mb_max_entries budget
     \<and> list_all (\<lambda>f. \<not> isl (entry_of H (relative_of root f) f) \<and> file_size f \<le> mb_max_file_bytes budget) (kept root trusted files)
     \<and> sum_list (map file_size (kept root trusted files)) \<le> min u64_max (mb_max_snapshot_bytes budget)"

definition state_of :: "(string \<Rightarrow> string) \<Rightarrow> (string \<Rightarrow> string) \<Rightarrow> string \<Rightarrow> string list \<Rightarrow> source_file list \<Rightarrow> manifest_state" where
  "state_of H key root trusted files =
     \<lparr>ms_entries = map (\<lambda>f. projr (entry_of H (relative_of root f) f)) (kept root trusted files),
      ms_exclusions = map (\<lambda>r. \<lparr>mx_path = r, mx_reason = if generated r then ''product-default'' else ''trusted-policy''\<rparr>)
        (filter (left_out trusted) (map (relative_of root) files)),
      ms_exact = bset (map (relative_of root) (kept root trusted files)),
      ms_portable = bset (map (key \<circ> relative_of root) (kept root trusted files)),
      ms_identities = bset (List.map_filter sf_identity (kept root trusted files)),
      ms_total = sum_list (map file_size (kept root trusted files))\<rparr>"

lemma entry_size: "entry_of H r f = Inr e \<Longrightarrow> me_size e = file_size f"
  by (auto simp: entry_of_def file_size_def Let_def and_then_def split: source_kind.splits sum.splits)

lemma bset_snoc: "bset (x # bset xs) = bset (xs @ [x])"
  by (simp add: bset_eq_iff)

lemma kept_snoc: "kept root trusted (files @ [f]) = kept root trusted files @ (if left_out trusted (relative_of root f) then [] else [f])"
  by (simp add: kept_def)

lemma manifest_step_exact:
  assumes "admissible H key budget root trusted files"
  shows "manifest_step H key budget root trusted f (state_of H key root trusted files) = Inr st \<longleftrightarrow>
    admissible H key budget root trusted (files @ [f]) \<and> st = state_of H key root trusted (files @ [f])"
proof (cases "relative_to root (sf_path f)")
  case (Inl e)
  then show ?thesis by (simp add: manifest_step_def and_then_def admissible_def)
next
  case (Inr r)
  then have r: "relative_of root f = r" by (simp add: relative_of_def)
  show ?thesis
  proof (cases "left_out trusted r")
    case True
    then have "admissible H key budget root trusted (files @ [f])"
      using assms by (simp add: admissible_def kept_snoc r Inr)
    with True show ?thesis
      by (auto simp: manifest_step_def and_then_def Inr left_out_def state_of_def kept_snoc r)
  next
    case False
    have identities: "List.map_filter sf_identity (xs @ [f])
        = List.map_filter sf_identity xs @ (case sf_identity f of None \<Rightarrow> [] | Some i \<Rightarrow> [i])" for xs
      by (induction xs) (auto split: option.split)
    have kept: "kept root trusted (files @ [f]) = kept root trusted files @ [f]" using False by (simp add: kept_snoc r)
    show ?thesis
      using False assms unfolding admissible_def kept
      by (cases "entry_of H r f"; cases "sf_identity f")
        (auto simp: manifest_step_def and_then_def Inr left_out_def state_of_def kept r limit_exceeded_def bset_snoc
          Let_def entry_size not_le identities)
  qed
qed

lemma admissible_prefix: "admissible H key budget root trusted (files @ others) \<Longrightarrow> admissible H key budget root trusted files"
proof -
  have identities: "List.map_filter sf_identity (xs @ ys) = List.map_filter sf_identity xs @ List.map_filter sf_identity ys" for xs ys
    by (induction xs) (auto split: option.split)
  show "admissible H key budget root trusted (files @ others) \<Longrightarrow> admissible H key budget root trusted files"
    by (simp add: admissible_def kept_def identities)
qed

lemma manifest_loop_exact:
  assumes "admissible H key budget root trusted seen"
  shows "manifest_loop H key budget root trusted files (state_of H key root trusted seen) = Inr st \<longleftrightarrow>
    admissible H key budget root trusted (seen @ files) \<and> st = state_of H key root trusted (seen @ files)"
  using assms
proof (induction files arbitrary: seen)
  case (Cons f files)
  show ?case
  proof (cases "manifest_step H key budget root trusted f (state_of H key root trusted seen)")
    case (Inl e)
    then have "\<not> admissible H key budget root trusted (seen @ [f])" 
      using manifest_step_exact [OF Cons.prems, of f "state_of H key root trusted (seen @ [f])"] by simp
    with admissible_prefix [of H key budget root trusted "seen @ [f]" files] Inl show ?thesis by (auto simp: and_then_def)
  next
    case (Inr st')
    then have next_ok: "admissible H key budget root trusted (seen @ [f])" "st' = state_of H key root trusted (seen @ [f])"
      using manifest_step_exact [OF Cons.prems] by auto
    then show ?thesis using Cons.IH [OF next_ok(1)] Inr by (simp add: and_then_def)
  qed
qed auto

definition budget_wide_enough :: "manifest_budget \<Rightarrow> bool" where
  "budget_wide_enough budget \<longleftrightarrow> mb_max_file_bytes published_budget \<le> mb_max_file_bytes budget
     \<and> mb_max_entries published_budget \<le> mb_max_entries budget \<and> mb_max_snapshot_bytes published_budget \<le> mb_max_snapshot_bytes budget"

text \<open>The manifest of a list of files in order, once they are admissible.\<close>

definition manifest_of :: "(string \<Rightarrow> string) \<Rightarrow> string \<Rightarrow> string list \<Rightarrow> source_file list \<Rightarrow> source_manifest" where
  "manifest_of H root trusted files =
     (let m = \<lparr>mf_entries = map (\<lambda>f. projr (entry_of H (relative_of root f) f)) (kept root trusted files),
          mf_exclusions = map (\<lambda>r. \<lparr>mx_path = r, mx_reason = if generated r then ''product-default'' else ''trusted-policy''\<rparr>)
            (filter (left_out trusted) (map (relative_of root) files)),
          mf_exclusion_policy_digest = canonical_digest H (exclusion_policy trusted),
          mf_total_size = sum_list (map file_size (kept root trusted files)), mf_digest = []\<rparr>
      in m\<lparr>mf_digest := canonical_digest H (JObject (body_fields m))\<rparr>)"

lemma manifest_create_spec:
  "manifest_create H key root files exclusions budget = Inr m \<longleftrightarrow>
     (let trusted = trusted_prefixes exclusions; sorted = sort_key (\<lambda>f. normalize_slashes (sf_path f)) files in
      budget_wide_enough budget \<and> admissible H key budget (normalize_root root) trusted sorted
      \<and> (\<forall>p. links_end (link_targets (mf_entries m)) p) \<and> m = manifest_of H (normalize_root root) trusted sorted)"
proof -
  let ?trusted = "trusted_prefixes exclusions" and ?root = "normalize_root root"
  let ?sorted = "sort_key (\<lambda>f. normalize_slashes (sf_path f)) files"
  have start: "manifest_start = state_of H key ?root ?trusted []" "admissible H key budget ?root ?trusted []"
    by (simp_all add: manifest_start_def state_of_def kept_def admissible_def)
  note loop = manifest_loop_exact [OF start(2), of ?sorted, folded start(1), simplified]
  have entries: "mf_entries (manifest_of H ?root ?trusted ?sorted) = ms_entries (state_of H key ?root ?trusted ?sorted)"
    by (simp add: manifest_of_def state_of_def)
  have built: "(let m = \<lparr>mf_entries = ms_entries st, mf_exclusions = ms_exclusions st,
        mf_exclusion_policy_digest = canonical_digest H (exclusion_policy ?trusted), mf_total_size = ms_total st, mf_digest = []\<rparr>
      in m\<lparr>mf_digest := canonical_digest H (JObject (body_fields m))\<rparr>) = manifest_of H ?root ?trusted ?sorted"
    if "st = state_of H key ?root ?trusted ?sorted" for st
    by (simp add: that manifest_of_def state_of_def)
  show ?thesis
    unfolding manifest_create_def Let_def [of ?trusted] Let_def [of ?sorted]
    using loop built entries
    by (auto simp: budget_wide_enough_def not_less validate_symlinks_exact [symmetric])
qed

text \<open>
  C20. A manifest is created exactly if the budget is not below the published one and the files, in path order, pass: every
  path lies below the root, the kept files have pairwise different paths, portable keys and identities, every
  link target stays inside the root, each file, their number and their total size are within the budget, and from every path
  the chain of links ends. It then lists every kept file in path order and every file left out with its reason.
\<close>

theorem manifest_create_exact:
  "manifest_create H key root files exclusions budget = Inr m \<longleftrightarrow>
     (let trusted = trusted_prefixes exclusions; sorted = sort_key (\<lambda>f. normalize_slashes (sf_path f)) files in
      budget_wide_enough budget \<and> admissible H key budget (normalize_root root) trusted sorted
      \<and> (\<forall>p. links_end (link_targets (mf_entries m)) p) \<and> m = manifest_of H (normalize_root root) trusted sorted)"
  by (rule manifest_create_spec)

section \<open>Consequences\<close>

definition relative_of_key :: "string \<Rightarrow> string \<Rightarrow> string" where
  "relative_of_key root k = relative_of root \<lparr>sf_path = k, sf_kind = SkSymlink [], sf_identity = None\<rparr>"

lemma normalize_slashes_again [simp]: "normalize_slashes (normalize_slashes s) = normalize_slashes s"
  by (simp add: normalize_slashes_def comp_def)

lemma relative_to_key: "relative_to root (normalize_slashes p) = relative_to root p"
  by (simp add: relative_to_def)

lemma relative_by_key: "relative_of root f = relative_of_key root (normalize_slashes (sf_path f))"
  by (simp add: relative_of_def relative_of_key_def relative_to_key)

lemma map_sort_key: "map (\<lambda>f. g (k f)) (sort_key k xs) = map g (sort (map k xs))"
proof -
  have "map k (sort_key k xs) = sort (map k xs)" by (rule properties_for_sort [symmetric]) simp_all
  then have "map g (map k (sort_key k xs)) = map g (sort (map k xs))" by (simp only:)
  then show ?thesis by (simp add: comp_def)
qed

text \<open>
  A created manifest does not depend on the order in which the files are supplied.
\<close>

theorem manifest_order_independent:
  assumes "manifest_create H key root files exclusions budget = Inr m" "mset files = mset files'"
  shows "manifest_create H key root files' exclusions budget = Inr m"
proof -
  let ?k = "\<lambda>f. normalize_slashes (sf_path f)" and ?root = "normalize_root root" and ?trusted = "trusted_prefixes exclusions"
  let ?xs = "sort_key ?k files" and ?ys = "sort_key ?k files'"
  from assms(1) have ok: "admissible H key budget ?root ?trusted ?xs" "m = manifest_of H ?root ?trusted ?xs"
    and rest: "budget_wide_enough budget" "\<forall>p. links_end (link_targets (mf_entries m)) p"
    unfolding manifest_create_spec Let_def by blast+
  have relative: "map (relative_of ?root) ?xs = map (relative_of ?root) ?ys"
  proof -
    have "sort (map ?k files) = sort (map ?k files')"
      using arg_cong [OF assms(2), of "image_mset ?k"] by (intro properties_for_sort) simp_all
    then show ?thesis
      using map_sort_key [of "relative_of_key ?root" ?k files] map_sort_key [of "relative_of_key ?root" ?k files']
      by (simp only: relative_by_key [abs_def])
  qed
  have distinct: "distinct (map ?k (filter P files))"
    if "P = (\<lambda>f. \<not> left_out ?trusted (relative_of ?root f))" for P
  proof -
    have "distinct (map (relative_of ?root) (filter P ?xs))" using ok(1) that by (simp add: admissible_def kept_def)
    then have "distinct (map ?k (filter P ?xs))" unfolding relative_by_key by (simp add: distinct_map inj_on_def)
    then have "distinct (map ?k (sort_key ?k (filter P files)))" by (simp add: filter_sort)
    moreover have "mset (map ?k (sort_key ?k (filter P files))) = mset (map ?k (filter P files))" by simp
    ultimately show ?thesis by (metis mset_eq_imp_distinct_iff)
  qed
  have kept: "kept ?root ?trusted ?xs = kept ?root ?trusted ?ys"
  proof -
    let ?P = "\<lambda>f. \<not> left_out ?trusted (relative_of ?root f)"
    have same: "mset (filter ?P files) = mset (filter ?P files')" using assms(2) by (metis mset_filter)
    have "inj_on ?k (set (filter ?P files))" using distinct [OF refl] by (simp only: distinct_map)
    then have "inj_on ?k (set (filter ?P files'))" by (simp only: mset_eq_setD [OF same])
    from sort_key_unique [OF same this] show ?thesis by (simp only: kept_def filter_sort)
  qed
  have "set ?xs = set ?ys" using assms(2) by (metis set_mset_mset mset_sort)
  with ok(1) kept have "admissible H key budget ?root ?trusted ?ys" by (simp add: admissible_def list_all_iff)
  moreover have "manifest_of H ?root ?trusted ?ys = m" by (simp only: ok(2) manifest_of_def kept relative)
  ultimately show ?thesis using rest by (simp add: manifest_create_spec Let_def)
qed

text \<open>A path that is its own normal form stays below the directory it is taken in.\<close>

lemma relative_to_normal:
  assumes "relative_to root p = Inr r"
  shows "normalize_relative r = Some r"
  using assms public_path_is_normal [of r] by (auto simp: relative_to_def Let_def and_then_def split: sum.splits if_splits option.splits
    dest: public_path_is_normal)

lemma resolve_target_normal:
  assumes "resolve_target p t = Inr r"
  shows "normalize_relative r = Some r"
  using assms by (auto simp: resolve_target_def Let_def split: sum.splits if_splits option.splits dest: public_path_is_normal)

definition entry_confined :: "string list \<Rightarrow> manifest_entry \<Rightarrow> bool" where
  "entry_confined trusted e \<longleftrightarrow> normalize_relative (me_path e) = Some (me_path e) \<and> \<not> left_out trusted (me_path e)
     \<and> (case me_target e of None \<Rightarrow> True | Some t \<Rightarrow> normalize_relative t = Some t)"

lemma entry_of_fields:
  assumes "entry_of H r f = Inr e"
  shows "me_path e = r" "me_target e = Some t \<Longrightarrow> normalize_relative t = Some t"
  using assms by (auto simp: entry_of_def Let_def and_then_def resolve_target_normal split: source_kind.splits sum.splits)

text \<open>
  C21. In a created manifest every entry has a path, and every link a target, that is its own normal form below the root,
  the path is neither generated nor below a trusted exclusion, no two entries have the same path, and following the
  links from any entry comes to an end.
\<close>

theorem manifest_confined:
  assumes "manifest_create H key root files exclusions budget = Inr m"
  shows "list_all (entry_confined (trusted_prefixes exclusions)) (mf_entries m)
    \<and> distinct (map me_path (mf_entries m)) \<and> list_all (\<lambda>e. links_end (link_targets (mf_entries m)) (me_path e)) (mf_entries m)"
proof -
  let ?root = "normalize_root root" and ?trusted = "trusted_prefixes exclusions"
  let ?xs = "sort_key (\<lambda>f. normalize_slashes (sf_path f)) files"
  from assms have ok: "admissible H key budget ?root ?trusted ?xs" and m: "m = manifest_of H ?root ?trusted ?xs"
    and links: "\<forall>p. links_end (link_targets (mf_entries m)) p"
    unfolding manifest_create_spec Let_def by blast+
  have entry: "\<exists>r e. relative_to ?root (sf_path f) = Inr r \<and> relative_of ?root f = r \<and> entry_of H r f = Inr e \<and> \<not> left_out ?trusted r"
    if "f \<in> set (kept ?root ?trusted ?xs)" for f
  proof -
    have "f \<in> set ?xs" "\<not> left_out ?trusted (relative_of ?root f)" using that by (simp_all add: kept_def)
    with ok that show ?thesis
      by (cases "relative_to ?root (sf_path f)"; cases "entry_of H (relative_of ?root f) f")
        (auto simp: admissible_def list_all_iff relative_of_def)
  qed
  have entries: "mf_entries m = map (\<lambda>f. projr (entry_of H (relative_of ?root f) f)) (kept ?root ?trusted ?xs)"
    by (simp add: m manifest_of_def)
  have "map me_path (mf_entries m) = map (relative_of ?root) (kept ?root ?trusted ?xs)"
    unfolding entries using entry entry_of_fields(1) by fastforce
  then have "distinct (map me_path (mf_entries m))" using ok by (simp add: admissible_def)
  moreover have "entry_confined ?trusted (projr (entry_of H (relative_of ?root f) f))" if "f \<in> set (kept ?root ?trusted ?xs)" for f
  proof -
    note known = entry [OF that]
    then obtain r e where "relative_to ?root (sf_path f) = Inr r" "relative_of ?root f = r" "entry_of H r f = Inr e"
      "\<not> left_out ?trusted r" by blast
    then show ?thesis
      using entry_of_fields [of H r f e] relative_to_normal by (auto simp: entry_confined_def split: option.split)
  qed
  ultimately show ?thesis using links by (auto simp: entries list_all_iff)
qed

subsection \<open>Authentication\<close>

definition entry_text :: "manifest_entry \<Rightarrow> bool" where
  "entry_text e \<longleftrightarrow> utf8_valid (me_path e) \<and> utf8_valid (me_digest e) \<and> me_size e \<le> i64_max
     \<and> (case me_target e of None \<Rightarrow> True | Some t \<Rightarrow> utf8_valid t)"

text \<open>Strings of the code are UTF-8; sizes above the signed range would be clamped.\<close>

definition manifest_text :: "source_manifest \<Rightarrow> bool" where
  "manifest_text m \<longleftrightarrow> list_all entry_text (mf_entries m) \<and> utf8_valid (mf_exclusion_policy_digest m)
     \<and> list_all (\<lambda>x. utf8_valid (mx_path x) \<and> utf8_valid (mx_reason x)) (mf_exclusions m) \<and> mf_total_size m \<le> i64_max"

text \<open>The identities of the files are not part of the document.\<close>

definition public_manifest :: "source_manifest \<Rightarrow> source_manifest" where
  "public_manifest m = m\<lparr>mf_entries := map (\<lambda>e. e\<lparr>me_identity := None\<rparr>) (mf_entries m)\<rparr>"

lemma json_count_int_inject: "m \<le> i64_max \<Longrightarrow> n \<le> i64_max \<Longrightarrow> json_count_int m = json_count_int n \<longleftrightarrow> m = n"
  by (auto simp: json_count_int_def i64_max_def word_of_nat_eq_iff take_bit_nat_eq_self)

lemma entry_json_inject:
  assumes "entry_text e" "entry_text e'" "entry_json e = entry_json e'"
  shows "e\<lparr>me_identity := None\<rparr> = e'\<lparr>me_identity := None\<rparr>"
proof -
  have kind: "entry_kind_name k = entry_kind_name k' \<longleftrightarrow> k = k'" for k k' by (cases k; cases k') simp_all
  have size: "me_size e = me_size e'" using assms by (simp add: entry_json_def entry_text_def json_count_int_inject)
  have target: "me_target e = me_target e'" using assms(3) by (auto simp: entry_json_def split: option.splits)
  show ?thesis using assms(3) size target by (cases e; cases e') (simp add: entry_json_def kind)
qed

lemma exclusion_json_inject: "exclusion_json x = exclusion_json y \<longleftrightarrow> x = y"
  by (cases x; cases y) (auto simp: exclusion_json_def)

lemma entry_json_ok: "entry_text e \<Longrightarrow> json_ok (entry_json e)"
  by (cases "me_kind e"; cases "me_target e")
    (simp_all add: entry_json_def entry_text_def bmap_ok_def less_char_def Views.json_count_int_def)

lemma manifest_body_ok: "manifest_text m \<Longrightarrow> json_ok (JObject (body_fields m))"
  by (auto simp: body_fields_def manifest_text_def bmap_ok_def less_char_def list_all_iff entry_json_ok exclusion_json_def
      manifest_limits_json_def)

text \<open>
  Two manifests whose digests verify and are equal list the same entries and exclusions under the same policy, file
  identities apart, unless the hash has a collision.
\<close>

theorem manifest_digest_binds:
  assumes "manifest_verify_digest H m" "manifest_verify_digest H m'" "mf_digest m = mf_digest m'" "manifest_text m" "manifest_text m'"
  shows "public_manifest m = public_manifest m' \<or> (\<exists>x y. x \<noteq> y \<and> H x = H y)"
proof (cases "canonical_json (JObject (body_fields m)) = canonical_json (JObject (body_fields m'))")
  case True
  then have same: "body_fields m = body_fields m'"
    using canonical_json_inject [OF manifest_body_ok [OF assms(4)] manifest_body_ok [OF assms(5)]] by simp
  have parts: "map entry_json (mf_entries m) = map entry_json (mf_entries m')"
    "map exclusion_json (mf_exclusions m) = map exclusion_json (mf_exclusions m')"
    "mf_exclusion_policy_digest m = mf_exclusion_policy_digest m'"
    "json_count_int (mf_total_size m) = json_count_int (mf_total_size m')"
    using same by (simp_all add: body_fields_def)
  have texts: "list_all entry_text (mf_entries m)" "list_all entry_text (mf_entries m')" and total: "mf_total_size m = mf_total_size m'"
    using assms(4,5) parts(4) by (simp_all add: manifest_text_def json_count_int_inject)
  have exclusions: "mf_exclusions m = mf_exclusions m'"
    by (rule map_injective [OF parts(2)]) (simp add: inj_def exclusion_json_inject)
  have entries: "map (\<lambda>e. e\<lparr>me_identity := None\<rparr>) es = map (\<lambda>e. e\<lparr>me_identity := None\<rparr>) es'"
    if "map entry_json es = map entry_json es'" "list_all entry_text es" "list_all entry_text es'" for es es'
    using that
  proof (induction es es' rule: list_induct2')
    case (4 x xs y ys)
    then show ?case using entry_json_inject [of x y] by simp
  qed simp_all
  have "public_manifest m = public_manifest m'"
    by (rule source_manifest.equality)
      (simp_all add: public_manifest_def entries [OF parts(1) texts] exclusions parts(3) total assms(3))
  then show ?thesis by blast
next
  case False
  moreover have "H (canonical_json (JObject (body_fields m))) = H (canonical_json (JObject (body_fields m')))"
    using assms(1-3) by (simp add: manifest_verify_digest_def canonical_digest_def content_digest_def of_bytes_def digest_display_inject)
  ultimately show ?thesis by blast
qed

subsection \<open>A sample\<close>

definition sample_files :: "source_file list" where
  "sample_files = [\<lparr>sf_path = ''l'', sf_kind = SkSymlink ''a'', sf_identity = None\<rparr>,
     \<lparr>sf_path = ''./a'', sf_kind = SkRegular ''x'' False, sf_identity = Some ''1''\<rparr>]"

definition sample_manifest :: source_manifest where
  "sample_manifest = manifest_of (\<lambda>_. []) [] [] (rev sample_files)"

lemma sample_relative:
  "relative_to [] ''l'' = Inr ''l''" "relative_to [] ''./a'' = Inr ''a''" "resolve_target ''l'' ''a'' = Inr ''a''"
  by (simp_all add: relative_to_def normalize_slashes_def and_then_def public_path_new_def str_starts_with_def drive_prefixed_def
      resolve_target_def rsplit_once_def split_once_def)

lemma sample_kept: "kept [] [] (rev sample_files) = rev sample_files"
  by (simp add: kept_def sample_files_def relative_of_def sample_relative left_out_def generated_def generated_directories_def
      ascii_lowercase_def is_ascii_upper_def in_range_def)

lemma sample_created: "manifest_create (\<lambda>_. []) id [] sample_files [] published_budget = Inr sample_manifest"
proof -
  have sorted: "sort_key (\<lambda>f. normalize_slashes (sf_path f)) sample_files = rev sample_files"
    by (simp add: sample_files_def normalize_slashes_def less_char_def)
  have root: "normalize_root [] = []" "trusted_prefixes [] = []"
    by (simp_all add: normalize_root_def normalize_slashes_def trim_slashes_end_def trusted_prefixes_def)
  have admissible: "admissible (\<lambda>_. []) id published_budget [] [] (rev sample_files)"
    unfolding admissible_def sample_kept
    by (simp add: sample_files_def relative_of_def sample_relative entry_of_def and_then_def file_size_def published_budget_def u64_max_def)
  have entries: "link_targets (mf_entries sample_manifest) = [(''l'', ''a'')]"
    unfolding sample_manifest_def manifest_of_def sample_kept
    by (simp add: sample_files_def relative_of_def sample_relative entry_of_def and_then_def link_targets_def bmap_from_def)
  have "links_end [(''l'', ''a'')] p" for p
  proof (cases "p = ''l''")
    case True
    have "links_end [(''l'', ''a'')] ''a''" by (rule links_end.stop) simp
    then show ?thesis using links_end.link [of "[(''l'', ''a'')]" "''l''" "''a''"] True by simp
  qed (simp add: links_end.stop)
  then have links: "\<forall>p. links_end [(''l'', ''a'')] p" by blast
  show ?thesis
    unfolding manifest_create_spec Let_def sorted root entries
    by (intro conjI links admissible) (simp_all add: budget_wide_enough_def sample_manifest_def)
qed

lemma manifest_order_independent_witness:
  "manifest_create (\<lambda>_. []) id [] (rev sample_files) [] published_budget = Inr sample_manifest"
  by (rule manifest_order_independent [OF sample_created]) simp

lemma manifest_confined_witness: "list_all (entry_confined []) (mf_entries sample_manifest)"
  using manifest_confined [OF sample_created] by (simp add: trusted_prefixes_def)

lemma manifest_digest_binds_witness:
  "public_manifest sample_manifest = public_manifest sample_manifest \<or> (\<exists>x y :: string. x \<noteq> y \<and> ([] :: string) = [])"
proof -
  have valid: "utf8_valid ''a'' \<and> utf8_valid ''l'' \<and> utf8_valid ''product-default'' \<and> utf8_valid ''trusted-policy''"
    by (simp add: utf8_valid_ascii)
  have verified: "manifest_verify_digest (\<lambda>_. []) sample_manifest"
    by (simp add: manifest_verify_digest_def sample_manifest_def manifest_of_def body_fields_def Let_def)
  have "manifest_text sample_manifest"
    unfolding sample_manifest_def manifest_of_def sample_kept using valid
    by (simp add: sample_files_def relative_of_def sample_relative entry_of_def and_then_def manifest_text_def entry_text_def
        canonical_digest_def file_size_def i64_max_def left_out_def generated_def generated_directories_def content_digest_utf8
        ascii_lowercase_def is_ascii_upper_def in_range_def)
  then show ?thesis using manifest_digest_binds [of "\<lambda>_. []" sample_manifest sample_manifest] verified by blast
qed

end
