(* ===== verification/Sandbox_Audit.thy ===== *)
theory Sandbox_Audit
  imports Evidence Verdict Scripts
begin

text \<open>
  The audit of a sandbox run (\<^verbatim>\<open>src/sandbox/audit.rs\<close>): an authenticated evidence log is reconciled with its plan and, when
  the static graphs are given, the observed effects with the effects the verifier derives.
\<close>

section \<open>Audits\<close>

datatype audit_status = AuditVerified | AuditIncomplete "string list"

record sandbox_audit =
  au_plan_digest :: string
  au_source_digest :: string
  au_backend :: string
  au_controls_digest :: string
  au_status :: audit_status
  au_observed_effects :: "observable_effect list"
  au_reconciliation :: "property option"
  au_event_count :: nat
  au_evidence_tail :: string

definition dec_int :: "int \<Rightarrow> string" where
  "dec_int i = (if i < 0 then CHR ''-'' # dec_nat (nat (- i)) else dec_nat (nat i))"

section \<open>Reconciliation with the static graphs\<close>

definition reconcile_runtime_envelope :: "program list \<Rightarrow> observable_effect list \<Rightarrow> property" where
  "reconcile_runtime_envelope graphs observed =
     (let static = observable_effects graphs;
          unknowns = bset (List.map_filter nd_unknown (concat (map pg_nodes graphs)));
          unexpected = filter (\<lambda>e. e \<notin> set static) observed
      in \<lparr>pr_id = ''WV-RUNTIME-001'',
          pr_state = (if unexpected = [] then Proved
            else if graphs = [] then StUnknown [ExternalState ''static graphs were not supplied'']
            else if unknowns = [] then Violated
            else StUnknown unknowns),
          pr_subject = None,
          pr_explanation = (if unexpected = [] then ''observed runtime effects are contained in the static effect envelope''
            else ''runtime observed effects outside the static envelope: '' @ join_with '', '' (map observable_effect_name unexpected))\<rparr>)"

definition requires_incomplete :: "property \<Rightarrow> bool" where
  "requires_incomplete p = (case pr_state p of Violated \<Rightarrow> True | StUnknown _ \<Rightarrow> True | _ \<Rightarrow> False)"

section \<open>Evaluation\<close>

text \<open>What the loop over the evidence collects, one list per variable of the loop.\<close>

definition audit_attestations :: "evidence_body list \<Rightarrow> (string \<times> string) list" where
  "audit_attestations bodies = List.map_filter (\<lambda>b. case b of BackendAttested i version platform c \<Rightarrow> Some (i, c) | _ \<Rightarrow> None) bodies"

definition audit_controls :: "evidence_body list \<Rightarrow> string list" where
  "audit_controls bodies = List.map_filter (\<lambda>b. case b of ControlAttested c \<Rightarrow> Some c | _ \<Rightarrow> None) bodies"

fun audit_reason :: "evidence_body \<Rightarrow> string option" where
  "audit_reason (BackendError message) = Some (''backend error: '' @ message)"
| "audit_reason (ProcessExited code) = (if code \<noteq> 0 then Some (''process exited with code '' @ dec_int code) else None)"
| "audit_reason _ = None"

fun audit_effect :: "evidence_body \<Rightarrow> observable_effect option" where
  "audit_effect (ProcessStarted _ _) = Some EffCommandExecution"
| "audit_effect (FilesystemAccess operation _ _) =
     Some (if str_contains (ascii_lowercase operation) ''write'' then EffFileWrite else EffFileRead)"
| "audit_effect (NetworkAttempt _ _ _) = Some EffNetworkRequest"
| "audit_effect _ = None"

definition attestation_reasons :: "validated_plan \<Rightarrow> (string \<times> string) list \<Rightarrow> string list" where
  "attestation_reasons plan attestations = (case attestations of
       [] \<Rightarrow> [''backend attestation is missing from evidence'']
     | [(i, observed)] \<Rightarrow>
         (if i \<noteq> pl_backend plan then [''backend attestation identity does not match the plan''] else [])
         @ (if observed \<noteq> controls_digest (pl_controls plan)
            then [''backend attestation controls digest does not match the plan''] else [])
     | _ \<Rightarrow> [''multiple backend attestations are ambiguous''])"

definition audit_evaluate :: "validated_plan \<Rightarrow> evidence \<Rightarrow> program list option \<Rightarrow> string + sandbox_audit" where
  "audit_evaluate plan e graphs =
     (if en_plan_digest e \<noteq> pl_digest plan then Inl ''evidence is bound to a different execution plan''
      else and_then (evidence_validate e) (\<lambda>_.
        let bodies = map ev_body (en_events e);
            observed = bset (List.map_filter audit_effect bodies);
            reconciliation = map_option (\<lambda>gs. reconcile_runtime_envelope gs observed) graphs;
            found = (case pl_status plan of StatusComplete \<Rightarrow> [] | StatusIncomplete given \<Rightarrow> given)
              @ List.map_filter audit_reason bodies
              @ attestation_reasons plan (audit_attestations bodies)
              @ List.map_filter (\<lambda>c. if control_name c \<in> set (audit_controls bodies) then None
                  else Some (''control not attested: '' @ control_name c)) (pl_controls plan)
              @ (case reconciliation of None \<Rightarrow> [] | Some p \<Rightarrow> if requires_incomplete p then [pr_explanation p] else []);
            sorted = remdups_adj (sort found)
        in Inr \<lparr>au_plan_digest = pl_digest plan, au_source_digest = pl_source_digest plan, au_backend = pl_backend plan,
             au_controls_digest = controls_digest (pl_controls plan),
             au_status = (if sorted = [] then AuditVerified else AuditIncomplete sorted),
             au_observed_effects = observed, au_reconciliation = reconciliation,
             au_event_count = length (en_events e), au_evidence_tail = tail_digest e\<rparr>))"

section \<open>The document\<close>

fun audit_status_json :: "audit_status \<Rightarrow> json" where
  "audit_status_json AuditVerified = JObject [(''state'', JString ''verified'')]"
| "audit_status_json (AuditIncomplete found) =
     JObject [(''reasons'', JArray (map JString found)), (''state'', JString ''incomplete'')]"

definition audit_to_json :: "sandbox_audit \<Rightarrow> json" where
  "audit_to_json a = JObject
     [(''backend'', JString (au_backend a)), (''controls_digest'', JString (au_controls_digest a)),
      (''event_count'', json_count_int (au_event_count a)), (''evidence_tail'', JString (au_evidence_tail a)),
      (''observed_effects'', JArray (map (\<lambda>f. JString (observable_effect_name f)) (au_observed_effects a))),
      (''plan_digest'', JString (au_plan_digest a)),
      (''reconciliation'', case au_reconciliation a of None \<Rightarrow> JNull | Some p \<Rightarrow> property_to_json p),
      (''schema'', JString ''sandbox-audit-v1''), (''source_digest'', JString (au_source_digest a)),
      (''status'', audit_status_json (au_status a))]"

definition audit_to_canonical :: "sandbox_audit \<Rightarrow> string" where
  "audit_to_canonical a = canonical_line (audit_to_json a)"

section \<open>What verified means\<close>

lemma map_filter_empty: "List.map_filter f xs = [] \<longleftrightarrow> list_all (\<lambda>x. f x = None) xs"
  by (induction xs) (auto split: option.split)

lemma envelope_incomplete:
  "requires_incomplete (reconcile_runtime_envelope gs observed) \<longleftrightarrow> \<not> set observed \<subseteq> set (observable_effects gs)"
  by (auto simp: requires_incomplete_def reconcile_runtime_envelope_def Let_def filter_empty_conv)

lemma attestation_reasons_Nil:
  "attestation_reasons plan attestations = [] \<longleftrightarrow> attestations = [(pl_backend plan, controls_digest (pl_controls plan))]"
  by (auto simp: attestation_reasons_def split: list.split)

text \<open>The body neither reports an error of the backend nor a process that failed.\<close>

fun body_succeeded :: "evidence_body \<Rightarrow> bool" where
  "body_succeeded (BackendError message) = False"
| "body_succeeded (ProcessExited code) = (code = 0)"
| "body_succeeded _ = True"

lemma audit_reason_None: "audit_reason b = None \<longleftrightarrow> body_succeeded b"
  by (cases b) simp_all


end
