(* ===== verification/Lockfile.thy ===== *)
theory Lockfile
  imports Scenario
begin

text \<open>
  The lock file (\<^verbatim>\<open>src/product/lockfile.rs\<close>) with the summaries of what a locked dependency may do
  (\<^verbatim>\<open>src/product/dependency_summary.rs\<close>): construction, which sorts, validates and removes duplicates,
  the authenticated document and its parser. The hash is the parameter \<open>H\<close>.
\<close>

section \<open>Dependency summaries\<close>

record dependency_summary =
  ds_complete :: bool
  ds_reasons :: "string list"
  ds_capabilities :: "capability list"
  ds_effects :: "observable_effect list"

definition summary_new :: "bool \<Rightarrow> string list \<Rightarrow> capability list \<Rightarrow> observable_effect list \<Rightarrow> dependency_summary" where
  "summary_new complete given caps effs =
     (let nonempty = bset (filter (\<lambda>reason. str_trim reason \<noteq> []) given) in
      \<lparr>ds_complete = complete,
       ds_reasons = (if complete then [] else if nonempty = [] then [''semantic evidence is incomplete''] else nonempty),
       ds_capabilities = bset caps, ds_effects = bset effs\<rparr>)"

definition summary_strings :: "(string, json) bmap \<Rightarrow> string \<Rightarrow> string + string list" where
  "summary_strings fs name =
     and_then (ok_or (''dependency summary '' @ name @ '' must be an array'') (Option.bind (bmap_get fs name) json_as_array))
       (traverse (\<lambda>v. ok_or (''dependency summary '' @ name @ '' must contain strings'') (json_as_str v)))"

definition summary_unique :: "string list \<Rightarrow> string \<Rightarrow> string + unit" where
  "summary_unique vals name = check (length (bset vals) = length vals) (''dependency summary '' @ name @ '' must be unique'')"

definition summary_capability :: "string \<Rightarrow> capability option" where
  "summary_capability = map_of
     [(''repository_read'', CapRepositoryRead), (''repository_write'', CapRepositoryWrite), (''token_read'', CapTokenRead),
      (''token_write'', CapTokenWrite), (''oidc'', CapOidc), (''cloud_credential'', CapCloudCredential),
      (''secret_access'', CapSecretAccess), (''network'', CapNetwork), (''filesystem_read'', CapFilesystemRead),
      (''filesystem_write'', CapFilesystemWrite), (''shell'', CapShell), (''artifact_read'', CapArtifactRead),
      (''artifact_write'', CapArtifactWrite), (''cache_read'', CapCacheRead), (''cache_write'', CapCacheWrite),
      (''deployment'', CapDeployment), (''self_hosted_persistence'', CapSelfHostedPersistence), (''ai_tool'', CapAiTool)]"

definition summary_effect :: "string \<Rightarrow> observable_effect option" where
  "summary_effect = map_of
     [(''repository_change'', EffRepositoryChange), (''network_request'', EffNetworkRequest), (''file_read'', EffFileRead),
      (''file_write'', EffFileWrite), (''command_execution'', EffCommandExecution), (''artifact_publish'', EffArtifactPublish),
      (''cache_publish'', EffCachePublish), (''deployment_change'', EffDeploymentChange), (''credential_use'', EffCredentialUse),
      (''workflow_change'', EffWorkflowChange), (''ai_agent_execution'', EffAiAgentExecution)]"

definition summary_fields :: "string list" where
  "summary_fields = [''capabilities'', ''complete'', ''effects'', ''reasons'']"

definition summary_parse :: "json \<Rightarrow> string + dependency_summary" where
  "summary_parse v =
     and_then (exact_object ''dependency summary'' summary_fields v) (\<lambda>fs.
     (case find (\<lambda>name. bmap_get fs name = None) summary_fields of
        Some name \<Rightarrow> Inl (''dependency summary needs field '' @ name)
      | None \<Rightarrow>
     and_then (ok_or ''dependency summary complete must be a boolean'' (Option.bind (bmap_get fs ''complete'') json_as_bool)) (\<lambda>complete.
     and_then (summary_strings fs ''reasons'') (\<lambda>given.
     and_then (check (\<not> list_ex (\<lambda>reason. str_trim reason = []) given) ''dependency summary reasons must not be empty'') (\<lambda>_.
     and_then (summary_unique given ''reasons'') (\<lambda>_.
     and_then (check (\<not> (complete \<and> given \<noteq> [])) ''complete dependency summaries cannot contain incomplete reasons'') (\<lambda>_.
     and_then (check (\<not> (\<not> complete \<and> given = [])) ''incomplete dependency summaries need a reason'') (\<lambda>_.
     and_then (summary_strings fs ''capabilities'') (\<lambda>capability_names.
     and_then (summary_unique capability_names ''capabilities'') (\<lambda>_.
     and_then (traverse (\<lambda>name. ok_or (''unknown dependency summary capabilities value '' @ name) (summary_capability name)) capability_names)
       (\<lambda>caps.
     and_then (summary_strings fs ''effects'') (\<lambda>effect_names.
     and_then (summary_unique effect_names ''effects'') (\<lambda>_.
     and_then (traverse (\<lambda>name. ok_or (''unknown dependency summary effects value '' @ name) (summary_effect name)) effect_names)
       (\<lambda>effs. Inr (summary_new complete given caps effs)))))))))))))))"

definition summary_to_json :: "dependency_summary \<Rightarrow> json" where
  "summary_to_json s = JObject
     [(''capabilities'', JArray (map (\<lambda>c. JString (capability_name c)) (ds_capabilities s))),
      (''complete'', JBoolean (ds_complete s)),
      (''effects'', JArray (map (\<lambda>f. JString (observable_effect_name f)) (ds_effects s))),
      (''reasons'', JArray (map JString (ds_reasons s)))]"

text \<open>The capabilities an effect needs, and what is known of an Azure task from its metadata.\<close>

fun required_by_effect :: "observable_effect \<Rightarrow> capability list" where
  "required_by_effect EffRepositoryChange = [CapRepositoryWrite, CapTokenWrite]"
| "required_by_effect EffNetworkRequest = [CapNetwork]"
| "required_by_effect EffFileWrite = [CapFilesystemWrite]"
| "required_by_effect EffWorkflowChange = [CapFilesystemWrite]"
| "required_by_effect EffArtifactPublish = [CapArtifactWrite]"
| "required_by_effect EffCachePublish = [CapCacheWrite]"
| "required_by_effect EffDeploymentChange = [CapDeployment]"
| "required_by_effect EffCredentialUse = [CapSecretAccess]"
| "required_by_effect EffAiAgentExecution = [CapAiTool]"
| "required_by_effect EffFileRead = []"
| "required_by_effect EffCommandExecution = []"

definition infer_azure_task :: "string \<Rightarrow> dependency_summary option" where
  "infer_azure_task source = map_option (\<lambda>r. case r of
       Inl e \<Rightarrow> summary_new False [''Azure task metadata JSON byte '' @ dec_nat (je_offset e) @ '': '' @ je_message e] [] []
     | Inr parsed \<Rightarrow>
         (case json_member ''execution'' parsed of
            Some (JObject (f # fs)) \<Rightarrow>
              summary_new False [''Azure task implementation is unavailable beyond locked task.json'']
                [CapShell, CapFilesystemRead] [EffCommandExecution]
          | _ \<Rightarrow> summary_new False [''Azure task metadata has no declared execution handler''] [] [])) (json_parse source)"

text \<open>A summary as the constructors leave it.\<close>

definition summary_ok :: "dependency_summary \<Rightarrow> bool" where
  "summary_ok s \<longleftrightarrow> summary_new (ds_complete s) (ds_reasons s) (ds_capabilities s) (ds_effects s) = s"

lemma summary_capability_back: "summary_capability (capability_name c) = Some c"
  by (cases c) (simp_all add: summary_capability_def)

lemma summary_effect_back: "summary_effect (observable_effect_name f) = Some f"
  by (cases f) (simp_all add: summary_effect_def)

lemma str_trim_default: "str_trim ''semantic evidence is incomplete'' \<noteq> []"
  by (simp add: str_trim_def utf8_width_def graphic_not_white)

lemma bset_again: "bset (bset xs) = bset xs"
  by (simp add: bset_eq_iff)

lemma bset_filter_again: "bset (filter P (bset (filter P xs))) = bset (filter P xs)"
  by (simp add: bset_eq_iff)

lemma summary_new_ok: "summary_ok (summary_new complete given caps effs)"
  by (auto simp: summary_ok_def summary_new_def Let_def str_trim_default filter_empty_conv bset_again bset_filter_again)

lemma summary_okD:
  assumes "summary_ok s"
  shows "canonical (ds_capabilities s)" "canonical (ds_effects s)" "canonical (ds_reasons s)"
    "\<forall>reason \<in> set (ds_reasons s). str_trim reason \<noteq> []" "ds_complete s \<longleftrightarrow> ds_reasons s = []"
proof -
  from assms have s: "s = summary_new (ds_complete s) (ds_reasons s) (ds_capabilities s) (ds_effects s)" by (simp add: summary_ok_def)
  show "canonical (ds_capabilities s)" "canonical (ds_effects s)"
    by (subst s, simp add: summary_new_def Let_def)+
  show "canonical (ds_reasons s)" by (subst s) (simp add: summary_new_def Let_def)
  show "\<forall>reason \<in> set (ds_reasons s). str_trim reason \<noteq> []"
    by (subst s) (auto simp: summary_new_def Let_def str_trim_default)
  show "ds_complete s \<longleftrightarrow> ds_reasons s = []"
    by (subst (2) s) (simp add: summary_new_def Let_def)
qed

lemma ok_or_value: "ok_or e (Some x) = Inr x"
  by (simp add: ok_or_def)

lemma summary_strings_back:
  "bmap_get fs name = Some (JArray (map JString xs)) \<Longrightarrow> summary_strings fs name = Inr xs"
  using traverse_map [of xs "\<lambda>v. ok_or (''dependency summary '' @ name @ '' must contain strings'') (json_as_str v)" JString id]
  by (simp add: summary_strings_def json_as_array_def json_as_str_def ok_or_def)

lemma canonical_unique: "canonical xs \<Longrightarrow> summary_unique xs name = Inr ()"
  by (simp add: summary_unique_def check_def bset_canonical_id)

lemma names_unique:
  assumes "distinct xs" "\<And>x y. f x = f y \<Longrightarrow> x = y"
  shows "summary_unique (map f xs) name = Inr ()"
proof -
  have "distinct (map f xs)" using assms by (auto simp: distinct_map inj_on_def)
  then have "card (set (map f xs)) = length (map f xs)" by (rule distinct_card)
  then show ?thesis by (simp add: summary_unique_def check_def length_bset)
qed

lemma summary_reads_back:
  assumes "summary_ok s"
  shows "summary_parse (summary_to_json s) = Inr s"
proof -
  let ?fs = "[(''capabilities'', JArray (map (\<lambda>c. JString (capability_name c)) (ds_capabilities s))),
      (''complete'', JBoolean (ds_complete s)),
      (''effects'', JArray (map (\<lambda>f. JString (observable_effect_name f)) (ds_effects s))),
      (''reasons'', JArray (map JString (ds_reasons s)))]"
  note ok = summary_okD [OF assms]
  have "exact_object ''dependency summary'' summary_fields (summary_to_json s) = Inr ?fs"
    by (simp add: exact_object_def summary_to_json_def summary_fields_def)
  moreover have "find (\<lambda>name. bmap_get ?fs name = None) summary_fields = None" by (simp add: summary_fields_def)
  moreover have "summary_strings ?fs ''reasons'' = Inr (ds_reasons s)" by (rule summary_strings_back) simp
  moreover have "summary_strings ?fs ''capabilities'' = Inr (map capability_name (ds_capabilities s))"
    by (rule summary_strings_back) simp
  moreover have "summary_strings ?fs ''effects'' = Inr (map observable_effect_name (ds_effects s))"
    by (rule summary_strings_back) simp
  moreover have "summary_unique (ds_reasons s) ''reasons'' = Inr ()" by (rule canonical_unique [OF ok(3)])
  moreover have "summary_unique (map capability_name (ds_capabilities s)) ''capabilities'' = Inr ()"
    by (rule names_unique) (use ok(1) summary_capability_back in \<open>auto simp: strict_sorted_iff dest: arg_cong [of _ _ summary_capability]\<close>)
  moreover have "summary_unique (map observable_effect_name (ds_effects s)) ''effects'' = Inr ()"
    by (rule names_unique) (use ok(2) summary_effect_back in \<open>auto simp: strict_sorted_iff dest: arg_cong [of _ _ summary_effect]\<close>)
  moreover have "traverse (\<lambda>name. ok_or (''unknown dependency summary capabilities value '' @ name) (summary_capability name)) (map capability_name (ds_capabilities s)) = Inr (ds_capabilities s)"
    using traverse_map [of "ds_capabilities s" "\<lambda>name. ok_or (''unknown dependency summary capabilities value '' @ name) (summary_capability name)" capability_name id]
    by (simp add: summary_capability_back)
  moreover have "traverse (\<lambda>name. ok_or (''unknown dependency summary effects value '' @ name) (summary_effect name)) (map observable_effect_name (ds_effects s)) = Inr (ds_effects s)"
    using traverse_map [of "ds_effects s" "\<lambda>name. ok_or (''unknown dependency summary effects value '' @ name) (summary_effect name)" observable_effect_name id]
    by (simp add: summary_effect_back)
  moreover have "summary_new (ds_complete s) (ds_reasons s) (ds_capabilities s) (ds_effects s) = s"
    using assms by (simp add: summary_ok_def)
  moreover have "\<not> list_ex (\<lambda>reason. str_trim reason = []) (ds_reasons s)" using ok(4) by (auto simp: list_ex_iff)
  ultimately show ?thesis
    unfolding summary_parse_def using ok(5) by (simp add: json_as_bool_def check_def ok_or_value del: and_then_simps(3))
qed

section \<open>Lock entries\<close>

record lock_entry =
  le_provider :: provider
  le_reference :: string
  le_revision :: string
  le_digest :: string
  le_source :: string
  le_summary :: "dependency_summary option"

definition lock_entry_validate :: "lock_entry \<Rightarrow> string + unit" where
  "lock_entry_validate e =
     (if str_trim (le_reference e) = [] then Inl ''lock reference must not be empty''
      else if str_trim (le_revision e) = [] then Inl ''lock revision must not be empty''
      else if \<not> valid_content_digest (le_digest e) then Inl (''invalid SHA-256 digest for '' @ le_reference e)
      else if str_trim (le_source e) = [] then Inl ''lock source must not be empty''
      else Inr ())"

definition lock_entry_members :: "lock_entry \<Rightarrow> (string, json) bmap" where
  "lock_entry_members e =
     [(''digest'', JString (le_digest e)), (''provider'', JString (provider_name (le_provider e))),
      (''reference'', JString (le_reference e)), (''revision'', JString (le_revision e)), (''source'', JString (le_source e))]
     @ (case le_summary e of None \<Rightarrow> [] | Some s \<Rightarrow> [(''summary'', summary_to_json s)])"

section \<open>Lock files\<close>

record lockfile =
  lf_schema :: string
  lf_entries :: "lock_entry list"
  lf_integrity :: string

definition lock_key :: "lock_entry \<Rightarrow> provider \<times> string" where
  "lock_key e = (le_provider e, le_reference e)"

text \<open>\<open>prev\<close> is the last entry kept.\<close>

fun unique_entries :: "lock_entry option \<Rightarrow> lock_entry list \<Rightarrow> string + lock_entry list" where
  "unique_entries prev [] = Inr []"
| "unique_entries prev (e # es) =
     (case prev of
        Some p \<Rightarrow>
          if lock_key p = lock_key e then
            (if p = e then unique_entries prev es
             else Inl (''conflicting lock entries for '' @ provider_name (le_provider e) @ '':'' @ le_reference e))
          else and_then (unique_entries (Some e) es) (\<lambda>us. Inr (e # us))
      | None \<Rightarrow> and_then (unique_entries (Some e) es) (\<lambda>us. Inr (e # us)))"

definition lock_unsigned :: "lock_entry list \<Rightarrow> (string, json) bmap" where
  "lock_unsigned es = [(''entries'', JArray (map (\<lambda>e. JObject (lock_entry_members e)) es)), (''schema'', JString ''lock-v2'')]"

definition lock_new :: "(string \<Rightarrow> string) \<Rightarrow> lock_entry list \<Rightarrow> string + lockfile" where
  "lock_new H es =
     (let sorted = sort_key lock_key es in
      and_then (traverse lock_entry_validate sorted) (\<lambda>_.
      and_then (unique_entries None sorted) (\<lambda>us.
        Inr \<lparr>lf_schema = ''lock-v2'', lf_entries = us, lf_integrity = canonical_digest H (JObject (lock_unsigned us))\<rparr>)))"

definition lock_find :: "lockfile \<Rightarrow> provider \<Rightarrow> string \<Rightarrow> lock_entry option" where
  "lock_find l provider reference = find (\<lambda>e. le_provider e = provider \<and> le_reference e = reference) (lf_entries l)"

definition lock_verify :: "(string \<Rightarrow> string) \<Rightarrow> lockfile \<Rightarrow> bool" where
  "lock_verify H l \<longleftrightarrow> lf_schema l = ''lock-v2'' \<and> lf_integrity l = canonical_digest H (JObject (lock_unsigned (lf_entries l)))"

definition lock_members :: "lockfile \<Rightarrow> (string, json) bmap" where
  "lock_members l = [(''entries'', JArray (map (\<lambda>e. JObject (lock_entry_members e)) (lf_entries l))),
     (''integrity'', JString (lf_integrity l)), (''schema'', JString (lf_schema l))]"

definition lock_to_canonical :: "lockfile \<Rightarrow> string" where
  "lock_to_canonical l = canonical_line (JObject (lock_members l))"

definition lock_string :: "(string, json) bmap \<Rightarrow> string \<Rightarrow> string + string" where
  "lock_string fs name = ok_or (''lockfile needs string field '' @ name) (Option.bind (bmap_get fs name) json_as_str)"

definition lock_provider :: "string \<Rightarrow> string + provider" where
  "lock_provider value' = ok_or (''unknown lock provider '' @ value')
     (map_of [(''github'', PrGithub), (''gitlab'', PrGitlab), (''azure'', PrAzure), (''circleci'', PrCircleci)] value')"

definition parse_lock_entry :: "json \<Rightarrow> string + lock_entry" where
  "parse_lock_entry v =
     and_then (exact_object ''lock entry'' [''digest'', ''provider'', ''reference'', ''revision'', ''source'', ''summary''] v) (\<lambda>item.
     and_then (check (list_all (\<lambda>name. bmap_get item name \<noteq> None) [''digest'', ''provider'', ''reference'', ''revision'', ''source''])
       ''lock entry is missing a required field'') (\<lambda>_.
     and_then (lock_string item ''provider'') (\<lambda>p. and_then (lock_provider p) (\<lambda>provider.
     and_then (lock_string item ''reference'') (\<lambda>reference.
     and_then (lock_string item ''revision'') (\<lambda>revision.
     and_then (lock_string item ''digest'') (\<lambda>digest.
     and_then (lock_string item ''source'') (\<lambda>source.
     and_then (case bmap_get item ''summary'' of None \<Rightarrow> Inr None | Some s \<Rightarrow> map_sum id Some (summary_parse s)) (\<lambda>summary.
       Inr \<lparr>le_provider = provider, le_reference = reference, le_revision = revision, le_digest = digest, le_source = source,
         le_summary = summary\<rparr>)))))))))"

definition lock_of_fields :: "(string \<Rightarrow> string) \<Rightarrow> (string, json) bmap \<Rightarrow> string + lockfile" where
  "lock_of_fields H fs =
     and_then (check (length fs = 3 \<and> list_all (\<lambda>name. bmap_get fs name \<noteq> None) [''entries'', ''integrity'', ''schema''])
       ''lockfile has missing fields'') (\<lambda>_.
     and_then (lock_string fs ''schema'') (\<lambda>schema.
     and_then (check (schema = ''lock-v2'') (''unsupported lock schema '' @ schema)) (\<lambda>_.
     and_then (lock_string fs ''integrity'') (\<lambda>integrity.
     and_then (ok_or ''lockfile entries must be an array'' (Option.bind (bmap_get fs ''entries'') json_as_array)) (\<lambda>vals.
     and_then (traverse parse_lock_entry vals) (\<lambda>es.
     and_then (lock_new H es) (\<lambda>rebuilt.
       if lf_integrity rebuilt \<noteq> integrity then Inl ''lockfile integrity digest mismatch'' else Inr rebuilt)))))))"

definition lock_parse :: "(string \<Rightarrow> string) \<Rightarrow> string \<Rightarrow> (string + lockfile) option" where
  "lock_parse H source =
     map_option (\<lambda>r. case r of
         Inl e \<Rightarrow> Inl (json_error_display e)
       | Inr root \<Rightarrow> and_then (exact_object ''lockfile'' [''entries'', ''integrity'', ''schema''] root) (lock_of_fields H)) (json_parse source)"

section \<open>Construction\<close>

lemma unique_entries_exact:
  assumes "sorted (map lock_key (p # es))"
  shows "unique_entries (Some p) es = Inr us \<longleftrightarrow> inj_on lock_key (set (p # es)) \<and> p # us = remdups_adj (p # es)"
  using assms
proof (induction es arbitrary: p us)
  case (Cons e es)
  have sorted: "sorted (map lock_key (e # es))" "sorted (map lock_key (p # es))" using Cons.prems by auto
  show ?case
  proof (cases "lock_key p = lock_key e")
    case True
    show ?thesis
    proof (cases "p = e")
      case False
      with True show ?thesis by (auto simp: inj_on_def)
    qed (use Cons.IH [OF sorted(2)] True in simp)
  next
    case False
    have "lock_key p < lock_key x" if "x \<in> set (e # es)" for x
      using Cons.prems False that by (auto simp: less_le_trans order.strict_iff_order)
    then have inj: "inj_on lock_key (set (p # e # es)) \<longleftrightarrow> inj_on lock_key (set (e # es))"
      by (fastforce simp: inj_on_def)
    have ne: "p \<noteq> e" using False by auto
    obtain vs where vs: "remdups_adj (e # es) = e # vs" by (metis remdups_adj_Cons_alt)
    have "unique_entries (Some p) (e # es) = Inr us \<longleftrightarrow> (\<exists>ws. unique_entries (Some e) es = Inr ws \<and> us = e # ws)"
      using False by auto
    also have "\<dots> \<longleftrightarrow> inj_on lock_key (set (e # es)) \<and> us = e # vs" unfolding Cons.IH [OF sorted(1)] vs by blast
    also have "\<dots> \<longleftrightarrow> inj_on lock_key (set (p # e # es)) \<and> p # us = remdups_adj (p # e # es)" unfolding inj using ne vs by simp
    finally show ?thesis .
  qed
qed auto

lemma unique_entries_start:
  assumes "sorted (map lock_key es)"
  shows "unique_entries None es = Inr us \<longleftrightarrow> inj_on lock_key (set es) \<and> us = remdups_adj es"
proof (cases es)
  case (Cons e rest)
  obtain vs where vs: "remdups_adj (e # rest) = e # vs" by (metis remdups_adj_Cons_alt)
  have "unique_entries None es = Inr us \<longleftrightarrow> (\<exists>ws. unique_entries (Some e) rest = Inr ws \<and> us = e # ws)" by (auto simp: Cons)
  also have "\<dots> \<longleftrightarrow> inj_on lock_key (set es) \<and> us = remdups_adj es"
    using unique_entries_exact [of e rest] assms vs by (auto simp: Cons simp del: unique_entries.simps)
  finally show ?thesis .
next
  case Nil
  then show ?thesis by (cases us) simp_all
qed

lemma strictly_sorted_remdups:
  fixes k :: "'a \<Rightarrow> 'b::linorder"
  shows "sorted (map k xs) \<Longrightarrow> inj_on k (set xs) \<Longrightarrow> sorted_wrt (\<lambda>a b. k a < k b) (remdups_adj xs)"
proof (induction xs rule: remdups_adj.induct)
  case (3 x y xs)
  show ?case
  proof (cases "x = y")
    case False
    then have "k x \<noteq> k y" using "3.prems"(2) by (auto simp: inj_on_def)
    then have "k x < k z" if "z \<in> set (y # xs)" for z using "3.prems"(1) that by (auto simp: order.strict_iff_order)
    moreover have "sorted_wrt (\<lambda>a b. k a < k b) (remdups_adj (y # xs))"
      using "3.IH"(2) [OF False] "3.prems" by (simp add: inj_on_def)
    ultimately show ?thesis using False by simp
  qed (use 3 in simp)
qed simp_all

lemma strictly_sorted_unique:
  fixes k :: "'a \<Rightarrow> 'b::linorder"
  assumes "sorted_wrt (\<lambda>a b. k a < k b) xs" "sorted_wrt (\<lambda>a b. k a < k b) ys" "set xs = set ys"
  shows "xs = ys"
proof -
  have strict: "sorted_wrt (<) (map k xs)" "sorted_wrt (<) (map k ys)" using assms(1,2) by (simp_all add: sorted_wrt_map)
  have "set (map k xs) = set (map k ys)" using assms(3) by simp
  then have "map k xs = map k ys" using strict by (metis strict_sorted_iff sorted_distinct_set_unique)
  moreover have "inj_on k (set xs \<union> set ys)"
    using strict(1) assms(3) by (simp add: strict_sorted_iff distinct_map)
  ultimately show ?thesis by (metis map_inj_on)
qed

lemma traverse_ok: "(\<exists>us. traverse f xs = Inr us) \<longleftrightarrow> list_all (\<lambda>x. f x = Inr ()) xs"
  by (induction xs) auto

lemma lock_new_spec:
  "lock_new H es = Inr l \<longleftrightarrow>
     list_all (\<lambda>e. lock_entry_validate e = Inr ()) es \<and> inj_on lock_key (set es)
     \<and> sorted_wrt (\<lambda>a b. lock_key a < lock_key b) (lf_entries l) \<and> set (lf_entries l) = set es \<and> lock_verify H l"
proof -
  let ?sorted = "sort_key lock_key es"
  have valid: "(\<exists>us. traverse lock_entry_validate ?sorted = Inr us) \<longleftrightarrow> list_all (\<lambda>e. lock_entry_validate e = Inr ()) es"
    unfolding traverse_ok by (simp add: list_all_iff)
  have "unique_entries None ?sorted = Inr us \<longleftrightarrow> inj_on lock_key (set es)
      \<and> sorted_wrt (\<lambda>a b. lock_key a < lock_key b) us \<and> set us = set es" for us
  proof
    assume "unique_entries None ?sorted = Inr us"
    then have "inj_on lock_key (set es)" "us = remdups_adj ?sorted" by (simp_all add: unique_entries_start)
    then show "inj_on lock_key (set es) \<and> sorted_wrt (\<lambda>a b. lock_key a < lock_key b) us \<and> set us = set es"
      using strictly_sorted_remdups [of lock_key ?sorted] by simp
  next
    assume right: "inj_on lock_key (set es) \<and> sorted_wrt (\<lambda>a b. lock_key a < lock_key b) us \<and> set us = set es"
    then have "us = remdups_adj ?sorted"
      by (intro strictly_sorted_unique [of lock_key]) (simp_all add: strictly_sorted_remdups)
    with right show "unique_entries None ?sorted = Inr us" by (simp add: unique_entries_start)
  qed
  then show ?thesis
    using valid by (cases l) (auto simp: lock_new_def Let_def lock_verify_def)
qed

text \<open>
  C23. A lock file is built exactly from valid entries of which no two name the same provider and reference unless they are
  equal; it holds each of them once, strictly sorted by provider and reference, so it depends only on the set
  of entries, and its integrity digest verifies.
\<close>

theorem lock_new_exact:
  "lock_new H es = Inr l \<longleftrightarrow>
     list_all (\<lambda>e. lock_entry_validate e = Inr ()) es \<and> inj_on lock_key (set es)
     \<and> sorted_wrt (\<lambda>a b. lock_key a < lock_key b) (lf_entries l) \<and> set (lf_entries l) = set es \<and> lock_verify H l"
  by (rule lock_new_spec)

section \<open>Reading back\<close>

definition lock_entry_text :: "lock_entry \<Rightarrow> bool" where
  "lock_entry_text e \<longleftrightarrow> utf8_valid (le_reference e) \<and> utf8_valid (le_revision e) \<and> utf8_valid (le_digest e) \<and> utf8_valid (le_source e)
     \<and> (case le_summary e of None \<Rightarrow> True | Some s \<Rightarrow> summary_ok s \<and> list_all utf8_valid (ds_reasons s))"

lemma lock_entry_reads_back:
  assumes "lock_entry_text e"
  shows "parse_lock_entry (JObject (lock_entry_members e)) = Inr e"
proof -
  let ?fs = "lock_entry_members e"
  have "exact_object ''lock entry'' [''digest'', ''provider'', ''reference'', ''revision'', ''source'', ''summary''] (JObject ?fs) = Inr ?fs"
    by (simp add: exact_object_def lock_entry_members_def split: option.split)
  moreover have "list_all (\<lambda>name. bmap_get ?fs name \<noteq> None) [''digest'', ''provider'', ''reference'', ''revision'', ''source'']"
    by (simp add: lock_entry_members_def)
  moreover have "lock_string ?fs ''provider'' = Inr (provider_name (le_provider e))" "lock_string ?fs ''reference'' = Inr (le_reference e)"
    "lock_string ?fs ''revision'' = Inr (le_revision e)" "lock_string ?fs ''digest'' = Inr (le_digest e)"
    "lock_string ?fs ''source'' = Inr (le_source e)"
    by (simp_all add: lock_string_def lock_entry_members_def json_as_str_def)
  moreover have "lock_provider (provider_name p) = Inr p" for p by (cases p) (simp_all add: lock_provider_def)
  moreover have "(case bmap_get ?fs ''summary'' of None \<Rightarrow> Inr None | Some s \<Rightarrow> map_sum id Some (summary_parse s)) = Inr (le_summary e)"
    using assms by (cases "le_summary e") (simp_all add: lock_entry_members_def lock_entry_text_def summary_reads_back)
  ultimately show ?thesis by (cases e) (simp add: parse_lock_entry_def check_def del: and_then_simps(3))
qed

lemma summary_json_ok: "summary_ok s \<Longrightarrow> list_all utf8_valid (ds_reasons s) \<Longrightarrow> json_ok (summary_to_json s)"
proof -
  have "utf8_valid (capability_name c)" "utf8_valid (observable_effect_name f)" for c f
    by (cases c; simp add: utf8_valid_ascii) (cases f; simp add: utf8_valid_ascii)
  then show "list_all utf8_valid (ds_reasons s) \<Longrightarrow> json_ok (summary_to_json s)"
    by (simp add: summary_to_json_def bmap_ok_def less_char_def list_all_iff)
qed

lemma lock_json_ok:
  assumes "list_all lock_entry_text (lf_entries l)" "lock_verify H l"
  shows "json_ok (JObject (lock_members l))"
proof -
  have member: "json_ok (JObject (lock_entry_members e))" if "lock_entry_text e" for e
    using that by (cases "le_summary e"; cases "le_provider e")
      (simp_all add: lock_entry_members_def lock_entry_text_def bmap_ok_def less_char_def summary_json_ok)
  have "list_all json_ok (map (\<lambda>e. JObject (lock_entry_members e)) (lf_entries l))"
    using assms(1) member by (auto simp: list_all_iff simp del: json_ok.simps)
  moreover have "utf8_valid (lf_integrity l)" using assms(2) content_digest_utf8 by (simp add: lock_verify_def canonical_digest_def)
  moreover have "lf_schema l = ''lock-v2''" using assms(2) by (simp add: lock_verify_def)
  ultimately show ?thesis
    unfolding lock_members_def json_ok.simps(3) by (simp add: bmap_ok_def less_char_def del: json_ok.simps(3))
qed

text \<open>
  C24. The document of every lock file that can be built, summaries included, is read back as the same lock file, as long as it is within
  the limits of the JSON parser.
\<close>

theorem lockfile_roundtrip:
  assumes "lock_new H es = Inr l" "list_all lock_entry_text es" "within_limits default_json_limits (JObject (lock_members l))"
  shows "lock_parse H (lock_to_canonical l) = Some (Inr l)"
proof -
  have l: "set (lf_entries l) = set es" "lock_verify H l" "lock_new H (lf_entries l) = Inr l"
    using assms(1) by (auto simp: lock_new_spec list_all_iff)
  have valid: "list_all lock_entry_text (lf_entries l)" using assms(2) l(1) by (simp add: list_all_iff)
  have "json_parse (lock_to_canonical l) = Some (Inr (JObject (lock_members l)))"
    unfolding json_parse_def lock_to_canonical_def
    by (rule json_line_reads_back [OF lock_json_ok [OF valid l(2)]]) (use assms(3) in \<open>simp_all add: within_limits_def\<close>)
  moreover have "traverse parse_lock_entry (map (\<lambda>e. JObject (lock_entry_members e)) (lf_entries l)) = Inr (lf_entries l)"
    using traverse_map [of "lf_entries l" parse_lock_entry "\<lambda>e. JObject (lock_entry_members e)" id] valid
    by (simp add: lock_entry_reads_back list_all_iff)
  moreover have "lf_schema l = ''lock-v2''" using l(2) by (simp add: lock_verify_def)
  ultimately show ?thesis
    using l(3) by (simp add: lock_parse_def exact_object_def lock_of_fields_def lock_members_def lock_string_def json_as_str_def
        json_as_array_def check_def ok_or_value del: and_then_simps(3))
qed

definition sample_lock_entry :: lock_entry where
  "sample_lock_entry = \<lparr>le_provider = PrGithub, le_reference = ''a@v1'', le_revision = ''r'',
     le_digest = ''sha256:'' @ replicate 64 (CHR ''0''), le_source = ''s'',
     le_summary = Some (summary_new False [] [CapShell] [EffCommandExecution])\<rparr>"

definition sample_lock :: lockfile where
  "sample_lock = \<lparr>lf_schema = ''lock-v2'', lf_entries = [sample_lock_entry], lf_integrity = ''sha256:''\<rparr>"

lemma empty_digest: "canonical_digest (\<lambda>_. []) v = ''sha256:''"
  by (simp add: canonical_digest_def content_digest_def of_bytes_def digest_display_def lowercase_hex_def)

lemma sample_lock_built: "lock_new (\<lambda>_. []) [sample_lock_entry, sample_lock_entry] = Inr sample_lock"
proof -
  have "valid_content_digest (le_digest sample_lock_entry)"
    by (simp add: sample_lock_entry_def valid_content_digest_def exact_lower_hex_def is_ascii_digit_def in_range_def list_all_iff)
  then have "lock_entry_validate sample_lock_entry = Inr ()"
    by (simp add: lock_entry_validate_def) (simp add: sample_lock_entry_def str_trim_def utf8_width_def graphic_not_white)
  then show ?thesis unfolding lock_new_spec by (simp add: sample_lock_def lock_verify_def empty_digest)
qed

lemma lockfile_roundtrip_witness: "lock_parse (\<lambda>_. []) (lock_to_canonical sample_lock) = Some (Inr sample_lock)"
proof (rule lockfile_roundtrip [OF sample_lock_built])
  have reason: "str_trim ''semantic evidence is incomplete'' \<noteq> []" by (rule str_trim_default)
  show "list_all lock_entry_text [sample_lock_entry, sample_lock_entry]"
    by (simp add: sample_lock_entry_def lock_entry_text_def summary_new_ok) (simp add: summary_new_def utf8_valid_ascii)
  show "within_limits default_json_limits (JObject (lock_members sample_lock))"
    by (simp add: within_limits_def default_json_limits_def lock_members_def sample_lock_def sample_lock_entry_def lock_entry_members_def
        summary_to_json_def summary_new_def canonical_line_def write_string_def plain_escape)
qed

end
