(* ===== verification/Spec2Isabelle.thy ===== *)
theory Spec2Isabelle
  imports Budget Paths Spans Json Value_Rank Finalize Graph_Paths Sha256 Verdict Compose Policy Graph_Document Evidence Plan_Builder Planner Source_Manifest Sandbox_Audit Lockfile
begin

text \<open>
  \<^bold>\<open>A verification library of workflow-verifier.\<close> The program reads the workflow files of four continuous
  integration providers, lowers each to a graph (the intermediate representation), composes the graphs of a
  repository, propagates abstract values over the composition, and checks security properties and
  repository policies. What it reports are diagnostics, a verdict and documents in canonical JSON. The
  theories follow the layers of the Rust crate, whose root is \<^verbatim>\<open>src/src\<close>; \<^verbatim>\<open>Prelude\<close> holds the vocabulary
  they share (ordered maps and sets kept as strictly sorted lists, string operations, the interface
  locales).

  \<^bold>\<open>Foundation\<close> (\<^verbatim>\<open>foundation/\<close>).
  \<^item> \<^verbatim>\<open>Budget\<close> (\<^verbatim>\<open>budget.rs\<close>): the resource tracker as a state machine over its charging operations; the
    locale \<open>counter_op\<close> is the contract of one counter and is interpreted on the four of them.
  \<^item> \<^verbatim>\<open>Paths\<close> (\<^verbatim>\<open>path.rs\<close>, \<^verbatim>\<open>dependency_identity.rs\<close>, \<^verbatim>\<open>normalize_relative\<close>): portable paths and the mutability of
    references.
  \<^item> \<^verbatim>\<open>Utf8\<close>, \<^verbatim>\<open>Spans\<close> (\<^verbatim>\<open>span.rs\<close>): positions, spans and the UTF-16 translations.
  \<^item> \<^verbatim>\<open>Json\<close> (\<^verbatim>\<open>json.rs\<close>): the canonical writer and the strict parser with its limits.
  \<^item> \<^verbatim>\<open>Digests\<close> (\<^verbatim>\<open>digest.rs\<close>): hexadecimal digests, composite digests, the buffered writer.
  \<^item> \<^verbatim>\<open>Sha256\<close> (\<^verbatim>\<open>runner_protocol/sha256.rs\<close>): the hash of the runner, against FIPS 180-4.

  \<^bold>\<open>Domain\<close> (\<^verbatim>\<open>domain/\<close>).
  \<^item> \<^verbatim>\<open>Unknowns\<close> (\<^verbatim>\<open>unknown.rs\<close>) and \<^verbatim>\<open>Conditions\<close> (\<^verbatim>\<open>condition.rs\<close>): reasons for incompleteness, and reduced ordered
    decision diagrams with their denotation.
  \<^item> \<^verbatim>\<open>Abstract_Values\<close> (\<^verbatim>\<open>abstract_value.rs\<close>): the value lattice with its joins; \<^verbatim>\<open>Value_Semantics\<close> says what a
    value describes and that joins are sound; \<^verbatim>\<open>Value_Rank\<close> bounds how often a join can change its target
    and interprets the locale \<open>flagged_join\<close> (a join that returns whether it changed something) on every
    join of the code.
  \<^item> \<^verbatim>\<open>Kinds\<close>, \<^verbatim>\<open>Ir\<close>, \<^verbatim>\<open>Finalize\<close> (\<^verbatim>\<open>ir.rs\<close>): enumerations, sources, nodes, edges and programs; finalization as a
    dense renumbering and validation; \<^verbatim>\<open>Views\<close>: their JSON trees.

  \<^bold>\<open>Verifier\<close> (\<^verbatim>\<open>verifier/mod.rs\<close>).
  \<^item> \<^verbatim>\<open>Graph_Search\<close>, \<^verbatim>\<open>Graph_Paths\<close>: the adjacency index, reachability, dominance, shortest paths, cycles.
  \<^item> \<^verbatim>\<open>Worklist\<close>, \<^verbatim>\<open>Dataflow\<close>: propagation to a fixed point; the locale \<open>accumulating_join\<close> extends
    \<open>flagged_join\<close> by a property that joins only ever add, and is interpreted for untrusted data and secrets.
  \<^item> \<^verbatim>\<open>Diagnostics\<close>, \<^verbatim>\<open>Scripts\<close>, \<^verbatim>\<open>Rules\<close>, \<^verbatim>\<open>Verdict\<close>: findings and their identifiers, the lexical analysis of
    scripts, the rules, the run and the gate, and what the rules establish.
  \<^item> \<^verbatim>\<open>Compose\<close>: merging of provider fragments, resolution of local calls, resources shared between files.

  \<^bold>\<open>Product\<close> (\<^verbatim>\<open>product/\<close>).
  \<^item> \<^verbatim>\<open>Id_Search\<close>, \<^verbatim>\<open>Policy\<close> (\<^verbatim>\<open>policy.rs\<close>): policy selectors, rules and their evaluation.
  \<^item> \<^verbatim>\<open>Serde_Views\<close> (\<^verbatim>\<open>serde_views.rs\<close>), \<^verbatim>\<open>Graph_Document\<close> (\<^verbatim>\<open>graph_output.rs\<close>): what the serializers write, the graph
    document with its digest and authentication, and the drawing.
  \<^item> \<^verbatim>\<open>Lockfile\<close> (\<^verbatim>\<open>lockfile.rs\<close>, \<^verbatim>\<open>dependency_summary.rs\<close>): locked dependencies and what is known of them, construction,
    document and parser.

  \<^bold>\<open>Runner protocol\<close> (\<^verbatim>\<open>runner_protocol/\<close>), what the host and the helper that runs the commands agree on.
  \<^item> \<^verbatim>\<open>Runner_Json\<close> (\<^verbatim>\<open>json.rs\<close>): the helper's own JSON parser and writer; \<^verbatim>\<open>Parser_Agreement\<close>: it accepts the same
    documents as the host's parser, with the same values.
  \<^item> \<^verbatim>\<open>Runner_Plan\<close> (\<^verbatim>\<open>mod.rs\<close>): plans, the validation of a plan document field by field, launch checks, the helper's command
    line; \<^verbatim>\<open>and_then\<close>, \<open>check\<close> and \<open>traverse\<close> are the error monad the readers share.
  \<^item> \<^verbatim>\<open>Evidence\<close> (\<^verbatim>\<open>mod.rs\<close>): the chained log of a run as an inductive relation \<open>recorded\<close> over \<open>evidence_append\<close>, its
    validation, its document and the result record.

  \<^bold>\<open>Sandbox\<close> (\<^verbatim>\<open>sandbox/\<close>).
  \<^item> \<^verbatim>\<open>Scenario\<close> (\<^verbatim>\<open>scenario.rs\<close>): the chosen job with its bindings, built step by step (\<open>scenario_built\<close>), its document.
  \<^item> \<^verbatim>\<open>Job_Graph\<close>, \<^verbatim>\<open>Planner\<close> (\<^verbatim>\<open>planner.rs\<close>): the jobs a job waits for, three-valued reachability over the composed
    graph, the order of execution, commands as runner steps, reasons for incompleteness.
  \<^item> \<^verbatim>\<open>Source_Manifest\<close> (\<^verbatim>\<open>source_manifest.rs\<close>): the snapshot of files, confined to its root, with its link resolution.
  \<^item> \<^verbatim>\<open>Plan_Builder\<close> (\<^verbatim>\<open>runner_plan.rs\<close>): from a request to a plan document the helper accepts.
  \<^item> \<^verbatim>\<open>Sandbox_Audit\<close> (\<^verbatim>\<open>audit.rs\<close>): evidence reconciled with the plan and the static graphs.

  A scenario selects steps from the graphs; a request carries them, with the digests of scenario, manifest and lock file, into a
  plan; the helper validates the plan, runs it and records evidence; the audit holds the evidence against the plan and
  the effects that the verifier derives. The properties follow that path: what is built is accepted, what
  is accepted is confined, what is recorded reads back, and every digest binds the content it stands for.


  \<^bold>\<open>How the model corresponds to the code.\<close> Strings are lists of UTF-8 bytes, one \<^typ>\<open>char\<close> per byte.
  Structs are records, enums datatypes with the source's constructors, \<^verbatim>\<open>BTreeMap\<close> and \<^verbatim>\<open>BTreeSet\<close> strictly sorted
  lists (\<open>bmap_ok\<close>, \<open>bset_ok\<close>), integers that are counted or compared only are \<^typ>\<open>nat\<close>, those whose
  width matters are words. Errors are \<^verbatim>\<open>Inl\<close> values; where a loop could run on, \<^verbatim>\<open>None\<close> is \<open>did not return\<close>.

  \<^bold>\<open>Fuel.\<close> Searches get \<open>search_fuel\<close> (or \<open>edge_fuel\<close>, both the number of edges plus two): every step
  either dequeues or enqueues a node over an edge not used before. Cycle search gets \<open>cycle_fuel\<close> (nodes,
  edges and two). The JSON parser recurses on the length of what is left. The worklist gets
  \<open>dataflow_fuel u p\<close>, the rank of the value universe \<open>u\<close> times the nodes, which is enough when the
  attributes belong to a universe without bottom values; \<open>solve_diverges\<close> shows why some such
  assumption is needed. The closure of a job visits each node once and gets their number plus three; the
  reachability of scenario planning gets \<open>reach_fuel\<close>, the starts and four for each edge and one, since a node is
  raised at most twice for each of its two entries. The helper's JSON parser recurses on the length of what is left. Every property about a result also says that there is one.

  \<^bold>\<open>Parameters.\<close> The hash of the \<^verbatim>\<open>sha2\<close> crate (\<open>H\<close>, assumed to return 32 bytes where lengths matter) and
  \<^verbatim>\<open>serde_json::to_string\<close> (\<open>S\<close>, assumed to write compact JSON), and the Unicode case folding of portable paths
  (\<open>key\<close>).

  \<^bold>\<open>Not modelled.\<close> The YAML parser and the provider frontends that rest on it: the modelled components take their
  results only as graphs, over which every property is quantified. For the same reason the inference of a dependency
  summary from a compiled graph, fixes (edits of YAML documents), and configuration files are left out, and of the product
  documents the report formats. The documents of the virtual machine shim (\<^verbatim>\<open>runner_protocol/vm.rs\<close>: requests with their
  own field checks, observations with hexadecimal output, image manifests) are read in the manner of the plan and evidence
  documents and are left out. The engine, the command line, the language server, network transport and
  operating-system supervision are input and output around the library. \<^verbatim>\<open>Display\<close> texts that no
  operation reads are left out.
\<close>

end
